(* ===== verification/Prelude.thy ===== *)
theory Prelude
  imports Main "HOL-Library.Word" "HOL-Library.Monad_Syntax"
begin

unbundle bit_operations_syntax

text \<open>
  Shared vocabulary of the development: the integer types of the x86-64 C ABI the
  micro-kernel is compiled for, the error numbers of the include files, the alignment
  macros of \<open>const.h\<close>, the comparison macros of \<open>minmax.h\<close>, the unaligned
  accessors of \<open>unaligned.h\<close>, and the generic facts on words, lists and options every
  component uses.

  A C function that touches memory outside its objects, or that never comes back because an
  \<open>assert\<close> stopped the machine, has no result.  Such a function returns an option here, and
  \<open>None\<close> says that the C code does not return normally.
\<close>

section \<open>Types\<close>

type_synonym u8 = "8 word"
type_synonym u16 = "16 word"
type_synonym u32 = "32 word"
type_synonym u64 = "64 word"

text \<open>\<open>bytes\<close> is an array of characters, or the bytes from a pointer to the end of its object.\<close>

type_synonym bytes = "8 word list"

section \<open>Named collections\<close>

named_theorems unat_simps \<open>reading word operations as natural numbers under a no-wrap premise\<close>
named_theorems bounds \<open>upper bounds of machine quantities\<close>

section \<open>Error numbers (include/uapi/asm-generic/errno.h)\<close>

datatype errno = EINVAL | ERANGE | ENOSPC | EEXIST | ENOENT | ENODEV | ENOMEM

primrec errno_code :: "errno \<Rightarrow> int" where
  "errno_code EINVAL = 1"
| "errno_code ERANGE = 2"
| "errno_code ENOSPC = 3"
| "errno_code EEXIST = 4"
| "errno_code ENOENT = 5"
| "errno_code ENODEV = 6"
| "errno_code ENOMEM = 7"

text \<open>An \<open>int\<close> result that is \<open>SUCCESS\<close> or a negated error number.\<close>

definition ret_code :: "errno + 'a \<Rightarrow> int" where
  "ret_code r = (case r of Inl e \<Rightarrow> - errno_code e | Inr _ \<Rightarrow> 0)"

lemma errno_code_pos [bounds]: "0 < errno_code e"
  by (cases e) auto

lemma errno_code_inject: "errno_code a = errno_code b \<longleftrightarrow> a = b"
  by (cases a; cases b) auto

lemma ret_code_zero_iff: "ret_code r = 0 \<longleftrightarrow> (\<exists>x. r = Inr x)"
proof (cases r)
  case (Inl e)
  then show ?thesis using errno_code_pos [of e] by (simp add: ret_code_def)
next
  case (Inr x)
  then show ?thesis by (simp add: ret_code_def)
qed

section \<open>Alignment (include/cyanea/const.h, include/uapi/cyanea/const.h)\<close>

definition ALIGN_KERNEL_MASK :: "u64 \<Rightarrow> u64 \<Rightarrow> u64" where
  "ALIGN_KERNEL_MASK x msk = (x + msk) AND NOT msk"

definition ALIGN_KERNEL :: "u64 \<Rightarrow> u64 \<Rightarrow> u64" where
  "ALIGN_KERNEL x a = ALIGN_KERNEL_MASK x (a - 1)"

definition ROUND_UP :: "u64 \<Rightarrow> u64 \<Rightarrow> u64" where
  "ROUND_UP x pow = ALIGN_KERNEL x pow"

definition ROUND_DOWN :: "u64 \<Rightarrow> u64 \<Rightarrow> u64" where
  "ROUND_DOWN x pow = ALIGN_KERNEL (x - (pow - 1)) pow"

definition IS_ALIGNED :: "u64 \<Rightarrow> u64 \<Rightarrow> bool" where
  "IS_ALIGNED x a \<longleftrightarrow> x AND (a - 1) = 0"

definition DIV_ROUND_UP :: "u64 \<Rightarrow> u64 \<Rightarrow> u64" where
  "DIV_ROUND_UP n d = (n + d - 1) div d"

definition BIT_UL :: "nat \<Rightarrow> u64" where
  "BIT_UL n = push_bit n 1"

section \<open>Comparisons (include/cyanea/minmax.h)\<close>

definition c_min :: "'a::ord \<Rightarrow> 'a \<Rightarrow> 'a" where
  "c_min a b = (if a < b then a else b)"

definition c_max :: "'a::ord \<Rightarrow> 'a \<Rightarrow> 'a" where
  "c_max a b = (if b < a then a else b)"

definition clamp :: "'a::ord \<Rightarrow> 'a \<Rightarrow> 'a \<Rightarrow> 'a" where
  "clamp a low high = c_min (c_max a low) high"

lemma c_min_min [simp]: "c_min a b = min a (b::'a::linorder)"
  by (auto simp: c_min_def min_def)

lemma c_max_max [simp]: "c_max a b = max a (b::'a::linorder)"
  by (auto simp: c_max_def max_def)

lemma clamp_bounds:
  fixes a :: "'a::linorder"
  assumes "low \<le> high"
  shows "low \<le> clamp a low high" "clamp a low high \<le> high"
  using assms by (auto simp: clamp_def)

section \<open>Unaligned accesses (include/asm-generic/unaligned.h)\<close>

fun le_bytes :: "nat \<Rightarrow> nat \<Rightarrow> bytes" where
  "le_bytes 0 x = []"
| "le_bytes (Suc n) x = of_nat (x mod 256) # le_bytes n (x div 256)"

fun le_value :: "bytes \<Rightarrow> nat" where
  "le_value [] = 0"
| "le_value (b # bs) = unat b + 256 * le_value bs"

definition get_unaligned_le :: "nat \<Rightarrow> bytes \<Rightarrow> nat option" where
  "get_unaligned_le w p = (if w \<le> length p then Some (le_value (take w p)) else None)"

definition put_unaligned_le :: "nat \<Rightarrow> nat \<Rightarrow> bytes \<Rightarrow> bytes option" where
  "put_unaligned_le w v p = (if w \<le> length p then Some (le_bytes w v @ drop w p) else None)"

lemma length_le_bytes [simp]: "length (le_bytes n x) = n"
  by (induction n arbitrary: x) auto

lemma unat_byte_mod [simp]: "unat (of_nat (x mod 256) :: u8) = x mod 256"
  by (simp add: unat_of_nat take_bit_nat_def)

lemma le_value_le_bytes: "le_value (le_bytes n x) = x mod 256 ^ n"
proof (induction n arbitrary: x)
  case 0
  then show ?case by simp
next
  case (Suc n)
  have "x mod 256 ^ Suc n = x mod 256 + 256 * (x div 256 mod 256 ^ n)"
    by (simp add: mod_mult2_eq)
  with Suc show ?case by simp
qed

lemma le_value_bound: "le_value bs < 256 ^ length bs"
proof (induction bs)
  case Nil
  then show ?case by simp
next
  case (Cons b bs)
  have "unat b < 256" using unsigned_less [of b] by simp
  with Cons show ?case by simp
qed

lemma get_put_unaligned_le:
  assumes "put_unaligned_le w v p = Some q"
  shows "get_unaligned_le w q = Some (v mod 256 ^ w)"
  using assms by (auto simp: put_unaligned_le_def get_unaligned_le_def le_value_le_bytes split: if_splits)

text \<open>The big-endian accessors swap the bytes.\<close>

definition get_unaligned_be :: "nat \<Rightarrow> bytes \<Rightarrow> nat option" where
  "get_unaligned_be w p = (if w \<le> length p then Some (le_value (rev (take w p))) else None)"

definition put_unaligned_be :: "nat \<Rightarrow> nat \<Rightarrow> bytes \<Rightarrow> bytes option" where
  "put_unaligned_be w v p = (if w \<le> length p then Some (rev (le_bytes w v) @ drop w p) else None)"

lemma get_put_unaligned_be:
  assumes "put_unaligned_be w v p = Some q"
  shows "get_unaligned_be w q = Some (v mod 256 ^ w)"
  using assms by (auto simp: put_unaligned_be_def get_unaligned_be_def le_value_le_bytes split: if_splits)

section \<open>Words as natural numbers\<close>

lemma unat_u64_lt [bounds]: "unat (x::u64) < 2 ^ 64"
  using unsigned_less [of x] by simp

lemma unat_add_nowrap [unat_simps]:
  fixes a b :: "'a::len word"
  assumes "unat a + unat b < 2 ^ LENGTH('a)"
  shows "unat (a + b) = unat a + unat b"
  using assms by (simp add: unat_add_lem [symmetric])

lemma unat_sub_nowrap [unat_simps]:
  fixes a b :: "'a::len word"
  assumes "b \<le> a"
  shows "unat (a - b) = unat a - unat b"
  using assms by (rule unat_sub)

section \<open>Subtraction of \<open>size_t\<close> values\<close>

text \<open>Sizes are natural numbers below \<open>2 ^ 64\<close>; only their subtraction can leave that range.\<close>

definition size_sub :: "nat \<Rightarrow> nat \<Rightarrow> nat" where
  "size_sub a b = (a + (2 ^ 64 - b mod 2 ^ 64)) mod 2 ^ 64"

lemma size_sub_le [simp]:
  assumes "b \<le> a" "a < 2 ^ 64"
  shows "size_sub a b = a - b"
proof -
  have "b < 2 ^ 64" using assms by simp
  then have "size_sub a b = ((a - b) + 2 ^ 64) mod 2 ^ 64"
    using assms(1) by (simp add: size_sub_def)
  also have "\<dots> = (a - b) mod 2 ^ 64"
    by (rule mod_add_self2)
  finally show ?thesis using assms(2) by simp
qed

lemma size_sub_self [simp]: "a < 2 ^ 64 \<Longrightarrow> size_sub a a = 0"
  by simp

section \<open>Options\<close>

lemma map_option_eq_SomeE:
  assumes "map_option f x = Some y"
  obtains z where "x = Some z" "y = f z"
  using assms by (cases x) auto

section \<open>Lists\<close>

lemma take_drop_split: "i \<le> j \<Longrightarrow> take j xs = take i xs @ take (j - i) (drop i xs)"
  by (metis le_add_diff_inverse take_add)

lemma nth_append_simps [simp]: "(xs @ y # ys) ! length xs = y"
  by simp

lemma list_eq_prefix_drop: "i \<le> length xs \<Longrightarrow> take i xs @ drop i xs = xs"
  by simp

section \<open>Alignment by a power of two\<close>

lemma and_not_mask_unat:
  fixes y :: u64
  shows "unat (y AND NOT (mask k)) = 2 ^ k * (unat y div 2 ^ k)"
proof -
  have y: "take_bit 64 (unat y) = unat y" by (rule take_bit_nat_eq_self) (rule unat_u64_lt)
  have "y AND NOT (mask k) = push_bit k (drop_bit k y)"
    by (simp add: bit_eq_iff bit_simps) fastforce
  then have "unat (y AND NOT (mask k)) = take_bit 64 (push_bit k (drop_bit k (unat y)))"
    by (simp add: unsigned_push_bit_eq unsigned_drop_bit_eq y)
  also have "push_bit k (drop_bit k (unat y)) = 2 ^ k * (unat y div 2 ^ k)"
    by (simp add: push_bit_eq_mult drop_bit_eq_div)
  also have "take_bit 64 \<dots> = \<dots>"
    using unat_u64_lt [of y] by (intro take_bit_nat_eq_self) (meson le_less_trans times_div_less_eq_dividend)
  finally show ?thesis .
qed

lemma pow2_minus_1: "(2 ^ k - 1 :: u64) = mask k"
  by (simp add: mask_eq_exp_minus_1)

lemma unat_pow2_u64: "k < 64 \<Longrightarrow> unat (2 ^ k :: u64) = 2 ^ k"
proof -
  assume k: "k < 64"
  have "(2::nat) ^ k < 2 ^ 64" using k by (intro power_strict_increasing) auto
  then have "(2::nat) ^ k mod 2 ^ 64 = 2 ^ k" by (rule mod_less)
  then show ?thesis using unat_of_nat [of "2 ^ k", where 'a = 64] k by (simp add: take_bit_nat_def)
qed

lemma unat_mask_u64: "k < 64 \<Longrightarrow> unat (mask k :: u64) = 2 ^ k - 1"
  by (simp add: unat_sub unat_pow2_u64 word_le_nat_alt flip: pow2_minus_1)

text \<open>Aligning a number up, as a natural number.\<close>

lemma div_up_bounds:
  fixes x p :: nat
  assumes "0 < p"
  shows "x \<le> p * ((x + (p - 1)) div p)" "p dvd q \<Longrightarrow> x \<le> q \<Longrightarrow> p * ((x + (p - 1)) div p) \<le> q"
proof -
  have "(x + (p - 1)) mod p \<le> p - 1" using mod_less_divisor [OF assms, of "x + (p - 1)"] by linarith
  moreover have "x + (p - 1) = p * ((x + (p - 1)) div p) + (x + (p - 1)) mod p" by simp
  ultimately show "x \<le> p * ((x + (p - 1)) div p)" by linarith
next
  assume "p dvd q" "x \<le> q"
  then obtain d where d: "q = p * d" by blast
  have "(x + (p - 1)) div p \<le> (p * d + (p - 1)) div p" using \<open>x \<le> q\<close> d by (intro div_le_mono) linarith
  also have "(p * d + (p - 1)) div p = d"
    using assms by (subst div_mult_self4) simp_all
  finally have "(x + (p - 1)) div p \<le> d" .
  then show "p * ((x + (p - 1)) div p) \<le> q" unfolding d by (rule mult_le_mono2)
qed

lemma align_up:
  assumes k: "k < 64" and fits: "unat x + 2 ^ k \<le> 2 ^ 64"
  shows "unat (ALIGN_KERNEL x (2 ^ k)) = 2 ^ k * ((unat x + (2 ^ k - 1)) div 2 ^ k)"
proof -
  have "unat x + (2 ^ k - 1) < 2 ^ 64" using fits by (simp add: less_le_trans)
  then have "unat (x + mask k) = unat x + (2 ^ k - 1)"
    using unat_mask_u64 [OF k] by (subst unat_add_nowrap) simp_all
  then show ?thesis
    by (simp add: ALIGN_KERNEL_def ALIGN_KERNEL_MASK_def pow2_minus_1 and_not_mask_unat)
qed

lemma align_wrap:
  assumes k: "k < 64" and wraps: "2 ^ 64 < unat x + 2 ^ k"
  shows "ALIGN_KERNEL x (2 ^ k) = 0"
proof -
  have lt: "unat x < 2 ^ 64" by (rule unat_u64_lt)
  have "unat (x + mask k) = (unat x + (2 ^ k - 1)) mod 2 ^ 64"
    using unat_mask_u64 [OF k] by (simp add: unat_word_ariths)
  also have "\<dots> = (unat x + (2 ^ k - 1) - 2 ^ 64) mod 2 ^ 64"
  proof -
    have "2 ^ 64 \<le> unat x + (2 ^ k - 1)" using wraps by linarith
    then show ?thesis by (rule le_mod_geq)
  qed
  also have "\<dots> \<le> unat x + (2 ^ k - 1) - 2 ^ 64" by simp
  also have "\<dots> < 2 ^ k" using lt wraps by linarith
  finally have "unat (ALIGN_KERNEL x (2 ^ k)) = 0"
    by (simp add: ALIGN_KERNEL_def ALIGN_KERNEL_MASK_def pow2_minus_1 and_not_mask_unat)
  then show ?thesis by (simp add: unat_eq_zero)
qed

text \<open>A result that is not zero has not wrapped; it is the least multiple of the alignment from \<open>x\<close> on.\<close>

lemma align_up_props:
  assumes k: "k < 64" and nz: "ALIGN_KERNEL x (2 ^ k) \<noteq> 0"
  shows "x \<le> ALIGN_KERNEL x (2 ^ k)" "2 ^ k dvd unat (ALIGN_KERNEL x (2 ^ k))"
proof -
  have fits: "unat x + 2 ^ k \<le> 2 ^ 64" using align_wrap [OF k, of x] nz by (meson not_le)
  note eq = align_up [OF k fits]
  show "x \<le> ALIGN_KERNEL x (2 ^ k)" using div_up_bounds(1) [of "2 ^ k" "unat x"] by (simp add: word_le_nat_alt eq)
  show "2 ^ k dvd unat (ALIGN_KERNEL x (2 ^ k))" by (simp add: eq)
qed

lemma align_up_least:
  assumes k: "k < 64" and q: "2 ^ k dvd unat q" "x \<le> q"
  shows "ALIGN_KERNEL x (2 ^ k) \<le> q"
proof (cases "unat x + 2 ^ k \<le> 2 ^ 64")
  case True
  from div_up_bounds(2) [OF _ q(1)] q(2) show ?thesis by (simp add: word_le_nat_alt align_up [OF k True])
next
  case False
  with align_wrap [OF k, of x] show ?thesis by simp
qed

end
