(* ===== verification/CString.thy ===== *)
theory CString
  imports Prelude
begin

text \<open>
  The string and memory routines of \<open>uklib/string.c\<close>.  A pointer that is only read is the list
  of bytes from it to the end of its object, so reading past the object is the empty list and
  gives \<open>None\<close>.  A routine that writes takes the whole object and an index into it.  A pointer
  result is the offset from the first argument, \<open>NULL\<close> is \<open>Some None\<close>.  The routines on
  memory are polymorphic, because the kernel moves arrays of structures with them.
\<close>

section \<open>Strings in an object\<close>

definition cstr :: "bytes \<Rightarrow> bytes" where
  "cstr s = takeWhile (\<lambda>c. c \<noteq> 0) s"

definition is_cstr :: "bytes \<Rightarrow> bool" where
  "is_cstr s \<longleftrightarrow> 0 \<in> set s"

lemma cstr_simps [simp]:
  "cstr [] = []"
  "cstr (0 # s) = []"
  "c \<noteq> 0 \<Longrightarrow> cstr (c # s) = c # cstr s"
  by (simp_all add: cstr_def)

lemma is_cstr_simps [simp]:
  "is_cstr [] = False"
  "is_cstr (0 # s) = True"
  "c \<noteq> 0 \<Longrightarrow> is_cstr (c # s) = is_cstr s"
  by (auto simp: is_cstr_def)

lemma cstr_no_nul: "0 \<notin> set (cstr s)"
  by (auto simp: cstr_def dest: set_takeWhileD)

lemma cstr_decomp: "is_cstr s \<Longrightarrow> \<exists>r. s = cstr s @ 0 # r"
proof (induction s)
  case Nil
  then show ?case by simp
next
  case (Cons c s)
  then show ?case by (cases "c = 0") auto
qed

lemma cstr_append_nul [simp]: "0 \<notin> set t \<Longrightarrow> cstr (t @ 0 # r) = t"
  by (induction t) auto

lemma is_cstr_append_nul [simp]: "is_cstr (t @ 0 # r)"
  by (simp add: is_cstr_def)

section \<open>Comparing and measuring\<close>

fun strcmp :: "bytes \<Rightarrow> bytes \<Rightarrow> int option" where
  "strcmp (a # s1) (b # s2) =
     (if a = b \<and> a \<noteq> 0 then strcmp s1 s2 else Some (uint a - uint b))"
| "strcmp _ _ = None"

fun strncmp :: "bytes \<Rightarrow> bytes \<Rightarrow> nat \<Rightarrow> int option" where
  "strncmp s1 s2 0 = Some 0"
| "strncmp (a # s1) (b # s2) (Suc n) =
     (let ch = a; d = uint ch - uint b
      in if d \<noteq> 0 \<or> ch = 0 then Some d else strncmp s1 s2 n)"
| "strncmp _ _ (Suc n) = None"

fun strlen :: "bytes \<Rightarrow> nat option" where
  "strlen [] = None"
| "strlen (c # s) = (if c \<noteq> 0 then map_option Suc (strlen s) else Some 0)"

fun strnlen :: "bytes \<Rightarrow> nat \<Rightarrow> nat option" where
  "strnlen s 0 = Some 0"
| "strnlen [] (Suc n) = None"
| "strnlen (c # s) (Suc n) = (if c \<noteq> 0 then map_option Suc (strnlen s n) else Some 0)"

fun strchr :: "bytes \<Rightarrow> u8 \<Rightarrow> nat option option" where
  "strchr [] c = None"
| "strchr (x # s) c =
     (if x \<noteq> c then (if x = 0 then Some None else map_option (map_option Suc) (strchr s c))
      else Some (Some 0))"

text \<open>
  The loop of \<open>strnstr\<close>; \<open>off\<close> is \<open>str1\<close> minus its first value.  The pattern length \<open>n2\<close> is not
  zero where the loop is entered, so \<open>n\<close> is not zero where it is decremented.
\<close>

fun strnstr_loop :: "bytes \<Rightarrow> bytes \<Rightarrow> nat \<Rightarrow> nat \<Rightarrow> nat \<Rightarrow> nat option option" where
  "strnstr_loop s1 s2 n2 off n =
     (if n2 \<le> n then
        (case strncmp s1 s2 n2 of
           None \<Rightarrow> None
         | Some d \<Rightarrow>
             if d = 0 then Some (Some off)
             else (case n of 0 \<Rightarrow> Some None
                   | Suc m \<Rightarrow> strnstr_loop (drop 1 s1) s2 n2 (Suc off) m))
      else Some None)"

declare strnstr_loop.simps [simp del]

definition strnstr :: "bytes \<Rightarrow> bytes \<Rightarrow> nat \<Rightarrow> nat option option" where
  "strnstr str1 str2 n =
     do { n2 \<leftarrow> strlen str2;
          if n2 = 0 then Some (Some 0) else strnstr_loop str1 str2 n2 0 n }"

definition strstr :: "bytes \<Rightarrow> bytes \<Rightarrow> nat option option" where
  "strstr str1 str2 = do { n \<leftarrow> strlen str1; strnstr str1 str2 n }"

text \<open>\<open>memcmp\<close> as it is written: the loop leaves at the first byte that is equal.\<close>

fun memcmp_loop :: "bytes \<Rightarrow> bytes \<Rightarrow> nat \<Rightarrow> int \<Rightarrow> int option" where
  "memcmp_loop s1 s2 0 res = Some res"
| "memcmp_loop (a # s1) (b # s2) (Suc n) res =
     (let res = uint a - uint b in
      if res = 0 then Some res else memcmp_loop s1 s2 n res)"
| "memcmp_loop _ _ (Suc n) res = None"

definition memcmp :: "bytes \<Rightarrow> bytes \<Rightarrow> nat \<Rightarrow> int option" where
  "memcmp str1 str2 n = memcmp_loop str1 str2 n 0"

section \<open>Writing\<close>

fun memset :: "'a list \<Rightarrow> nat \<Rightarrow> 'a \<Rightarrow> nat \<Rightarrow> 'a list option" where
  "memset m s c 0 = Some m"
| "memset m s c (Suc n) = (if s < length m then memset (m[s := c]) (Suc s) c n else None)"

text \<open>\<open>memcpy\<close> inside one object, and from one object to another.\<close>

fun memcpy :: "'a list \<Rightarrow> nat \<Rightarrow> nat \<Rightarrow> nat \<Rightarrow> 'a list option" where
  "memcpy m q p 0 = Some m"
| "memcpy m q p (Suc n) =
     (if p < length m \<and> q < length m then memcpy (m[q := m ! p]) (Suc q) (Suc p) n else None)"

fun memcpy_from :: "'a list \<Rightarrow> nat \<Rightarrow> 'a list \<Rightarrow> nat \<Rightarrow> 'a list option" where
  "memcpy_from m q src 0 = Some m"
| "memcpy_from m q [] (Suc n) = None"
| "memcpy_from m q (x # src) (Suc n) =
     (if q < length m then memcpy_from (m[q := x]) (Suc q) src n else None)"

fun memmove_backward :: "'a list \<Rightarrow> nat \<Rightarrow> nat \<Rightarrow> nat \<Rightarrow> 'a list option" where
  "memmove_backward m d s 0 = Some m"
| "memmove_backward m d s (Suc n) =
     (if s + n < length m \<and> d + n < length m
      then memmove_backward (m[d + n := m ! (s + n)]) d s n else None)"

definition memmove :: "'a list \<Rightarrow> nat \<Rightarrow> nat \<Rightarrow> nat \<Rightarrow> 'a list option" where
  "memmove m d s n =
     (if d \<le> s \<or> n \<le> d - s then memcpy m d s n else memmove_backward m d s n)"

fun strcpy :: "bytes \<Rightarrow> nat \<Rightarrow> bytes \<Rightarrow> bytes option" where
  "strcpy m p [] = None"
| "strcpy m p (ch # q) =
     (if p < length m
      then (if ch \<noteq> 0 then strcpy (m[p := ch]) (Suc p) q else Some (m[p := ch]))
      else None)"

definition strcat :: "bytes \<Rightarrow> nat \<Rightarrow> bytes \<Rightarrow> bytes option" where
  "strcat m dest src =
     (case strchr (drop dest m) 0 of
        Some (Some off) \<Rightarrow> strcpy m (dest + off) src
      | _ \<Rightarrow> None)"

text \<open>
  The loop of \<open>strncpy\<close> returns the object, the index \<open>q\<close> and the value of \<open>n\<close> when the loop is
  left.  Leaving it by \<open>while (n--)\<close> at zero decrements \<open>n\<close> once more, and \<open>n\<close> is unsigned.
\<close>

fun strncpy_loop :: "bytes \<Rightarrow> nat \<Rightarrow> bytes \<Rightarrow> u64 \<Rightarrow> (bytes \<times> nat \<times> u64) option" where
  "strncpy_loop m q [] n = (if n = 0 then Some (m, q, n - 1) else None)"
| "strncpy_loop m q (ch # p) n =
     (if n = 0 then Some (m, q, n - 1)
      else if q < length m
      then (if ch = 0 then Some (m[q := ch], Suc q, n - 1)
            else strncpy_loop (m[q := ch]) (Suc q) p (n - 1))
      else None)"

definition strncpy :: "bytes \<Rightarrow> nat \<Rightarrow> bytes \<Rightarrow> u64 \<Rightarrow> bytes option" where
  "strncpy m dest src n =
     do { (m', q, n') \<leftarrow> strncpy_loop m dest src n; memset m' q 0 (unat n') }"

section \<open>Lemmas on the readers\<close>

lemma strlen_eq: "strlen s = (if is_cstr s then Some (length (cstr s)) else None)"
  by (induction s) auto

lemma strnlen_cstr: "is_cstr s \<Longrightarrow> strnlen s n = Some (min n (length (cstr s)))"
  by (induction s n rule: strnlen.induct) auto

lemma strcmp_returns:
  assumes "is_cstr s" "is_cstr t"
  shows "\<exists>d. strcmp s t = Some d"
  using assms by (induction s t rule: strcmp.induct) auto

lemma uint_eq_cancel [simp]: "uint a = uint b \<longleftrightarrow> a = (b :: u8)"
  by (metis word_of_int_uint)

lemma uint_eq_0_cancel [simp]: "uint a = 0 \<longleftrightarrow> a = (0 :: u8)"
  by (simp add: uint_0_iff)

lemma uint_pos_iff [simp]: "0 < uint b \<longleftrightarrow> b \<noteq> (0 :: u8)"
  using uint_ge_0 [of b] uint_eq_0_cancel [of b] by linarith

lemma strcmp_zero_iff:
  assumes "is_cstr s" "is_cstr t"
  shows "strcmp s t = Some 0 \<longleftrightarrow> cstr s = cstr t"
  using assms
proof (induction s t rule: strcmp.induct)
  case (1 a s1 b s2)
  show ?case
  proof (cases "a = b \<and> a \<noteq> 0")
    case True
    with 1 show ?thesis by auto
  next
    case False
    then show ?thesis by (cases "a = 0"; cases "b = 0") auto
  qed
qed auto

lemma strcmp_neg_iff:
  assumes "is_cstr s" "is_cstr t"
  shows "(\<exists>d<0. strcmp s t = Some d) \<longleftrightarrow> (cstr s, cstr t) \<in> lexord {(x, y). x < y}"
  using assms
proof (induction s t rule: strcmp.induct)
  case (1 a s1 b s2)
  show ?case
  proof (cases "a = b \<and> a \<noteq> 0")
    case True
    with 1 show ?thesis by auto
  next
    case False
    then show ?thesis
      by (cases "a = 0"; cases "b = 0") (auto simp: word_less_def)
  qed
qed auto

lemma strncmp_prefix:
  assumes "is_cstr s" "0 \<notin> set t" "n = length t"
  shows "\<exists>d. strncmp s (t @ u) n = Some d \<and> (d = 0 \<longleftrightarrow> take n (cstr s) = t)"
  using assms
proof (induction t arbitrary: s n)
  case Nil
  then show ?case by simp
next
  case (Cons b t)
  then obtain a s' where s: "s = a # s'" by (cases s) auto
  show ?case
  proof (cases "a = b")
    case True
    with Cons.prems s have "is_cstr s'" "a \<noteq> 0" by auto
    with Cons.IH [of s' "length t"] Cons.prems s True show ?thesis by auto
  next
    case False
    with Cons.prems s show ?thesis by (cases "a = 0") auto
  qed
qed

lemma strchr_found:
  assumes "c \<notin> set t" "0 \<notin> set t"
  shows "strchr (t @ c # r) c = Some (Some (length t))"
  using assms by (induction t) auto

lemma strchr_absent:
  assumes "is_cstr s" "c \<notin> set (cstr s)" "c \<noteq> 0"
  shows "strchr s c = Some None"
  using assms
proof (induction s)
  case (Cons x s)
  then show ?case by (cases "x = 0") auto
qed simp

text \<open>The position \<open>off\<close> is an occurrence of \<open>t\<close> in \<open>s\<close>.\<close>

definition occurs_at :: "bytes \<Rightarrow> bytes \<Rightarrow> nat \<Rightarrow> bool" where
  "occurs_at s t off \<longleftrightarrow> off + length t \<le> length s \<and> take (length t) (drop off s) = t"

definition first_at :: "bytes \<Rightarrow> bytes \<Rightarrow> nat option \<Rightarrow> bool" where
  "first_at s t r \<longleftrightarrow>
     (case r of None \<Rightarrow> \<forall>i. \<not> occurs_at s t i
      | Some off \<Rightarrow> occurs_at s t off \<and> (\<forall>i<off. \<not> occurs_at s t i))"

lemma occurs_at_Cons_Suc: "occurs_at (a # s) t (Suc i) \<longleftrightarrow> occurs_at s t i"
  by (simp add: occurs_at_def)

lemma first_at_Cons:
  assumes "\<not> occurs_at (a # s) t 0" "first_at s t r"
  shows "first_at (a # s) t (map_option Suc r)"
proof (cases r)
  case None
  have "\<not> occurs_at (a # s) t i" for i
    using assms None by (cases i) (auto simp: first_at_def occurs_at_Cons_Suc)
  with None show ?thesis by (simp add: first_at_def)
next
  case (Some k)
  have "\<not> occurs_at (a # s) t i" if "i < Suc k" for i
    using that assms Some by (cases i) (auto simp: first_at_def occurs_at_Cons_Suc)
  with Some assms show ?thesis by (simp add: first_at_def occurs_at_Cons_Suc)
qed

lemma strnstr_loop_first:
  assumes "0 \<notin> set t" "t \<noteq> []" "is_cstr s"
  shows "\<exists>r. strnstr_loop s (t @ 0 # u) (length t) k (length (cstr s)) = Some (map_option ((+) k) r)
       \<and> first_at (cstr s) t r"
  using assms(3)
proof (induction s arbitrary: k)
  case Nil
  then show ?case by simp
next
  case (Cons a s)
  obtain d where d: "strncmp (a # s) (t @ 0 # u) (length t) = Some d"
      "d = 0 \<longleftrightarrow> take (length t) (cstr (a # s)) = t"
    using strncmp_prefix [OF Cons.prems assms(1) refl] by blast
  show ?case
  proof (cases "length t \<le> length (cstr (a # s))")
    case False
    then have "first_at (cstr (a # s)) t None" by (auto simp: first_at_def occurs_at_def)
    with False show ?thesis by (subst strnstr_loop.simps) (auto intro: exI [of _ None])
  next
    case fits: True
    show ?thesis
    proof (cases "d = 0")
      case True
      with d fits have "first_at (cstr (a # s)) t (Some 0)"
        by (simp add: first_at_def occurs_at_def)
      with True d fits show ?thesis
        by (subst strnstr_loop.simps) (auto intro: exI [of _ "Some 0"])
    next
      case False
      from fits assms(2) have a: "a \<noteq> 0" by (cases "a = 0") auto
      with Cons.prems have "is_cstr s" by simp
      from Cons.IH [OF this, of "Suc k"] obtain r where
        r: "strnstr_loop s (t @ 0 # u) (length t) (Suc k) (length (cstr s))
              = Some (map_option ((+) (Suc k)) r)" "first_at (cstr s) t r" by blast
      from False d a have "\<not> occurs_at (a # cstr s) t 0" by (simp add: occurs_at_def)
      with r(2) have "first_at (cstr (a # s)) t (map_option Suc r)"
        using a by (simp add: first_at_Cons)
      moreover have "strnstr_loop (a # s) (t @ 0 # u) (length t) k (length (cstr (a # s)))
          = Some (map_option ((+) k) (map_option Suc r))"
        using False d fits a r(1)
        by (subst strnstr_loop.simps) (cases r; simp)
      ultimately show ?thesis by blast
    qed
  qed
qed

section \<open>Lemmas on the writers\<close>

lemma memset_eq:
  "memset m s c n = (if s + n \<le> length m \<or> n = 0
     then Some (take s m @ replicate n c @ drop (s + n) m) else None)"
proof (induction n arbitrary: m s)
  case 0
  then show ?case by simp
next
  case (Suc n)
  show ?case
  proof (cases "s < length m")
    case True
    have "take (Suc s) (m[s := c]) = take s m @ [c]"
      using True by (simp add: take_Suc_conv_app_nth)
    with True Suc [of "m[s := c]" "Suc s"] show ?thesis by simp
  next
    case False
    then show ?thesis by simp
  qed
qed

lemma memcpy_from_eq:
  "memcpy_from m q src n = (if n = 0 \<or> (n \<le> length src \<and> q + n \<le> length m)
     then Some (take q m @ take n src @ drop (q + n) m) else None)"
proof (induction m q src n rule: memcpy_from.induct)
  case (3 m q x src n)
  show ?case
  proof (cases "q < length m")
    case True
    have "take (Suc q) (m[q := x]) = take q m @ [x]"
      using True by (simp add: take_Suc_conv_app_nth)
    with True 3 show ?thesis by simp
  next
    case False
    then show ?thesis by simp
  qed
qed auto

lemma memcpy_eq:
  assumes "q + n \<le> length m" "p + n \<le> length m" "q \<le> p \<or> p + n \<le> q"
  shows "memcpy m q p n = Some (take q m @ take n (drop p m) @ drop (q + n) m)"
  using assms
proof (induction n arbitrary: m q p)
  case 0
  then show ?case by simp
next
  case (Suc n)
  let ?m = "m[q := m ! p]"
  have "memcpy m q p (Suc n) = memcpy ?m (Suc q) (Suc p) n"
    using Suc.prems by simp
  also have "\<dots> = Some (take (Suc q) ?m @ take n (drop (Suc p) ?m) @ drop (Suc q + n) ?m)"
    using Suc.prems by (intro Suc.IH) auto
  also have "take (Suc q) ?m = take q m @ [m ! p]"
    using Suc.prems by (simp add: take_Suc_conv_app_nth)
  also have "take n (drop (Suc p) ?m) = take n (drop (Suc p) m)"
    using Suc.prems by (auto simp: drop_update_swap take_update_cancel)
  also have "drop (Suc q + n) ?m = drop (q + Suc n) m"
    by simp
  also have "(take q m @ [m ! p]) @ take n (drop (Suc p) m) @ drop (q + Suc n) m
      = take q m @ take (Suc n) (drop p m) @ drop (q + Suc n) m"
    using Suc.prems by (simp add: Cons_nth_drop_Suc [symmetric])
  finally show ?case .
qed

lemma memmove_backward_eq:
  assumes "d + n \<le> length m" "s + n \<le> length m" "s \<le> d"
  shows "memmove_backward m d s n = Some (take d m @ take n (drop s m) @ drop (d + n) m)"
  using assms
proof (induction n arbitrary: m)
  case 0
  then show ?case by simp
next
  case (Suc n)
  let ?m = "m[d + n := m ! (s + n)]"
  have "memmove_backward m d s (Suc n) = memmove_backward ?m d s n"
    using Suc.prems by simp
  also have "\<dots> = Some (take d ?m @ take n (drop s ?m) @ drop (d + n) ?m)"
    using Suc.prems by (intro Suc.IH) auto
  also have "take d ?m = take d m"
    by simp
  also have "take n (drop s ?m) = take n (drop s m)"
    using Suc.prems by (simp add: drop_update_swap)
  also have "drop (d + n) ?m = m ! (s + n) # drop (Suc (d + n)) m"
    using Suc.prems by (simp add: drop_update_swap Cons_nth_drop_Suc [symmetric])
  also have "take n (drop s m) @ m ! (s + n) # drop (Suc (d + n)) m
      = take (Suc n) (drop s m) @ drop (d + Suc n) m"
    using Suc.prems by (simp add: take_Suc_conv_app_nth)
  finally show ?case by simp
qed

lemma memmove_eq:
  assumes "d + n \<le> length m" "s + n \<le> length m"
  shows "memmove m d s n = Some (take d m @ take n (drop s m) @ drop (d + n) m)"
proof (cases "d \<le> s \<or> n \<le> d - s")
  case True
  with assms have "memcpy m d s n = Some (take d m @ take n (drop s m) @ drop (d + n) m)"
    by (intro memcpy_eq) auto
  with True show ?thesis by (simp add: memmove_def)
next
  case False
  with assms show ?thesis by (simp add: memmove_def memmove_backward_eq)
qed

lemma length_memmove_eq:
  "d + n \<le> length m \<Longrightarrow> s + n \<le> length m
    \<Longrightarrow> length (take d m @ take n (drop s m) @ drop (d + n) m) = length m"
  by simp

lemma strncpy_loop_short:
  assumes "0 \<notin> set t" "length t < unat n" "q + length t < length m"
  shows "strncpy_loop m q (t @ 0 # r) n =
     Some (take q m @ t @ 0 # drop (Suc (q + length t)) m, Suc (q + length t), n - of_nat (Suc (length t)))"
  using assms
proof (induction t arbitrary: m q n)
  case Nil
  then have "n \<noteq> 0" by auto
  with Nil show ?case by (simp add: upd_conv_take_nth_drop)
next
  case (Cons c t)
  have n: "n \<noteq> 0" "unat (n - 1) = unat n - 1"
    using Cons.prems by (auto simp: unat_sub word_le_nat_alt)
  have "strncpy_loop (m[q := c]) (Suc q) (t @ 0 # r) (n - 1) =
     Some (take (Suc q) (m[q := c]) @ t @ 0 # drop (Suc (Suc q + length t)) (m[q := c]),
           Suc (Suc q + length t), (n - 1) - of_nat (Suc (length t)))"
    using Cons.prems n by (intro Cons.IH) auto
  with Cons.prems n show ?case
    by (simp add: take_Suc_conv_app_nth algebra_simps)
qed

lemma strncpy_loop_full:
  assumes "0 \<notin> set t" "length t = unat n" "q + length t \<le> length m"
  shows "strncpy_loop m q (t @ r) n = Some (take q m @ t @ drop (q + length t) m, q + length t, -1)"
  using assms
proof (induction t arbitrary: m q n)
  case Nil
  then have "n = 0" by (simp add: unat_eq_zero)
  then show ?case by (cases r) auto
next
  case (Cons c t)
  have n: "n \<noteq> 0" "unat (n - 1) = unat n - 1"
    using Cons.prems by (auto simp: unat_sub word_le_nat_alt)
  have "strncpy_loop (m[q := c]) (Suc q) (t @ r) (n - 1) =
     Some (take (Suc q) (m[q := c]) @ t @ drop (Suc q + length t) (m[q := c]), Suc q + length t, -1)"
    using Cons.prems n by (intro Cons.IH) auto
  with Cons.prems n show ?case
    by (simp add: take_Suc_conv_app_nth flip: Cons.prems(2))
qed

lemma strncpy_loop_length: "strncpy_loop m q p n = Some (m', q', n') \<Longrightarrow> length m' = length m"
  by (induction m q p n rule: strncpy_loop.induct) (auto split: if_splits)

lemma strncpy_loop_fits:
  "strncpy_loop m q p n = Some r \<Longrightarrow> unat n \<le> length (cstr p) \<Longrightarrow> n \<noteq> 0 \<Longrightarrow> q + unat n \<le> length m"
proof (induction m q p n rule: strncpy_loop.induct)
  case (2 m q ch p n)
  then have d: "unat (n - 1) = unat n - 1" "0 < unat n"
    by (auto simp: unat_minus_one unat_gt_0)
  have ch: "ch \<noteq> 0" using 2(3,4) d by (cases "ch = 0") auto
  show ?case
  proof (cases "n - 1 = 0")
    case True
    with d have "unat n = 1" by simp
    with 2(2) ch show ?thesis by (auto split: if_splits)
  next
    case False
    with 2 d ch show ?thesis by (auto split: if_splits)
  qed
qed auto

text \<open>A source of at least \<open>n\<close> characters: the loop ends by \<open>n--\<close> at zero and \<open>memset\<close> never stops.\<close>

lemma strncpy_no_room:
  assumes "is_cstr src" "unat n \<le> length (cstr src)" "length m < 2 ^ 64 - 1"
  shows "strncpy m dest src n = None"
proof -
  have big: "memset m' q 0 (unat (- 1 :: u64)) = None" if "length m' = length m" for m' :: bytes and q
    using assms(3) that by (simp add: memset_eq unsigned_minus_1_eq_mask mask_eq_exp_minus_1)
  show ?thesis
  proof (cases "strncpy_loop m dest src n")
    case (Some r)
    have "\<exists>m' q. r = (m', q, -1)"
    proof (cases "n = 0")
      case True
      with Some show ?thesis by (cases src) auto
    next
      case False
      have split: "src = take (unat n) (cstr src) @ (drop (unat n) (cstr src) @ drop (length (cstr src)) src)"
        by (simp add: cstr_def flip: append_assoc) (metis append_take_drop_id takeWhile_eq_take)
      have "dest + unat n \<le> length m" by (rule strncpy_loop_fits [OF Some assms(2) False])
      then have "strncpy_loop m dest src n
          = Some (take dest m @ take (unat n) (cstr src) @ drop (dest + unat n) m, dest + unat n, -1)"
        using assms(2) cstr_no_nul [of src]
        by (subst split, subst strncpy_loop_full) (auto dest: in_set_takeD simp: min_absorb2)
      with Some show ?thesis by auto
    qed
    with Some big strncpy_loop_length show ?thesis by (fastforce simp: strncpy_def)
  qed (simp add: strncpy_def)
qed

lemma strncpy_pads:
  assumes "0 \<notin> set t" "length t < unat n" "dest + unat n \<le> length m"
  shows "strncpy m dest (t @ 0 # r) n =
     Some (take dest m @ t @ replicate (unat n - length t) 0 @ drop (dest + unat n) m)"
proof -
  have "length t < 2 ^ 64" using assms(2) unat_u64_lt [of n] by linarith
  then have l: "unat (of_nat (Suc (length t)) :: u64) = Suc (length t)"
    using assms(2) unat_u64_lt [of n] by (simp only: unat_of_nat) (simp add: take_bit_nat_eq_self)
  have "unat (n - of_nat (Suc (length t))) = unat n - Suc (length t)"
    using assms(2) l by (subst unat_sub) (simp_all add: word_le_nat_alt)
  moreover have "unat n - length t = Suc (unat n - Suc (length t))" using assms(2) by simp
  moreover have "Suc (dest + length t) + (unat n - Suc (length t)) = dest + unat n" using assms(2) by simp
  ultimately show ?thesis
    using assms strncpy_loop_short [OF assms(1,2), of dest m r]
    by (simp add: strncpy_def memset_eq drop_drop add.commute del: of_nat_Suc) linarith
qed

lemma memcmp_loop_zero:
  assumes "n \<le> length s1" "n \<le> length s2"
  shows "memcmp_loop s1 s2 n res = Some 0 \<longleftrightarrow> (if n = 0 then res = 0 else (\<exists>i<n. s1 ! i = s2 ! i))"
  using assms
proof (induction s1 s2 n res rule: memcmp_loop.induct)
  case (2 a s1 b s2 n res)
  have "(\<exists>i<Suc n. (a # s1) ! i = (b # s2) ! i) \<longleftrightarrow> a = b \<or> (\<exists>i<n. s1 ! i = s2 ! i)"
    by (auto simp: less_Suc_eq_0_disj)
  with 2 show ?case by (cases "n = 0") (auto simp: Let_def)
qed auto

section \<open>Properties\<close>

text \<open>
  C39: \<open>memmove\<close> moves a block inside an object correctly however the two ranges overlap, and
  changes nothing else.
\<close>

theorem memmove_correct:
  assumes "d + n \<le> length m" "s + n \<le> length m"
  shows "\<exists>m'. memmove m d s n = Some m' \<and> take n (drop d m') = take n (drop s m) \<and>
     take d m' = take d m \<and> drop (d + n) m' = drop (d + n) m"
  using memmove_eq [OF assms] assms by auto

theorem memmove_correct_witness:
  "\<exists>m'. memmove [1, 2, 3, 4, 5 :: u8] 1 0 3 = Some m' \<and> take 3 (drop 1 m') = take 3 (drop 0 [1, 2, 3, 4, 5]) \<and>
     take 1 m' = take 1 [1, 2, 3, 4, 5] \<and> drop (1 + 3) m' = drop (1 + 3) [1, 2, 3, 4, 5]"
  by (rule memmove_correct) simp_all

text \<open>
  \<open>strstr\<close> finds the first occurrence of a non-empty pattern in a string, or reports that there
  is none.
\<close>

theorem strstr_first:
  assumes "is_cstr s" "is_cstr t" "cstr t \<noteq> []"
  shows "\<exists>r. strstr s t = Some r \<and> first_at (cstr s) (cstr t) r"
proof -
  obtain u where t: "t = cstr t @ 0 # u" using cstr_decomp [OF assms(2)] by blast
  from strnstr_loop_first [OF cstr_no_nul assms(3,1), of u 0] obtain r where
    "strnstr_loop s t (length (cstr t)) 0 (length (cstr s)) = Some (map_option ((+) 0) r)"
    "first_at (cstr s) (cstr t) r"
    unfolding t [symmetric] by blast
  moreover have "map_option ((+) 0) r = r" by (cases r) auto
  ultimately show ?thesis using assms by (simp add: strstr_def strnstr_def strlen_eq)
qed

theorem strstr_first_witness:
  "\<exists>r. strstr [0x61, 0x62, 0x61, 0x63, 0] [0x61, 0x63, 0] = Some r \<and>
     first_at (cstr [0x61, 0x62, 0x61, 0x63, 0]) (cstr [0x61, 0x63, 0]) r"
  by (rule strstr_first) simp_all

text \<open>
  C40: \<open>strncpy\<close> copies a string that is shorter than \<open>n\<close> and pads it with zeros up to \<open>n\<close> bytes; a
  string of \<open>n\<close> characters or more makes it run over every object, because the counter has wrapped
  when it is handed to \<open>memset\<close>.
\<close>

theorem strncpy_behaviour:
  assumes "is_cstr src" "dest + unat n \<le> length m" "length m < 2 ^ 64 - 1"
  shows "strncpy m dest src n =
     (if length (cstr src) < unat n
      then Some (take dest m @ cstr src @ replicate (unat n - length (cstr src)) 0 @ drop (dest + unat n) m)
      else None)"
proof (cases "length (cstr src) < unat n")
  case True
  obtain r where "src = cstr src @ 0 # r" using cstr_decomp [OF assms(1)] by blast
  with strncpy_pads [OF cstr_no_nul True assms(2), of r] True show ?thesis by simp
next
  case False
  with strncpy_no_room [OF assms(1) _ assms(3)] show ?thesis by simp
qed

theorem strncpy_behaviour_witness:
  "strncpy [9, 9, 9, 9, 9] 1 [0x61, 0x62, 0] 3 = Some [9, 0x61, 0x62, 0, 9]"
  using strncpy_behaviour [of "[0x61, 0x62, 0]" 1 3 "[9, 9, 9, 9, 9]"] by simp

text \<open>
  the result of \<open>memcmp\<close> is zero exactly when the ranges are empty or agree at \<open>some\<close> index: the
  loop stops at the first pair of equal bytes instead of the first pair that differs.
\<close>

theorem memcmp_zero_iff:
  assumes "n \<le> length s1" "n \<le> length s2"
  shows "memcmp s1 s2 n = Some 0 \<longleftrightarrow> n = 0 \<or> (\<exists>i<n. s1 ! i = s2 ! i)"
  using memcmp_loop_zero [OF assms, of 0] by (simp add: memcmp_def)

theorem memcmp_zero_iff_witness:
  "memcmp [1, 2] [1, 3] 2 = Some 0"
  using memcmp_zero_iff [of 2 "[1, 2]" "[1, 3]"] by (auto intro: exI [of _ 0])

end
