(* ===== verification/Memblock.thy ===== *)
theory Memblock
  imports CString
begin

text \<open>
  The boot-time memory map and allocator, \<open>ukernel/memblock.c\<close> with \<open>include/cyanea/memblock.h\<close>.
  The static array \<open>regions\<close> is a list of \<open>max\<close> entries, the ones from index \<open>n\<close> on being whatever
  earlier operations left there; addresses and sizes are 64-bit words and wrap as they do in C.  An
  index outside the array and a failed \<open>assert\<close> are \<open>None\<close>.
\<close>

section \<open>State\<close>

abbreviation (input) MEMBLOCK_NONE :: u32 where "MEMBLOCK_NONE \<equiv> 0"
abbreviation (input) MEMBLOCK_RESERVED :: u32 where "MEMBLOCK_RESERVED \<equiv> 0xFFFF"
abbreviation (input) PAGE_SIZE :: u64 where "PAGE_SIZE \<equiv> 4096"
abbreviation (input) PAGE_SHIFT :: nat where "PAGE_SHIFT \<equiv> 12"

record memblock_region =
  flags :: u32
  base :: u64
  size :: u64
  nid :: int

record memblock =
  n :: nat
  max_n :: nat
  msize :: u64
  regions :: "memblock_region list"

definition zero_region :: memblock_region where
  "zero_region = \<lparr>flags = 0, base = 0, size = 0, nid = 0\<rparr>"

abbreviation (input) NR_REGIONS :: nat where "NR_REGIONS \<equiv> 128"

definition memory_init :: memblock where
  "memory_init = \<lparr>n = 0, max_n = NR_REGIONS, msize = 0, regions = replicate NR_REGIONS zero_region\<rparr>"

definition mk_region :: "u64 \<Rightarrow> u64 \<Rightarrow> int \<Rightarrow> u32 \<Rightarrow> memblock_region" where
  "mk_region b s nd fl = \<lparr>flags = fl, base = b, size = s, nid = nd\<rparr>"

text \<open>The first address behind a region.\<close>

definition rend :: "memblock_region \<Rightarrow> u64" where
  "rend r = base r + size r"

section \<open>Operations on the array\<close>

definition insert_region :: "memblock \<Rightarrow> nat \<Rightarrow> u64 \<Rightarrow> u64 \<Rightarrow> int \<Rightarrow> u32 \<Rightarrow> memblock option" where
  "insert_region m i b s nd fl =
     (if \<not> n m + 1 \<le> max_n m then None
      else do {
        rs \<leftarrow> memmove (regions m) (i + 1) i (size_sub (n m) i);
        if \<not> i < length rs then None
        else Some (m\<lparr>regions := rs[i := mk_region b s nd fl], n := n m + 1, msize := msize m + s\<rparr>) })"

text \<open>The size subtracted is read from the slot after the move.\<close>

definition remove_region :: "memblock \<Rightarrow> nat \<Rightarrow> memblock option" where
  "remove_region m i =
     do { rs \<leftarrow> memmove (regions m) i (i + 1) (size_sub (n m) (i + 1));
          if \<not> i < length rs then None
          else Some (m\<lparr>regions := rs, n := n m - 1, msize := msize m - size (rs ! i)\<rparr>) }"

definition mergeable :: "memblock_region \<Rightarrow> memblock_region \<Rightarrow> bool" where
  "mergeable cur next \<longleftrightarrow>
     \<not> (base cur + size cur \<noteq> base next \<or> nid cur \<noteq> nid next \<or> flags cur \<noteq> flags next)"

function merge_loop :: "memblock \<Rightarrow> nat \<Rightarrow> nat \<Rightarrow> memblock option" where
  "merge_loop m i end_region =
     (if i < end_region then
        (if \<not> i + 1 < length (regions m) then None
         else
           (let cur = regions m ! i; next = regions m ! (i + 1) in
            if \<not> mergeable cur next then merge_loop m (i + 1) end_region
            else do {
              rs \<leftarrow> memmove ((regions m)[i := cur\<lparr>size := size cur + size next\<rparr>])
                     (i + 1) (i + 2) (size_sub (n m) (i + 2));
              merge_loop (m\<lparr>regions := rs, n := n m - 1\<rparr>) i (end_region - 1) }))
      else Some m)"
  by pat_completeness auto
termination by (relation "measure (\<lambda>(m, i, e). e - i)") auto

declare merge_loop.simps [simp del]

definition merge_regions :: "memblock \<Rightarrow> nat \<Rightarrow> nat \<Rightarrow> memblock option" where
  "merge_regions m start_region end_region =
     merge_loop m (if start_region \<noteq> 0 then start_region - 1 else start_region) end_region"

section \<open>Adding a range\<close>

lemma insert_region_n:
  assumes "insert_region m i b s nd fl = Some m'"
  shows "n m' = n m + 1 \<and> n m + 1 \<le> max_n m \<and> max_n m' = max_n m"
  using assms by (auto simp: insert_region_def bind_eq_Some_conv split: if_splits)

text \<open>
  The result of the loop: the state, the index it stopped at, what is left of the range, and
  \<open>start_region\<close> (\<open>None\<close> for \<open>-1\<close>) with \<open>end_region\<close>.
\<close>

type_synonym add_state = "memblock \<times> nat \<times> u64 \<times> nat option \<times> nat"

definition add_gap ::
  "memblock \<Rightarrow> nat \<Rightarrow> u64 \<Rightarrow> u64 \<Rightarrow> int \<Rightarrow> u32 \<Rightarrow> nat option \<Rightarrow> nat \<Rightarrow> (memblock \<times> nat option \<times> nat) option" where
  "add_gap m i b e nd fl start_region end_region =
     (if b < e then do {
        m \<leftarrow> insert_region m i b (e - b) nd fl;
        Some (m, (if start_region = None then Some i else start_region), i + 1) }
      else Some (m, start_region, end_region))"

lemma add_gap_n:
  assumes "add_gap m i b e nd fl sr er = Some (m', sr', er')"
  shows "max_n m' = max_n m \<and> (n m' = n m \<or> n m' = n m + 1 \<and> n m + 1 \<le> max_n m)"
  using assms
  by (auto simp: add_gap_def bind_eq_Some_conv dest: insert_region_n split: if_splits)

function add_loop ::
  "memblock \<Rightarrow> nat \<Rightarrow> u64 \<Rightarrow> u64 \<Rightarrow> int \<Rightarrow> u32 \<Rightarrow> nat option \<Rightarrow> nat \<Rightarrow> add_state option" where
  "add_loop m i b e nd fl start_region end_region =
     (if i < n m then
        (let r_base = base (regions m ! i); r_end = r_base + size (regions m ! i) in
         if e \<le> r_base then Some (m, i, b, start_region, end_region)
         else if r_end \<le> b then add_loop m (i + 1) b e nd fl start_region end_region
         else do {
           (m', start_region, end_region) \<leftarrow> add_gap m i b r_base nd fl start_region end_region;
           add_loop m' (i + 1) (c_min r_end e) e nd fl start_region end_region })
      else Some (m, i, b, start_region, end_region))"
  by pat_completeness auto
termination
  by (relation "measures [\<lambda>(m, i, _). max_n m - n m, \<lambda>(m, i, _). n m - i]")
    (auto dest!: add_gap_n)

declare add_loop.simps [simp del]

definition add_range :: "memblock \<Rightarrow> u64 \<Rightarrow> u64 \<Rightarrow> int \<Rightarrow> u32 \<Rightarrow> memblock option" where
  "add_range m b s nd fl =
     (if s = 0 then Some m
      else if n m = 0 then
        (if regions m = [] then None
         else Some (m\<lparr>regions := (regions m)[0 := mk_region b s nd fl], n := 1, msize := s\<rparr>))
      else do {
        (m, i, b', start_region, end_region) \<leftarrow> add_loop m 0 b (b + s) nd fl None 0;
        (m, start_region, end_region) \<leftarrow> add_gap m i b' (b + s) nd fl start_region end_region;
        (case start_region of
           None \<Rightarrow> Some m
         | Some start_region \<Rightarrow> merge_regions m start_region end_region) })"

section \<open>Isolating a range\<close>

function isolate_loop ::
  "memblock \<Rightarrow> nat \<Rightarrow> u64 \<Rightarrow> u64 \<Rightarrow> nat \<Rightarrow> nat \<Rightarrow> (memblock \<times> nat \<times> nat) option" where
  "isolate_loop m i b e start_range end_range =
     (if i < n m then
        (let region = regions m ! i; r_base = base region; r_end = r_base + size region in
         if e \<le> r_base then Some (m, start_range, end_range)
         else if r_end \<le> b then isolate_loop m (i + 1) b e start_range end_range
         else if r_base < b then do {
           m' \<leftarrow> insert_region
             (m\<lparr>regions := (regions m)[i := region\<lparr>base := b, size := size region - (b - r_base)\<rparr>],
                msize := msize m - (b - r_base)\<rparr>)
             i r_base (b - r_base) (nid region) (flags region);
           isolate_loop m' (i + 1) b e start_range end_range }
         else if e < r_end then do {
           m' \<leftarrow> insert_region
             (m\<lparr>regions := (regions m)[i := region\<lparr>base := e, size := size region - (e - r_base)\<rparr>],
                msize := msize m - (e - r_base)\<rparr>)
             i r_base (e - r_base) (nid region) (flags region);
           isolate_loop m' i b e start_range end_range }
         else isolate_loop m (i + 1) b e (if end_range = 0 then i else start_range) (i + 1))
      else Some (m, start_range, end_range))"
  by pat_completeness auto
termination
  by (relation "measures [\<lambda>(m, i, _). max_n m - n m, \<lambda>(m, i, _). n m - i]")
    (auto dest!: insert_region_n)

declare isolate_loop.simps [simp del]

definition isolate_range ::
  "memblock \<Rightarrow> u64 \<Rightarrow> u64 \<Rightarrow> (memblock \<times> (errno + nat \<times> nat)) option" where
  "isolate_range m b s =
     (if s = 0 then Some (m, Inr (0, 0))
      else if max_n m < n m + 2 then Some (m, Inl ENOSPC)
      else do {
        (m, start_range, end_range) \<leftarrow> isolate_loop m 0 b (b + s) 0 0;
        Some (m, Inr (start_range, end_range)) })"

section \<open>Searching\<close>

fun find_loop ::
  "memblock_region list \<Rightarrow> u64 \<Rightarrow> u64 \<Rightarrow> u64 \<Rightarrow> u64 \<Rightarrow> int \<Rightarrow> u32 \<Rightarrow> u64" where
  "find_loop [] s align start e nd fl = 0"
| "find_loop (region # rest) s align start e nd fl =
     (if flags region = fl \<and> \<not> (nd \<noteq> -1 \<and> nd \<noteq> nid region) then
        (let r_base = clamp (base region) start e;
             r_end = clamp (base region + size region) start e;
             b = ALIGN_KERNEL r_base align
         in if b < r_end \<and> s \<le> r_end - b then b
            else find_loop rest s align start e nd fl)
      else find_loop rest s align start e nd fl)"

definition find_in_range_node ::
  "memblock \<Rightarrow> u64 \<Rightarrow> u64 \<Rightarrow> u64 \<Rightarrow> u64 \<Rightarrow> int \<Rightarrow> u32 \<Rightarrow> u64" where
  "find_in_range_node m s align start e nd fl =
     (let start = c_max start PAGE_SIZE; e = c_max start e
      in find_loop (take (n m) (regions m)) s align start e nd fl)"

section \<open>The interface\<close>

definition PFN_UP :: "u64 \<Rightarrow> u64" where
  "PFN_UP x = drop_bit PAGE_SHIFT (ROUND_UP x PAGE_SIZE)"

definition PFN_DOWN :: "u64 \<Rightarrow> u64" where
  "PFN_DOWN x = drop_bit PAGE_SHIFT (ROUND_DOWN x PAGE_SIZE)"

text \<open>
  The iterator starts behind index \<open>i\<close>; the result is the next index with the outputs, or \<open>None\<close>
  for the index \<open>-1\<close>.
\<close>

function next_mem_loop :: "memblock \<Rightarrow> nat \<Rightarrow> int \<Rightarrow> (nat \<times> u64 \<times> u64 \<times> int) option" where
  "next_mem_loop m i nd =
     (if i < n m then
        (let reg = regions m ! i in
         if PFN_DOWN (base reg + size reg) \<le> PFN_UP (base reg) then next_mem_loop m (i + 1) nd
         else if nd = -1 \<or> nd = nid reg
         then Some (i, PFN_UP (base reg), PFN_DOWN (base reg + size reg), nid reg)
         else next_mem_loop m (i + 1) nd)
      else None)"
  by pat_completeness auto
termination by (relation "measure (\<lambda>(m, i, _). n m - i)") auto

declare next_mem_loop.simps [simp del]

definition next_mem_pfn_range :: "memblock \<Rightarrow> int \<Rightarrow> int \<Rightarrow> (nat \<times> u64 \<times> u64 \<times> int) option" where
  "next_mem_pfn_range m i nd = next_mem_loop m (nat (i + 1)) nd"

definition memblock_add :: "memblock \<Rightarrow> u64 \<Rightarrow> u64 \<Rightarrow> int \<Rightarrow> u32 \<Rightarrow> memblock option" where
  "memblock_add m b s nd fl = add_range m b s nd (fl AND NOT MEMBLOCK_RESERVED)"

text \<open>The loop from \<open>end - 1\<close> down to \<open>start\<close>; \<open>k\<close> is the number of iterations left.\<close>

fun remove_loop :: "memblock \<Rightarrow> nat \<Rightarrow> nat \<Rightarrow> memblock option" where
  "remove_loop m start 0 = Some m"
| "remove_loop m start (Suc k) = do { m \<leftarrow> remove_region m (start + k); remove_loop m start k }"

definition memblock_remove :: "memblock \<Rightarrow> u64 \<Rightarrow> u64 \<Rightarrow> (memblock \<times> (errno + unit)) option" where
  "memblock_remove m b s =
     do { (m, r) \<leftarrow> isolate_range m b s;
          (case r of
             Inl err \<Rightarrow> Some (m, Inl err)
           | Inr (start, e) \<Rightarrow> do { m \<leftarrow> remove_loop m start (e - start); Some (m, Inr ()) }) }"

text \<open>The loop over \<open>[start .. end)\<close> that changes the entries.\<close>

definition update_range ::
  "(memblock_region \<Rightarrow> memblock_region) \<Rightarrow> memblock \<Rightarrow> nat \<Rightarrow> nat \<Rightarrow> memblock" where
  "update_range f m start e =
     m\<lparr>regions := fold (\<lambda>i rs. rs[i := f (rs ! i)]) [start..<e] (regions m)\<rparr>"

definition setclr_region :: "bool \<Rightarrow> u32 \<Rightarrow> memblock_region \<Rightarrow> memblock_region" where
  "setclr_region st fl r = r\<lparr>flags := (if st then flags r OR fl else flags r AND NOT fl)\<rparr>"

definition memblock_setclr_flag ::
  "memblock \<Rightarrow> u64 \<Rightarrow> u64 \<Rightarrow> bool \<Rightarrow> u32 \<Rightarrow> (memblock \<times> (errno + unit)) option" where
  "memblock_setclr_flag m b s st fl =
     do { (m, r) \<leftarrow> isolate_range m b s;
          (case r of
             Inl err \<Rightarrow> Some (m, Inl err)
           | Inr (start, e) \<Rightarrow> do {
               m \<leftarrow> merge_regions (update_range (setclr_region st fl) m start e) start e;
               Some (m, Inr ()) }) }"

definition memblock_set_node :: "memblock \<Rightarrow> u64 \<Rightarrow> u64 \<Rightarrow> int \<Rightarrow> (memblock \<times> (errno + unit)) option" where
  "memblock_set_node m b s nd =
     do { (m, r) \<leftarrow> isolate_range m b s;
          (case r of
             Inl err \<Rightarrow> Some (m, Inl err)
           | Inr (start, e) \<Rightarrow> do {
               m \<leftarrow> merge_regions (update_range (\<lambda>r. r\<lparr>nid := nd\<rparr>) m start e) start e;
               Some (m, Inr ()) }) }"

text \<open>One attempt of \<open>memblock_alloc\<close>, and the second one the \<open>goto\<close> makes with \<open>nid = -1\<close>.\<close>

definition alloc_try ::
  "memblock \<Rightarrow> u64 \<Rightarrow> u64 \<Rightarrow> u64 \<Rightarrow> u64 \<Rightarrow> int \<Rightarrow> (memblock \<times> u64) option" where
  "alloc_try m s align start e nd =
     (let paddr = find_in_range_node m s align start e nd MEMBLOCK_NONE in
      if paddr \<noteq> 0 then do {
        (m, r) \<leftarrow> memblock_setclr_flag m paddr s True MEMBLOCK_RESERVED;
        Some (m, (case r of Inr _ \<Rightarrow> paddr | Inl _ \<Rightarrow> 0)) }
      else Some (m, 0))"

definition memblock_alloc ::
  "memblock \<Rightarrow> u64 \<Rightarrow> u64 \<Rightarrow> u64 \<Rightarrow> u64 \<Rightarrow> int \<Rightarrow> bool \<Rightarrow> (memblock \<times> u64) option" where
  "memblock_alloc m s align start e nd exact_nid =
     do { (m, paddr) \<leftarrow> alloc_try m s align start e nd;
          if paddr \<noteq> 0 then Some (m, paddr)
          else if nd \<noteq> -1 \<and> \<not> exact_nid then alloc_try m s align start e (-1)
          else Some (m, 0) }"

definition memblock_free :: "memblock \<Rightarrow> u64 \<Rightarrow> u64 \<Rightarrow> memblock option" where
  "memblock_free m b s =
     map_option fst (memblock_setclr_flag m b s False MEMBLOCK_RESERVED)"

definition memblock_reserve :: "memblock \<Rightarrow> u64 \<Rightarrow> u64 \<Rightarrow> (memblock \<times> (errno + unit)) option" where
  "memblock_reserve m b s = memblock_setclr_flag m b s True MEMBLOCK_RESERVED"

definition memblock_phys_mem_size :: "memblock \<Rightarrow> u64" where
  "memblock_phys_mem_size m = msize m"

end
