(* ===== verification/MemblockMap.thy ===== *)
theory MemblockMap
  imports Memblock
begin

text \<open>
  What \<open>Memblock\<close> does to the memory map.  The array is split into its live entries and the stale
  ones behind them (\<open>shape\<close>); each loop over the array is refined to a recursion on the list of live
  entries (\<open>mrg\<close>, \<open>add_list\<close>, \<open>isol\<close>); and the list is abstracted to the function \<open>region_at\<close>, which
  gives node and flags of every address of the map.
\<close>

section \<open>Lists of regions\<close>

fun region_at :: "memblock_region list \<Rightarrow> u64 \<Rightarrow> (int \<times> u32) option" where
  "region_at [] a = None"
| "region_at (r # rs) a =
     (if base r \<le> a \<and> a < rend r then Some (nid r, flags r) else region_at rs a)"

text \<open>Sorted by address from \<open>lo\<close> on, without overlaps, empty regions or wrap-around.\<close>

fun wf_from :: "u64 \<Rightarrow> memblock_region list \<Rightarrow> bool" where
  "wf_from lo [] = True"
| "wf_from lo (r # rs) = (lo \<le> base r \<and> base r < rend r \<and> wf_from (rend r) rs)"

definition end_of :: "u64 \<Rightarrow> memblock_region list \<Rightarrow> u64" where
  "end_of lo rs = (if rs = [] then lo else rend (last rs))"

definition total_size :: "memblock_region list \<Rightarrow> u64" where
  "total_size rs = sum_list (map size rs)"

lemma end_of_simps [simp]:
  "end_of lo [] = lo"
  "end_of lo (r # rs) = end_of (rend r) rs"
  "end_of lo (rs @ ss) = end_of (end_of lo rs) ss"
  by (auto simp: end_of_def)

lemma total_size_simps [simp]:
  "total_size [] = 0"
  "total_size (r # rs) = size r + total_size rs"
  "total_size (rs @ ss) = total_size rs + total_size ss"
  by (auto simp: total_size_def)

lemma wf_from_append [simp]:
  "wf_from lo (rs @ ss) \<longleftrightarrow> wf_from lo rs \<and> wf_from (end_of lo rs) ss"
  by (induction rs arbitrary: lo) auto

lemma wf_from_le: "wf_from lo rs \<Longrightarrow> lo' \<le> lo \<Longrightarrow> wf_from lo' rs"
  by (cases rs) auto

lemma wf_from_end: "wf_from lo rs \<Longrightarrow> lo \<le> end_of lo rs"
proof (induction rs arbitrary: lo)
  case (Cons r rs)
  then show ?case by (metis end_of_simps(2) less_imp_le order_trans wf_from.simps(2))
qed simp

lemma wf_from_mem:
  assumes "wf_from lo rs" "r \<in> set rs"
  shows "lo \<le> base r \<and> base r < rend r \<and> rend r \<le> end_of lo rs"
  using assms
proof (induction rs arbitrary: lo)
  case (Cons s rs)
  have s: "lo \<le> base s" "base s < rend s" "wf_from (rend s) rs" using Cons.prems by auto
  have e: "rend s \<le> end_of (rend s) rs" by (rule wf_from_end [OF s(3)])
  show ?case
  proof (cases "r = s")
    case False
    with Cons.IH [OF s(3)] Cons.prems(2) s show ?thesis by auto
  qed (use s e in simp)
qed simp

lemma region_at_append:
  "region_at (rs @ ss) a = (case region_at rs a of None \<Rightarrow> region_at ss a | Some x \<Rightarrow> Some x)"
  by (induction rs) auto

lemma region_at_low: "wf_from lo rs \<Longrightarrow> a < lo \<Longrightarrow> region_at rs a = None"
proof (induction rs arbitrary: lo)
  case (Cons r rs)
  then have "a < base r" "a < rend r" by (auto simp: not_le)
  with Cons show ?case by (auto simp: not_le)
qed simp

lemma region_at_high: "wf_from lo rs \<Longrightarrow> end_of lo rs \<le> a \<Longrightarrow> region_at rs a = None"
proof (induction rs arbitrary: lo)
  case (Cons r rs)
  then have "rend r \<le> a" using wf_from_end [of "rend r" rs] by auto
  with Cons show ?case by auto
qed simp

lemma region_at_SomeD:
  "region_at rs a = Some x \<Longrightarrow> \<exists>r \<in> set rs. base r \<le> a \<and> a < rend r \<and> x = (nid r, flags r)"
  by (induction rs) (auto split: if_splits)

lemma region_at_mem:
  assumes "wf_from lo rs" "r \<in> set rs" "base r \<le> a" "a < rend r"
  shows "region_at rs a = Some (nid r, flags r)"
  using assms
proof (induction rs arbitrary: lo)
  case (Cons s rs)
  show ?case
  proof (cases "r = s")
    case False
    with Cons.prems have "r \<in> set rs" "wf_from (rend s) rs" by auto
    with Cons wf_from_mem [of "rend s" rs r] show ?thesis by fastforce
  qed (use Cons.prems in auto)
qed simp

section \<open>The array\<close>

definition shape :: "memblock \<Rightarrow> memblock_region list \<Rightarrow> memblock_region list \<Rightarrow> bool" where
  "shape m xs st \<longleftrightarrow> regions m = xs @ st \<and> n m = length xs \<and> max_n m = length xs + length st \<and>
     max_n m < 2 ^ 63"

lemma shape_n: "shape m xs st \<Longrightarrow> n m = length xs"
  by (simp add: shape_def)

lemma shape_nth: "shape m (pre @ r # xs) st \<Longrightarrow> regions m ! length pre = r"
  by (simp add: shape_def)

lemma insert_region_shape:
  assumes "shape m (pre @ xs) (s # st)" "i = length pre"
  shows "\<exists>m'. insert_region m i b sz nd fl = Some m' \<and>
     shape m' (pre @ mk_region b sz nd fl # xs) st \<and> msize m' = msize m + sz"
proof -
  let ?rs = "pre @ xs @ s # st"
  have rs: "regions m = ?rs" "n m = length pre + length xs"
    "max_n m = length pre + length xs + Suc (length st)" "max_n m < 2 ^ 63"
    using assms(1) by (auto simp: shape_def)
  have sub: "size_sub (n m) i = length xs" using rs assms(2) by simp
  have mv: "memmove (regions m) (i + 1) i (size_sub (n m) i)
      = Some (take (i + 1) ?rs @ xs @ st)"
    unfolding sub rs(1) using assms(2) by (subst memmove_eq) auto
  have "take (i + 1) ?rs = pre @ take 1 (xs @ s # st)" using assms(2) by simp
  also have "\<dots> = pre @ [hd (xs @ [s])]" by (cases xs) auto
  finally have tk: "take (i + 1) ?rs = pre @ [hd (xs @ [s])]" .
  have upd: "(take (i + 1) ?rs @ xs @ st)[i := mk_region b sz nd fl] = pre @ mk_region b sz nd fl # xs @ st"
    unfolding tk using assms(2) by simp
  have len: "i < length (take (i + 1) ?rs @ xs @ st)"
    unfolding tk using assms(2) by simp
  have "insert_region m i b sz nd fl = Some (m\<lparr>regions := pre @ mk_region b sz nd fl # xs @ st,
      n := n m + 1, msize := msize m + sz\<rparr>)"
    using mv len upd rs by (simp add: insert_region_def)
  moreover have "shape (m\<lparr>regions := pre @ mk_region b sz nd fl # xs @ st,
      n := n m + 1, msize := msize m + sz\<rparr>) (pre @ mk_region b sz nd fl # xs) st"
    using rs by (simp add: shape_def)
  ultimately show ?thesis by auto
qed

section \<open>Merging\<close>

definition join :: "memblock_region \<Rightarrow> memblock_region \<Rightarrow> memblock_region" where
  "join c x = c\<lparr>size := size c + size x\<rparr>"

fun mrg :: "nat \<Rightarrow> memblock_region list \<Rightarrow> memblock_region list" where
  "mrg (Suc k) (c # x # xs) =
     (if mergeable c x then mrg k (join c x # xs) else c # mrg k (x # xs))"
| "mrg k xs = xs"

lemma join_simps [simp]: "base (join c x) = base c" "nid (join c x) = nid c" "flags (join c x) = flags c"
  "size (join c x) = size c + size x"
  by (auto simp: join_def)

lemma join_rend: "mergeable c x \<Longrightarrow> rend (join c x) = rend x"
  by (auto simp: join_def rend_def mergeable_def algebra_simps)

lemma mergeable_rend: "mergeable c x \<Longrightarrow> rend c = base x"
  by (auto simp: mergeable_def rend_def)

lemma wf_from_join:
  assumes "mergeable c x" "wf_from lo (c # x # zs)"
  shows "wf_from lo (join c x # zs)"
  using assms(2) by (auto simp: join_rend [OF assms(1)] mergeable_rend [OF assms(1)])

lemma mrg_Nil_iff [simp]: "mrg k xs = [] \<longleftrightarrow> xs = []"
  by (induction k xs rule: mrg.induct) auto

lemma mrg_props:
  assumes "wf_from lo xs"
  shows "wf_from lo (mrg k xs)" "region_at (mrg k xs) = region_at xs"
    "total_size (mrg k xs) = total_size xs" "end_of lo (mrg k xs) = end_of lo xs" "length (mrg k xs) \<le> length xs"
proof -
  have "wf_from lo (mrg k xs) \<and> region_at (mrg k xs) = region_at xs \<and> total_size (mrg k xs) = total_size xs \<and>
      end_of lo (mrg k xs) = end_of lo xs \<and> length (mrg k xs) \<le> length xs"
    using assms
  proof (induction k xs arbitrary: lo rule: mrg.induct)
    case (1 k c x xs)
    show ?case
    proof (cases "mergeable c x")
      case True
      have x: "rend c = base x" "nid c = nid x" "flags c = flags x"
        using True by (auto simp: mergeable_def rend_def)
      have wf: "wf_from lo (join c x # xs)"
        by (rule wf_from_join [OF True 1(3)])
      note ih = 1(1) [OF True wf]
      have "region_at (join c x # xs) a = region_at (c # x # xs) a" for a
        using x join_rend [OF True] 1(3) by auto
      then have "region_at (join c x # xs) = region_at (c # x # xs)" by blast
      with ih True join_rend [OF True] show ?thesis by (auto simp: algebra_simps)
    next
      case False
      with 1(2) [OF False, of "rend c"] 1(3) show ?thesis by (auto simp: fun_eq_iff)
    qed
  qed auto
  then show "wf_from lo (mrg k xs)" "region_at (mrg k xs) = region_at xs"
    "total_size (mrg k xs) = total_size xs" "end_of lo (mrg k xs) = end_of lo xs" "length (mrg k xs) \<le> length xs"
    by auto
qed

text \<open>No stale entry can be taken for a continuation of the last live one.\<close>

definition stale_below :: "u64 \<Rightarrow> memblock_region list \<Rightarrow> bool" where
  "stale_below e st \<longleftrightarrow> (\<forall>s \<in> set st. base s < e)"

lemma merge_step_shape:
  assumes "shape m (pre @ c # x # xs) st" "i = length pre"
  shows "\<exists>rs. memmove ((regions m)[i := join c x]) (i + 1) (i + 2) (size_sub (n m) (i + 2)) = Some rs \<and>
     shape (m\<lparr>regions := rs, n := n m - 1\<rparr>) (pre @ join c x # xs) (last (x # xs) # st)"
proof -
  have m: "regions m = pre @ c # x # xs @ st" "n m = length pre + length xs + 2"
    "max_n m = length pre + length xs + 2 + length st" "max_n m < 2 ^ 63"
    using assms(1) by (auto simp: shape_def)
  have sub: "size_sub (n m) (i + 2) = length xs" using m assms(2) by simp
  have rs: "(regions m)[i := join c x] = pre @ join c x # x # xs @ st" using m assms(2) by simp
  let ?rs = "pre @ join c x # x # xs @ st"
  have "memmove ?rs (i + 1) (i + 2) (length xs) =
      Some (take (i + 1) ?rs @ take (length xs) (drop (i + 2) ?rs) @ drop (i + 1 + length xs) ?rs)"
    using assms(2) by (intro memmove_eq) auto
  moreover have "take (i + 1) ?rs = pre @ [join c x]" "take (length xs) (drop (i + 2) ?rs) = xs"
    using assms(2) by auto
  moreover have "drop (i + 1 + length xs) ?rs = last (x # xs) # st"
  proof -
    have "drop (i + 1 + length xs) ?rs = drop (length xs) ((x # xs) @ st)" using assms(2) by simp
    also have "\<dots> = drop (length xs) (x # xs) @ st" by (subst drop_append) simp
    also have "drop (length xs) (x # xs) = [last (x # xs)]"
      by (metis append_butlast_last_id append_eq_conv_conj length_butlast length_Cons diff_Suc_1 list.distinct(1))
    finally show ?thesis by simp
  qed
  ultimately have "memmove ((regions m)[i := join c x]) (i + 1) (i + 2) (size_sub (n m) (i + 2))
      = Some (pre @ join c x # xs @ last (x # xs) # st)"
    unfolding sub rs by simp
  then show ?thesis using m by (auto simp: shape_def)
qed

lemma merge_loop_shape:
  assumes "shape m (pre @ xs) st" "wf_from lo (pre @ xs)" "i = length pre" "e \<le> length (pre @ xs)"
    and "stale_below (end_of lo (pre @ xs)) st" "e = length (pre @ xs) \<longrightarrow> st \<noteq> [] \<or> e \<le> i"
  shows "\<exists>m' st'. merge_loop m i e = Some m' \<and> shape m' (pre @ mrg (e - i) xs) st' \<and>
     stale_below (end_of lo (pre @ xs)) st' \<and> msize m' = msize m"
  using assms
proof (induction "e - i" arbitrary: m pre xs st i e)
  case 0
  have "merge_loop m i e = Some m" using 0(1) by (simp add: merge_loop.simps)
  with 0 show ?case by (cases xs) auto
next
  case (Suc k)
  note m = Suc.prems
  have ie: "i < e" using Suc(2) by simp
  with m(3,4) obtain c ys where xs: "xs = c # ys" by (cases xs) auto
  have regs: "regions m = pre @ c # ys @ st" "n m = length pre + Suc (length ys)"
    using m(1) xs by (auto simp: shape_def)
  have nth: "regions m ! i = c" "regions m ! (i + 1) = (ys @ st) ! 0"
    using regs m(3) by (auto simp: nth_append)
  have bound: "i + 1 < length (regions m)"
    using regs m(3,4,6) xs ie by (cases ys; cases st) auto
  show ?case
  proof (cases ys)
    case Nil
    then have e: "e = i + 1" using ie m(3,4) xs by simp
    then obtain s st' where st: "st = s # st'" using m(3,6) xs Nil by (cases st) auto
    then have "base s < rend c" using m(5) xs Nil by (simp add: stale_below_def)
    then have "\<not> mergeable c s" by (auto simp: mergeable_def rend_def)
    then have "merge_loop m i e = Some m"
      using nth bound e Nil st
      by (simp add: merge_loop.simps [of m i "Suc i"] merge_loop.simps [of m "Suc i" "Suc i"])
    with m xs Nil e show ?thesis by auto
  next
    case (Cons x zs)
    have nth1: "regions m ! (i + 1) = x" using nth(2) Cons by simp
    have k: "e - i = Suc k" using Suc(2) by simp
    show ?thesis
    proof (cases "mergeable c x")
      case False
      have step: "merge_loop m i e = merge_loop m (i + 1) e"
        using ie bound nth(1) nth1 False by (simp add: merge_loop.simps [of m i e])
      have "k = e - (i + 1)" using k by simp
      from Suc.hyps(1) [OF this, of m "pre @ [c]" ys st] m xs ie obtain m' st' where
        "merge_loop m (i + 1) e = Some m'" "shape m' ((pre @ [c]) @ mrg (e - (i + 1)) ys) st'"
        "stale_below (end_of lo (pre @ xs)) st'" "msize m' = msize m"
        by auto
      moreover have "e - Suc i = k" using k by simp
      ultimately show ?thesis using step k False xs Cons by auto
    next
      case True
      have wf: "wf_from lo (pre @ join c x # zs)" "end_of lo (pre @ join c x # zs) = end_of lo (pre @ xs)"
        using m(2) xs Cons wf_from_join [OF True, of "end_of lo pre" zs] by (simp_all add: join_rend [OF True])
      have sh: "shape m (pre @ c # x # zs) st" using m(1) xs Cons by simp
      obtain rs where rs: "memmove ((regions m)[i := join c x]) (i + 1) (i + 2) (size_sub (n m) (i + 2)) = Some rs"
        "shape (m\<lparr>regions := rs, n := n m - 1\<rparr>) (pre @ join c x # zs) (last (x # zs) # st)"
        using merge_step_shape [OF sh m(3)] by blast
      let ?m = "m\<lparr>regions := rs, n := n m - 1\<rparr>"
      have step: "merge_loop m i e = merge_loop ?m i (e - 1)"
        using ie bound nth(1) nth1 True rs(1) by (simp add: merge_loop.simps [of m i e] join_def [symmetric])
      have "wf_from lo (pre @ [c]) \<and> wf_from (rend c) (x # zs)" using m(2) xs Cons by auto
      then have "base (last (x # zs)) < end_of lo (pre @ xs)"
        using wf_from_mem [of "rend c" "x # zs" "last (x # zs)"] xs Cons
        by (simp add: end_of_def split: if_splits)
      then have st: "stale_below (end_of lo (pre @ join c x # zs)) (last (x # zs) # st)"
        using m(5) wf(2) by (simp add: stale_below_def)
      have k': "k = (e - 1) - i" using k by simp
      have "\<exists>m' st'. merge_loop ?m i (e - 1) = Some m' \<and> shape m' (pre @ mrg (e - 1 - i) (join c x # zs)) st' \<and>
          stale_below (end_of lo (pre @ join c x # zs)) st' \<and> msize m' = msize ?m"
        by (rule Suc.hyps(1) [OF k' rs(2) wf(1) m(3) _ st]) (use m(4) xs Cons in auto)
      with step k k' wf(2) True xs Cons show ?thesis by auto
    qed
  qed
qed

text \<open>
  The state of a well-formed map: the live entries \<open>xs\<close> are in order, no stale entry touches the end
  of the map, and the byte counter is the sum of the sizes.
\<close>

definition map_ok :: "memblock \<Rightarrow> memblock_region list \<Rightarrow> memblock_region list \<Rightarrow> bool" where
  "map_ok m xs st \<longleftrightarrow> shape m xs st \<and> wf_from 0 xs \<and>
     (if xs = [] then \<forall>s \<in> set st. base s = 0 else stale_below (end_of 0 xs) st) \<and> msize m = total_size xs"

lemma map_okD:
  assumes "map_ok m xs st"
  shows "shape m xs st" "wf_from 0 xs" "msize m = total_size xs"
    "xs \<noteq> [] \<Longrightarrow> stale_below (end_of 0 xs) st" "xs = [] \<Longrightarrow> s \<in> set st \<Longrightarrow> base s = 0"
  using assms by (auto simp: map_ok_def split: if_splits)

text \<open>Whatever part of the list it works on, merging changes neither the map nor its invariant.\<close>

lemma merge_regions_ok:
  assumes ok: "map_ok m xs st" and e: "e \<le> length xs" "e = length xs \<longrightarrow> st \<noteq> [] \<or> e = 0" and s: "s \<le> length xs"
  shows "\<exists>m' xs' st'. merge_regions m s e = Some m' \<and> map_ok m' xs' st' \<and> region_at xs' = region_at xs \<and>
     length xs' + length st' = length xs + length st \<and> length xs' \<le> length xs"
proof (cases "xs = []")
  case True
  then have "merge_regions m s e = Some m" using e s by (simp add: merge_regions_def merge_loop.simps)
  with ok show ?thesis by auto
next
  case False
  define i where "i = (if s \<noteq> 0 then s - 1 else s)"
  define pre where "pre = take i xs"
  define ys where "ys = drop i xs"
  have i: "i = length pre" "xs = pre @ ys"
    using s by (auto simp: i_def pre_def ys_def)
  have wf: "wf_from 0 (pre @ ys)" using map_okD(2) [OF ok] i by simp
  then have wf': "wf_from (end_of 0 pre) ys" by simp
  have stale: "stale_below (end_of 0 (pre @ ys)) st" using map_okD(4) [OF ok False] i by simp
  from merge_loop_shape [OF _ wf i(1) _ stale, of m e] map_okD(1) [OF ok] e i obtain m' st' where
    m': "merge_loop m i e = Some m'" "shape m' (pre @ mrg (e - i) ys) st'"
      "stale_below (end_of 0 (pre @ ys)) st'" "msize m' = msize m"
    by auto
  note mrg = mrg_props [OF wf', of "e - i"]
  have len: "length (pre @ mrg (e - i) ys) + length st' = length xs + length st"
  proof -
    have "max_n m' = max_n m"
      using m'(1)
    proof -
      have "merge_loop m i e = Some m' \<Longrightarrow> max_n m' = max_n m" for m i e
        by (induction m i e rule: merge_loop.induct)
          (subst (asm) (3) merge_loop.simps, auto simp: Let_def bind_eq_Some_conv split: if_splits)
      then show ?thesis using m'(1) .
    qed
    with m'(2) map_okD(1) [OF ok] show ?thesis by (simp add: shape_def)
  qed
  have "map_ok m' (pre @ mrg (e - i) ys) st'"
    using m' mrg wf map_okD(3) [OF ok] i False by (auto simp: map_ok_def)
  moreover have "region_at (pre @ mrg (e - i) ys) = region_at xs"
    using mrg(2) by (auto simp: fun_eq_iff region_at_append i(2) split: option.splits)
  moreover have "merge_regions m s e = Some m'"
    using m'(1) by (simp add: merge_regions_def i_def)
  ultimately show ?thesis using len mrg(5) i(2) by (metis add_le_cancel_left length_append)
qed

section \<open>Adding\<close>

definition gap :: "u64 \<Rightarrow> u64 \<Rightarrow> int \<Rightarrow> u32 \<Rightarrow> memblock_region list" where
  "gap b e nd fl = (if b < e then [mk_region b (e - b) nd fl] else [])"

fun add_list :: "u64 \<Rightarrow> u64 \<Rightarrow> int \<Rightarrow> u32 \<Rightarrow> memblock_region list \<Rightarrow> memblock_region list" where
  "add_list b e nd fl [] = gap b e nd fl"
| "add_list b e nd fl (r # rs) =
     (if e \<le> base r then gap b e nd fl @ r # rs
      else if rend r \<le> b then r # add_list b e nd fl rs
      else gap b (base r) nd fl @ r # add_list (min (rend r) e) e nd fl rs)"

lemma mk_region_simps [simp]:
  "base (mk_region b s nd fl) = b" "size (mk_region b s nd fl) = s"
  "nid (mk_region b s nd fl) = nd" "flags (mk_region b s nd fl) = fl"
  "rend (mk_region b s nd fl) = b + s"
  by (auto simp: mk_region_def rend_def)

lemma length_add_list: "length xs \<le> length (add_list b e nd fl xs)"
  by (induction b e nd fl xs rule: add_list.induct) auto

lemma add_gap_shape:
  assumes "shape m (pre @ xs) st" "i = length pre" "length (gap b e nd fl) \<le> length st" "er \<le> length pre"
  shows "\<exists>m' sr' er'. add_gap m i b e nd fl sr er = Some (m', sr', er') \<and>
     shape m' (pre @ gap b e nd fl @ xs) (drop (length (gap b e nd fl)) st) \<and>
     msize m' = msize m + total_size (gap b e nd fl) \<and>
     er' \<le> length (pre @ gap b e nd fl) \<and> (sr' = None \<longrightarrow> gap b e nd fl = [] \<and> sr = None) \<and>
     (\<forall>s. sr' = Some s \<longrightarrow> sr = Some s \<or> s = i)"
proof (cases "b < e")
  case True
  with assms(3) obtain s st' where st: "st = s # st'" by (cases st) (auto simp: gap_def)
  from insert_region_shape [OF assms(1) [unfolded st] assms(2), of b "e - b" nd fl] True st assms(2)
  show ?thesis by (auto simp: add_gap_def gap_def)
next
  case False
  with assms show ?thesis by (auto simp: add_gap_def gap_def)
qed

text \<open>The loop together with the insertion of the last gap behind it.\<close>

definition add_fill ::
  "memblock \<Rightarrow> nat \<Rightarrow> u64 \<Rightarrow> u64 \<Rightarrow> int \<Rightarrow> u32 \<Rightarrow> nat option \<Rightarrow> nat \<Rightarrow> (memblock \<times> nat option \<times> nat) option" where
  "add_fill m i b e nd fl sr er =
     do { (m, i, b, sr, er) \<leftarrow> add_loop m i b e nd fl sr er; add_gap m i b e nd fl sr er }"

definition add_post ::
  "memblock \<Rightarrow> memblock_region list \<Rightarrow> memblock_region list \<Rightarrow> memblock_region list \<Rightarrow>
   memblock_region list \<Rightarrow> nat option \<Rightarrow> (memblock \<times> nat option \<times> nat) option \<Rightarrow> bool" where
  "add_post m pre xs ys st sr r \<longleftrightarrow>
     (\<exists>m' sr' er'. r = Some (m', sr', er') \<and> shape m' (pre @ ys) (drop (length ys - length xs) st) \<and>
        msize m' + total_size xs = msize m + total_size ys \<and> er' \<le> length (pre @ ys) \<and>
        (sr' = None \<longrightarrow> ys = xs \<and> sr = None) \<and>
        (\<forall>s. sr' = Some s \<longrightarrow> sr = Some s \<or> s \<le> length (pre @ ys)))"

lemma add_fill_stop:
  assumes "shape m (pre @ xs) st" "er \<le> length pre" "length (gap b e nd fl) \<le> length st"
    and "xs = [] \<or> e \<le> base (hd xs)"
  shows "add_post m pre xs (gap b e nd fl @ xs) st sr (add_fill m (length pre) b e nd fl sr er)"
proof -
  have "add_loop m (length pre) b e nd fl sr er = Some (m, length pre, b, sr, er)"
    using assms(1,4) by (cases xs) (auto simp: add_loop.simps shape_def)
  with add_gap_shape [OF assms(1) refl assms(3,2), of sr] show ?thesis
    by (fastforce simp: add_fill_def add_post_def algebra_simps)
qed

lemma add_fill_skip:
  assumes "shape m (pre @ r # xs) st" "\<not> e \<le> base r" "rend r \<le> b \<or> b = e"
  shows "add_fill m (length pre) b e nd fl sr er = add_fill m (length pre + 1) b e nd fl sr er"
proof -
  have r: "regions m ! length pre = r" "length pre < n m"
    using assms(1) by (auto simp: shape_def)
  show ?thesis
  proof (cases "rend r \<le> b")
    case True
    with r assms(2) show ?thesis
      by (simp add: add_fill_def add_loop.simps [of m "length pre"] rend_def)
  next
    case False
    with assms have "b = e" "base r < e" "e < rend r" by auto
    then have "\<not> b < base r" "min (rend r) e = b" by auto
    with False r assms(2) \<open>b = e\<close> show ?thesis
      by (simp add: add_fill_def add_loop.simps [of m "length pre"] rend_def add_gap_def Let_def)
  qed
qed

lemma add_post_shift:
  assumes "add_post m (pre @ [r]) xs ys st sr q"
  shows "add_post m pre (r # xs) (r # ys) st sr q"
  using assms by (fastforce simp: add_post_def algebra_simps)

lemma add_post_gap:
  assumes g: "shape m1 (pre @ g @ r # xs) (drop (length g) st)" "msize m1 = msize m + total_size g"
      "sr1 = None \<longrightarrow> g = [] \<and> sr = None" "\<forall>s. sr1 = Some s \<longrightarrow> sr = Some s \<or> s = length pre"
    and p: "add_post m1 (pre @ g @ [r]) xs ys (drop (length g) st) sr1 q" and len: "length xs \<le> length ys"
  shows "add_post m pre (r # xs) (g @ r # ys) st sr q"
proof -
  obtain m' sr' er' where q: "q = Some (m', sr', er')"
      "shape m' (pre @ g @ r # ys) (drop (length ys - length xs) (drop (length g) st))"
      "msize m' + total_size xs = msize m1 + total_size ys" "er' \<le> length (pre @ g @ r # ys)"
      "sr' = None \<longrightarrow> ys = xs \<and> sr1 = None"
      "\<forall>s. sr' = Some s \<longrightarrow> sr1 = Some s \<or> s \<le> length (pre @ g @ r # ys)"
    using p by (auto simp: add_post_def)
  have "drop (length ys - length xs) (drop (length g) st) = drop (length (g @ r # ys) - length (r # xs)) st"
    using len by (simp add: drop_drop add.commute)
  moreover have "msize m' + total_size (r # xs) = msize m + total_size (g @ r # ys)"
    using q(3) g(2) by (simp add: algebra_simps)
  ultimately show ?thesis
    unfolding add_post_def using q g(3,4) by (intro exI [of _ m'] exI [of _ sr'] exI [of _ er']) fastforce
qed

lemma add_fill_overlap:
  assumes "shape m (pre @ r # xs) st" "\<not> e \<le> base r" "\<not> rend r \<le> b"
    and "add_gap m (length pre) b (base r) nd fl sr er = Some (m1, sr1, er1)"
  shows "add_fill m (length pre) b e nd fl sr er = add_fill m1 (length pre + 1) (min (rend r) e) e nd fl sr1 er1"
proof -
  have r: "regions m ! length pre = r" "length pre < n m"
    using assms(1) by (auto simp: shape_def)
  show ?thesis
    using r assms(2-4) by (simp add: add_fill_def add_loop.simps [of m "length pre"] rend_def Let_def)
qed

lemma add_fill_eq:
  assumes "shape m (pre @ xs) st" "er \<le> length pre"
    and "length (add_list b e nd fl xs) - length xs \<le> length st"
  shows "add_post m pre xs (add_list b e nd fl xs) st sr (add_fill m (length pre) b e nd fl sr er)"
  using assms
proof (induction xs arbitrary: m pre st b sr er)
  case Nil
  then have "add_post m pre [] (gap b e nd fl @ []) st sr (add_fill m (length pre) b e nd fl sr er)"
    by (intro add_fill_stop) auto
  then show ?case by simp
next
  case (Cons r rs)
  consider (stop) "e \<le> base r" | (skip) "\<not> e \<le> base r" "rend r \<le> b" | (overlap) "\<not> e \<le> base r" "\<not> rend r \<le> b"
    by blast
  then show ?case
  proof cases
    case stop
    with Cons.prems have "add_post m pre (r # rs) (gap b e nd fl @ r # rs) st sr (add_fill m (length pre) b e nd fl sr er)"
      by (intro add_fill_stop) auto
    with stop show ?thesis by simp
  next
    case skip
    have "add_post m (pre @ [r]) rs (add_list b e nd fl rs) st sr (add_fill m (length (pre @ [r])) b e nd fl sr er)"
      by (rule Cons.IH) (use Cons.prems skip in auto)
    moreover have "add_fill m (length pre) b e nd fl sr er = add_fill m (length pre + 1) b e nd fl sr er"
      using Cons.prems(1) skip by (intro add_fill_skip) auto
    ultimately show ?thesis using skip add_post_shift by fastforce
  next
    case overlap
    let ?g = "gap b (base r) nd fl" and ?b = "min (rend r) e"
    have room: "length ?g + (length (add_list ?b e nd fl rs) - length rs) \<le> length st"
      using Cons.prems(3) overlap length_add_list [of rs ?b e nd fl] by auto
    then have "length ?g \<le> length st" by simp
    from add_gap_shape [OF Cons.prems(1) refl this Cons.prems(2), of sr]
    obtain m1 sr1 er1 where
      m1: "add_gap m (length pre) b (base r) nd fl sr er = Some (m1, sr1, er1)"
        "shape m1 (pre @ ?g @ r # rs) (drop (length ?g) st)" "msize m1 = msize m + total_size ?g"
        "er1 \<le> length (pre @ ?g)" "sr1 = None \<longrightarrow> ?g = [] \<and> sr = None"
        "\<forall>s. sr1 = Some s \<longrightarrow> sr = Some s \<or> s = length pre"
      by blast
    have "add_fill m (length pre) b e nd fl sr er = add_fill m1 (length (pre @ ?g @ [r])) ?b e nd fl sr1 er1"
    proof (cases "?g = []")
      case True
      then show ?thesis using add_fill_overlap [OF Cons.prems(1) overlap m1(1)] by simp
    next
      case False
      then have len: "length ?g = 1" by (simp add: gap_def split: if_splits)
      have "add_fill m (length pre) b e nd fl sr er = add_fill m1 (length (pre @ ?g)) ?b e nd fl sr1 er1"
        using add_fill_overlap [OF Cons.prems(1) overlap m1(1)] len by simp
      also have "\<dots> = add_fill m1 (length (pre @ ?g) + 1) ?b e nd fl sr1 er1"
        using m1(2) overlap by (intro add_fill_skip [of m1 "pre @ ?g" r rs]) (auto simp: min_def)
      finally show ?thesis by simp
    qed
    moreover have "add_post m1 (pre @ ?g @ [r]) rs (add_list ?b e nd fl rs) (drop (length ?g) st) sr1
        (add_fill m1 (length (pre @ ?g @ [r])) ?b e nd fl sr1 er1)"
      by (rule Cons.IH) (use m1(2,4) room in auto)
    ultimately show ?thesis
      using add_post_gap [OF m1(2,3,5,6)] length_add_list [of rs ?b e nd fl] overlap by simp
  qed
qed

text \<open>The list that is left: the new range fills exactly the holes.\<close>

text \<open>The list that is left: the new range fills exactly the holes.\<close>

lemma gap_props [simp]:
  "region_at (gap b e nd fl) a = (if b \<le> a \<and> a < e then Some (nd, fl) else None)"
  "end_of lo (gap b e nd fl) = (if b < e then e else lo)"
  "wf_from lo (gap b e nd fl) \<longleftrightarrow> (b < e \<longrightarrow> lo \<le> b)"
  by (auto simp: gap_def)

lemma add_list_empty: "e \<le> b \<Longrightarrow> add_list b e nd fl xs = xs"
proof (induction xs arbitrary: b)
  case (Cons r rs)
  then show ?case by (auto simp: gap_def min_def)
qed (simp add: gap_def)

lemma add_list_wf:
  assumes "wf_from lo xs" "lo \<le> b"
  shows "wf_from lo (add_list b e nd fl xs)"
  using assms
proof (induction xs arbitrary: lo b)
  case (Cons r rs)
  show ?case
  proof (cases "e \<le> base r \<or> rend r \<le> b")
    case True
    with Cons show ?thesis by auto
  next
    case False
    then have eq: "add_list b e nd fl (r # rs) = gap b (base r) nd fl @ r # add_list (min (rend r) e) e nd fl rs"
      by auto
    have "wf_from (rend r) (add_list (min (rend r) e) e nd fl rs)"
    proof (cases "rend r \<le> e")
      case True
      with Cons show ?thesis by (auto simp: min_def)
    next
      case gt: False
      then have "min (rend r) e = e" by auto
      with Cons.prems show ?thesis by (simp add: add_list_empty)
    qed
    with Cons.prems False show ?thesis unfolding eq by auto
  qed
qed auto

lemma add_list_at:
  assumes "wf_from lo xs"
  shows "region_at (add_list b e nd fl xs) a =
       (case region_at xs a of None \<Rightarrow> if b \<le> a \<and> a < e then Some (nd, fl) else None | Some x \<Rightarrow> Some x)"
  using assms
proof (induction xs arbitrary: lo b)
  case (Cons r rs)
  have wf: "base r < rend r" "wf_from (rend r) rs" using Cons.prems by auto
  note ih = Cons.IH [OF wf(2)]
  have low: "region_at rs a = None" if "a < rend r"
    using region_at_low [OF wf(2) that] .
  consider (stop) "e \<le> base r" | (skip) "\<not> e \<le> base r" "rend r \<le> b"
    | (overlap) "base r < e" "b < rend r" by fastforce
  then show ?case
  proof cases
    case stop
    show ?thesis
    proof (cases "a < e")
      case True
      then have "region_at rs a = None" "\<not> base r \<le> a" using stop wf(1) low by auto
      with stop show ?thesis by (auto simp: region_at_append)
    next
      case False
      with stop show ?thesis by (auto simp: region_at_append split: option.splits)
    qed
  next
    case skip
    then have "\<not> (b \<le> a \<and> a < rend r)" by auto
    with skip ih show ?thesis by auto
  next
    case overlap
    then have eq: "region_at (add_list b e nd fl (r # rs)) a =
        (if b \<le> a \<and> a < base r then Some (nd, fl)
         else if base r \<le> a \<and> a < rend r then Some (nid r, flags r)
         else region_at (add_list (min (rend r) e) e nd fl rs) a)"
      by (auto simp: region_at_append)
    consider (before) "a < base r" | (inside) "base r \<le> a" "a < rend r" | (behind) "rend r \<le> a" by fastforce
    then show ?thesis
    proof cases
      case before
      then have "a < rend r" "a < e" using overlap wf(1) by auto
      with before low [of] overlap(1) ih [of "min (rend r) e"] show ?thesis
        unfolding eq by (auto simp: min_def)
    next
      case inside
      then show ?thesis unfolding eq by auto
    next
      case behind
      then have "\<not> a < base r" "\<not> a < rend r" "b \<le> a" using overlap wf(1) by auto
      with behind ih [of "min (rend r) e"] show ?thesis
        unfolding eq by (cases "region_at rs a") (auto simp: min_def)
    qed
  qed
qed simp

lemma add_list_end:
  assumes "wf_from lo xs" "lo \<le> b"
  shows "end_of lo xs \<le> end_of lo (add_list b e nd fl xs)"
  using assms
proof (induction xs arbitrary: lo b)
  case (Cons r rs)
  show ?case
  proof (cases "e \<le> base r \<or> rend r \<le> b")
    case True
    with Cons show ?thesis by auto
  next
    case False
    show ?thesis
    proof (cases "rend r \<le> e")
      case True
      with False Cons show ?thesis by (auto simp: min_def)
    next
      case gt: False
      then have "min (rend r) e = e" by auto
      with False show ?thesis by (simp add: add_list_empty)
    qed
  qed
qed auto

lemma add_list_eq_total: "xs \<noteq> [] \<Longrightarrow> add_list b e nd fl xs \<noteq> []"
  using length_add_list [of xs b e nd fl] by auto

definition add_value :: "u64 \<Rightarrow> u64 \<Rightarrow> int \<Rightarrow> u32 \<Rightarrow> u64 \<Rightarrow> (int \<times> u32) option \<Rightarrow> (int \<times> u32) option" where
  "add_value b e nd fl a v =
     (case v of None \<Rightarrow> if b \<le> a \<and> a < e then Some (nd, fl) else None | Some x \<Rightarrow> Some x)"

lemma add_range_ok:
  assumes ok: "map_ok m xs st" and s: "b \<le> b + s"
    and room: "length (add_list b (b + s) nd fl xs) < length xs + length st"
  shows "\<exists>m' xs' st'. add_range m b s nd fl = Some m' \<and> map_ok m' xs' st' \<and>
     length xs' + length st' = length xs + length st \<and> length xs' \<le> length (add_list b (b + s) nd fl xs) \<and>
     (\<forall>a. region_at xs' a = add_value b (b + s) nd fl a (region_at xs a))"
proof -
  note sh = map_okD(1) [OF ok]
  show ?thesis
  proof (cases "s = 0")
    case True
    then have "\<not> (b \<le> a \<and> a < b + s)" for a by auto
    with True ok show ?thesis
      by (intro exI [of _ m] exI [of _ xs] exI [of _ st]) (auto simp: add_range_def add_value_def length_add_list split: option.splits)
  next
    case nz: False
    then have lt: "b < b + s" using s by (simp add: order.not_eq_order_implies_strict)
    then have pos: "0 < b + s" by (rule order_le_less_trans [OF word_zero_le])
    show ?thesis
    proof (cases "xs = []")
      case True
      then obtain z st' where st: "st = z # st'" using room by (cases st) auto
      let ?m = "m\<lparr>regions := (regions m)[0 := mk_region b s nd fl], n := 1, msize := s\<rparr>"
      have "add_range m b s nd fl = Some ?m"
        using nz sh True st by (simp add: add_range_def shape_def)
      moreover have "map_ok ?m [mk_region b s nd fl] st'"
        using sh True st lt pos map_okD(5) [OF ok True] by (auto simp: map_ok_def shape_def stale_below_def)
      ultimately show ?thesis
        using True st by (intro exI [of _ ?m] exI [of _ "[mk_region b s nd fl]"] exI [of _ st'])
          (simp add: add_value_def gap_def lt)
    next
      case False
      let ?ys = "add_list b (b + s) nd fl xs"
      have "length ?ys - length xs \<le> length st" using room by simp
      then have "add_post m [] xs ?ys st None (add_fill m (length ([] :: memblock_region list)) b (b + s) nd fl None 0)"
        using sh by (intro add_fill_eq) auto
      then obtain m1 sr er where
        m1: "add_fill m 0 b (b + s) nd fl None 0 = Some (m1, sr, er)"
          "shape m1 ?ys (drop (length ?ys - length xs) st)" "msize m1 + total_size xs = msize m + total_size ?ys"
          "er \<le> length ?ys" "sr = None \<longrightarrow> ?ys = xs" "\<forall>i. sr = Some i \<longrightarrow> i \<le> length ?ys"
        by (auto simp: add_post_def)
      let ?st = "drop (length ?ys - length xs) st"
      have "stale_below (end_of 0 xs) st" using map_okD(4) [OF ok False] .
      then have "stale_below (end_of 0 ?ys) ?st"
        using add_list_end [OF map_okD(2) [OF ok], of b "b + s" nd fl]
        by (auto simp: stale_below_def dest!: in_set_dropD intro: less_le_trans)
      then have ok1: "map_ok m1 ?ys ?st"
        using m1(2,3) map_okD(3) [OF ok] add_list_wf [OF map_okD(2) [OF ok], of b] add_list_eq_total [OF False]
        by (simp add: map_ok_def)
      have len: "length ?ys + length ?st = length xs + length st" "?st \<noteq> []"
        using room length_add_list [of xs b "b + s" nd fl] by auto
      have at: "region_at ?ys a = add_value b (b + s) nd fl a (region_at xs a)" for a
        unfolding add_value_def by (rule add_list_at [OF map_okD(2) [OF ok]])
      have eq: "add_range m b s nd fl = (case sr of None \<Rightarrow> Some m1 | Some i \<Rightarrow> merge_regions m1 i er)"
      proof -
        have "n m \<noteq> 0" using sh False by (simp add: shape_def)
        with nz m1(1) show ?thesis by (auto simp: add_range_def add_fill_def bind_eq_Some_conv)
      qed
      show ?thesis
      proof (cases sr)
        case None
        with eq ok1 len at show ?thesis by (intro exI [of _ m1] exI [of _ ?ys] exI [of _ ?st]) auto
      next
        case (Some i)
        from merge_regions_ok [OF ok1 m1(4), of i] Some m1(6) len obtain m' xs' st' where
          "merge_regions m1 i er = Some m'" "map_ok m' xs' st'" "region_at xs' = region_at ?ys"
          "length xs' + length st' = length ?ys + length ?st" "length xs' \<le> length ?ys" by auto
        with Some eq len at show ?thesis by (intro exI [of _ m'] exI [of _ xs'] exI [of _ st']) auto
      qed
    qed
  qed
qed

section \<open>Isolating\<close>

definition left_part :: "memblock_region \<Rightarrow> u64 \<Rightarrow> memblock_region" where
  "left_part r p = mk_region (base r) (p - base r) (nid r) (flags r)"

definition right_part :: "memblock_region \<Rightarrow> u64 \<Rightarrow> memblock_region" where
  "right_part r p = r\<lparr>base := p, size := size r - (p - base r)\<rparr>"

lemma part_simps [simp]:
  "base (left_part r p) = base r" "rend (left_part r p) = p"
  "nid (left_part r p) = nid r" "flags (left_part r p) = flags r" "size (left_part r p) = p - base r"
  "base (right_part r p) = p" "rend (right_part r p) = rend r"
  "nid (right_part r p) = nid r" "flags (right_part r p) = flags r"
  "size (right_part r p) = size r - (p - base r)"
  by (auto simp: left_part_def right_part_def rend_def)

fun isol :: "u64 \<Rightarrow> u64 \<Rightarrow> memblock_region list \<Rightarrow> memblock_region list" where
  "isol b e [] = []"
| "isol b e (r # rs) =
     (if e \<le> base r then r # rs
      else if rend r \<le> b then r # isol b e rs
      else if base r < b then
        left_part r b # (if e < rend r then left_part (right_part r b) e # right_part (right_part r b) e # rs
                         else right_part r b # isol b e rs)
      else if e < rend r then left_part r e # right_part r e # rs
      else r # isol b e rs)"

definition inside :: "u64 \<Rightarrow> u64 \<Rightarrow> memblock_region \<Rightarrow> bool" where
  "inside b e r \<longleftrightarrow> b \<le> base r \<and> rend r \<le> e"

text \<open>How \<open>start_range\<close> and \<open>end_range\<close> are found, from the index \<open>i\<close> on.\<close>

fun scan :: "u64 \<Rightarrow> u64 \<Rightarrow> nat \<Rightarrow> memblock_region list \<Rightarrow> nat \<times> nat \<Rightarrow> nat \<times> nat" where
  "scan b e i [] p = p"
| "scan b e i (r # rs) (s, t) =
     scan b e (i + 1) rs (if inside b e r then (if t = 0 then i else s, i + 1) else (s, t))"

lemma scan_behind: "wf_from lo rs \<Longrightarrow> e \<le> lo \<Longrightarrow> scan b e i rs p = p"
proof (induction rs arbitrary: lo i p)
  case (Cons r rs)
  obtain s t where p: "p = (s, t)" by (cases p)
  have "\<not> rend r \<le> e" "e \<le> rend r" "wf_from (rend r) rs" using Cons.prems by auto
  with Cons.IH [of "rend r"] show ?case by (simp add: p inside_def)
qed simp

definition iso_post ::
  "memblock \<Rightarrow> memblock_region list \<Rightarrow> memblock_region list \<Rightarrow> memblock_region list \<Rightarrow> memblock_region list \<Rightarrow>
   nat \<times> nat \<Rightarrow> (memblock \<times> nat \<times> nat) option \<Rightarrow> bool" where
  "iso_post m pre xs ys st se r \<longleftrightarrow>
     (\<exists>m'. r = Some (m', se) \<and> shape m' (pre @ ys) (drop (length ys - length xs) st) \<and> msize m' = msize m)"

lemma split_step:
  assumes "shape m (pre @ r # rs) (z # st)"
  shows "\<exists>m'. insert_region
       (m\<lparr>regions := (regions m)[length pre := r\<lparr>base := p, size := size r - (p - base r)\<rparr>],
          msize := msize m - (p - base r)\<rparr>)
       (length pre) (base r) (p - base r) (nid r) (flags r) = Some m' \<and>
     shape m' (pre @ left_part r p # right_part r p # rs) st \<and> msize m' = msize m"
proof -
  let ?m = "m\<lparr>regions := (regions m)[length pre := r\<lparr>base := p, size := size r - (p - base r)\<rparr>],
          msize := msize m - (p - base r)\<rparr>"
  have "shape ?m (pre @ right_part r p # rs) (z # st)"
    using assms by (auto simp: shape_def right_part_def)
  from insert_region_shape [OF this refl, of "base r" "p - base r" "nid r" "flags r"]
  show ?thesis by (auto simp: left_part_def)
qed

lemma iso_length: "length xs \<le> length (isol b e xs)"
  by (induction xs) auto

lemma isolate_stop:
  assumes "shape m (pre @ xs) st" "xs = [] \<or> e \<le> base (hd xs)"
  shows "isolate_loop m (length pre) b e s t = Some (m, s, t)"
  using assms by (cases xs) (auto simp: isolate_loop.simps shape_def)

lemma isolate_skip:
  assumes "shape m (pre @ r # rs) st" "\<not> e \<le> base r" "rend r \<le> b"
  shows "isolate_loop m (length pre) b e s t = isolate_loop m (length pre + 1) b e s t"
  using assms by (subst isolate_loop.simps) (auto simp: shape_def rend_def Let_def)

lemma isolate_inside:
  assumes "shape m (pre @ r # rs) st" "\<not> e \<le> base r" "\<not> rend r \<le> b" "inside b e r"
  shows "isolate_loop m (length pre) b e s t =
     isolate_loop m (length pre + 1) b e (if t = 0 then length pre else s) (length pre + 1)"
  using assms by (subst isolate_loop.simps) (auto simp: shape_def rend_def Let_def inside_def)

lemma isolate_cut_low:
  assumes "shape m (pre @ r # rs) (z # st)" "\<not> e \<le> base r" "\<not> rend r \<le> b" "base r < b"
  shows "\<exists>m'. isolate_loop m (length pre) b e s t = isolate_loop m' (length pre + 1) b e s t \<and>
     shape m' (pre @ left_part r b # right_part r b # rs) st \<and> msize m' = msize m"
proof -
  obtain m' where m': "insert_region
       (m\<lparr>regions := (regions m)[length pre := r\<lparr>base := b, size := size r - (b - base r)\<rparr>],
          msize := msize m - (b - base r)\<rparr>)
       (length pre) (base r) (b - base r) (nid r) (flags r) = Some m'"
     "shape m' (pre @ left_part r b # right_part r b # rs) st" "msize m' = msize m"
    using split_step [OF assms(1)] by blast
  moreover have "regions m ! length pre = r" "length pre < n m"
    using assms(1) by (auto simp: shape_def)
  ultimately show ?thesis
    using assms(2-4) by (subst isolate_loop.simps) (auto simp: rend_def Let_def)
qed

lemma isolate_cut_high:
  assumes "shape m (pre @ r # rs) (z # st)" "\<not> e \<le> base r" "\<not> rend r \<le> b" "\<not> base r < b" "e < rend r"
  shows "\<exists>m'. isolate_loop m (length pre) b e s t = isolate_loop m' (length pre) b e s t \<and>
     shape m' (pre @ left_part r e # right_part r e # rs) st \<and> msize m' = msize m"
proof -
  obtain m' where m': "insert_region
       (m\<lparr>regions := (regions m)[length pre := r\<lparr>base := e, size := size r - (e - base r)\<rparr>],
          msize := msize m - (e - base r)\<rparr>)
       (length pre) (base r) (e - base r) (nid r) (flags r) = Some m'"
     "shape m' (pre @ left_part r e # right_part r e # rs) st" "msize m' = msize m"
    using split_step [OF assms(1)] by blast
  moreover have "regions m ! length pre = r" "length pre < n m"
    using assms(1) by (auto simp: shape_def)
  ultimately show ?thesis
    using assms(2-5) by (subst isolate_loop.simps) (auto simp: rend_def Let_def)
qed

lemma iso_cut_low:
  "base r < b \<Longrightarrow> b < e \<Longrightarrow> \<not> rend r \<le> b \<Longrightarrow> isol b e (r # rs) = left_part r b # isol b e (right_part r b # rs)"
  by auto

lemma iso_post_shift:
  assumes "iso_post m (pre @ [r]) xs ys st se q"
  shows "iso_post m pre (r # xs) (r # ys) st se q"
  using assms by (auto simp: iso_post_def)

text \<open>One region that does not begin below the range, given the claim for the rest.\<close>

lemma isolate_core:
  assumes ih: "\<And>m pre st s t. shape m (pre @ rs) st \<Longrightarrow> length (isol b e rs) - length rs \<le> length st \<Longrightarrow>
      iso_post m pre rs (isol b e rs) st (scan b e (length pre) (isol b e rs) (s, t))
        (isolate_loop m (length pre) b e s t)"
    and m: "shape m (pre @ r # rs) st" and wf: "wf_from (rend r) rs"
    and r: "\<not> e \<le> base r" "\<not> rend r \<le> b" "\<not> base r < b"
    and room: "length (isol b e (r # rs)) - length (r # rs) \<le> length st"
  shows "iso_post m pre (r # rs) (isol b e (r # rs)) st (scan b e (length pre) (isol b e (r # rs)) (s, t))
      (isolate_loop m (length pre) b e s t)"
proof (cases "e < rend r")
  case False
  then have inn: "inside b e r" using r by (simp add: inside_def not_less)
  have iso: "isol b e (r # rs) = r # isol b e rs" using r False by simp
  have "iso_post m (pre @ [r]) rs (isol b e rs) st
      (scan b e (length (pre @ [r])) (isol b e rs) (if t = 0 then length pre else s, length pre + 1))
      (isolate_loop m (length (pre @ [r])) b e (if t = 0 then length pre else s) (length pre + 1))"
    by (rule ih) (use m room iso in auto)
  then show ?thesis
    using isolate_inside [OF m r(1,2) inn] iso inn by (auto intro: iso_post_shift)
next
  case True
  then have iso: "isol b e (r # rs) = left_part r e # right_part r e # rs" using r by simp
  with room obtain z st' where st: "st = z # st'" by (cases st) auto
  obtain m' where m': "isolate_loop m (length pre) b e s t = isolate_loop m' (length pre) b e s t"
      "shape m' (pre @ left_part r e # right_part r e # rs) st'" "msize m' = msize m"
    using isolate_cut_high [OF m [unfolded st] r True] by blast
  have inn: "inside b e (left_part r e)" using r by (simp add: inside_def)
  have "isolate_loop m' (length pre) b e s t
      = isolate_loop m' (length (pre @ [left_part r e])) b e (if t = 0 then length pre else s) (length pre + 1)"
    using isolate_inside [OF m'(2) _ _ inn] r by simp
  also have "\<dots> = Some (m', if t = 0 then length pre else s, length pre + 1)"
    using m'(2) by (intro isolate_stop [of m' _ "right_part r e # rs"]) auto
  finally have res: "isolate_loop m (length pre) b e s t = Some (m', if t = 0 then length pre else s, length pre + 1)"
    using m'(1) by simp
  have "\<not> inside b e (right_part r e)" using True by (simp add: inside_def not_le)
  moreover have "scan b e i rs p = p" for i p
    using wf True by (intro scan_behind [of "rend r"]) auto
  ultimately have "scan b e (length pre) (isol b e (r # rs)) (s, t) = (if t = 0 then length pre else s, length pre + 1)"
    using inn iso by simp
  with res m'(2,3) st iso show ?thesis by (simp add: iso_post_def)
qed

lemma isolate_eq:
  assumes "shape m (pre @ xs) st" "wf_from lo xs" "b < e"
    and "length (isol b e xs) - length xs \<le> length st"
  shows "iso_post m pre xs (isol b e xs) st (scan b e (length pre) (isol b e xs) (s, t))
     (isolate_loop m (length pre) b e s t)"
  using assms(1,2,4)
proof (induction xs arbitrary: m pre st lo s t)
  case Nil
  then show ?case using isolate_stop [of m pre "[]" st e b s t] by (simp add: iso_post_def)
next
  case (Cons r rs)
  have wf: "wf_from (rend r) rs" "base r < rend r" using Cons.prems(2) by auto
  have ih: "iso_post m pre rs (isol b e rs) st (scan b e (length pre) (isol b e rs) (s, t))
        (isolate_loop m (length pre) b e s t)"
    if "shape m (pre @ rs) st" "length (isol b e rs) - length rs \<le> length st" for m pre st s t
    by (rule Cons.IH [OF that(1) wf(1) that(2)])
  consider (stop) "e \<le> base r" | (skip) "\<not> e \<le> base r" "rend r \<le> b"
    | (low) "\<not> e \<le> base r" "\<not> rend r \<le> b" "base r < b"
    | (core) "\<not> e \<le> base r" "\<not> rend r \<le> b" "\<not> base r < b" by blast
  then show ?case
  proof cases
    case stop
    have "wf_from (base r) (r # rs)" using Cons.prems(2) by auto
    from scan_behind [OF this stop] stop isolate_stop [OF Cons.prems(1), of e b s t] Cons.prems(1)
    show ?thesis by (simp add: iso_post_def del: scan.simps)
  next
    case skip
    have "iso_post m (pre @ [r]) rs (isol b e rs) st
        (scan b e (length (pre @ [r])) (isol b e rs) (s, t)) (isolate_loop m (length (pre @ [r])) b e s t)"
      by (rule ih) (use Cons.prems skip in auto)
    moreover have "\<not> inside b e r" using skip wf(2) by (auto simp: inside_def)
    ultimately show ?thesis
      using isolate_skip [OF Cons.prems(1) skip, of s t] skip by (auto intro: iso_post_shift)
  next
    case low
    note iso = iso_cut_low [OF low(3) assms(3) low(2), of rs]
    with Cons.prems(3) iso_length [of "right_part r b # rs" b e] obtain z st' where st: "st = z # st'"
      by (cases st) auto
    obtain m' where m': "isolate_loop m (length pre) b e s t = isolate_loop m' (length pre + 1) b e s t"
        "shape m' (pre @ left_part r b # right_part r b # rs) st'" "msize m' = msize m"
      using isolate_cut_low [OF Cons.prems(1) [unfolded st] low] by blast
    have room: "length (isol b e (right_part r b # rs)) - length (right_part r b # rs) \<le> length st'"
      using Cons.prems(3) iso st by simp
    have "iso_post m' (pre @ [left_part r b]) (right_part r b # rs) (isol b e (right_part r b # rs)) st'
        (scan b e (length (pre @ [left_part r b])) (isol b e (right_part r b # rs)) (s, t))
        (isolate_loop m' (length (pre @ [left_part r b])) b e s t)"
      by (rule isolate_core [OF ih]) (use m'(2) wf low assms(3) room in auto)
    moreover have "\<not> inside b e (left_part r b)" using low by (simp add: inside_def not_le)
    moreover have "drop (length (isol b e (right_part r b # rs)) - length (right_part r b # rs)) st' =
        drop (length (isol b e (r # rs)) - length (r # rs)) st"
      using iso_length [of "right_part r b # rs" b e] unfolding iso st by (simp add: drop_Cons' del: isol.simps)
    ultimately show ?thesis
      unfolding iso using m'(1,3) by (simp add: iso_post_def del: isol.simps)
  next
    case core
    show ?thesis by (rule isolate_core [OF ih Cons.prems(1) wf(1) core Cons.prems(3)])
  qed
qed

lemma isol_wf:
  assumes "wf_from lo xs" "b < e"
  shows "wf_from lo (isol b e xs)" "end_of lo (isol b e xs) = end_of lo xs"
    "total_size (isol b e xs) = total_size xs"
proof -
  have "wf_from lo (isol b e xs) \<and> end_of lo (isol b e xs) = end_of lo xs \<and> total_size (isol b e xs) = total_size xs"
    using assms(1)
  proof (induction xs arbitrary: lo)
    case (Cons r rs)
    note ih = Cons.IH [of "rend r"]
    show ?case using Cons.prems ih assms(2) by (auto simp: not_le not_less)
  qed simp
  then show "wf_from lo (isol b e xs)" "end_of lo (isol b e xs) = end_of lo xs"
    "total_size (isol b e xs) = total_size xs" by auto
qed

lemma isol_at:
  assumes "wf_from lo xs" "b < e"
  shows "region_at (isol b e xs) a = region_at xs a"
  using assms(1)
proof (induction xs arbitrary: lo)
  case (Cons r rs)
  note ih = Cons.IH [of "rend r"]
  have cut: "region_at (left_part x p # right_part x p # ys) a = region_at (x # ys) a"
    if "base x \<le> p" "p \<le> rend x" for x p ys
    using that by auto
  consider "e \<le> base r \<or> rend r \<le> b" | (low) "base r < e" "b < rend r" "base r < b" "\<not> e < rend r"
    | (both) "base r < e" "b < rend r" "base r < b" "e < rend r"
    | (high) "base r < e" "b < rend r" "b \<le> base r" "e < rend r"
    | (within) "base r < e" "b < rend r" "b \<le> base r" "\<not> e < rend r"
    by fastforce
  then show ?case
  proof cases
    case 1
    with Cons.prems ih show ?thesis by auto
  next
    case low
    then have "isol b e (r # rs) = left_part r b # right_part r b # isol b e rs" by auto
    with low ih Cons.prems cut [of r b] show ?thesis by auto
  next
    case both
    then have "isol b e (r # rs) = left_part r b # left_part (right_part r b) e # right_part (right_part r b) e # rs"
      by auto
    with both assms(2) cut [of "right_part r b" e rs] cut [of r b rs] show ?thesis by auto
  next
    case high
    then have "isol b e (r # rs) = left_part r e # right_part r e # rs" by auto
    with high cut [of r e rs] show ?thesis by auto
  next
    case within
    with ih Cons.prems show ?thesis by auto
  qed
qed simp

lemma isol_split:
  assumes "wf_from lo xs" "b < e"
  shows "\<exists>A B C. isol b e xs = A @ B @ C \<and> (\<forall>r \<in> set A. rend r \<le> b) \<and> (\<forall>r \<in> set B. inside b e r) \<and>
     (\<forall>r \<in> set C. e \<le> base r) \<and> (b \<le> lo \<longrightarrow> A = []) \<and>
     length (isol b e xs) \<le> length xs + (if lo < b then 1 else 0) + (if C = [] then 0 else 1)"
  using assms(1)
proof (induction xs arbitrary: lo)
  case Nil
  then show ?case by simp
next
  case (Cons r rs)
  have wf: "lo \<le> base r" "base r < rend r" "wf_from (rend r) rs" using Cons.prems by auto
  have behind: "\<forall>s \<in> set (s0 # rs). e \<le> base s" if "e \<le> base s0" "e \<le> rend r" for s0
    using wf_from_mem [OF wf(3)] that by force
  have none_below: "\<exists>B C. isol b e rs = B @ C \<and> (\<forall>r \<in> set B. inside b e r) \<and>
      (\<forall>r \<in> set C. e \<le> base r) \<and> length (isol b e rs) \<le> length rs + (if C = [] then 0 else 1)"
    if "b < rend r"
  proof -
    obtain A B C where abc: "isol b e rs = A @ B @ C" "\<forall>r \<in> set B. inside b e r" "\<forall>r \<in> set C. e \<le> base r"
      "b \<le> rend r \<longrightarrow> A = []"
      "length (isol b e rs) \<le> length rs + (if rend r < b then 1 else 0) + (if C = [] then 0 else 1)"
      using Cons.IH [OF wf(3)] by blast
    have "A = []" "\<not> rend r < b" using that abc(4) by auto
    with abc show ?thesis by (intro exI [of _ B] exI [of _ C]) simp
  qed
  consider (stop) "e \<le> base r" | (skip) "base r < e" "rend r \<le> b"
    | (low) "base r < e" "b < rend r" "base r < b" "\<not> e < rend r"
    | (both) "base r < e" "b < rend r" "base r < b" "e < rend r"
    | (high) "base r < e" "b < rend r" "b \<le> base r" "e < rend r"
    | (within) "base r < e" "b < rend r" "b \<le> base r" "\<not> e < rend r"
    by fastforce
  then show ?case
  proof cases
    case stop
    then have "isol b e (r # rs) = [] @ [] @ (r # rs)" by simp
    moreover have "\<forall>s \<in> set (r # rs). e \<le> base s" using behind [OF stop] stop wf(2) by auto
    ultimately show ?thesis by (intro exI [of _ "[]"] exI [of _ "r # rs"]) auto
  next
    case skip
    obtain A B C where ih: "isol b e rs = A @ B @ C" "\<forall>r \<in> set A. rend r \<le> b" "\<forall>r \<in> set B. inside b e r"
      "\<forall>r \<in> set C. e \<le> base r" "length (isol b e rs) \<le> length rs + (if rend r < b then 1 else 0) + (if C = [] then 0 else 1)"
      using Cons.IH [OF wf(3)] by blast
    have "lo < b" using wf skip by auto
    with ih skip show ?thesis
      by (intro exI [of _ "r # A"] exI [of _ B] exI [of _ C]) (auto split: if_splits)
  next
    case low
    have iso: "isol b e (r # rs) = left_part r b # right_part r b # isol b e rs" using low by auto
    obtain B C where ih: "isol b e rs = B @ C" "\<forall>r \<in> set B. inside b e r"
      "\<forall>r \<in> set C. e \<le> base r" "length (isol b e rs) \<le> length rs + (if C = [] then 0 else 1)"
      using none_below low by blast
    moreover have "inside b e (right_part r b)" "lo < b" using low wf by (auto simp: inside_def)
    ultimately show ?thesis unfolding iso
      by (intro exI [of _ "[left_part r b]"] exI [of _ "right_part r b # B"] exI [of _ C]) auto
  next
    case both
    have iso: "isol b e (r # rs) = left_part r b # left_part (right_part r b) e # right_part (right_part r b) e # rs"
      using both by auto
    have "inside b e (left_part (right_part r b) e)" "lo < b" using both wf by (auto simp: inside_def)
    moreover have "\<forall>s \<in> set (right_part (right_part r b) e # rs). e \<le> base s" using both by (intro behind) auto
    ultimately show ?thesis unfolding iso
      by (intro exI [of _ "[left_part r b]"] exI [of _ "[left_part (right_part r b) e]"]
          exI [of _ "right_part (right_part r b) e # rs"]) auto
  next
    case high
    have iso: "isol b e (r # rs) = left_part r e # right_part r e # rs" using high by auto
    have "inside b e (left_part r e)" using high by (auto simp: inside_def)
    moreover have "\<forall>s \<in> set (right_part r e # rs). e \<le> base s" using high by (intro behind) auto
    ultimately show ?thesis unfolding iso
      by (intro exI [of _ "[]"] exI [of _ "[left_part r e]"] exI [of _ "right_part r e # rs"]) auto
  next
    case within
    have iso: "isol b e (r # rs) = r # isol b e rs" using within by auto
    obtain B C where ih: "isol b e rs = B @ C" "\<forall>r \<in> set B. inside b e r"
      "\<forall>r \<in> set C. e \<le> base r" "length (isol b e rs) \<le> length rs + (if C = [] then 0 else 1)"
      using none_below within by blast
    moreover have "inside b e r" using within by (auto simp: inside_def)
    ultimately show ?thesis unfolding iso
      by (intro exI [of _ "[]"] exI [of _ "r # B"] exI [of _ C]) auto
  qed
qed

lemma scan_append: "scan b e i (xs @ ys) p = scan b e (i + length xs) ys (scan b e i xs p)"
  by (induction xs arbitrary: i p) auto

lemma scan_none: "\<forall>r \<in> set xs. \<not> inside b e r \<Longrightarrow> scan b e i xs p = p"
  by (induction xs arbitrary: i p) auto

lemma scan_all:
  "\<forall>r \<in> set xs. inside b e r \<Longrightarrow> xs \<noteq> [] \<Longrightarrow>
     scan b e i xs (s, t) = (if t = 0 then i else s, i + length xs)"
proof (induction xs arbitrary: i s t)
  case (Cons r xs)
  then show ?case by (cases "xs = []") auto
qed simp

text \<open>The list of live entries cut at the two ends of a range, and the invariant that comes with it.\<close>

definition isolated ::
  "memblock \<Rightarrow> u64 \<Rightarrow> u64 \<Rightarrow> memblock_region list \<Rightarrow> memblock_region list \<Rightarrow> memblock_region list \<Rightarrow>
   memblock_region list \<Rightarrow> nat \<Rightarrow> nat \<Rightarrow> bool" where
  "isolated m b e A B C st i j \<longleftrightarrow>
     map_ok m (A @ B @ C) st \<and> (\<forall>r \<in> set A. rend r \<le> b) \<and> (\<forall>r \<in> set B. inside b e r) \<and>
     (\<forall>r \<in> set C. e \<le> base r) \<and> (C = [] \<longrightarrow> st \<noteq> []) \<and>
     (if B = [] then i = 0 \<and> j = 0 else i = length A \<and> j = length A + length B)"

lemma isolate_range_ok:
  assumes ok: "map_ok m xs st" and s: "b < b + s" and room: "2 \<le> length st"
  shows "\<exists>m' A B C st' i j. isolate_range m b s = Some (m', Inr (i, j)) \<and> isolated m' b (b + s) A B C st' i j \<and>
     region_at (A @ B @ C) = region_at xs \<and> length (A @ B @ C) + length st' = length xs + length st \<and>
     length (A @ B @ C) \<le> length xs + 2"
proof -
  let ?e = "b + s" and ?ys = "isol b (b + s) xs"
  note wf = map_okD(2) [OF ok] and sh = map_okD(1) [OF ok]
  obtain A B C where ys: "?ys = A @ B @ C" "\<forall>r \<in> set A. rend r \<le> b" "\<forall>r \<in> set B. inside b ?e r"
      "\<forall>r \<in> set C. ?e \<le> base r" "length ?ys \<le> length xs + (if 0 < b then 1 else 0) + (if C = [] then 0 else 1)"
    using isol_split [OF wf s] by blast
  have len: "length ?ys - length xs \<le> length st" "length xs \<le> length ?ys"
    using ys(5) room iso_length [of xs b ?e] by (auto split: if_splits)
  from isolate_eq [of m "[]" xs st 0 b ?e 0 0] sh wf s len obtain m' where
    m': "isolate_loop m 0 b ?e 0 0 = Some (m', scan b ?e 0 ?ys (0, 0))"
      "shape m' ?ys (drop (length ?ys - length xs) st)" "msize m' = msize m"
    by (auto simp: iso_post_def)
  let ?st = "drop (length ?ys - length xs) st"
  have wf': "wf_from 0 ?ys" by (rule isol_wf(1) [OF wf s])
  have "wf_from 0 A" "wf_from (end_of (end_of 0 A) B) C" using wf' ys(1) by auto
  then have "\<forall>r \<in> set A. \<not> inside b ?e r" "\<forall>r \<in> set C. \<not> inside b ?e r"
    using ys(2,4) by (auto simp: inside_def dest!: wf_from_mem)
  then have scan: "scan b ?e 0 ?ys (0, 0) = (if B = [] then (0, 0) else (length A, length A + length B))"
    using ys(1,3) by (simp add: scan_append scan_none scan_all)
  have "map_ok m' ?ys ?st"
  proof (cases "xs = []")
    case True
    with m' ok show ?thesis by (simp add: map_ok_def)
  next
    case False
    then have "?ys \<noteq> []" using len(2) by auto
    moreover have "stale_below (end_of 0 ?ys) ?st"
      using map_okD(4) [OF ok False] isol_wf(2) [OF wf s] by (auto simp: stale_below_def dest!: in_set_dropD)
    ultimately show ?thesis using m'(2,3) wf' isol_wf(3) [OF wf s] map_okD(3) [OF ok] by (simp add: map_ok_def)
  qed
  moreover have "C = [] \<longrightarrow> ?st \<noteq> []" using ys(5) room by (auto split: if_splits)
  ultimately have "isolated m' b ?e A B C ?st (fst (scan b ?e 0 ?ys (0, 0))) (snd (scan b ?e 0 ?ys (0, 0)))"
    unfolding isolated_def scan using ys by simp
  moreover have "isolate_range m b s = Some (m', Inr (scan b ?e 0 ?ys (0, 0)))"
  proof -
    have "s \<noteq> 0" using s by auto
    moreover have "\<not> max_n m < n m + 2" using sh room by (simp add: shape_def)
    ultimately show ?thesis using m'(1) by (cases "scan b ?e 0 ?ys (0, 0)") (simp add: isolate_range_def)
  qed
  moreover have "region_at (A @ B @ C) = region_at xs" using isol_at [OF wf s] ys(1) by (auto simp: fun_eq_iff)
  moreover have "length (A @ B @ C) + length ?st = length xs + length st" using len ys(1) by simp
  moreover have "length (A @ B @ C) \<le> length xs + 2" using ys(1,5) by (auto split: if_splits)
  ultimately show ?thesis by (metis prod.collapse)
qed

section \<open>Changing the entries of a range\<close>

lemma fold_update:
  "fold (\<lambda>i rs. rs[i := f (rs ! i)]) [length A..<length A + length B] (A @ B @ st) = A @ map f B @ st"
proof (induction B arbitrary: A)
  case (Cons r B)
  have "fold (\<lambda>i rs. rs[i := f (rs ! i)]) [length A..<length A + length (r # B)] (A @ (r # B) @ st) =
      fold (\<lambda>i rs. rs[i := f (rs ! i)]) [length (A @ [f r])..<length (A @ [f r]) + length B] ((A @ [f r]) @ B @ st)"
    by (simp add: upt_rec)
  also have "\<dots> = (A @ [f r]) @ map f B @ st" by (rule Cons.IH)
  finally show ?case by simp
qed simp

definition keeps_place :: "(memblock_region \<Rightarrow> memblock_region) \<Rightarrow> bool" where
  "keeps_place f \<longleftrightarrow> (\<forall>r. base (f r) = base r \<and> size (f r) = size r)"

lemma map_props:
  assumes "keeps_place f"
  shows "wf_from lo (map f B) = wf_from lo B" "end_of lo (map f B) = end_of lo B"
    "total_size (map f B) = total_size B"
  using assms by (induction B arbitrary: lo) (auto simp: keeps_place_def rend_def)

definition range_map ::
  "(int \<times> u32 \<Rightarrow> int \<times> u32) \<Rightarrow> u64 \<Rightarrow> u64 \<Rightarrow> u64 \<Rightarrow> (int \<times> u32) option \<Rightarrow> (int \<times> u32) option" where
  "range_map g b e a v = (if b \<le> a \<and> a < e then map_option g v else v)"

lemma region_at_map:
  assumes "keeps_place f" "\<forall>r. (nid (f r), flags (f r)) = g (nid r, flags r)"
  shows "region_at (map f B) a = map_option g (region_at B a)"
  using assms by (induction B) (auto simp: keeps_place_def rend_def)

lemma update_at:
  assumes wf: "wf_from lo (A @ B @ C)" and A: "\<forall>r \<in> set A. rend r \<le> b" and B: "\<forall>r \<in> set B. inside b e r"
    and C: "\<forall>r \<in> set C. e \<le> base r"
    and f: "keeps_place f" "\<forall>r. (nid (f r), flags (f r)) = g (nid r, flags r)"
  shows "region_at (A @ map f B @ C) a = range_map g b e a (region_at (A @ B @ C) a)"
proof -
  have "region_at A a = None" if "b \<le> a" using region_at_SomeD [of A a] A that by (cases "region_at A a") force+
  moreover have "region_at C a = None" if "a < e" using region_at_SomeD [of C a] C that by (cases "region_at C a") force+
  moreover have "region_at B a = None" if "\<not> (b \<le> a \<and> a < e)"
    using region_at_SomeD [of B a] B that by (cases "region_at B a") (force simp: inside_def)+
  ultimately show ?thesis
    by (auto simp: region_at_append region_at_map [OF f] range_map_def split: option.splits)
qed

lemma update_range_isolated:
  assumes "isolated m b e A B C st i j" "keeps_place f"
  shows "map_ok (update_range f m i j) (A @ map f B @ C) st"
proof -
  have i: "map_ok m (A @ B @ C) st" "if B = [] then i = 0 \<and> j = 0 else i = length A \<and> j = length A + length B"
    using assms(1) by (auto simp: isolated_def)
  have "fold (\<lambda>i rs. rs[i := f (rs ! i)]) [i..<j] (regions m) = A @ map f B @ C @ st"
  proof (cases "B = []")
    case True
    with i show ?thesis by (simp add: map_ok_def shape_def)
  next
    case False
    with i have "fold (\<lambda>i rs. rs[i := f (rs ! i)]) [i..<j] (regions m) =
        fold (\<lambda>i rs. rs[i := f (rs ! i)]) [length A..<length A + length B] (A @ B @ (C @ st))"
      by (simp add: map_ok_def shape_def)
    also have "\<dots> = A @ map f B @ (C @ st)" by (rule fold_update)
    finally show ?thesis by simp
  qed
  with i(1) map_props [OF assms(2)] show ?thesis
    by (auto simp: map_ok_def shape_def update_range_def)
qed

text \<open>Cutting, changing and merging: the whole of \<open>memblock_setclr_flag\<close> and \<open>memblock_set_node\<close>.\<close>

lemma change_range_ok:
  assumes ok: "map_ok m xs st" and s: "b < b + s" and room: "2 \<le> length st"
    and f: "keeps_place f" "\<forall>r. (nid (f r), flags (f r)) = g (nid r, flags r)"
  shows "\<exists>m1 i j m' xs' st'. isolate_range m b s = Some (m1, Inr (i, j)) \<and>
     merge_regions (update_range f m1 i j) i j = Some m' \<and> map_ok m' xs' st' \<and>
     length xs' + length st' = length xs + length st \<and> length xs' \<le> length xs + 2 \<and>
     (\<forall>a. region_at xs' a = range_map g b (b + s) a (region_at xs a))"
proof -
  obtain m1 A B C st1 i j where r: "isolate_range m b s = Some (m1, Inr (i, j))"
    "isolated m1 b (b + s) A B C st1 i j" "region_at (A @ B @ C) = region_at xs"
    "length (A @ B @ C) + length st1 = length xs + length st" "length (A @ B @ C) \<le> length xs + 2"
    using isolate_range_ok [OF ok s room] by blast
  have d: "map_ok m1 (A @ B @ C) st1" "\<forall>r \<in> set A. rend r \<le> b" "\<forall>r \<in> set B. inside b (b + s) r"
    "\<forall>r \<in> set C. b + s \<le> base r" "C = [] \<longrightarrow> st1 \<noteq> []"
    "if B = [] then i = 0 \<and> j = 0 else i = length A \<and> j = length A + length B"
    using r(2) by (auto simp: isolated_def)
  have wf: "wf_from 0 (A @ B @ C)" by (rule map_okD(2) [OF d(1)])
  have ok1: "map_ok (update_range f m1 i j) (A @ map f B @ C) st1"
    by (rule update_range_isolated [OF r(2) f(1)])
  have bounds: "j \<le> length (A @ map f B @ C)" "i \<le> length (A @ map f B @ C)"
    "j = length (A @ map f B @ C) \<longrightarrow> st1 \<noteq> [] \<or> j = 0"
    using d(5,6) by (auto split: if_splits)
  from merge_regions_ok [OF ok1 bounds(1,3,2)] obtain m' xs' st' where
    "merge_regions (update_range f m1 i j) i j = Some m'" "map_ok m' xs' st'"
    "region_at xs' = region_at (A @ map f B @ C)" "length xs' + length st' = length (A @ map f B @ C) + length st1"
    "length xs' \<le> length (A @ map f B @ C)"
    by blast
  with r update_at [OF wf d(2-4) f] show ?thesis
    by - (rule exI [of _ m1], rule exI [of _ i], rule exI [of _ j], rule exI [of _ m'], rule exI [of _ xs'],
        rule exI [of _ st'], simp)
qed

lemma setclr_keeps: "keeps_place (setclr_region set_it fl)"
  by (simp add: keeps_place_def setclr_region_def)

definition setclr_value :: "bool \<Rightarrow> u32 \<Rightarrow> int \<times> u32 \<Rightarrow> int \<times> u32" where
  "setclr_value set_it fl v = (fst v, if set_it then snd v OR fl else snd v AND NOT fl)"

lemma setclr_ok:
  assumes ok: "map_ok m xs st" and s: "b \<le> b + s" and room: "2 \<le> length st"
  shows "\<exists>m' xs' st'. memblock_setclr_flag m b s set_it fl = Some (m', Inr ()) \<and> map_ok m' xs' st' \<and>
     length xs' + length st' = length xs + length st \<and> length xs' \<le> length xs + 2 \<and>
     (\<forall>a. region_at xs' a = range_map (setclr_value set_it fl) b (b + s) a (region_at xs a))"
proof (cases "s = 0")
  case True
  then have eq: "memblock_setclr_flag m b s set_it fl = map_option (\<lambda>m. (m, Inr ())) (merge_regions m 0 0)"
    by (cases "merge_regions m 0 0") (simp_all add: memblock_setclr_flag_def isolate_range_def update_range_def)
  have "merge_regions m 0 0 = Some m" by (simp add: merge_regions_def merge_loop.simps)
  moreover have "\<not> (b \<le> a \<and> a < b + s)" for a using True by auto
  ultimately show ?thesis using eq ok
    by - (rule exI [of _ m], rule exI [of _ xs], rule exI [of _ st], auto simp: range_map_def)
next
  case False
  then have "b < b + s" using s by (simp add: order.not_eq_order_implies_strict)
  from change_range_ok [OF ok this room setclr_keeps, where g = "setclr_value set_it fl"] show ?thesis
    by (fastforce simp: memblock_setclr_flag_def setclr_value_def setclr_region_def)
qed

lemma set_node_ok:
  assumes ok: "map_ok m xs st" and s: "b < b + s" and room: "2 \<le> length st"
  shows "\<exists>m' xs' st'. memblock_set_node m b s nd = Some (m', Inr ()) \<and> map_ok m' xs' st' \<and>
     length xs' + length st' = length xs + length st \<and> length xs' \<le> length xs + 2 \<and>
     (\<forall>a. region_at xs' a = range_map (\<lambda>v. (nd, snd v)) b (b + s) a (region_at xs a))"
proof -
  have "keeps_place (\<lambda>r. r\<lparr>nid := nd\<rparr>)" by (simp add: keeps_place_def)
  from change_range_ok [OF ok s room this, where g = "\<lambda>v. (nd, snd v)"] show ?thesis
    by (fastforce simp: memblock_set_node_def)
qed

section \<open>Removing\<close>

lemma remove_region_shape:
  assumes "shape m (pre @ r # xs) st" "i = length pre"
  shows "\<exists>m'. remove_region m i = Some m' \<and> shape m' (pre @ xs) (last (r # xs) # st) \<and>
     msize m' = msize m - size (hd (xs @ [last (r # xs)]))"
proof -
  let ?rs = "pre @ r # xs @ st"
  have m: "regions m = ?rs" "n m = length pre + Suc (length xs)"
    "max_n m = length pre + Suc (length xs) + length st" "max_n m < 2 ^ 63"
    using assms(1) by (auto simp: shape_def)
  have sub: "size_sub (n m) (i + 1) = length xs" using m assms(2) by simp
  have "drop (i + length xs) ?rs = drop (length xs) ((r # xs) @ st)" using assms(2) by simp
  also have "\<dots> = last (r # xs) # st"
  proof -
    have "drop (length xs) (r # xs) = [last (r # xs)]"
      by (metis append_butlast_last_id append_eq_conv_conj length_butlast length_Cons diff_Suc_1 list.distinct(1))
    then show ?thesis by (subst drop_append) simp
  qed
  finally have dr: "drop (i + length xs) ?rs = last (r # xs) # st" .
  have "memmove (regions m) i (i + 1) (size_sub (n m) (i + 1)) =
      Some (take i ?rs @ take (length xs) (drop (i + 1) ?rs) @ drop (i + length xs) ?rs)"
    unfolding sub m(1) using assms(2) by (intro memmove_eq) auto
  then have mv: "memmove (regions m) i (i + 1) (size_sub (n m) (i + 1)) = Some (pre @ xs @ last (r # xs) # st)"
    unfolding dr using assms(2) by simp
  have nth: "(pre @ xs @ last (r # xs) # st) ! i = hd (xs @ [last (r # xs)])"
    using assms(2) by (cases xs) (auto simp: nth_append)
  let ?m = "m\<lparr>regions := pre @ xs @ last (r # xs) # st, n := n m - 1,
      msize := msize m - size (hd (xs @ [last (r # xs)]))\<rparr>"
  have "remove_region m i = Some ?m"
    using mv nth assms(2) by (simp add: remove_region_def)
  moreover have "shape ?m (pre @ xs) (last (r # xs) # st)" using m by (simp add: shape_def)
  ultimately show ?thesis by auto
qed

lemma remove_loop_shape:
  assumes "shape m (A @ B @ C) st"
  shows "\<exists>m' st'. remove_loop m (length A) (length B) = Some m' \<and> shape m' (A @ C) st' \<and>
     length st' = length B + length st"
  using assms
proof (induction B arbitrary: m C st rule: rev_induct)
  case (snoc r B)
  from remove_region_shape [of m "A @ B" r C st "length (A @ B)"] snoc.prems obtain m1 where
    m1: "remove_region m (length A + length B) = Some m1" "shape m1 (A @ B @ C) (last (r # C) # st)" by auto
  from snoc.IH [OF m1(2)] m1(1) show ?case by auto
qed (auto)

lemma remove_ok:
  assumes ok: "map_ok m xs st" and s: "b < b + s" and room: "2 \<le> length st"
  shows "\<exists>m' xs' st'. memblock_remove m b s = Some (m', Inr ()) \<and> shape m' xs' st' \<and> wf_from 0 xs' \<and>
     (\<forall>a. region_at xs' a = (if b \<le> a \<and> a < b + s then None else region_at xs a))"
proof -
  obtain m1 A B C st1 i j where r: "isolate_range m b s = Some (m1, Inr (i, j))"
    "isolated m1 b (b + s) A B C st1 i j" "region_at (A @ B @ C) = region_at xs"
    using isolate_range_ok [OF ok s room] by blast
  have d: "map_ok m1 (A @ B @ C) st1" "\<forall>r \<in> set A. rend r \<le> b" "\<forall>r \<in> set B. inside b (b + s) r"
    "\<forall>r \<in> set C. b + s \<le> base r"
    "if B = [] then i = 0 \<and> j = 0 else i = length A \<and> j = length A + length B"
    using r(2) by (auto simp: isolated_def)
  have wf: "wf_from 0 (A @ B @ C)" by (rule map_okD(2) [OF d(1)])
  have "\<exists>m' st'. remove_loop m1 i (j - i) = Some m' \<and> shape m' (A @ C) st'"
    using remove_loop_shape [OF map_okD(1) [OF d(1)]] map_okD(1) [OF d(1)] d(5) by (cases "B = []") auto
  then obtain m' st' where m': "remove_loop m1 i (j - i) = Some m'" "shape m' (A @ C) st'" by blast
  have "end_of 0 A \<le> end_of (end_of 0 A) B" using wf by (intro wf_from_end) simp
  then have "wf_from 0 (A @ C)" using wf by (auto intro: wf_from_le)
  moreover have "region_at (A @ C) a = (if b \<le> a \<and> a < b + s then None else region_at xs a)" for a
  proof -
    have "region_at A a = None" if "b \<le> a" using region_at_SomeD [of A a] d(2) that by (cases "region_at A a") force+
    moreover have "region_at C a = None" if "a < b + s" using region_at_SomeD [of C a] d(4) that by (cases "region_at C a") force+
    moreover have "region_at B a = None" if "\<not> (b \<le> a \<and> a < b + s)"
      using region_at_SomeD [of B a] d(3) that by (cases "region_at B a") (force simp: inside_def)+
    ultimately show ?thesis
      unfolding r(3) [symmetric] by (auto simp: region_at_append split: option.splits)
  qed
  ultimately show ?thesis using r(1) m' by (auto simp: memblock_remove_def)
qed

section \<open>Allocating\<close>

text \<open>
  A block \<open>[q .. q + s)\<close> that an allocation from \<open>[lo .. hi)\<close> may return: aligned, inside one region
  that is free and on the node asked for.
\<close>

definition fits :: "u64 \<Rightarrow> u64 \<Rightarrow> int \<Rightarrow> u64 \<Rightarrow> u64 \<Rightarrow> u64 \<Rightarrow> memblock_region \<Rightarrow> bool" where
  "fits lo hi nd q s align r \<longleftrightarrow>
     flags r = MEMBLOCK_NONE \<and> (nd = -1 \<or> nd = nid r) \<and> lo \<le> q \<and> base r \<le> q \<and> q < rend r \<and> q < hi \<and>
     s \<le> rend r - q \<and> s \<le> hi - q \<and> unat align dvd unat q"

lemma le_diff_min: "q < x \<Longrightarrow> q < y \<Longrightarrow> (s :: u64) \<le> min x y - q \<longleftrightarrow> s \<le> x - q \<and> s \<le> y - q"
  by (cases "x \<le> y") (auto simp: min_def word_le_nat_alt word_less_nat_alt unat_sub)

lemma find_loop_sound:
  assumes k: "k < 64" and wf: "wf_from lo0 xs" and lo: "lo \<le> hi"
    and res: "find_loop xs s (2 ^ k) lo hi nd MEMBLOCK_NONE = q" "q \<noteq> 0"
  shows "\<exists>r \<in> set xs. fits lo hi nd q s (2 ^ k) r"
  using wf res
proof (induction xs arbitrary: lo0)
  case (Cons r rs)
  let ?b = "ALIGN_KERNEL (clamp (base r) lo hi) (2 ^ k)" and ?e = "clamp (base r + size r) lo hi"
  show ?case
  proof (cases "flags r = MEMBLOCK_NONE \<and> \<not> (nd \<noteq> -1 \<and> nd \<noteq> nid r) \<and> ?b < ?e \<and> s \<le> ?e - ?b")
    case True
    with Cons.prems(2) have q: "q = ?b" by simp
    have up: "clamp (base r) lo hi \<le> q" "2 ^ k dvd unat q"
      using align_up_props [OF k, of "clamp (base r) lo hi"] Cons.prems(3) q by auto
    have lt: "q < ?e" "s \<le> ?e - q" using True q by auto
    have e: "?e = min (max (rend r) lo) hi" by (simp add: clamp_def rend_def)
    have b: "clamp (base r) lo hi = min (max (base r) lo) hi" by (simp add: clamp_def)
    have qhi: "q < hi" using lt(1) e by simp
    then have "max (base r) lo \<le> q" using up(1) b by (auto simp: min_def split: if_splits)
    then have low: "base r \<le> q" "lo \<le> q" by auto
    then have "q < rend r" using lt(1) e by (auto simp: min_def max_def split: if_splits)
    moreover from this low have "?e = min (rend r) hi" unfolding e by (auto simp: max_def)
    ultimately have "s \<le> rend r - q" "s \<le> hi - q" using lt(2) qhi le_diff_min by auto
    then have "fits lo hi nd q s (2 ^ k) r"
      using True low qhi up(2) \<open>q < rend r\<close> by (auto simp: fits_def unat_pow2_u64 [OF k])
    then show ?thesis by simp
  next
    case False
    with Cons.prems(2) have "find_loop rs s (2 ^ k) lo hi nd MEMBLOCK_NONE = q"
      by (auto simp: Let_def split: if_splits)
    with Cons.IH Cons.prems(1,3) show ?thesis by auto
  qed
qed simp

text \<open>While no address comes near the end of the address space, a fitting block is always found.\<close>

lemma find_loop_complete:
  assumes k: "k < 63" and small: "\<forall>r \<in> set xs. unat (base r) \<le> 2 ^ 63" and lo: "0 < lo" "lo \<le> hi" "unat lo \<le> 2 ^ 63"
    and r: "r \<in> set xs" "fits lo hi nd q s (2 ^ k) r"
  shows "find_loop xs s (2 ^ k) lo hi nd MEMBLOCK_NONE \<noteq> 0"
  using small r
proof (induction xs)
  case (Cons x rs)
  let ?b = "ALIGN_KERNEL (clamp (base x) lo hi) (2 ^ k)" and ?e = "clamp (base x + size x) lo hi"
  have k': "k < 64" using k by simp
  have "(2::nat) ^ k \<le> 2 ^ 63" using k by (intro power_increasing) auto
  moreover have "clamp (base x) lo hi \<le> max (base x) lo" by (simp add: clamp_def)
  then have "unat (clamp (base x) lo hi) \<le> 2 ^ 63"
    using Cons.prems(1) lo(3) by (auto simp: word_le_nat_alt max_def split: if_splits)
  ultimately have fit: "unat (clamp (base x) lo hi) + 2 ^ k \<le> 2 ^ 64" by simp
  have "lo \<le> clamp (base x) lo hi" using lo by (simp add: clamp_bounds)
  also have "\<dots> \<le> ?b"
    using div_up_bounds(1) [of "2 ^ k" "unat (clamp (base x) lo hi)"] align_up [OF k' fit] by (simp add: word_le_nat_alt)
  finally have nz: "?b \<noteq> 0" using lo(1) by auto
  show ?case
  proof (cases "x = r")
    case False
    with Cons nz show ?thesis by (auto simp: Let_def)
  next
    case True
    have f: "flags x = MEMBLOCK_NONE" "nd = -1 \<or> nd = nid x" "lo \<le> q" "base x \<le> q" "q < rend x" "q < hi"
      "s \<le> rend x - q" "s \<le> hi - q" "2 ^ k dvd unat q"
      using Cons.prems(3) True by (auto simp: fits_def unat_pow2_u64 [OF k'])
    have "clamp (base x) lo hi \<le> q" using f(3,4,6) by (auto simp: clamp_def min_def max_def)
    then have le: "?b \<le> q" by (rule align_up_least [OF k' f(9)])
    have e: "?e = min (rend x) hi"
      using f(3,5) by (auto simp: clamp_def rend_def max_def)
    then have lt: "q < ?e" "s \<le> ?e - q" using f le_diff_min by auto
    then have "?b < ?e" "s \<le> ?e - ?b"
      using le by (auto simp: word_le_nat_alt word_less_nat_alt unat_sub)
    with f(1,2) nz show ?thesis by (auto simp: Let_def)
  qed
qed simp

definition alloc_low :: "u64 \<Rightarrow> u64" where "alloc_low start = max start PAGE_SIZE"

definition alloc_high :: "u64 \<Rightarrow> u64 \<Rightarrow> u64" where "alloc_high start e = max (max start PAGE_SIZE) e"

lemma fits_nowrap: "fits lo hi nd q s al r \<Longrightarrow> q \<le> q + s \<and> q + s \<le> rend r \<and> q + s \<le> hi"
proof -
  assume f: "fits lo hi nd q s al r"
  have main: "q \<le> q + s \<and> q + s \<le> x" if "q < x" "s \<le> x - q" for x
  proof -
    have "unat q + unat s \<le> unat x" using that by (simp add: word_le_nat_alt word_less_nat_alt unat_sub)
    moreover from this have "unat (q + s) = unat q + unat s"
      using unat_u64_lt [of x] by (intro unat_add_nowrap) simp
    ultimately show ?thesis by (simp add: word_le_nat_alt)
  qed
  with f show ?thesis by (auto simp: fits_def)
qed

lemma alloc_try_ok:
  assumes ok: "map_ok m xs st" and k: "k < 64" and room: "2 \<le> length st"
  shows "\<exists>m' p xs' st'. alloc_try m s (2 ^ k) start e nd = Some (m', p) \<and> map_ok m' xs' st' \<and>
     length xs' + length st' = length xs + length st \<and> length xs' \<le> length xs + 2 \<and>
     (if p = 0 then m' = m \<and> find_in_range_node m s (2 ^ k) start e nd MEMBLOCK_NONE = 0
      else (\<exists>r \<in> set xs. fits (alloc_low start) (alloc_high start e) nd p s (2 ^ k) r) \<and>
        (\<forall>a. region_at xs' a = range_map (setclr_value True MEMBLOCK_RESERVED) p (p + s) a (region_at xs a)))"
proof -
  let ?p = "find_in_range_node m s (2 ^ k) start e nd MEMBLOCK_NONE"
  have find: "?p = find_loop xs s (2 ^ k) (alloc_low start) (alloc_high start e) nd MEMBLOCK_NONE"
    using map_okD(1) [OF ok] by (simp add: find_in_range_node_def shape_def alloc_low_def alloc_high_def Let_def)
  show ?thesis
  proof (cases "?p = 0")
    case True
    then have "alloc_try m s (2 ^ k) start e nd = Some (m, 0)" by (simp add: alloc_try_def)
    with True ok show ?thesis
      by - (rule exI [of _ m], rule exI [of _ 0], rule exI [of _ xs], rule exI [of _ st], simp)
  next
    case False
    have "alloc_low start \<le> alloc_high start e" by (simp add: alloc_low_def alloc_high_def)
    from find_loop_sound [OF k map_okD(2) [OF ok] this find [symmetric] False] obtain r where
      r: "r \<in> set xs" "fits (alloc_low start) (alloc_high start e) nd ?p s (2 ^ k) r" by blast
    then have "?p \<le> ?p + s" using fits_nowrap by blast
    from setclr_ok [OF ok this room, of True MEMBLOCK_RESERVED] obtain m' xs' st' where
      "memblock_setclr_flag m ?p s True MEMBLOCK_RESERVED = Some (m', Inr ())" "map_ok m' xs' st'"
      "length xs' + length st' = length xs + length st" "length xs' \<le> length xs + 2"
      "\<forall>a. region_at xs' a = range_map (setclr_value True MEMBLOCK_RESERVED) ?p (?p + s) a (region_at xs a)"
      by blast
    with False r show ?thesis
      by - (rule exI [of _ m'], rule exI [of _ ?p], rule exI [of _ xs'], rule exI [of _ st'],
          auto simp: alloc_try_def Let_def)
  qed
qed

section \<open>The map as a function of the address\<close>

definition mem_map :: "memblock \<Rightarrow> u64 \<Rightarrow> (int \<times> u32) option" where
  "mem_map m a = region_at (take (n m) (regions m)) a"

definition memblock_ok :: "memblock \<Rightarrow> bool" where
  "memblock_ok m \<longleftrightarrow> (\<exists>xs st. map_ok m xs st)"

lemma shape_live:
  assumes "shape m xs st"
  shows "take (n m) (regions m) = xs" "drop (n m) (regions m) = st" "n m = length xs"
    "max_n m = length xs + length st" "mem_map m = region_at xs"
  using assms by (auto simp: shape_def mem_map_def fun_eq_iff)

lemmas ok_live = shape_live [OF map_okD(1)]

lemma length_add_list_le: "length (add_list b e nd fl xs) \<le> 2 * length xs + 1"
  by (induction b e nd fl xs rule: add_list.induct) (auto simp: gap_def)

text \<open>The steps the kernel makes on the map while there is room.\<close>

inductive mb_step :: "memblock \<Rightarrow> memblock \<Rightarrow> bool" where
  add: "b \<le> b + s \<Longrightarrow> 2 * n m + 1 < max_n m \<Longrightarrow> memblock_add m b s nd fl = Some m' \<Longrightarrow> mb_step m m'"
| setclr: "b \<le> b + s \<Longrightarrow> n m + 2 \<le> max_n m \<Longrightarrow> memblock_setclr_flag m b s set_it fl = Some (m', r) \<Longrightarrow> mb_step m m'"
| node: "b < b + s \<Longrightarrow> n m + 2 \<le> max_n m \<Longrightarrow> memblock_set_node m b s nd = Some (m', r) \<Longrightarrow> mb_step m m'"
| alloc: "k < 64 \<Longrightarrow> n m + 2 \<le> max_n m \<Longrightarrow> memblock_alloc m s (2 ^ k) start e nd exact = Some (m', p) \<Longrightarrow> mb_step m m'"

inductive mb_reach :: "memblock \<Rightarrow> bool" where
  init: "mb_reach memory_init"
| step: "mb_reach m \<Longrightarrow> mb_step m m' \<Longrightarrow> mb_reach m'"

lemma memory_init_ok: "map_ok memory_init [] (replicate NR_REGIONS zero_region)"
  by (simp add: map_ok_def shape_def memory_init_def zero_region_def)

lemma memblock_add_ok:
  assumes ok: "memblock_ok m" and s: "b \<le> b + s" and room: "2 * n m + 1 < max_n m"
  shows "\<exists>m'. memblock_add m b s nd fl = Some m' \<and> memblock_ok m' \<and> max_n m' = max_n m \<and>
     (\<forall>a. mem_map m' a = add_value b (b + s) nd (fl AND NOT MEMBLOCK_RESERVED) a (mem_map m a))"
proof -
  obtain xs st where ok': "map_ok m xs st" using ok by (auto simp: memblock_ok_def)
  note l = ok_live [OF ok']
  let ?fl = "fl AND NOT MEMBLOCK_RESERVED"
  have "length (add_list b (b + s) nd ?fl xs) < length xs + length st"
    using room length_add_list_le [of b "b + s" nd ?fl xs] l by simp
  from add_range_ok [OF ok' s this] obtain m' xs' st' where
    r: "add_range m b s nd ?fl = Some m'" "map_ok m' xs' st'" "length xs' + length st' = length xs + length st"
      "\<forall>a. region_at xs' a = add_value b (b + s) nd ?fl a (region_at xs a)" by blast
  with l ok_live [OF r(2)] show ?thesis by (auto simp: memblock_add_def memblock_ok_def)
qed

lemma memblock_setclr_ok:
  assumes ok: "memblock_ok m" and s: "b \<le> b + s" and room: "n m + 2 \<le> max_n m"
  shows "\<exists>m'. memblock_setclr_flag m b s set_it fl = Some (m', Inr ()) \<and> memblock_ok m' \<and> max_n m' = max_n m \<and> n m' \<le> n m + 2 \<and>
     (\<forall>a. mem_map m' a = range_map (setclr_value set_it fl) b (b + s) a (mem_map m a))"
proof -
  obtain xs st where ok': "map_ok m xs st" using ok by (auto simp: memblock_ok_def)
  note l = ok_live [OF ok']
  have "2 \<le> length st" using room l by simp
  from setclr_ok [OF ok' s this, of set_it fl] obtain m' xs' st' where
    r: "memblock_setclr_flag m b s set_it fl = Some (m', Inr ())" "map_ok m' xs' st'"
      "length xs' + length st' = length xs + length st" "length xs' \<le> length xs + 2"
      "\<forall>a. region_at xs' a = range_map (setclr_value set_it fl) b (b + s) a (region_at xs a)" by blast
  with l ok_live [OF r(2)] show ?thesis by (auto simp: memblock_ok_def)
qed

lemma memblock_set_node_ok:
  assumes ok: "memblock_ok m" and s: "b < b + s" and room: "n m + 2 \<le> max_n m"
  shows "\<exists>m'. memblock_set_node m b s nd = Some (m', Inr ()) \<and> memblock_ok m' \<and> max_n m' = max_n m \<and> n m' \<le> n m + 2 \<and>
     (\<forall>a. mem_map m' a = range_map (\<lambda>v. (nd, snd v)) b (b + s) a (mem_map m a))"
proof -
  obtain xs st where ok': "map_ok m xs st" using ok by (auto simp: memblock_ok_def)
  note l = ok_live [OF ok']
  have "2 \<le> length st" using room l by simp
  from set_node_ok [OF ok' s this, of nd] obtain m' xs' st' where
    r: "memblock_set_node m b s nd = Some (m', Inr ())" "map_ok m' xs' st'"
      "length xs' + length st' = length xs + length st" "length xs' \<le> length xs + 2"
      "\<forall>a. region_at xs' a = range_map (\<lambda>v. (nd, snd v)) b (b + s) a (region_at xs a)" by blast
  with l ok_live [OF r(2)] show ?thesis by (auto simp: memblock_ok_def)
qed

text \<open>What an allocation promises: the block was free, on the node, aligned and in the range; now it is reserved.\<close>

definition alloc_post ::
  "memblock \<Rightarrow> u64 \<Rightarrow> nat \<Rightarrow> u64 \<Rightarrow> u64 \<Rightarrow> int \<Rightarrow> memblock \<Rightarrow> u64 \<Rightarrow> bool" where
  "alloc_post m s k start e nd m' p \<longleftrightarrow>
     p \<noteq> 0 \<and> 2 ^ k dvd unat p \<and> PAGE_SIZE \<le> p \<and> start \<le> p \<and> p \<le> p + s \<and> p + s \<le> e \<and>
     (\<forall>a. p \<le> a \<and> a < p + s \<longrightarrow> (\<exists>nd'. mem_map m a = Some (nd', MEMBLOCK_NONE) \<and> (nd = -1 \<or> nd' = nd))) \<and>
     (\<forall>a. mem_map m' a = range_map (setclr_value True MEMBLOCK_RESERVED) p (p + s) a (mem_map m a))"

lemma alloc_try_post:
  assumes ok: "memblock_ok m" and k: "k < 64" and room: "n m + 2 \<le> max_n m"
  shows "\<exists>m' p. alloc_try m s (2 ^ k) start e nd = Some (m', p) \<and> memblock_ok m' \<and> max_n m' = max_n m \<and> n m' \<le> n m + 2 \<and>
     (if p = 0 then m' = m \<and> find_in_range_node m s (2 ^ k) start e nd MEMBLOCK_NONE = 0
      else alloc_post m s k start e nd m' p)"
proof -
  obtain xs st where ok': "map_ok m xs st" using ok by (auto simp: memblock_ok_def)
  note l = ok_live [OF ok']
  have "2 \<le> length st" using room l by simp
  from alloc_try_ok [OF ok' k this, of s start e nd] obtain m' p xs' st' where
    r: "alloc_try m s (2 ^ k) start e nd = Some (m', p)" "map_ok m' xs' st'"
      "length xs' + length st' = length xs + length st" "length xs' \<le> length xs + 2"
      "if p = 0 then m' = m \<and> find_in_range_node m s (2 ^ k) start e nd MEMBLOCK_NONE = 0
       else (\<exists>r \<in> set xs. fits (alloc_low start) (alloc_high start e) nd p s (2 ^ k) r) \<and>
        (\<forall>a. region_at xs' a = range_map (setclr_value True MEMBLOCK_RESERVED) p (p + s) a (region_at xs a))"
    by blast
  note l' = ok_live [OF r(2)]
  have "alloc_post m s k start e nd m' p" if nz: "p \<noteq> 0"
  proof -
    obtain r where r': "r \<in> set xs" "fits (alloc_low start) (alloc_high start e) nd p s (2 ^ k) r"
      using r(5) nz by auto
    note f = r'(2) [unfolded fits_def] and nw = fits_nowrap [OF r'(2)]
    have low: "PAGE_SIZE \<le> p" "start \<le> p" using f by (auto simp: alloc_low_def)
    have "p < alloc_high start e" using f by simp
    then have high: "alloc_high start e = e" using low by (auto simp: alloc_high_def max_def split: if_splits)
    have "mem_map m a = Some (nid r, MEMBLOCK_NONE)" if "p \<le> a" "a < p + s" for a
    proof -
      have "base r \<le> a" "a < rend r" using f nw that by auto
      then have "region_at xs a = Some (nid r, flags r)" by (rule region_at_mem [OF map_okD(2) [OF ok'] r'(1)])
      with f l show ?thesis by auto
    qed
    moreover have "nd = -1 \<or> nid r = nd" using f by auto
    ultimately have free: "\<forall>a. p \<le> a \<and> a < p + s \<longrightarrow>
        (\<exists>nd'. mem_map m a = Some (nd', MEMBLOCK_NONE) \<and> (nd = -1 \<or> nd' = nd))" by blast
    have "2 ^ k dvd unat p" using f by (simp add: unat_pow2_u64 [OF k])
    moreover have "\<forall>a. mem_map m' a = range_map (setclr_value True MEMBLOCK_RESERVED) p (p + s) a (mem_map m a)"
      using r(5) nz unfolding l(5) l'(5) by simp
    moreover have "p \<le> p + s" "p + s \<le> e" using nw high by auto
    ultimately show ?thesis
      unfolding alloc_post_def using nz low free by (intro conjI) assumption+
  qed
  moreover have "memblock_ok m'" using r(2) by (auto simp: memblock_ok_def)
  moreover have "max_n m' = max_n m" using r(3) l(4) l'(4) by simp
  moreover have "n m' \<le> n m + 2" using r(4) l(3) l'(3) by simp
  ultimately show ?thesis using r(1,5) by (cases "p = 0") auto
qed

lemma memblock_alloc_ok:
  assumes ok: "memblock_ok m" and k: "k < 64" and room: "n m + 2 \<le> max_n m"
  shows "\<exists>m' p. memblock_alloc m s (2 ^ k) start e nd exact = Some (m', p) \<and> memblock_ok m' \<and> max_n m' = max_n m \<and> n m' \<le> n m + 2 \<and>
     (if p = 0 then m' = m \<and> find_in_range_node m s (2 ^ k) start e (if exact then nd else -1) MEMBLOCK_NONE = 0
      else alloc_post m s k start e nd m' p \<or> \<not> exact \<and> alloc_post m s k start e (-1) m' p)"
proof -
  obtain m1 p1 where t1: "alloc_try m s (2 ^ k) start e nd = Some (m1, p1)" "memblock_ok m1" "max_n m1 = max_n m" "n m1 \<le> n m + 2"
    "if p1 = 0 then m1 = m \<and> find_in_range_node m s (2 ^ k) start e nd MEMBLOCK_NONE = 0
     else alloc_post m s k start e nd m1 p1"
    using alloc_try_post [OF ok k room] by blast
  show ?thesis
  proof (cases "p1 \<noteq> 0 \<or> nd = -1 \<or> exact")
    case True
    with t1 show ?thesis
      by - (rule exI [of _ m1], rule exI [of _ p1], auto simp: memblock_alloc_def split: if_splits)
  next
    case False
    obtain m2 p2 where t2: "alloc_try m s (2 ^ k) start e (-1) = Some (m2, p2)" "memblock_ok m2" "max_n m2 = max_n m" "n m2 \<le> n m + 2"
      "if p2 = 0 then m2 = m \<and> find_in_range_node m s (2 ^ k) start e (-1) MEMBLOCK_NONE = 0
       else alloc_post m s k start e (-1) m2 p2"
      using alloc_try_post [OF ok k room] by blast
    with False t1 show ?thesis
      by - (rule exI [of _ m2], rule exI [of _ p2], auto simp: memblock_alloc_def split: if_splits)
  qed
qed

lemma mb_step_ok:
  assumes "mb_step m m'" "memblock_ok m"
  shows "memblock_ok m' \<and> max_n m' = max_n m"
  using assms(1)
proof cases
  case (add b s nd fl)
  with memblock_add_ok [OF assms(2), of b s nd fl] show ?thesis by auto
next
  case (setclr b s set_it fl r)
  with memblock_setclr_ok [OF assms(2), of b s set_it fl] show ?thesis by auto
next
  case (node b s nd r)
  with memblock_set_node_ok [OF assms(2), of b s nd] show ?thesis by auto
next
  case (alloc k s start e nd exact p)
  with memblock_alloc_ok [OF assms(2), of k s start e nd exact] show ?thesis by auto
qed

lemma mb_reach_ok: "mb_reach m \<Longrightarrow> memblock_ok m \<and> max_n m = NR_REGIONS"
proof (induction rule: mb_reach.induct)
  case init
  then show ?case using memory_init_ok by (auto simp: memblock_ok_def memory_init_def)
next
  case (step m m')
  then show ?case using mb_step_ok by auto
qed

end
