(* ===== verification/MemblockProps.thy ===== *)
theory MemblockProps
  imports MemblockMap
begin

text \<open>
  The properties of the memory map: each operation as a function on \<open>mem_map\<close>, the safety and the
  completeness of the allocator, the invariant of every reachable state, and two faults of the
  removal.
\<close>

section \<open>Properties\<close>

text \<open>A map with one free region, for the concrete instances.\<close>

definition one_region :: memblock where
  "one_region = \<lparr>n = 1, max_n = 128, msize = 0x400000,
     regions = mk_region 0x100000 0x400000 (-1) 0 # replicate 127 zero_region\<rparr>"

lemma one_region_map_ok:
  "map_ok one_region [mk_region 0x100000 0x400000 (-1) 0] (replicate 127 zero_region)"
  by (simp add: map_ok_def shape_def one_region_def stale_below_def zero_region_def)

lemma one_region_ok: "memblock_ok one_region" "n one_region = 1" "max_n one_region = 128"
  using one_region_map_ok by (auto simp: memblock_ok_def one_region_def)

lemma one_region_live: "take (Suc 0) (regions one_region) = [mk_region 0x100000 0x400000 (-1) 0]"
  by (simp add: one_region_def)

text \<open>
  C7: \<open>memblock_add\<close> adds exactly the addresses of the range that the map does not have, with the
  node and the flags given (never the reserved flag); what the map has is kept, and the map stays
  well-formed.  The sufficient room is that of a gap before and behind every region.
\<close>

theorem memblock_add_refines:
  assumes "memblock_ok m" "b \<le> b + s" "2 * n m + 1 < max_n m"
  shows "\<exists>m'. memblock_add m b s nd fl = Some m' \<and> memblock_ok m' \<and> max_n m' = max_n m \<and>
     (\<forall>a. mem_map m' a = (case mem_map m a of Some x \<Rightarrow> Some x
        | None \<Rightarrow> if b \<le> a \<and> a < b + s then Some (nd, fl AND NOT MEMBLOCK_RESERVED) else None))"
  using memblock_add_ok [OF assms, of nd fl] unfolding add_value_def by (metis (lifting) option.case_eq_if)

theorem memblock_add_refines_witness:
  "\<exists>m'. memblock_add one_region 0x80000 0x100000 0 0 = Some m' \<and> memblock_ok m' \<and> max_n m' = max_n one_region \<and>
     (\<forall>a. mem_map m' a = (case mem_map one_region a of Some x \<Rightarrow> Some x
        | None \<Rightarrow> if 0x80000 \<le> a \<and> a < 0x80000 + 0x100000 then Some (0, 0 AND NOT MEMBLOCK_RESERVED) else None))"
  by (rule memblock_add_refines) (simp_all add: one_region_ok)

text \<open>
  C8: \<open>memblock_reserve\<close> sets the reserved flag on exactly the addresses of the range that the map
  has and changes nothing else, splitting and merging entries as needed.
\<close>

theorem memblock_reserve_refines:
  assumes "memblock_ok m" "b \<le> b + s" "n m + 2 \<le> max_n m"
  shows "\<exists>m'. memblock_reserve m b s = Some (m', Inr ()) \<and> memblock_ok m' \<and> max_n m' = max_n m \<and>
     (\<forall>a. mem_map m' a = (if b \<le> a \<and> a < b + s
        then map_option (\<lambda>(nd, fl). (nd, fl OR MEMBLOCK_RESERVED)) (mem_map m a) else mem_map m a))"
proof -
  have "setclr_value True MEMBLOCK_RESERVED = (\<lambda>(nd, fl). (nd, fl OR MEMBLOCK_RESERVED))"
    by (auto simp: setclr_value_def)
  moreover obtain m' where "memblock_setclr_flag m b s True MEMBLOCK_RESERVED = Some (m', Inr ())" "memblock_ok m'" "max_n m' = max_n m"
      "\<forall>a. mem_map m' a = range_map (setclr_value True MEMBLOCK_RESERVED) b (b + s) a (mem_map m a)"
    using memblock_setclr_ok [OF assms, of True MEMBLOCK_RESERVED] by blast
  ultimately show ?thesis by (simp add: memblock_reserve_def range_map_def)
qed

theorem memblock_reserve_refines_witness:
  "\<exists>m'. memblock_reserve one_region 0x180000 0x1000 = Some (m', Inr ()) \<and> memblock_ok m' \<and> max_n m' = max_n one_region \<and>
     (\<forall>a. mem_map m' a = (if 0x180000 \<le> a \<and> a < 0x180000 + 0x1000
        then map_option (\<lambda>(nd, fl). (nd, fl OR MEMBLOCK_RESERVED)) (mem_map one_region a) else mem_map one_region a))"
  by (rule memblock_reserve_refines) (simp_all add: one_region_ok)

text \<open>
  \<open>memblock_set_node\<close> moves exactly the addresses of the range to the node and keeps their flags.
\<close>

theorem memblock_set_node_refines:
  assumes "memblock_ok m" "b < b + s" "n m + 2 \<le> max_n m"
  shows "\<exists>m'. memblock_set_node m b s nd = Some (m', Inr ()) \<and> memblock_ok m' \<and> max_n m' = max_n m \<and>
     (\<forall>a. mem_map m' a = (if b \<le> a \<and> a < b + s
        then map_option (\<lambda>(_, fl). (nd, fl)) (mem_map m a) else mem_map m a))"
proof -
  obtain m' where m': "memblock_set_node m b s nd = Some (m', Inr ())" "memblock_ok m'" "max_n m' = max_n m"
    "\<forall>a. mem_map m' a = range_map (\<lambda>v. (nd, snd v)) b (b + s) a (mem_map m a)"
    using memblock_set_node_ok [OF assms, of nd] by blast
  have "range_map (\<lambda>v. (nd, snd v)) b (b + s) a v =
      (if b \<le> a \<and> a < b + s then map_option (\<lambda>(_, fl). (nd, fl)) v else v)" for a v
    by (cases v) (auto simp: range_map_def)
  with m' show ?thesis by (intro exI [of _ m']) simp
qed

theorem memblock_set_node_refines_witness:
  "\<exists>m'. memblock_set_node one_region 0 (-1) 0 = Some (m', Inr ()) \<and> memblock_ok m' \<and> max_n m' = max_n one_region \<and>
     (\<forall>a. mem_map m' a = (if 0 \<le> a \<and> a < 0 + - 1
        then map_option (\<lambda>(_, fl). (0, fl)) (mem_map one_region a) else mem_map one_region a))"
  by (rule memblock_set_node_refines)
    (simp_all add: one_region_ok word_less_nat_alt unsigned_minus_1_eq_mask mask_eq_exp_minus_1)

text \<open>
  C5: an address that \<open>memblock_alloc\<close> returns is the start of an aligned block inside the range
  asked for, not in page zero, all of whose bytes were free memory of the node asked for (or of any
  node, when the node is not exact); afterwards exactly this block is reserved.  If it returns 0 the
  map is unchanged.
\<close>

theorem memblock_alloc_correct:
  assumes "memblock_ok m" "k < 64" "n m + 2 \<le> max_n m"
  shows "\<exists>m' p. memblock_alloc m s (2 ^ k) start e nd exact = Some (m', p) \<and> memblock_ok m' \<and>
     (if p = 0 then m' = m
      else alloc_post m s k start e nd m' p \<or> \<not> exact \<and> alloc_post m s k start e (-1) m' p)"
  using memblock_alloc_ok [OF assms, of s start e nd exact] by (auto split: if_splits)

theorem memblock_alloc_correct_witness:
  "\<exists>m' p. memblock_alloc one_region 0x2000 (2 ^ 12) 0 (-1) (-1) False = Some (m', p) \<and> memblock_ok m' \<and>
     (if p = 0 then m' = one_region
      else alloc_post one_region 0x2000 12 0 (-1) (-1) m' p \<or>
        \<not> False \<and> alloc_post one_region 0x2000 12 0 (-1) (-1) m' p)"
  by (rule memblock_alloc_correct) (simp_all add: one_region_ok)

text \<open>
  C10: the allocator finds a block whenever one region of the map has room for one: it does not
  return 0 then, whether or not the node is exact.
\<close>

theorem memblock_alloc_complete:
  assumes "memblock_ok m" "k < 63" "n m + 2 \<le> max_n m"
    and "r \<in> set (take (n m) (regions m))" "flags r = MEMBLOCK_NONE" "nd = -1 \<or> nd = nid r"
    and "PAGE_SIZE \<le> q" "start \<le> q" "base r \<le> q" "q < rend r" "q < e" "s \<le> rend r - q" "s \<le> e - q" "2 ^ k dvd unat q"
    and "\<forall>x \<in> set (take (n m) (regions m)). unat (base x) \<le> 2 ^ 63" "unat start \<le> 2 ^ 63"
  shows "\<exists>m' p. memblock_alloc m s (2 ^ k) start e nd exact = Some (m', p) \<and> p \<noteq> 0"
proof -
  have k: "k < 64" using assms(2) by simp
  have e: "alloc_high start e = e" using assms(7,8,11) by (auto simp: alloc_high_def max_def)
  have lo: "0 < alloc_low start" "alloc_low start \<le> e" "unat (alloc_low start) \<le> 2 ^ 63"
    using assms(7,8,11,16) by (auto simp: alloc_low_def max_def word_less_nat_alt word_le_nat_alt)
  have "fits (alloc_low start) e nd q s (2 ^ k) r"
    using assms(5-14) by (auto simp: fits_def alloc_low_def unat_pow2_u64 [OF k])
  from find_loop_complete [OF assms(2,15) lo assms(4) this]
  have nz: "find_in_range_node m s (2 ^ k) start e nd MEMBLOCK_NONE \<noteq> 0"
    using e by (simp add: find_in_range_node_def Let_def alloc_low_def alloc_high_def)
  obtain m' p where t: "alloc_try m s (2 ^ k) start e nd = Some (m', p)"
      "p = 0 \<longrightarrow> find_in_range_node m s (2 ^ k) start e nd MEMBLOCK_NONE = 0"
    using alloc_try_post [OF assms(1) k assms(3), of s start e nd] by metis
  with nz show ?thesis by (auto simp: memblock_alloc_def)
qed

theorem memblock_alloc_complete_witness:
  "\<exists>m' p. memblock_alloc one_region 0x2000 (2 ^ 12) 0 (-1) (-1) False = Some (m', p) \<and> p \<noteq> 0"
  by (rule memblock_alloc_complete [where r = "mk_region 0x100000 0x400000 (-1) 0" and q = "0x100000"])
    (simp_all add: one_region_ok one_region_live word_le_nat_alt word_less_nat_alt
      unsigned_minus_1_eq_mask mask_eq_exp_minus_1)

text \<open>
  C12: freeing what was allocated gives the map back.
\<close>

theorem alloc_free_roundtrip:
  assumes "memblock_ok m" "k < 64" "n m + 2 \<le> max_n m"
    and "memblock_alloc m s (2 ^ k) start e nd exact = Some (m1, p)" "p \<noteq> 0" "n m1 + 2 \<le> max_n m1"
  shows "\<exists>m2. memblock_free m1 p s = Some m2 \<and> mem_map m2 = mem_map m"
proof -
  obtain nd' where post: "alloc_post m s k start e nd' m1 p" and ok1: "memblock_ok m1"
    using memblock_alloc_ok [OF assms(1-3), of s start e nd exact] assms(4,5) by auto
  have p: "p \<le> p + s" using post by (simp add: alloc_post_def)
  obtain m2 where m2: "memblock_setclr_flag m1 p s False MEMBLOCK_RESERVED = Some (m2, Inr ())"
    "\<forall>a. mem_map m2 a = range_map (setclr_value False MEMBLOCK_RESERVED) p (p + s) a (mem_map m1 a)"
    using memblock_setclr_ok [OF ok1 p assms(6), of False MEMBLOCK_RESERVED] by blast
  have "mem_map m2 a = mem_map m a" for a
  proof (cases "p \<le> a \<and> a < p + s")
    case True
    then obtain nd'' where "mem_map m a = Some (nd'', MEMBLOCK_NONE)" using post by (auto simp: alloc_post_def)
    with True m2(2) post show ?thesis by (simp add: alloc_post_def range_map_def setclr_value_def)
  next
    case False
    then have "mem_map m2 a = mem_map m1 a" "mem_map m1 a = mem_map m a"
      using m2(2) post by (auto simp: alloc_post_def range_map_def)
    then show ?thesis by simp
  qed
  then show ?thesis using m2(1) by (auto simp: memblock_free_def fun_eq_iff)
qed

text \<open>A smaller array with one region, and what an allocation of two pages makes of it.\<close>

definition small_map :: memblock where
  "small_map = \<lparr>n = 1, max_n = 6, msize = 0x400000,
     regions = [mk_region 0x100000 0x400000 0 0, zero_region, zero_region, zero_region, zero_region, zero_region]\<rparr>"

definition small_alloc :: memblock where
  "small_alloc = \<lparr>n = 2, max_n = 6, msize = 0x400000,
     regions = [mk_region 0x100000 0x2000 0 0xFFFF, mk_region 0x102000 0x3FE000 0 0, zero_region, zero_region,
       zero_region, zero_region]\<rparr>"

lemma small_map_alloc:
  "memblock_alloc small_map 0x2000 0x1000 0 0x10000000 (-1) False = Some (small_alloc, 0x100000)"
proof -
  have "find_in_range_node small_map 0x2000 0x1000 0 0x10000000 (-1) 0 = 0x100000"
    by (simp add: small_map_def find_in_range_node_def clamp_def ALIGN_KERNEL_def ALIGN_KERNEL_MASK_def mk_region_def)
  moreover have "memblock_setclr_flag small_map 0x100000 0x2000 True 0xFFFF = Some (small_alloc, Inr ())"
    by (simp add: small_map_def small_alloc_def memblock_setclr_flag_def isolate_range_def isolate_loop.simps
        Let_def mk_region_def insert_region_def memmove_def merge_regions_def merge_loop.simps
        update_range_def setclr_region_def mergeable_def)
  ultimately show ?thesis by (simp add: memblock_alloc_def alloc_try_def)
qed

lemma small_map_ok: "memblock_ok small_map"
  unfolding memblock_ok_def
  by (rule exI [of _ "[mk_region 0x100000 0x400000 0 0]"],
      rule exI [of _ "[zero_region, zero_region, zero_region, zero_region, zero_region]"])
    (simp add: map_ok_def shape_def small_map_def stale_below_def zero_region_def)

theorem alloc_free_roundtrip_witness:
  "\<exists>m2. memblock_free small_alloc 0x100000 0x2000 = Some m2 \<and> mem_map m2 = mem_map small_map"
  by (rule alloc_free_roundtrip [where k = 12 and start = 0 and e = "0x10000000" and nd = "-1" and exact = False])
    (simp_all add: small_map_ok small_map_alloc, simp_all add: small_map_def small_alloc_def)



text \<open>
  \<open>memblock_remove\<close> removes exactly the addresses of the range from the map.
\<close>

theorem memblock_remove_refines:
  assumes "memblock_ok m" "b < b + s" "n m + 2 \<le> max_n m"
  shows "\<exists>m'. memblock_remove m b s = Some (m', Inr ()) \<and> wf_from 0 (take (n m') (regions m')) \<and>
     (\<forall>a. mem_map m' a = (if b \<le> a \<and> a < b + s then None else mem_map m a))"
proof -
  obtain xs st where ok: "map_ok m xs st" using assms(1) by (auto simp: memblock_ok_def)
  have "2 \<le> length st" using assms(3) ok_live [OF ok] by simp
  from remove_ok [OF ok assms(2) this] obtain m' xs' st' where
    r: "memblock_remove m b s = Some (m', Inr ())" "shape m' xs' st'" "wf_from 0 xs'"
      "\<forall>a. region_at xs' a = (if b \<le> a \<and> a < b + s then None else region_at xs a)" by blast
  from r(3,4) have "wf_from 0 (take (n m') (regions m'))"
    "\<forall>a. mem_map m' a = (if b \<le> a \<and> a < b + s then None else mem_map m a)"
    using shape_live(1,5) [OF r(2)] ok_live(5) [OF ok] by simp_all
  with r(1) show ?thesis by blast
qed

theorem memblock_remove_refines_witness:
  "\<exists>m'. memblock_remove one_region 0x180000 0x1000 = Some (m', Inr ()) \<and> wf_from 0 (take (n m') (regions m')) \<and>
     (\<forall>a. mem_map m' a = (if 0x180000 \<le> a \<and> a < 0x180000 + 0x1000 then None else mem_map one_region a))"
  by (rule memblock_remove_refines) (simp_all add: one_region_ok)

text \<open>
  the byte counter after a removal: \<open>remove_region\<close> subtracts the size of the entry that
  \<open>follows\<close> the removed one whenever there is one, because it reads the slot after the move.
\<close>

theorem remove_region_counter:
  assumes "shape m (pre @ r # x # xs) st"
  shows "\<exists>m'. remove_region m (length pre) = Some m' \<and> take (n m') (regions m') = pre @ x # xs \<and>
     msize m' = msize m - size x"
  using remove_region_shape [OF assms refl] shape_live(1) by fastforce

theorem remove_region_counter_witness:
  "\<exists>m'. remove_region \<lparr>n = 2, max_n = 2, msize = 0x4000,
        regions = [mk_region 0x1000 0x1000 0 0, mk_region 0x2000 0x3000 1 0]\<rparr> (length ([] :: memblock_region list)) = Some m' \<and>
     take (n m') (regions m') = [] @ mk_region 0x2000 0x3000 1 0 # [] \<and>
     msize m' = msize \<lparr>n = 2, max_n = 2, msize = 0x4000,
        regions = [mk_region 0x1000 0x1000 0 0, mk_region 0x2000 0x3000 1 0]\<rparr> - size (mk_region 0x2000 0x3000 1 0)"
  by (rule remove_region_counter [where st = "[]" and r = "mk_region 0x1000 0x1000 0 0"]) (simp add: shape_def)

text \<open>
  The stale entry \<open>memblock_remove\<close> leaves behind can look like a continuation of the map: merging
  up to the last entry then reads it, and the length of the move wraps.
\<close>

lemma memcpy_overrun: "0 < k \<Longrightarrow> length m < p + k \<Longrightarrow> memcpy m q p k = None"
proof (induction k arbitrary: m q p)
  case (Suc k)
  show ?case
  proof (cases "k = 0")
    case False
    with Suc.IH [of "m[q := m ! p]" "Suc p" "Suc q"] Suc.prems show ?thesis by simp
  qed (use Suc.prems in auto)
qed simp

lemma merge_stale:
  assumes "shape m (pre @ [c]) (z # st)" "mergeable c z"
  shows "merge_loop m (length pre) (length pre + 1) = None"
proof -
  have r: "regions m = pre @ c # z # st" "n m = length pre + 1" "n m < 2 ^ 63" "length (regions m) < 2 ^ 63"
    using assms(1) by (auto simp: shape_def)
  have "size_sub (n m) (length pre + 2) = 2 ^ 64 - 1"
    using r by (simp add: size_sub_def)
  then have "memmove ((regions m)[length pre := c\<lparr>size := size c + size z\<rparr>]) (length pre + 1) (length pre + 2)
      (size_sub (n m) (length pre + 2)) = None"
    using r(4) by (simp add: memmove_def memcpy_overrun)
  with r(1) assms(2) show ?thesis
    by (subst merge_loop.simps) (simp add: nth_append)
qed

text \<open>
  a history of two additions, a reservation and the removal of the reserved tail, after which
  \<open>memblock_reserve\<close> of the memory next to it does not return: it takes the stale entry for memory
  and moves \<open>2 ^ 64 - 1\<close> entries.
\<close>

definition two_regions :: memblock where
  "two_regions = \<lparr>n = 2, max_n = 4, msize = 0x2000,
     regions = [mk_region 0x1000 0x1000 0 0, mk_region 0x2000 0x1000 0 0xFFFF, zero_region, zero_region]\<rparr>"

lemma two_regions_ok: "memblock_ok two_regions"
  unfolding memblock_ok_def
  by (rule exI [of _ "[mk_region 0x1000 0x1000 0 0, mk_region 0x2000 0x1000 0 0xFFFF]"],
      rule exI [of _ "[zero_region, zero_region]"])
    (simp add: map_ok_def shape_def two_regions_def stale_below_def zero_region_def)

theorem remove_then_reserve_faults:
  "\<exists>m'. memblock_remove two_regions 0x2000 0x1000 = Some (m', Inr ()) \<and> memblock_reserve m' 0x1000 0x1000 = None"
proof -
  let ?A = "mk_region 0x1000 0x1000 0 0" and ?B = "mk_region 0x2000 0x1000 0 0xFFFF"
  let ?m = "\<lparr>n = 1, max_n = 4, msize = 0x1000, regions = [?A, ?B, zero_region, zero_region]\<rparr>"
  have "isolate_range two_regions 0x2000 0x1000 = Some (two_regions, Inr (1, 2))"
    by (simp add: isolate_range_def isolate_loop.simps two_regions_def Let_def)
  moreover have "remove_region two_regions 1 = Some ?m"
    by (simp add: remove_region_def two_regions_def memmove_def)
  ultimately have rm: "memblock_remove two_regions 0x2000 0x1000 = Some (?m, Inr ())"
    by (simp add: memblock_remove_def)
  have iso: "isolate_range ?m 0x1000 0x1000 = Some (?m, Inr (0, 1))"
    by (simp add: isolate_range_def isolate_loop.simps Let_def)
  let ?m1 = "update_range (setclr_region True MEMBLOCK_RESERVED) ?m 0 1"
  have "merge_loop ?m1 (length ([] :: memblock_region list)) (length ([] :: memblock_region list) + 1) = None"
    by (rule merge_stale [where c = "mk_region 0x1000 0x1000 0 0xFFFF" and z = ?B and st = "[zero_region, zero_region]"])
      (simp_all add: shape_def update_range_def setclr_region_def mk_region_def mergeable_def)
  then have "memblock_reserve ?m 0x1000 0x1000 = None"
    using iso by (simp add: memblock_reserve_def memblock_setclr_flag_def merge_regions_def)
  with rm show ?thesis by blast
qed

end
