(* ===== verification/Params.thy ===== *)
theory Params
  imports CString
begin

text \<open>
  The command line: \<open>ukernel/params.c\<close>, a state machine over the characters that looks for one option,
  and its client in \<open>init/main.c\<close>, which runs the handlers registered with \<open>early_param\<close>.
\<close>

section \<open>The state machine (ukernel/params.c)\<close>

abbreviation (input) COMMAND_LINE_SIZE :: nat where "COMMAND_LINE_SIZE \<equiv> 2048"

datatype pst = ST_WORDSTART | ST_WORDCMP | ST_WORDSKIP | ST_BUFCOPY

text \<open>\<open>op\<close> is the rest of the option from the pointer on, \<open>pos\<close> is \<open>buffer - buf\<close>.\<close>

record pstate =
  p_st :: pst
  p_op :: bytes
  p_n :: int
  p_pos :: nat
  p_buf :: bytes

definition param_skip :: "u8 \<Rightarrow> pstate \<Rightarrow> pstate" where
  "param_skip ch s = (if ch = 0x20 then s\<lparr>p_st := ST_WORDSTART\<rparr> else s\<lparr>p_st := ST_WORDSKIP\<rparr>)"

text \<open>\<open>Inl\<close> is the early return, with the buffer as it is then.\<close>

definition param_cmp :: "u8 \<Rightarrow> pstate \<Rightarrow> (int \<times> bytes + pstate) option" where
  "param_cmp ch s =
     (case p_op s of
        [] \<Rightarrow> None
      | c # op \<Rightarrow>
          if c = 0 then
            (if ch = 0x3D then Some (Inr (s\<lparr>p_st := ST_BUFCOPY, p_n := 0, p_pos := 0\<rparr>))
             else if ch = 0x20 \<or> ch = 0 then Some (Inl (-2, p_buf s))
             else Some (Inr (param_skip ch s)))
          else if ch = c then Some (Inr (s\<lparr>p_st := ST_WORDCMP, p_op := op\<rparr>))
          else Some (Inr (param_skip ch (s\<lparr>p_op := op\<rparr>))))"

definition param_copy :: "u8 \<Rightarrow> int \<Rightarrow> pstate \<Rightarrow> (int \<times> bytes + pstate) option" where
  "param_copy ch buf_len s =
     (if ch = 0x20 then Some (Inr (s\<lparr>p_st := ST_WORDSTART\<rparr>))
      else
        (let n = p_n s + 1 in
         if n < buf_len then
           (if p_pos s < length (p_buf s)
            then Some (Inr (s\<lparr>p_n := n, p_buf := (p_buf s)[p_pos s := ch], p_pos := p_pos s + 1\<rparr>))
            else None)
         else Some (Inr (s\<lparr>p_n := n\<rparr>))))"

definition param_step :: "bytes \<Rightarrow> int \<Rightarrow> u8 \<Rightarrow> pstate \<Rightarrow> (int \<times> bytes + pstate) option" where
  "param_step option_name buf_len ch s =
     (case p_st s of
        ST_WORDSTART \<Rightarrow>
          if ch = 0x20 then Some (Inr s) else param_cmp ch (s\<lparr>p_op := option_name\<rparr>)
      | ST_WORDCMP \<Rightarrow> param_cmp ch s
      | ST_WORDSKIP \<Rightarrow> Some (Inr (param_skip ch s))
      | ST_BUFCOPY \<Rightarrow> param_copy ch buf_len s)"

text \<open>
  The \<open>do\<close> loop; the text is the list from \<open>cmdline + i\<close> on and \<open>left\<close> is \<open>cmdline_len - i\<close>.  The body
  runs once even if \<open>cmdline_len\<close> is 0.
\<close>

fun param_loop :: "bytes \<Rightarrow> int \<Rightarrow> bytes \<Rightarrow> nat \<Rightarrow> pstate \<Rightarrow> (int \<times> bytes + pstate) option" where
  "param_loop option_name buf_len [] left s = None"
| "param_loop option_name buf_len (ch # rest) left s =
     (case param_step option_name buf_len ch s of
        None \<Rightarrow> None
      | Some (Inl r) \<Rightarrow> Some (Inl r)
      | Some (Inr s) \<Rightarrow>
          if ch \<noteq> 0 \<and> 1 < left then param_loop option_name buf_len rest (left - 1) s
          else Some (Inr s))"

definition get_option :: "bytes option \<Rightarrow> nat \<Rightarrow> bytes \<Rightarrow> bytes \<Rightarrow> nat \<Rightarrow> (int \<times> bytes) option" where
  "get_option cmdline cmdline_len option_name buf buf_len =
     (case cmdline of
        None \<Rightarrow> Some (-1, buf)
      | Some text \<Rightarrow>
          (case param_loop option_name (int buf_len) text cmdline_len
             \<lparr>p_st = ST_WORDSTART, p_op = [], p_n = -1, p_pos = 0, p_buf = buf\<rparr> of
             None \<Rightarrow> None
           | Some (Inl (r, buf)) \<Rightarrow> Some (r, buf)
           | Some (Inr s) \<Rightarrow>
               if buf_len \<noteq> 0
               then (if p_pos s < length (p_buf s) then Some (p_n s, (p_buf s)[p_pos s := 0]) else None)
               else Some (p_n s, p_buf s)))"

definition param_get_option :: "bytes option \<Rightarrow> bytes \<Rightarrow> bytes \<Rightarrow> nat \<Rightarrow> (int \<times> bytes) option" where
  "param_get_option cmdline option_name buf buf_len =
     map_option (\<lambda>(err, buf). (if err = -2 then 0 else if err = -1 then - errno_code EINVAL else err, buf))
       (get_option cmdline COMMAND_LINE_SIZE option_name buf buf_len)"

section \<open>Running the handlers (init/main.c)\<close>

text \<open>A handler gets the buffer and changes a state that is not of this file.\<close>

record 's setup_param =
  sp_param :: bytes
  sp_early :: int
  sp_setup_func :: "bytes \<Rightarrow> 's \<Rightarrow> 's option"

fun do_param ::
  "bytes \<Rightarrow> int \<Rightarrow> 's setup_param list \<Rightarrow> bytes \<Rightarrow> 's \<Rightarrow> 's option" where
  "do_param cmdline early [] param st = Some st"
| "do_param cmdline early (p # ps) param st =
     (if sp_early p \<noteq> early then do_param cmdline early ps param st
      else
        (case param_get_option (Some cmdline) (sp_param p) param 64 of
           None \<Rightarrow> None
         | Some (r, param) \<Rightarrow>
             if r < 0 then do_param cmdline early ps param st
             else do { st \<leftarrow> sp_setup_func p param st; do_param cmdline early ps param st }))"

fun do_ctors :: "('s \<Rightarrow> 's option) list \<Rightarrow> 's \<Rightarrow> 's option" where
  "do_ctors [] st = Some st"
| "do_ctors (fn # fns) st = do { st \<leftarrow> fn st; do_ctors fns st }"

section \<open>What is found\<close>

text \<open>The words of a text between single blanks, and the search through them; \<open>Inl\<close> says that the option
  is there without a value.  The flag of a value says that it ends the text.\<close>

fun split_words :: "bytes \<Rightarrow> bytes list" where
  "split_words [] = [[]]"
| "split_words (c # s) =
     (if c = 0x20 then [] # split_words s
      else (case split_words s of [] \<Rightarrow> [[c]] | w # ws \<Rightarrow> (c # w) # ws))"

fun find_option :: "bytes \<Rightarrow> bytes list \<Rightarrow> (bytes \<times> bool) option \<Rightarrow> unit + (bytes \<times> bool) option" where
  "find_option opt [] found = Inr found"
| "find_option opt (w # ws) found =
     (if w = opt then Inl ()
      else if take (length opt + 1) w = opt @ [0x3D]
      then find_option opt ws (Some (drop (length opt + 1) w, ws = []))
      else find_option opt ws found)"

lemma split_words_nonempty [simp]: "split_words s \<noteq> []"
  by (cases s) (auto split: list.splits)

lemma split_words_word:
  "0x20 \<notin> set w \<Longrightarrow> split_words w = [w]"
  "0x20 \<notin> set w \<Longrightarrow> split_words (w @ 0x20 # s) = w # split_words s"
  by (induction w) auto

text \<open>A text is one word, or a word and a blank and a text.\<close>

lemma word_cases:
  obtains (lst) "0x20 \<notin> set s" | (more) w t where "s = w @ 0x20 # t" "0x20 \<notin> set w"
  by (metis split_list_first)

section \<open>The automaton on one word\<close>

text \<open>What is left of a run: the early return, or the three variables that are used after the loop.\<close>

definition obs :: "(int \<times> bytes + pstate) option \<Rightarrow> (int \<times> bytes + int \<times> nat \<times> bytes) option" where
  "obs r = map_option (map_sum id (\<lambda>s. (p_n s, p_pos s, p_buf s))) r"

lemma obs_simps [simp]:
  "obs None = None" "obs (Some (Inl x)) = Some (Inl x)"
  "obs (Some (Inr s)) = Some (Inr (p_n s, p_pos s, p_buf s))"
  by (auto simp: obs_def)

lemma obs_SomeD:
  "obs r = Some (Inl x) \<Longrightarrow> r = Some (Inl x)"
  "obs r = Some (Inr y) \<Longrightarrow> \<exists>s. r = Some (Inr s) \<and> y = (p_n s, p_pos s, p_buf s)"
  by (cases r; cases "the r"; auto)+

definition run :: "bytes \<Rightarrow> int \<Rightarrow> bytes \<Rightarrow> nat \<Rightarrow> int \<Rightarrow> nat \<Rightarrow> bytes \<Rightarrow> (int \<times> bytes + int \<times> nat \<times> bytes) option" where
  "run opt bl cl left n pos buf =
     obs (param_loop opt bl cl left \<lparr>p_st = ST_WORDSTART, p_op = [], p_n = n, p_pos = pos, p_buf = buf\<rparr>)"

lemma start_indep:
  assumes "p_st s = ST_WORDSTART"
  shows "obs (param_loop opt bl cl left s) = run opt bl cl left (p_n s) (p_pos s) (p_buf s)"
  using assms
proof (induction cl arbitrary: left s)
  case (Cons c cl)
  let ?s = "\<lparr>p_st = ST_WORDSTART, p_op = [], p_n = p_n s, p_pos = p_pos s, p_buf = p_buf s\<rparr>"
  show ?case
  proof (cases "c = 0x20")
    case True
    with Cons.IH [of s "left - 1"] Cons.prems show ?thesis
      by (auto simp: run_def param_step_def)
  next
    case False
    with Cons.prems show ?thesis by (cases s) (simp add: run_def param_step_def)
  qed
qed (simp add: run_def)

definition behind ::
  "bytes \<Rightarrow> int \<Rightarrow> u8 \<Rightarrow> bytes \<Rightarrow> nat \<Rightarrow> int \<Rightarrow> nat \<Rightarrow> bytes \<Rightarrow> (int \<times> bytes + int \<times> nat \<times> bytes) option" where
  "behind opt bl c t left n pos buf = (if c = 0 then Some (Inr (n, pos, buf)) else run opt bl t left n pos buf)"

lemma skip_word:
  assumes "p_st s = ST_WORDSKIP" "0x20 \<notin> set w" "0 \<notin> set w" "c = 0x20 \<or> c = 0" "length w + 1 < left"
  shows "obs (param_loop opt bl (w @ c # t) left s) =
     behind opt bl c t (left - length w - 1) (p_n s) (p_pos s) (p_buf s)"
  using assms
proof (induction w arbitrary: s left)
  case Nil
  then show ?case by (auto simp: param_step_def param_skip_def behind_def start_indep)
next
  case (Cons d w)
  have "obs (param_loop opt bl (w @ c # t) (left - 1) (s\<lparr>p_st := ST_WORDSKIP\<rparr>)) =
      behind opt bl c t (left - 1 - length w - 1) (p_n s) (p_pos s) (p_buf s)"
    using Cons.prems by (subst Cons.IH) auto
  with Cons.prems show ?case by (simp add: param_step_def param_skip_def)
qed

text \<open>A character that does not continue a match; the rest of the word is skipped.\<close>

lemma mismatch:
  assumes "0x20 \<notin> set w" "0 \<notin> set w" "c = 0x20 \<or> c = 0" "w @ c # t = d # rest" "length w + 1 < left"
  shows "obs (if d \<noteq> 0 \<and> 1 < left then param_loop opt bl rest (left - 1) (param_skip d s) else Some (Inr (param_skip d s)))
     = behind opt bl c t (left - length w - 1) (p_n s) (p_pos s) (p_buf s)"
proof (cases w)
  case Nil
  with assms show ?thesis by (auto simp: param_skip_def behind_def start_indep)
next
  case (Cons e w')
  with assms have "rest = w' @ c # t" "d = e" "d \<noteq> 0" "d \<noteq> 0x20" by auto
  moreover have "obs (param_loop opt bl (w' @ c # t) (left - 1) (s\<lparr>p_st := ST_WORDSKIP\<rparr>)) =
      behind opt bl c t (left - 1 - length w' - 1) (p_n s) (p_pos s) (p_buf s)"
    using assms Cons by (subst skip_word) auto
  ultimately show ?thesis using Cons assms(5) by (simp add: param_skip_def)
qed

lemma cmp_word:
  assumes "p_st s = ST_WORDCMP" "p_op s = opt' @ 0 # u" "0 \<notin> set opt'" "0x20 \<notin> set opt'"
    and "0x20 \<notin> set w" "0 \<notin> set w" "c = 0x20 \<or> c = 0" "length w + 1 < left"
  shows "obs (param_loop opt bl (w @ c # t) left s) =
     (if w = opt' then Some (Inl (-2, p_buf s))
      else if take (length opt' + 1) w = opt' @ [0x3D]
      then obs (param_loop opt bl (drop (length opt' + 1) w @ c # t) (left - length opt' - 1)
             (s\<lparr>p_op := 0 # u, p_st := ST_BUFCOPY, p_n := 0, p_pos := 0\<rparr>))
      else behind opt bl c t (left - length w - 1) (p_n s) (p_pos s) (p_buf s))"
  using assms
proof (induction opt' arbitrary: w left s)
  case Nil
  obtain d rest where d: "w @ c # t = d # rest" by (cases w) auto
  show ?case
  proof (cases "w = []")
    case True
    with Nil show ?thesis by (auto simp: param_step_def param_cmp_def)
  next
    case False
    then obtain w' where w': "w = d # w'" "rest = w' @ c # t" using d by (cases w) auto
    then have dn: "d \<noteq> 0x20" "d \<noteq> 0" using Nil.prems(5,6) by auto
    show ?thesis
    proof (cases "d = 0x3D")
      case True
      have eq: "s\<lparr>p_op := 0 # u, p_st := ST_BUFCOPY, p_n := 0, p_pos := 0\<rparr> = s\<lparr>p_st := ST_BUFCOPY, p_n := 0, p_pos := 0\<rparr>"
        using Nil.prems(2) by simp
      show ?thesis unfolding eq using True w' Nil.prems by (simp add: param_step_def param_cmp_def)
    next
      case neq: False
      have "obs (param_loop opt bl (w @ c # t) left s) =
         obs (if d \<noteq> 0 \<and> 1 < left then param_loop opt bl rest (left - 1) (param_skip d s) else Some (Inr (param_skip d s)))"
        using neq dn w' Nil.prems by (simp add: param_step_def param_cmp_def)
      also have "\<dots> = behind opt bl c t (left - length w - 1) (p_n s) (p_pos s) (p_buf s)"
        by (rule mismatch) (use Nil.prems d in auto)
      finally show ?thesis using False neq w' by simp
    qed
  qed
next
  case (Cons o1 opt')
  obtain d rest where d: "w @ c # t = d # rest" by (cases w) auto
  have o1: "o1 \<noteq> 0" "o1 \<noteq> 0x20" using Cons.prems by auto
  show ?case
  proof (cases "d = o1")
    case True
    then obtain w' where w': "w = o1 # w'" "rest = w' @ c # t" using d o1 Cons.prems(7) by (cases w) auto
    let ?s = "s\<lparr>p_st := ST_WORDCMP, p_op := opt' @ 0 # u\<rparr>"
    have "obs (param_loop opt bl (w @ c # t) left s) = obs (param_loop opt bl (w' @ c # t) (left - 1) ?s)"
      using w' o1 Cons.prems by (simp add: param_step_def param_cmp_def)
    also have "\<dots> = (if w' = opt' then Some (Inl (-2, p_buf ?s))
      else if take (length opt' + 1) w' = opt' @ [0x3D]
      then obs (param_loop opt bl (drop (length opt' + 1) w' @ c # t) (left - 1 - length opt' - 1)
             (?s\<lparr>p_op := 0 # u, p_st := ST_BUFCOPY, p_n := 0, p_pos := 0\<rparr>))
      else behind opt bl c t (left - 1 - length w' - 1) (p_n ?s) (p_pos ?s) (p_buf ?s))"
      by (rule Cons.IH) (use Cons.prems w' in auto)
    finally show ?thesis using w' by simp
  next
    case False
    have "obs (param_loop opt bl (w @ c # t) left s) =
       obs (if d \<noteq> 0 \<and> 1 < left then param_loop opt bl rest (left - 1) (param_skip d (s\<lparr>p_op := opt' @ 0 # u\<rparr>))
            else Some (Inr (param_skip d (s\<lparr>p_op := opt' @ 0 # u\<rparr>))))"
      using False o1 d Cons.prems by (simp add: param_step_def param_cmp_def)
    also have "\<dots> = behind opt bl c t (left - length w - 1) (p_n s) (p_pos s) (p_buf s)"
      by (subst mismatch [OF Cons.prems(5,6,7) d Cons.prems(8)]) simp
    finally show ?thesis using False d by (cases w) auto
  qed
qed

section \<open>Copying a value\<close>

text \<open>The state after \<open>x\<close> has been copied: at most \<open>bl - 1\<close> characters are stored.\<close>

definition copied :: "nat \<Rightarrow> bytes \<Rightarrow> bytes \<Rightarrow> bytes" where
  "copied bl x buf = take (min (length x) (bl - 1)) x @ drop (min (length x) (bl - 1)) buf"

lemma length_copied: "bl \<le> length buf \<Longrightarrow> length (copied bl x buf) = length buf"
  by (auto simp: copied_def)

lemma copied_snoc:
  assumes "bl \<le> length buf"
  shows "copied bl (x @ [c]) buf =
     (if length x + 1 < bl then (copied bl x buf)[length x := c] else copied bl x buf)"
proof (cases "length x + 1 < bl")
  case True
  then have "drop (length x) buf = buf ! length x # drop (length x + 1) buf"
    using assms by (simp add: Cons_nth_drop_Suc)
  with True show ?thesis by (simp add: copied_def)
next
  case False
  then have "bl - 1 \<le> length x" by linarith
  with False show ?thesis by (simp add: copied_def min_def)
qed

lemma copy_step:
  assumes s: "p_st s = ST_BUFCOPY" "p_n s = int (length x)" "p_pos s = min (length x) (bl - 1)"
    "p_buf s = copied bl x buf" and bl: "bl \<le> length buf" and c: "c \<noteq> 0x20"
  shows "\<exists>s'. param_step opt (int bl) c s = Some (Inr s') \<and> p_st s' = ST_BUFCOPY \<and> p_n s' = int (length (x @ [c])) \<and>
     p_pos s' = min (length (x @ [c])) (bl - 1) \<and> p_buf s' = copied bl (x @ [c]) buf"
proof (cases "length x + 1 < bl")
  case True
  then have "p_pos s = length x" "p_pos s < length (p_buf s)" using s bl by (auto simp: length_copied)
  with True s c bl show ?thesis
    by (auto simp: param_step_def param_copy_def Let_def copied_snoc)
next
  case False
  then have "min (length x) (bl - 1) = min (length x + 1) (bl - 1)" by linarith
  with False s c bl show ?thesis
    by (auto simp: param_step_def param_copy_def Let_def copied_snoc)
qed

lemma copy_word:
  assumes s: "p_st s = ST_BUFCOPY" "p_n s = int (length x)" "p_pos s = min (length x) (bl - 1)"
    "p_buf s = copied bl x buf" and bl: "bl \<le> length buf"
    and v: "0x20 \<notin> set v" "0 \<notin> set v" "c = 0x20 \<or> c = 0" "length v + 1 < left"
  shows "obs (param_loop opt (int bl) (v @ c # t) left s) =
     (let y = (if c = 0 then x @ v @ [0] else x @ v) in
      behind opt (int bl) c t (left - length v - 1) (int (length y)) (min (length y) (bl - 1)) (copied bl y buf))"
  using s v
proof (induction v arbitrary: x s left)
  case Nil
  show ?case
  proof (cases "c = 0")
    case True
    obtain s' where "param_step opt (int bl) c s = Some (Inr s')" "p_n s' = int (length (x @ [c]))"
      "p_pos s' = min (length (x @ [c])) (bl - 1)" "p_buf s' = copied bl (x @ [c]) buf"
      using copy_step [OF Nil.prems(1-4) bl, of c opt] True by auto
    with True show ?thesis by (simp add: behind_def)
  next
    case False
    with Nil show ?thesis
      by (auto simp: param_step_def param_copy_def behind_def start_indep)
  qed
next
  case (Cons d v)
  obtain s' where s': "param_step opt (int bl) d s = Some (Inr s')" "p_st s' = ST_BUFCOPY"
    "p_n s' = int (length (x @ [d]))" "p_pos s' = min (length (x @ [d])) (bl - 1)" "p_buf s' = copied bl (x @ [d]) buf"
    using copy_step [OF Cons.prems(1-4) bl, of d opt] Cons.prems(5) by auto
  have "obs (param_loop opt (int bl) (v @ c # t) (left - 1) s') =
     (let y = (if c = 0 then (x @ [d]) @ v @ [0] else (x @ [d]) @ v) in
      behind opt (int bl) c t (left - 1 - length v - 1) (int (length y)) (min (length y) (bl - 1)) (copied bl y buf))"
    by (rule Cons.IH) (use s' Cons.prems in auto)
  moreover have "obs (param_loop opt (int bl) ((d # v) @ c # t) left s) = obs (param_loop opt (int bl) (v @ c # t) (left - 1) s')"
    using s'(1) Cons.prems by simp
  ultimately show ?case by simp
qed

section \<open>The whole command line\<close>

text \<open>How the variables represent the last value found.\<close>

definition found_rel :: "nat \<Rightarrow> bytes \<Rightarrow> (bytes \<times> bool) option \<Rightarrow> int \<Rightarrow> nat \<Rightarrow> bytes \<Rightarrow> bool" where
  "found_rel bl buf0 found n pos buf \<longleftrightarrow>
     length buf = length buf0 \<and> drop bl buf = drop bl buf0 \<and>
     (case found of
        None \<Rightarrow> n = -1 \<and> pos = 0
      | Some (v, lst) \<Rightarrow>
          (let y = (if lst then v @ [0] else v) in
           n = int (length y) \<and> pos = min (length y) (bl - 1) \<and> take pos buf = take pos y))"

lemma found_rel_copied:
  assumes "bl \<le> length buf" "length buf = length buf0" "drop bl buf = drop bl buf0"
  shows "found_rel bl buf0 (Some (v, lst)) (int (length (if lst then v @ [0] else v)))
     (min (length (if lst then v @ [0] else v)) (bl - 1)) (copied bl (if lst then v @ [0] else v) buf)"
proof -
  define y where "y = (if lst then v @ [0] else v)"
  have "drop bl (copied bl y buf) = drop bl buf"
    using assms(1) by (simp add: copied_def min_def)
  moreover have "take (min (length y) (bl - 1)) (copied bl y buf) = take (min (length y) (bl - 1)) y"
    by (simp add: copied_def)
  ultimately show ?thesis
    using assms unfolding y_def [symmetric] found_rel_def by (simp add: y_def [symmetric] length_copied Let_def)
qed

definition found_result ::
  "nat \<Rightarrow> bytes \<Rightarrow> unit + (bytes \<times> bool) option \<Rightarrow> (int \<times> bytes + int \<times> nat \<times> bytes) option \<Rightarrow> bool" where
  "found_result bl buf0 f r \<longleftrightarrow>
     (case f of
        Inl _ \<Rightarrow> (\<exists>b. r = Some (Inl (-2, b)) \<and> length b = length buf0 \<and> drop bl b = drop bl buf0)
      | Inr found \<Rightarrow> (\<exists>n pos b. r = Some (Inr (n, pos, b)) \<and> found_rel bl buf0 found n pos b))"

lemma option_start:
  assumes "opt = o1 # opt'" "o1 \<noteq> 0x20" "c = 0x20 \<or> c = 0" "w \<noteq> [] \<or> c = 0" "0x20 \<notin> set w"
  shows "run (opt @ 0 # u) bl (w @ c # t) left n pos buf =
     obs (param_loop (opt @ 0 # u) bl (w @ c # t) left
        \<lparr>p_st = ST_WORDCMP, p_op = opt @ 0 # u, p_n = n, p_pos = pos, p_buf = buf\<rparr>)"
proof -
  obtain d rest where d: "w @ c # t = d # rest" by (cases w) auto
  then have "d \<noteq> 0x20" using assms by (cases w) auto
  with d assms(1) show ?thesis
    by (auto simp: run_def param_step_def param_cmp_def param_skip_def)
qed

lemma run_word:
  assumes opt: "opt \<noteq> []" "0 \<notin> set opt" "0x20 \<notin> set opt" and bl: "bl \<le> length buf"
    and w: "0x20 \<notin> set w" "0 \<notin> set w" "c = 0x20 \<or> c = 0" "length w + 1 < left"
  shows "run (opt @ 0 # u) (int bl) (w @ c # t) left n pos buf =
     (if w = opt then Some (Inl (-2, buf))
      else if take (length opt + 1) w = opt @ [0x3D]
      then (let v = drop (length opt + 1) w; y = (if c = 0 then v @ [0] else v) in
            behind (opt @ 0 # u) (int bl) c t (left - length w - 1) (int (length y)) (min (length y) (bl - 1)) (copied bl y buf))
      else behind (opt @ 0 # u) (int bl) c t (left - length w - 1) n pos buf)"
proof (cases "w = [] \<and> c = 0x20")
  case True
  then show ?thesis using opt(1) w(4) by (auto simp: run_def param_step_def behind_def)
next
  case False
  obtain o1 opt' where o1: "opt = o1 # opt'" "o1 \<noteq> 0x20" using opt by (cases opt) auto
  let ?s = "\<lparr>p_st = ST_WORDCMP, p_op = opt @ 0 # u, p_n = n, p_pos = pos, p_buf = buf\<rparr>"
  have "run (opt @ 0 # u) (int bl) (w @ c # t) left n pos buf = obs (param_loop (opt @ 0 # u) (int bl) (w @ c # t) left ?s)"
    using False w(3) by (intro option_start [OF o1 w(3) _ w(1)]) auto
  also have "\<dots> = (if w = opt then Some (Inl (-2, buf))
      else if take (length opt + 1) w = opt @ [0x3D]
      then obs (param_loop (opt @ 0 # u) (int bl) (drop (length opt + 1) w @ c # t) (left - length opt - 1)
             (?s\<lparr>p_op := 0 # u, p_st := ST_BUFCOPY, p_n := 0, p_pos := 0\<rparr>))
      else behind (opt @ 0 # u) (int bl) c t (left - length w - 1) n pos buf)"
    by (subst cmp_word [where opt' = opt and u = u]) (use opt w in auto)
  also have "obs (param_loop (opt @ 0 # u) (int bl) (drop (length opt + 1) w @ c # t) (left - length opt - 1)
             (?s\<lparr>p_op := 0 # u, p_st := ST_BUFCOPY, p_n := 0, p_pos := 0\<rparr>)) =
      (let v = drop (length opt + 1) w; y = (if c = 0 then v @ [0] else v) in
            behind (opt @ 0 # u) (int bl) c t (left - length w - 1) (int (length y)) (min (length y) (bl - 1)) (copied bl y buf))"
    if "take (length opt + 1) w = opt @ [0x3D]"
  proof -
    have "length opt + 1 \<le> length w" using arg_cong [OF that, of length] by simp
    moreover have "0x20 \<notin> set (drop (length opt + 1) w)" "0 \<notin> set (drop (length opt + 1) w)"
      using w by (auto dest: in_set_dropD)
    ultimately show ?thesis
      using w(3,4) bl by (subst copy_word [where x = "[]"]) (auto simp: copied_def Let_def)
  qed
  then have "(if w = opt then Some (Inl (-2, buf))
      else if take (length opt + 1) w = opt @ [0x3D]
      then obs (param_loop (opt @ 0 # u) (int bl) (drop (length opt + 1) w @ c # t) (left - length opt - 1)
             (?s\<lparr>p_op := 0 # u, p_st := ST_BUFCOPY, p_n := 0, p_pos := 0\<rparr>))
      else behind (opt @ 0 # u) (int bl) c t (left - length w - 1) n pos buf) =
      (if w = opt then Some (Inl (-2, buf))
      else if take (length opt + 1) w = opt @ [0x3D]
      then (let v = drop (length opt + 1) w; y = (if c = 0 then v @ [0] else v) in
            behind (opt @ 0 # u) (int bl) c t (left - length w - 1) (int (length y)) (min (length y) (bl - 1)) (copied bl y buf))
      else behind (opt @ 0 # u) (int bl) c t (left - length w - 1) n pos buf)"
    by simp
  finally show ?thesis .
qed

lemma run_find:
  assumes opt: "opt \<noteq> []" "0 \<notin> set opt" "0x20 \<notin> set opt" and bl: "bl \<le> length buf0"
    and s: "0 \<notin> set s" "length s + 1 < left" and found: "found_rel bl buf0 found n pos buf"
  shows "found_result bl buf0 (find_option opt (split_words s) found) (run (opt @ 0 # u) (int bl) (s @ 0 # t) left n pos buf)"
  using s found
proof (induction "length s" arbitrary: s left found n pos buf rule: less_induct)
  case less
  have b: "length buf = length buf0" "drop bl buf = drop bl buf0" "bl \<le> length buf"
    using less.prems(3) bl by (auto simp: found_rel_def)
  note word = run_word [OF opt b(3), where left = left and u = u and n = n and pos = pos]
  show ?case
  proof (cases s rule: word_cases)
    case lst
    have "run (opt @ 0 # u) (int bl) (s @ 0 # t) left n pos buf =
      (if s = opt then Some (Inl (-2, buf))
       else if take (length opt + 1) s = opt @ [0x3D]
       then (let y = drop (length opt + 1) s @ [0] in Some (Inr (int (length y), min (length y) (bl - 1), copied bl y buf)))
       else Some (Inr (n, pos, buf)))"
      using word [where w = s and c = 0 and t = t] lst less.prems by (simp add: behind_def Let_def)
    with less.prems(3) b found_rel_copied [OF b(3,1,2), of "drop (length opt + 1) s" True] lst show ?thesis
      by (auto simp: split_words_word found_result_def Let_def)
  next
    case (more w s')
    have len: "length s' < length s" "0 \<notin> set s'" "length s' + 1 < left - length w - 1" "0 \<notin> set w" "length w + 1 < left"
      using more less.prems by auto
    note ih = less.hyps [OF len(1) len(2) len(3)]
    let ?v = "drop (length opt + 1) w"
    have eq: "run (opt @ 0 # u) (int bl) (s @ 0 # t) left n pos buf =
      (if w = opt then Some (Inl (-2, buf))
       else if take (length opt + 1) w = opt @ [0x3D]
       then run (opt @ 0 # u) (int bl) (s' @ 0 # t) (left - length w - 1) (int (length ?v)) (min (length ?v) (bl - 1)) (copied bl ?v buf)
       else run (opt @ 0 # u) (int bl) (s' @ 0 # t) (left - length w - 1) n pos buf)"
      using word [where w = w and c = "0x20" and t = "s' @ 0 # t"] more len by (simp add: behind_def Let_def)
    have words: "split_words s = w # split_words s'" using more by (simp add: split_words_word)
    note copy = found_rel_copied [OF b(3,1,2), of ?v False, unfolded if_False]
    show ?thesis
    proof (cases "w = opt")
      case True
      with b(1,2) show ?thesis unfolding eq words by (simp add: found_result_def)
    next
      case neq: False
      show ?thesis
      proof (cases "take (length opt + 1) w = opt @ [0x3D]")
        case True
        with neq ih [OF copy] show ?thesis unfolding eq words find_option.simps by (simp del: length_drop)
      next
        case False
        with neq ih [OF less.prems(3)] show ?thesis unfolding eq words find_option.simps by simp
      qed
    qed
  qed
qed

lemma split_words_set: "w \<in> set (split_words s) \<Longrightarrow> set w \<subseteq> set s"
  by (induction s arbitrary: w) (fastforce split: if_splits list.splits)+

lemma find_option_set:
  "find_option opt ws found = Inr (Some (v, ends)) \<Longrightarrow>
     found = Some (v, ends) \<or> (\<exists>w \<in> set ws. set v \<subseteq> set w)"
proof (induction opt ws found rule: find_option.induct)
  case (2 opt w ws found)
  have "set (drop (length opt + 1) w) \<subseteq> set w" by (rule set_drop_subset)
  with 2 show ?case by (fastforce split: if_splits)
qed simp

lemma cstr_copied:
  assumes "0 \<notin> set v" "y = (if ends then v @ [0] else v)" "pos = min (length y) (bl - 1)"
  shows "cstr (take pos y @ 0 # r) = take (bl - 1) v"
proof (cases "pos \<le> length v")
  case True
  then have "take pos y = take pos v" using assms(2) by simp
  moreover have "take pos v = take (bl - 1) v"
    using True assms(2,3) by (cases "length v \<le> bl - 1") (auto simp: min_def split: if_splits)
  moreover have "0 \<notin> set (take (bl - 1) v)" using assms(1) by (auto dest: in_set_takeD)
  ultimately show ?thesis by simp
next
  case False
  then have "take pos y = v @ [0]" "length v \<le> bl - 1" using assms(2,3) by (auto split: if_splits)
  with assms(1) show ?thesis by simp
qed

section \<open>Properties\<close>

text \<open>
  C32: on a command line that fits its buffer, \<open>param_get_option\<close> gives 0 when some word is the option
  itself, and otherwise the last word of the form \<open>option=value\<close> decides: the buffer holds the value
  cut to \<open>buf_len - 1\<close> characters, and the result is the length of the value, one more if the value
  ends the line.  Nothing outside the buffer is written.
\<close>

theorem param_get_option_correct:
  assumes "opt \<noteq> []" "0 \<notin> set opt" "0x20 \<notin> set opt" "0 \<notin> set s" "length s + 1 < COMMAND_LINE_SIZE"
    and "0 < buf_len" "buf_len \<le> length buf"
  shows "\<exists>r buf'. param_get_option (Some (s @ 0 # t)) (opt @ 0 # u) buf buf_len = Some (r, buf') \<and>
     length buf' = length buf \<and> drop buf_len buf' = drop buf_len buf \<and>
     (case find_option opt (split_words s) None of
        Inl _ \<Rightarrow> r = 0
      | Inr None \<Rightarrow> r = - errno_code EINVAL \<and> cstr buf' = []
      | Inr (Some (v, ends)) \<Rightarrow>
          r = int (length v) + (if ends then 1 else 0) \<and> cstr buf' = take (buf_len - 1) v)"
proof -
  let ?run = "run (opt @ 0 # u) (int buf_len) (s @ 0 # t) COMMAND_LINE_SIZE (-1) 0 buf"
  let ?s = "\<lparr>p_st = ST_WORDSTART, p_op = [], p_n = -1, p_pos = 0, p_buf = buf\<rparr>"
  have "found_rel buf_len buf None (-1) 0 buf" by (simp add: found_rel_def)
  from run_find [OF assms(1-3,7,4,5) this] have
    f: "found_result buf_len buf (find_option opt (split_words s) None) ?run" .
  have run: "?run = obs (param_loop (opt @ 0 # u) (int buf_len) (s @ 0 # t) COMMAND_LINE_SIZE ?s)"
    by (simp add: run_def)
  show ?thesis
  proof (cases "find_option opt (split_words s) None")
    case (Inl x)
    with f obtain b where b: "?run = Some (Inl (-2, b))" "length b = length buf" "drop buf_len b = drop buf_len buf"
      by (auto simp: found_result_def)
    then have "param_loop (opt @ 0 # u) (int buf_len) (s @ 0 # t) COMMAND_LINE_SIZE ?s = Some (Inl (-2, b))"
      unfolding run by (auto dest: obs_SomeD)
    with b Inl show ?thesis by (simp add: param_get_option_def get_option_def)
  next
    case (Inr found)
    with f obtain n pos b where b: "?run = Some (Inr (n, pos, b))" "found_rel buf_len buf found n pos b"
      by (auto simp: found_result_def)
    then obtain s' where s': "param_loop (opt @ 0 # u) (int buf_len) (s @ 0 # t) COMMAND_LINE_SIZE ?s = Some (Inr s')"
      "p_n s' = n" "p_pos s' = pos" "p_buf s' = b"
      unfolding run by (auto dest!: obs_SomeD(2))
    have pos: "pos < buf_len" "pos < length b" "length b = length buf" "drop buf_len b = drop buf_len buf"
      using b(2) assms(6,7) by (auto simp: found_rel_def Let_def split: option.splits prod.splits)
    have res: "get_option (Some (s @ 0 # t)) COMMAND_LINE_SIZE (opt @ 0 # u) buf buf_len = Some (n, b[pos := 0])"
      using s' pos assms(6) by (simp add: get_option_def)
    have upd: "b[pos := 0] = take pos b @ 0 # drop (Suc pos) b" using pos(2) by (rule upd_conv_take_nth_drop)
    show ?thesis
    proof (cases found)
      case None
      with b(2) have "n = -1" "pos = 0" by (auto simp: found_rel_def)
      moreover have "drop buf_len (b[pos := 0]) = drop buf_len buf" "length (b[pos := 0]) = length buf"
        using pos by simp_all
      moreover have "cstr (b[pos := 0]) = []" using upd \<open>pos = 0\<close> by simp
      ultimately show ?thesis using None Inr res by (auto simp: param_get_option_def)
    next
      case (Some f)
      obtain v ends where f: "found = Some (v, ends)" using Some by (cases f) auto
      define y where "y = (if ends then v @ [0] else v)"
      have y: "n = int (length y)" "pos = min (length y) (buf_len - 1)" "take pos b = take pos y"
        using b(2) f by (auto simp: found_rel_def Let_def y_def)
      have v: "0 \<notin> set v" using find_option_set [of opt "split_words s" None v ends] Inr f assms(4) split_words_set by auto
      have "cstr (b[pos := 0]) = take (buf_len - 1) v"
        unfolding upd y(3) by (rule cstr_copied [OF v y_def y(2)])
      moreover have "drop buf_len (b[pos := 0]) = drop buf_len buf" using pos by simp
      moreover have "n = int (length v) + (if ends then 1 else 0)" using y(1) by (simp add: y_def)
      ultimately show ?thesis using res f Inr pos by (simp add: param_get_option_def)
    qed
  qed
qed

theorem param_get_option_correct_witness:
  "\<exists>r buf'. param_get_option (Some ([0x61, 0x3D, 0x78, 0x20, 0x62] @ 0 # [])) ([0x61] @ 0 # []) [1, 1, 1, 1] 3 = Some (r, buf') \<and>
     r = 1 \<and> cstr buf' = [0x78]"
  using param_get_option_correct [of "[0x61]" "[0x61, 0x3D, 0x78, 0x20, 0x62]" 3 "[1, 1, 1, 1]" "[]" "[]"]
  by auto

end
