(* ===== verification/IoBuffer.thy ===== *)
theory IoBuffer
  imports CString
begin

text \<open>
  The buffered input and output of \<open>uklib/io_buffer/io_buffer.c\<close> over \<open>uklib/io_buffer.h\<close>.  The
  structure is a record; the object behind the three callbacks (a string being parsed, the
  console) is the field \<open>dev\<close>, and a callback that the structure leaves \<open>NULL\<close> is \<open>None\<close>, so that
  calling it gives \<open>None\<close>.  \<open>inptr\<close> is an index into \<open>buffer\<close>.
\<close>

section \<open>State and callbacks\<close>

datatype io_bufmode = IONBF | IOLBF | IOFBF

record 'd io_buffer =
  mode :: io_bufmode
  io_in :: nat
  io_out :: nat
  buffer :: bytes
  buf_size :: nat
  inptr :: nat
  io_unget_slop :: nat
  dev :: 'd

text \<open>
  \<open>op_read n\<close> returns the bytes it stored through the pointer, so its result is their number;
  \<open>op_write\<close> gets the bytes and returns how many it took; \<open>op_flush\<close> gets the structure.
\<close>

record 'd io_ops =
  op_read :: "(nat \<Rightarrow> 'd \<Rightarrow> bytes \<times> 'd) option"
  op_write :: "(bytes \<Rightarrow> 'd \<Rightarrow> nat \<times> 'd) option"
  op_flush :: "('d io_buffer \<Rightarrow> int \<times> 'd io_buffer) option"

definition call_flush :: "'d io_ops \<Rightarrow> 'd io_buffer \<Rightarrow> (int \<times> 'd io_buffer) option" where
  "call_flush ops io = map_option (\<lambda>f. f io) (op_flush ops)"

definition call_write :: "'d io_ops \<Rightarrow> 'd io_buffer \<Rightarrow> bytes \<Rightarrow> (nat \<times> 'd io_buffer) option" where
  "call_write ops io bs =
     map_option (\<lambda>w. let (n, d) = w bs (dev io) in (n, io\<lparr>dev := d\<rparr>)) (op_write ops)"

definition call_read :: "'d io_ops \<Rightarrow> 'd io_buffer \<Rightarrow> nat \<Rightarrow> (bytes \<times> 'd io_buffer) option" where
  "call_read ops io n =
     map_option (\<lambda>r. let (bs, d) = r n (dev io) in (bs, io\<lparr>dev := d\<rparr>)) (op_read ops)"

section \<open>Operations\<close>

text \<open>
  The loop of \<open>wbuffer_no_flush\<close>.  It need not end when a flush reports success and leaves the
  buffer full, so it is a partial function; \<open>count\<close> bytes are read from the caller's pointer.
\<close>

partial_function (option) wbuffer_loop ::
  "'d io_ops \<Rightarrow> 'd io_buffer \<Rightarrow> bytes \<Rightarrow> nat \<Rightarrow> nat \<Rightarrow> (nat \<times> 'd io_buffer) option" where
  "wbuffer_loop ops io buf count written =
     (if count = 0 then Some (written, io)
      else if length buf < count then None
      else do {
        (err, io) \<leftarrow> (if io_out io = buf_size io then call_flush ops io else Some (0, io));
        if err \<noteq> 0 then Some (written, io)
        else if io_out io = 0 \<and> buf_size io \<le> count then do {
          (n, io) \<leftarrow> call_write ops io (take count buf);
          if n = 0 then Some (written, io)
          else wbuffer_loop ops io (drop n buf) (size_sub count n) (written + n) }
        else do {
          let n = c_min count (size_sub (buf_size io) (io_out io));
          b \<leftarrow> memcpy_from (buffer io) (io_out io) buf n;
          wbuffer_loop ops (io\<lparr>buffer := b, io_out := io_out io + n\<rparr>)
            (drop n buf) (size_sub count n) (written + n) } })"

definition wbuffer_no_flush ::
  "'d io_ops \<Rightarrow> 'd io_buffer \<Rightarrow> bytes \<Rightarrow> nat \<Rightarrow> (nat \<times> 'd io_buffer) option" where
  "wbuffer_no_flush ops io buf count =
     do { (err, io) \<leftarrow> (if io_in io \<noteq> 0 then call_flush ops io else Some (0, io));
          if err \<noteq> 0 then Some (0, io) else wbuffer_loop ops io buf count 0 }"

text \<open>The split of a line-buffered write: \<open>f_len\<close> runs down to just behind the last newline.\<close>

fun line_split :: "bytes \<Rightarrow> nat \<Rightarrow> nat \<Rightarrow> nat \<times> nat" where
  "line_split buf 0 u_len = (0, u_len)"
| "line_split buf (Suc f_len) u_len =
     (if buf ! f_len \<noteq> 0x0A then line_split buf f_len (Suc u_len) else (Suc f_len, u_len))"

text \<open>
  The part of \<open>__iob_write\<close> up to the flush; the first component is whether it returned early.
\<close>

definition write_flushed ::
  "'d io_ops \<Rightarrow> 'd io_buffer \<Rightarrow> bytes \<Rightarrow> nat \<Rightarrow> (bool \<times> nat \<times> 'd io_buffer) option" where
  "write_flushed ops io buf f_len =
     (if f_len \<noteq> 0 then do {
        (written, io) \<leftarrow> wbuffer_no_flush ops io buf f_len;
        if written \<noteq> f_len then Some (True, written, io)
        else do { (err, io) \<leftarrow> call_flush ops io; Some (err \<noteq> 0, written, io) } }
      else Some (False, 0, io))"

definition iob_write :: "'d io_ops \<Rightarrow> 'd io_buffer \<Rightarrow> bytes \<Rightarrow> nat \<Rightarrow> (nat \<times> 'd io_buffer) option" where
  "iob_write ops io buf count =
     (if length buf < count then None
      else let (f_len, u_len) =
        (case mode io of
           IOFBF \<Rightarrow> (0, count)
         | IOLBF \<Rightarrow> line_split buf count 0
         | IONBF \<Rightarrow> (count, 0)) in
      do {
        (returned, written, io) \<leftarrow> write_flushed ops io buf f_len;
        if returned then Some (written, io)
        else if u_len \<noteq> 0 then do {
          (n, io) \<leftarrow> wbuffer_no_flush ops io (drop written buf) u_len;
          Some (written + n, io) }
        else Some (written, io) })"

text \<open>
  The two nested loops of \<open>__iob_read\<close> in one: while \<open>in\<close> is zero an iteration is one of the inner
  loop, whose exit on \<open>count == 0\<close> is the exit of the outer loop.  The result is what was stored
  through the caller's pointer.
\<close>

partial_function (option) iob_read_loop ::
  "'d io_ops \<Rightarrow> 'd io_buffer \<Rightarrow> bytes \<Rightarrow> nat \<Rightarrow> (bytes \<times> 'd io_buffer) option" where
  "iob_read_loop ops io acc count =
     (if count = 0 then Some (acc, io)
      else if io_in io = 0 then
        (if count < buf_size io then do {
           (data, io) \<leftarrow> call_read ops io (buf_size io);
           if data = [] then Some (acc, io)
           else do {
             b \<leftarrow> memcpy_from (buffer io) (io_unget_slop io) data (length data);
             iob_read_loop ops
               (io\<lparr>buffer := b, inptr := io_unget_slop io, io_in := length data\<rparr>) acc count } }
         else do {
           (data, io) \<leftarrow> call_read ops io count;
           if data = [] then Some (acc, io)
           else iob_read_loop ops io (acc @ data) (size_sub count (length data)) })
      else if length (buffer io) < inptr io + min count (io_in io) then None
      else do {
        let n = c_min count (io_in io);
        iob_read_loop ops (io\<lparr>inptr := inptr io + n, io_in := io_in io - n\<rparr>)
          (acc @ take n (drop (inptr io) (buffer io))) (count - n) })"

definition iob_read :: "'d io_ops \<Rightarrow> 'd io_buffer \<Rightarrow> nat \<Rightarrow> (bytes \<times> 'd io_buffer) option" where
  "iob_read ops io count =
     do { (err, io) \<leftarrow> (if io_out io \<noteq> 0 then call_flush ops io else Some (0, io));
          if err \<noteq> 0 then Some ([], io) else iob_read_loop ops io [] count }"

definition iob_ungetc :: "'d io_buffer \<Rightarrow> u8 \<Rightarrow> ((errno + u8) \<times> 'd io_buffer) option" where
  "iob_ungetc io c =
     (if io_out io \<noteq> 0 then Some (Inl EINVAL, io)
      else if inptr io = 0 then Some (Inl ENOSPC, io)
      else if length (buffer io) < inptr io then None
      else Some (Inr c, io\<lparr>inptr := inptr io - 1, buffer := (buffer io)[inptr io - 1 := c],
                          io_in := io_in io + 1\<rparr>))"

section \<open>A device that can be read\<close>

text \<open>
  The interface the readers rely on: the read callback delivers the next bytes of the stream
  behind the device, at most as many as asked for, and none only at its end.
\<close>

locale iob_source =
  fixes ops :: "'d io_ops"
    and stream :: "'d \<Rightarrow> bytes"
  assumes read_defined: "op_read ops \<noteq> None"
    and read_stream:
      "op_read ops = Some rd \<Longrightarrow> rd n d = (data, d') \<Longrightarrow>
         stream d = data @ stream d' \<and> length data \<le> n \<and> (data = [] \<longleftrightarrow> n = 0 \<or> stream d = [])"
begin

definition pending :: "'d io_buffer \<Rightarrow> bytes" where
  "pending io = take (io_in io) (drop (inptr io) (buffer io)) @ stream (dev io)"

definition in_ok :: "'d io_buffer \<Rightarrow> bool" where
  "in_ok io \<longleftrightarrow> io_out io = 0 \<and> 0 < buf_size io \<and>
     io_unget_slop io + buf_size io \<le> length (buffer io) \<and>
     inptr io + io_in io \<le> length (buffer io)"

lemma call_read_stream:
  obtains data d' where
    "call_read ops io n = Some (data, io\<lparr>dev := d'\<rparr>)"
    "stream (dev io) = data @ stream d'" "length data \<le> n"
    "data = [] \<longleftrightarrow> n = 0 \<or> stream (dev io) = []"
proof -
  obtain rd where rd: "op_read ops = Some rd" using read_defined by auto
  obtain data d' where r: "rd n (dev io) = (data, d')" by fastforce
  have c: "call_read ops io n = Some (data, io\<lparr>dev := d'\<rparr>)"
    by (simp add: call_read_def rd r)
  from read_stream [OF rd r] have s: "stream (dev io) = data @ stream d'" "length data \<le> n"
    "data = [] \<longleftrightarrow> n = 0 \<or> stream (dev io) = []" by blast+
  show thesis by (rule that [OF c s])
qed

text \<open>Reading when bytes are buffered.\<close>

lemma iob_read_loop_buffered:
  assumes ok: "in_ok io" and "io_in io \<noteq> 0" "count \<noteq> 0"
  obtains io' where
    "iob_read_loop ops io acc count = iob_read_loop ops io'
       (acc @ take (min count (io_in io)) (pending io)) (count - min count (io_in io))"
    "in_ok io'" "pending io' = drop (min count (io_in io)) (pending io)"
    "inptr io' = inptr io + min count (io_in io)" "io_in io' = io_in io - min count (io_in io)"
    "buf_size io' = buf_size io"
proof
  let ?n = "min count (io_in io)"
  let ?io = "io\<lparr>inptr := inptr io + ?n, io_in := io_in io - ?n\<rparr>"
  have fits: "inptr io + ?n \<le> length (buffer io)" using ok by (auto simp: in_ok_def)
  have "take ?n (drop (inptr io) (buffer io)) = take ?n (pending io)"
    using ok by (auto simp: pending_def in_ok_def)
  with assms fits show "iob_read_loop ops io acc count =
      iob_read_loop ops ?io (acc @ take ?n (pending io)) (count - ?n)"
    by (subst iob_read_loop.simps) (simp add: Let_def)
  show "in_ok ?io" using ok by (auto simp: in_ok_def)
  show "pending ?io = drop ?n (pending io)"
    using ok by (auto simp: pending_def in_ok_def drop_take min_def add.commute)
qed auto

text \<open>Reading the next bytes of what is pending, whatever is buffered.\<close>

definition read_post :: "'d io_buffer \<Rightarrow> nat \<Rightarrow> 'd io_buffer \<Rightarrow> bool" where
  "read_post io count io' \<longleftrightarrow>
     in_ok io' \<and> pending io' = drop count (pending io) \<and> buf_size io' = buf_size io \<and>
     (count = 0 \<or> pending io = [] \<longrightarrow> inptr io' = inptr io) \<and>
     (count \<noteq> 0 \<and> count < buf_size io \<and> pending io \<noteq> [] \<longrightarrow> 0 < inptr io')"

lemma iob_read_loop_eq:
  assumes "in_ok io" "count < 2 ^ 64"
  shows "\<exists>io'. iob_read_loop ops io acc count = Some (acc @ take count (pending io), io')
     \<and> read_post io count io'"
  using assms
proof (induction count arbitrary: io acc rule: less_induct)
  case (less count)
  have buffered: "\<exists>io'. iob_read_loop ops io acc count = Some (acc @ take count (pending io), io')
     \<and> read_post io count io'" if ok: "in_ok io" and ne: "io_in io \<noteq> 0" "count \<noteq> 0" for io acc
  proof -
    let ?n = "min count (io_in io)"
    obtain io1 where io1: "iob_read_loop ops io acc count = iob_read_loop ops io1
         (acc @ take ?n (pending io)) (count - ?n)" "in_ok io1"
        "pending io1 = drop ?n (pending io)" "inptr io1 = inptr io + ?n" "buf_size io1 = buf_size io"
      using iob_read_loop_buffered [OF ok ne, of acc] by metis
    have "count - ?n < count" "count - ?n < 2 ^ 64" using ne less.prems by auto
    from less.IH [OF this(1) io1(2) this(2), of "acc @ take ?n (pending io)"] obtain io2 where
      io2: "iob_read_loop ops io1 (acc @ take ?n (pending io)) (count - ?n)
          = Some ((acc @ take ?n (pending io)) @ take (count - ?n) (pending io1), io2)"
        "read_post io1 (count - ?n) io2" by blast
    have "take ?n (pending io) @ take (count - ?n) (pending io1) = take count (pending io)"
      unfolding io1(3) by (metis min.cobounded1 take_drop_split)
    moreover have "pending io \<noteq> []" using ok ne by (auto simp: pending_def in_ok_def)
    then have "read_post io count io2"
      using io2(2) io1 ne by (auto simp: read_post_def add.commute)
    ultimately show ?thesis using io1(1) io2(1) by auto
  qed
  show ?case
  proof (cases "count = 0 \<or> io_in io \<noteq> 0")
    case True
    with buffered less.prems show ?thesis
      by (cases "count = 0") (auto simp: iob_read_loop.simps read_post_def)
  next
    case empty: False
    then have pend: "pending io = stream (dev io)" by (simp add: pending_def)
    show ?thesis
    proof (cases "count < buf_size io")
      case True
      obtain data d' where data: "call_read ops io (buf_size io) = Some (data, io\<lparr>dev := d'\<rparr>)"
        "stream (dev io) = data @ stream d'" "length data \<le> buf_size io"
        "data = [] \<longleftrightarrow> buf_size io = 0 \<or> stream (dev io) = []"
        by (rule call_read_stream)
      show ?thesis
      proof (cases "data = []")
        case True
        with data empty \<open>count < buf_size io\<close> less.prems pend show ?thesis
          by (subst iob_read_loop.simps) (auto simp: read_post_def in_ok_def pending_def)
      next
        case False
        let ?b = "take (io_unget_slop io) (buffer io) @ data
            @ drop (io_unget_slop io + length data) (buffer io)"
        let ?io = "io\<lparr>dev := d', buffer := ?b, inptr := io_unget_slop io, io_in := length data\<rparr>"
        have "memcpy_from (buffer io) (io_unget_slop io) data (length data) = Some ?b"
          using less.prems data by (simp add: memcpy_from_eq in_ok_def)
        with data empty True False have
          "iob_read_loop ops io acc count = iob_read_loop ops ?io acc count"
          by (subst iob_read_loop.simps) simp
        moreover have "in_ok ?io" using less.prems data by (auto simp: in_ok_def)
        moreover have "pending ?io = pending io"
          using less.prems data pend by (auto simp: pending_def in_ok_def)
        moreover have "io_in ?io \<noteq> 0" using False by simp
        ultimately show ?thesis using buffered [of ?io acc] empty False data
          by (fastforce simp: read_post_def pend)
      qed
    next
      case big: False
      obtain data d' where data: "call_read ops io count = Some (data, io\<lparr>dev := d'\<rparr>)"
        "stream (dev io) = data @ stream d'" "length data \<le> count"
        "data = [] \<longleftrightarrow> count = 0 \<or> stream (dev io) = []"
        by (rule call_read_stream)
      let ?io = "io\<lparr>dev := d'\<rparr>"
      show ?thesis
      proof (cases "data = []")
        case True
        with data empty big less.prems pend show ?thesis
          by (subst iob_read_loop.simps) (auto simp: read_post_def in_ok_def pending_def)
      next
        case False
        have "iob_read_loop ops io acc count
            = iob_read_loop ops ?io (acc @ data) (count - length data)"
          using data empty big False less.prems by (subst iob_read_loop.simps) simp
        moreover have "in_ok ?io" using less.prems by (simp add: in_ok_def)
        moreover have "count - length data < count" using False empty by auto
        moreover have pio: "pending ?io = stream d'" using empty by (simp add: pending_def)
        moreover have "count - length data < 2 ^ 64" using less.prems by simp
        ultimately obtain io2 where io2:
          "iob_read_loop ops io acc count
             = Some ((acc @ data) @ take (count - length data) (stream d'), io2)"
          "read_post ?io (count - length data) io2"
          using less.IH [of "count - length data" ?io "acc @ data"] by auto
        have "data @ take (count - length data) (stream d') = take count (pending io)"
          unfolding pend data(2) using data(3) by simp
        moreover have "read_post io count io2"
          using io2(2) data(2,3) big pend pio False empty by (simp add: read_post_def)
        ultimately show ?thesis using io2(1) by (metis append.assoc)
      qed
    qed
  qed
qed

lemma iob_read_eq:
  assumes "in_ok io" "count < 2 ^ 64"
  shows "\<exists>io'. iob_read ops io count = Some (take count (pending io), io') \<and> read_post io count io'"
  using iob_read_loop_eq [OF assms, of "[]"] assms(1)
  by (simp add: iob_read_def in_ok_def)

text \<open>Pushing back the character just read restores what is pending.\<close>

lemma iob_ungetc_eq:
  assumes "in_ok io" "0 < inptr io"
  shows "\<exists>io'. iob_ungetc io c = Some (Inr c, io') \<and> in_ok io' \<and> pending io' = c # pending io
     \<and> inptr io' = inptr io - 1 \<and> buf_size io' = buf_size io"
proof -
  let ?io = "io\<lparr>inptr := inptr io - 1, buffer := (buffer io)[inptr io - 1 := c],
      io_in := io_in io + 1\<rparr>"
  have "iob_ungetc io c = Some (Inr c, ?io)" using assms by (simp add: iob_ungetc_def in_ok_def)
  moreover have "in_ok ?io" using assms by (auto simp: in_ok_def)
  moreover have "pending ?io = c # pending io"
  proof -
    have "drop (inptr io - 1) ((buffer io)[inptr io - 1 := c]) = c # drop (inptr io) (buffer io)"
    proof -
      have "drop (inptr io - 1) (buffer io) = buffer io ! (inptr io - 1) # drop (inptr io) (buffer io)"
      proof -
        have "inptr io - 1 < length (buffer io)" using assms by (auto simp: in_ok_def)
        from Cons_nth_drop_Suc [OF this] show ?thesis using assms(2) by simp
      qed
      then show ?thesis by (simp add: drop_update_swap)
    qed
    then show ?thesis by (simp add: pending_def)
  qed
  ultimately show ?thesis by auto
qed

end

section \<open>A device that can be written\<close>

text \<open>
  The interface the writers rely on: the write callback takes everything, and the flush callback
  delivers the output part of the buffer and empties it.  \<open>ready\<close> says when the device accepts
  output at all, and \<open>render\<close> is what the device makes of the bytes, piece by piece.
\<close>

locale iob_sink =
  fixes ops :: "'d io_ops"
    and delivered :: "'d \<Rightarrow> bytes"
    and ready :: "'d \<Rightarrow> bool"
    and render :: "bytes \<Rightarrow> bytes"
  assumes render_append [simp]: "render (xs @ ys) = render xs @ render ys"
    and write_defined: "op_write ops \<noteq> None"
    and flush_defined: "op_flush ops \<noteq> None"
    and write_all:
      "op_write ops = Some w \<Longrightarrow> ready d \<Longrightarrow> w bs d = (n, d') \<Longrightarrow>
         n = length bs \<and> delivered d' = delivered d @ render bs \<and> ready d'"
    and flush_all:
      "op_flush ops = Some f \<Longrightarrow> ready (dev io) \<Longrightarrow> io_out io \<le> length (buffer io) \<Longrightarrow> f io = (e, io') \<Longrightarrow>
         e = 0 \<and> (\<exists>d'. io' = io\<lparr>io_out := 0, dev := d'\<rparr> \<and> ready d' \<and>
           delivered d' = delivered (dev io) @ render (take (io_out io) (buffer io)))"
begin

lemma render_Nil [simp]: "render [] = []"
  using render_append [of "[]" "[]"] by simp

definition queued :: "'d io_buffer \<Rightarrow> bytes" where
  "queued io = take (io_out io) (buffer io)"

definition sent :: "'d io_buffer \<Rightarrow> bytes" where
  "sent io = delivered (dev io) @ render (queued io)"

definition out_ok :: "'d io_buffer \<Rightarrow> bool" where
  "out_ok io \<longleftrightarrow> io_in io = 0 \<and> 0 < buf_size io \<and> buf_size io < 2 ^ 64 \<and>
     buf_size io \<le> length (buffer io) \<and> io_out io \<le> buf_size io \<and> ready (dev io)"

lemma call_flush_sink:
  assumes "out_ok io"
  shows "\<exists>io'. call_flush ops io = Some (0, io') \<and> out_ok io' \<and> sent io' = sent io \<and> io_out io' = 0
     \<and> mode io' = mode io \<and> buf_size io' = buf_size io"
proof -
  obtain f where f: "op_flush ops = Some f" using flush_defined by auto
  obtain e io' where r: "f io = (e, io')" by fastforce
  from flush_all [OF f _ _ r] assms show ?thesis
    by (auto simp: call_flush_def f r out_ok_def sent_def queued_def)
qed

lemma call_write_sink:
  assumes "out_ok io" "io_out io = 0"
  shows "\<exists>io'. call_write ops io bs = Some (length bs, io') \<and> out_ok io' \<and> sent io' = sent io @ render bs
     \<and> io_out io' = 0 \<and> mode io' = mode io \<and> buf_size io' = buf_size io"
proof -
  obtain w where w: "op_write ops = Some w" using write_defined by auto
  obtain n d' where r: "w bs (dev io) = (n, d')" by fastforce
  from write_all [OF w _ r] assms show ?thesis
    by (auto simp: call_write_def w r out_ok_def sent_def queued_def)
qed

definition write_post :: "'d io_buffer \<Rightarrow> bytes \<Rightarrow> 'd io_buffer \<Rightarrow> bool" where
  "write_post io bs io' \<longleftrightarrow> out_ok io' \<and> sent io' = sent io @ render bs \<and> mode io' = mode io \<and>
     (\<exists>us. queued io @ bs = us @ queued io')"

lemma write_post_empty: "out_ok io \<Longrightarrow> write_post io [] io"
  by (auto simp: write_post_def)

lemma write_post_trans:
  assumes "write_post io bs io1" "write_post io1 cs io2"
  shows "write_post io (bs @ cs) io2"
proof -
  from assms obtain us vs where "queued io @ bs = us @ queued io1" "queued io1 @ cs = vs @ queued io2"
    by (auto simp: write_post_def)
  then have "queued io @ bs @ cs = (us @ vs) @ queued io2" by (metis append.assoc)
  with assms show ?thesis unfolding write_post_def by auto
qed

text \<open>Storing into a buffer that has room.\<close>

lemma store_post:
  assumes ok: "out_ok io" and n: "n \<le> length buf" "io_out io + n \<le> buf_size io"
  shows "\<exists>b. memcpy_from (buffer io) (io_out io) buf n = Some b \<and>
     write_post io (take n buf) (io\<lparr>buffer := b, io_out := io_out io + n\<rparr>)"
proof -
  let ?b = "take (io_out io) (buffer io) @ take n buf @ drop (io_out io + n) (buffer io)"
  have m: "memcpy_from (buffer io) (io_out io) buf n = Some ?b"
    using ok n by (simp add: memcpy_from_eq out_ok_def)
  have q: "queued (io\<lparr>buffer := ?b, io_out := io_out io + n\<rparr>) = queued io @ take n buf"
    using ok n by (simp add: queued_def out_ok_def)
  have "out_ok (io\<lparr>buffer := ?b, io_out := io_out io + n\<rparr>)"
    using ok n by (auto simp: out_ok_def)
  then have "write_post io (take n buf) (io\<lparr>buffer := ?b, io_out := io_out io + n\<rparr>)"
    by (simp add: write_post_def q sent_def [of "io\<lparr>buffer := _, io_out := _\<rparr>"] sent_def [of io])
  with m show ?thesis by blast
qed

text \<open>One iteration starts by making room; then there is some.\<close>

lemma make_room:
  assumes "out_ok io"
  obtains io' where
    "(if io_out io = buf_size io then call_flush ops io else Some (0, io)) = Some (0, io')"
    "write_post io [] io'" "io_out io' < buf_size io'" "out_ok io'"
proof (cases "io_out io = buf_size io")
  case True
  obtain io' where io': "call_flush ops io = Some (0, io')" "out_ok io'" "sent io' = sent io"
      "io_out io' = 0" "mode io' = mode io"
    using call_flush_sink [OF assms] by blast
  show thesis
    by (rule that [of io']) (use True io' in \<open>auto simp: write_post_def queued_def out_ok_def\<close>)
next
  case False
  show thesis
    by (rule that [of io]) (use False assms in \<open>auto simp: write_post_empty out_ok_def\<close>)
qed

lemma wbuffer_loop_eq:
  assumes "out_ok io" "count \<le> length buf" "count < 2 ^ 64"
  shows "\<exists>io'. wbuffer_loop ops io buf count w = Some (w + count, io') \<and> write_post io (take count buf) io'"
  using assms
proof (induction count arbitrary: io buf w rule: less_induct)
  case (less count)
  show ?case
  proof (cases "count = 0")
    case True
    with less.prems show ?thesis by (simp add: wbuffer_loop.simps write_post_empty)
  next
    case False
    obtain io1 where io1:
      "(if io_out io = buf_size io then call_flush ops io else Some (0, io)) = Some (0, io1)"
      "write_post io [] io1" "io_out io1 < buf_size io1" "out_ok io1"
      by (rule make_room [OF less.prems(1)])
    show ?thesis
    proof (cases "io_out io1 = 0 \<and> buf_size io1 \<le> count")
      case True
      obtain io2 where io2: "call_write ops io1 (take count buf) = Some (count, io2)"
          "out_ok io2" "sent io2 = sent io1 @ render (take count buf)" "io_out io2 = 0" "mode io2 = mode io1"
        using call_write_sink [OF io1(4), of "take count buf"] True less.prems(2) by (auto simp: min_absorb2)
      then have "write_post io1 (take count buf) io2"
        by (auto simp: write_post_def queued_def)
      with io1(2) have "write_post io (take count buf) io2"
        using write_post_trans by fastforce
      moreover have "wbuffer_loop ops io buf count w = Some (w + count, io2)"
        using io1(1) io2(1) True False less.prems
        by (subst wbuffer_loop.simps) (simp add: wbuffer_loop.simps [of _ _ _ 0])
      ultimately show ?thesis by blast
    next
      case store: False
      let ?n = "min count (buf_size io1 - io_out io1)"
      have n: "?n \<le> length buf" "io_out io1 + ?n \<le> buf_size io1" "0 < ?n"
        using less.prems(2) io1(3) False by auto
      have sub: "size_sub (buf_size io1) (io_out io1) = buf_size io1 - io_out io1"
        using io1(3,4) by (simp add: out_ok_def)
      obtain b where b: "memcpy_from (buffer io1) (io_out io1) buf ?n = Some b"
          "write_post io1 (take ?n buf) (io1\<lparr>buffer := b, io_out := io_out io1 + ?n\<rparr>)"
        using store_post [OF io1(4) n(1,2)] by blast
      let ?io = "io1\<lparr>buffer := b, io_out := io_out io1 + ?n\<rparr>"
      have step: "wbuffer_loop ops io buf count w
          = wbuffer_loop ops ?io (drop ?n buf) (count - ?n) (w + ?n)"
        using io1(1) b(1) store False less.prems sub
        by (subst wbuffer_loop.simps) (auto simp: Let_def)
      have "count - ?n < count" "out_ok ?io" "count - ?n \<le> length (drop ?n buf)" "count - ?n < 2 ^ 64"
        using n less.prems b(2) by (auto simp: write_post_def intro: diff_le_mono)
      from less.IH [OF this, of "w + ?n"] obtain io2 where io2:
        "wbuffer_loop ops ?io (drop ?n buf) (count - ?n) (w + ?n) = Some (w + count, io2)"
        "write_post ?io (take (count - ?n) (drop ?n buf)) io2"
        by auto
      have "take ?n buf @ take (count - ?n) (drop ?n buf) = take count buf"
        by (metis min.cobounded1 take_drop_split)
      with write_post_trans [OF io1(2) write_post_trans [OF b(2) io2(2)]]
      have "write_post io (take count buf) io2" by simp
      with step io2(1) show ?thesis by auto
    qed
  qed
qed

lemma wbuffer_no_flush_eq:
  assumes "out_ok io" "count \<le> length buf" "count < 2 ^ 64"
  shows "\<exists>io'. wbuffer_no_flush ops io buf count = Some (count, io') \<and> write_post io (take count buf) io'"
  using wbuffer_loop_eq [OF assms, of 0] assms(1) by (simp add: wbuffer_no_flush_def out_ok_def)

end

section \<open>Writing through the interface\<close>

lemma line_split_sum: "line_split buf f u = (f', u') \<Longrightarrow> f' + u' = f + u \<and> f' \<le> f"
  by (induction buf f u rule: line_split.induct) (auto split: if_splits)

lemma line_split_tail:
  "line_split buf f u = (f', u') \<Longrightarrow> f' \<le> i \<Longrightarrow> i < f \<Longrightarrow> buf ! i \<noteq> 0x0A"
proof (induction buf f u rule: line_split.induct)
  case (2 buf f u)
  then show ?case by (cases "i = f") (auto split: if_splits)
qed auto

lemma line_split_no_newline:
  assumes "line_split buf (length buf) 0 = (f, u)"
  shows "0x0A \<notin> set (drop f buf)"
proof
  assume "0x0A \<in> set (drop f buf)"
  then obtain j where "j < length (drop f buf)" "drop f buf ! j = 0x0A"
    by (metis in_set_conv_nth)
  with line_split_tail [OF assms, of "f + j"] show False by simp
qed

context iob_sink
begin

text \<open>The split the buffering mode asks for.\<close>

definition mode_split :: "'d io_buffer \<Rightarrow> bytes \<Rightarrow> nat \<times> nat" where
  "mode_split io bs = (case mode io of IOFBF \<Rightarrow> (0, length bs)
     | IOLBF \<Rightarrow> line_split bs (length bs) 0 | IONBF \<Rightarrow> (length bs, 0))"

lemma mode_split_sum: "mode_split io bs = (f, u) \<Longrightarrow> f + u = length bs"
  by (auto simp: mode_split_def dest: line_split_sum split: io_bufmode.splits)

text \<open>The part that is written and flushed.\<close>

lemma flushed_part:
  assumes ok: "out_ok io" and f: "f \<le> length bs" "f < 2 ^ 64"
  shows "\<exists>io1. write_flushed ops io bs f = Some (False, f, io1) \<and> write_post io (take f bs) io1 \<and>
          (f \<noteq> 0 \<longrightarrow> queued io1 = [])"
proof (cases "f = 0")
  case True
  with ok show ?thesis by (simp add: write_flushed_def write_post_empty)
next
  case False
  obtain io1 where io1: "wbuffer_no_flush ops io bs f = Some (f, io1)" "write_post io (take f bs) io1"
    using wbuffer_no_flush_eq [OF ok f] by auto
  then obtain io2 where io2: "call_flush ops io1 = Some (0, io2)" "out_ok io2" "sent io2 = sent io1"
      "io_out io2 = 0" "mode io2 = mode io1"
    using call_flush_sink [of io1] by (auto simp: write_post_def)
  then have "write_post io1 [] io2" by (auto simp: write_post_def queued_def)
  with io1(2) have "write_post io (take f bs) io2" using write_post_trans by fastforce
  with False io1(1) io2 show ?thesis by (auto simp: write_flushed_def queued_def)
qed

lemma iob_write_eq:
  assumes ok: "out_ok io" and len: "length bs < 2 ^ 64"
  shows "\<exists>io'. iob_write ops io bs (length bs) = Some (length bs, io') \<and> write_post io bs io' \<and>
     (fst (mode_split io bs) \<noteq> 0 \<longrightarrow>
        (\<exists>us. drop (fst (mode_split io bs)) bs = us @ queued io'))"
proof -
  obtain f u where fu: "mode_split io bs = (f, u)" by fastforce
  with mode_split_sum have sum: "f + u = length bs" by blast
  then have f: "f \<le> length bs" "f < 2 ^ 64" using len by auto
  obtain io1 where io1: "write_post io (take f bs) io1" "f \<noteq> 0 \<longrightarrow> queued io1 = []"
    and io1_eq: "write_flushed ops io bs f = Some (False, f, io1)"
    using flushed_part [OF ok f] by blast
  have "out_ok io1" using io1(1) by (simp add: write_post_def)
  then obtain io2 where io2: "wbuffer_no_flush ops io1 (drop f bs) u = Some (u, io2)"
      "write_post io1 (drop f bs) io2"
    using wbuffer_no_flush_eq [of io1 u "drop f bs"] sum len by fastforce
  have post: "write_post io bs io2" using write_post_trans [OF io1(1) io2(2)] by simp
  have suffix: "f \<noteq> 0 \<longrightarrow> (\<exists>us. drop f bs = us @ queued io2)"
    using io1(2) io2(2) by (auto simp: write_post_def)
  have unfold: "iob_write ops io bs (length bs) =
     (if u \<noteq> 0 then do { (n, io) \<leftarrow> wbuffer_no_flush ops io1 (drop f bs) u; Some (f + n, io) }
      else Some (f, io1))"
    using fu by (simp add: iob_write_def mode_split_def io1_eq)
  show ?thesis
  proof (cases "u = 0")
    case True
    then have "drop f bs = []" using sum by simp
    with True unfold io1 sum fu show ?thesis by (intro exI [of _ io1]) auto
  next
    case False
    with unfold io2(1) sum fu post suffix show ?thesis by (intro exI [of _ io2]) auto
  qed
qed

text \<open>A line-buffered device never keeps a newline.\<close>

lemma line_buffered_no_newline:
  assumes ok: "out_ok io" and len: "length bs < 2 ^ 64" and mode: "mode io = IOLBF"
    and none: "0x0A \<notin> set (queued io)"
    and w: "iob_write ops io bs (length bs) = Some (n, io')"
  shows "0x0A \<notin> set (queued io')"
proof -
  obtain f u where fu: "line_split bs (length bs) 0 = (f, u)" by fastforce
  have tail: "0x0A \<notin> set (drop f bs)" by (rule line_split_no_newline [OF fu])
  from iob_write_eq [OF ok len] w mode fu have post: "write_post io bs io'"
    and suf: "f \<noteq> 0 \<longrightarrow> (\<exists>us. drop f bs = us @ queued io')"
    by (auto simp: mode_split_def)
  show ?thesis
  proof (cases "f = 0")
    case True
    obtain us where "queued io @ bs = us @ queued io'" using post by (auto simp: write_post_def)
    then have "set (queued io') \<subseteq> set (queued io) \<union> set bs" by (metis set_append sup_ge2)
    with True tail none show ?thesis by auto
  next
    case False
    with suf tail show ?thesis by (metis UnCI set_append)
  qed
qed

end

end
