(* ===== verification/CType.thy ===== *)
theory CType
  imports Prelude
begin

text \<open>
  The character classes of \<open>uklib/ctype.c\<close> and the two inline functions of
  \<open>include/cyanea/ctype.h\<close>.  The table is the source's table, entry by entry; the index of
  \<open>isx\<close> is the argument converted to \<open>unsigned char\<close>.  Arguments of type \<open>int\<close> are bytes here,
  because every caller passes a character.
\<close>

section \<open>The table\<close>

abbreviation (input) C_upper :: u8 where "C_upper \<equiv> 0x01"
abbreviation (input) C_lower :: u8 where "C_lower \<equiv> 0x02"
abbreviation (input) C_digit :: u8 where "C_digit \<equiv> 0x04"
abbreviation (input) C_xdigit :: u8 where "C_xdigit \<equiv> 0x08"
abbreviation (input) C_space :: u8 where "C_space \<equiv> 0x10"
abbreviation (input) C_print :: u8 where "C_print \<equiv> 0x20"
abbreviation (input) C_punct :: u8 where "C_punct \<equiv> 0x40"
abbreviation (input) C_cntrl :: u8 where "C_cntrl \<equiv> 0x80"

abbreviation (input) UPPER :: u8 where "UPPER \<equiv> 0x21"
abbreviation (input) UPPER_X :: u8 where "UPPER_X \<equiv> 0x29"
abbreviation (input) LOWER :: u8 where "LOWER \<equiv> 0x22"
abbreviation (input) LOWER_X :: u8 where "LOWER_X \<equiv> 0x2A"
abbreviation (input) DIGIT_X :: u8 where "DIGIT_X \<equiv> 0x2C"
abbreviation (input) SPACE :: u8 where "SPACE \<equiv> 0x30"
abbreviation (input) PUNCT :: u8 where "PUNCT \<equiv> 0x60"
abbreviation (input) CTRL :: u8 where "CTRL \<equiv> 0x80"
abbreviation (input) CTRLSP :: u8 where "CTRLSP \<equiv> 0x90"

definition ctypes :: "u8 list" where
  "ctypes = [
    CTRL, CTRL, CTRL, CTRL, CTRL, CTRL, CTRL, CTRL, CTRLSP, CTRLSP, CTRLSP, CTRLSP, CTRLSP,
    CTRLSP, CTRL, CTRL, CTRL, CTRL, CTRL, CTRL, CTRL, CTRL, CTRL, CTRL, CTRL, CTRL, CTRL,
    CTRL, CTRL, CTRL, CTRL, CTRL, SPACE, PUNCT, PUNCT, PUNCT, PUNCT, PUNCT, PUNCT, PUNCT,
    PUNCT, PUNCT, PUNCT, PUNCT, PUNCT, PUNCT, PUNCT, PUNCT, DIGIT_X, DIGIT_X, DIGIT_X,
    DIGIT_X, DIGIT_X, DIGIT_X, DIGIT_X, DIGIT_X, DIGIT_X, DIGIT_X, PUNCT, PUNCT, PUNCT,
    PUNCT, PUNCT, PUNCT, PUNCT, UPPER_X, UPPER_X, UPPER_X, UPPER_X, UPPER_X, UPPER_X, UPPER,
    UPPER, UPPER, UPPER, UPPER, UPPER, UPPER, UPPER, UPPER, UPPER, UPPER, UPPER, UPPER,
    UPPER, UPPER, UPPER, UPPER, UPPER, UPPER, UPPER, PUNCT, PUNCT, PUNCT, PUNCT, PUNCT,
    PUNCT, LOWER_X, LOWER_X, LOWER_X, LOWER_X, LOWER_X, LOWER_X, LOWER, LOWER, LOWER, LOWER,
    LOWER, LOWER, LOWER, LOWER, LOWER, LOWER, LOWER, LOWER, LOWER, LOWER, LOWER, LOWER,
    LOWER, LOWER, LOWER, LOWER, PUNCT, PUNCT, PUNCT, PUNCT, CTRL, CTRL, CTRL, CTRL, CTRL,
    CTRL, CTRL, CTRL, CTRL, CTRL, CTRL, CTRL, CTRL, CTRL, CTRL, CTRL, CTRL, CTRL, CTRL,
    CTRL, CTRL, CTRL, CTRL, CTRL, CTRL, CTRL, CTRL, CTRL, CTRL, CTRL, CTRL, CTRL, CTRL,
    SPACE, PUNCT, PUNCT, PUNCT, PUNCT, PUNCT, PUNCT, PUNCT, PUNCT, PUNCT, PUNCT, PUNCT,
    PUNCT, PUNCT, PUNCT, PUNCT, PUNCT, PUNCT, PUNCT, PUNCT, PUNCT, PUNCT, PUNCT, PUNCT,
    PUNCT, PUNCT, PUNCT, PUNCT, PUNCT, PUNCT, PUNCT, PUNCT, UPPER, UPPER, UPPER, UPPER,
    UPPER, UPPER, UPPER, UPPER, UPPER, UPPER, UPPER, UPPER, UPPER, UPPER, UPPER, UPPER,
    UPPER, UPPER, UPPER, UPPER, UPPER, UPPER, UPPER, PUNCT, UPPER, UPPER, UPPER, UPPER,
    UPPER, UPPER, UPPER, LOWER, LOWER, LOWER, LOWER, LOWER, LOWER, LOWER, LOWER, LOWER,
    LOWER, LOWER, LOWER, LOWER, LOWER, LOWER, LOWER, LOWER, LOWER, LOWER, LOWER, LOWER,
    LOWER, LOWER, LOWER, PUNCT, LOWER, LOWER, LOWER, LOWER, LOWER, LOWER, LOWER, LOWER  ]"

definition isx :: "u8 \<Rightarrow> u8 \<Rightarrow> bool" where
  "isx c type = ((ctypes ! unat c) AND type \<noteq> 0)"

section \<open>The predicates\<close>

definition isupper :: "u8 \<Rightarrow> bool" where "isupper c = isx c C_upper"
definition islower :: "u8 \<Rightarrow> bool" where "islower c = isx c C_lower"
definition isdigit :: "u8 \<Rightarrow> bool" where "isdigit c = isx c C_digit"
definition isspace :: "u8 \<Rightarrow> bool" where "isspace c = isx c C_space"
definition isprint :: "u8 \<Rightarrow> bool" where "isprint c = isx c C_print"
definition ispunct :: "u8 \<Rightarrow> bool" where "ispunct c = isx c C_punct"
definition iscntrl :: "u8 \<Rightarrow> bool" where "iscntrl c = isx c C_cntrl"
definition isalnum :: "u8 \<Rightarrow> bool" where "isalnum c = isx c (C_upper OR C_lower OR C_digit)"
definition isalpha :: "u8 \<Rightarrow> bool" where "isalpha c = isx c (C_upper OR C_lower)"
definition isgraph :: "u8 \<Rightarrow> bool" where
  "isgraph c = isx c (C_upper OR C_lower OR C_digit OR C_punct)"
definition isxdigit :: "u8 \<Rightarrow> bool" where "isxdigit c = isx c C_xdigit"

text \<open>\<open>'A' - 'a'\<close> is \<open>-32\<close>, and subtracting it from an \<open>int\<close> adds 32.\<close>

definition tolower :: "u8 \<Rightarrow> u8" where
  "tolower c = (if isupper c then c - (0x41 - 0x61) else c)"

definition toupper :: "u8 \<Rightarrow> u8" where
  "toupper c = (if islower c then c - (0x61 - 0x41) else c)"

section \<open>The classes as ranges\<close>

text \<open>
  A statement that relates every byte to its entry is decided by one pass over the table.
\<close>

fun table_all :: "(u8 \<Rightarrow> u8 \<Rightarrow> bool) \<Rightarrow> u8 \<Rightarrow> u8 list \<Rightarrow> bool" where
  "table_all P c [] = True"
| "table_all P c (e # es) = (P c e \<and> table_all P (c + 1) es)"

lemma table_all_nth: "table_all P c es \<Longrightarrow> i < length es \<Longrightarrow> P (c + of_nat i) (es ! i)"
proof (induction es arbitrary: c i)
  case (Cons e es)
  then show ?case
  proof (cases i)
    case (Suc j)
    with Cons.prems Cons.IH [of "c + 1" j] show ?thesis by (simp add: algebra_simps)
  qed simp
qed simp

lemma length_ctypes: "length ctypes = 256"
  by (simp add: ctypes_def)

lemma ctypes_all:
  assumes "table_all P 0 ctypes"
  shows "P c (ctypes ! unat c)"
proof -
  have "unat c < length ctypes" using unsigned_less [of c] by (simp add: length_ctypes)
  from table_all_nth [OF assms this] show ?thesis by simp
qed

lemma isdigit_range:
  "isdigit c \<longleftrightarrow> 0x30 \<le> c \<and> c \<le> 0x39"
  unfolding isdigit_def isx_def
  by (rule ctypes_all [of "\<lambda>c e. (e AND C_digit \<noteq> 0) \<longleftrightarrow> 0x30 \<le> c \<and> c \<le> 0x39"])
    (simp add: ctypes_def word_le_nat_alt)

lemma isupper_range:
  "isupper c \<longleftrightarrow> (0x41 \<le> c \<and> c \<le> 0x5A) \<or> (0xC0 \<le> c \<and> c \<le> 0xDE \<and> c \<noteq> 0xD7)"
  unfolding isupper_def isx_def
  by (rule ctypes_all [of "\<lambda>c e. (e AND C_upper \<noteq> 0) \<longleftrightarrow> (0x41 \<le> c \<and> c \<le> 0x5A) \<or> (0xC0 \<le> c \<and> c \<le> 0xDE \<and> c \<noteq> 0xD7)"])
    (simp add: ctypes_def word_le_nat_alt)

lemma islower_range:
  "islower c \<longleftrightarrow> (0x61 \<le> c \<and> c \<le> 0x7A) \<or> (0xDF \<le> c \<and> c \<noteq> 0xF7)"
  unfolding islower_def isx_def
  by (rule ctypes_all [of "\<lambda>c e. (e AND C_lower \<noteq> 0) \<longleftrightarrow> (0x61 \<le> c \<and> c \<le> 0x7A) \<or> (0xDF \<le> c \<and> c \<noteq> 0xF7)"])
    (simp add: ctypes_def word_le_nat_alt)

lemma isxdigit_range:
  "isxdigit c \<longleftrightarrow> (0x30 \<le> c \<and> c \<le> 0x39) \<or> (0x41 \<le> c \<and> c \<le> 0x46) \<or> (0x61 \<le> c \<and> c \<le> 0x66)"
  unfolding isxdigit_def isx_def
  by (rule ctypes_all [of "\<lambda>c e. (e AND C_xdigit \<noteq> 0) \<longleftrightarrow> (0x30 \<le> c \<and> c \<le> 0x39) \<or> (0x41 \<le> c \<and> c \<le> 0x46) \<or> (0x61 \<le> c \<and> c \<le> 0x66)"])
    (simp add: ctypes_def word_le_nat_alt)

lemma isspace_range:
  "isspace c \<longleftrightarrow> (0x08 \<le> c \<and> c \<le> 0x0D) \<or> c = 0x20 \<or> c = 0xA0"
  unfolding isspace_def isx_def
  by (rule ctypes_all [of "\<lambda>c e. (e AND C_space \<noteq> 0) \<longleftrightarrow> (0x08 \<le> c \<and> c \<le> 0x0D) \<or> c = 0x20 \<or> c = 0xA0"])
    (simp add: ctypes_def word_le_nat_alt)

lemma iscntrl_range:
  "iscntrl c \<longleftrightarrow> c < 0x20 \<or> (0x7F \<le> c \<and> c < 0xA0)"
  unfolding iscntrl_def isx_def
  by (rule ctypes_all [of "\<lambda>c e. (e AND C_cntrl \<noteq> 0) \<longleftrightarrow> c < 0x20 \<or> (0x7F \<le> c \<and> c < 0xA0)"])
    (simp add: ctypes_def word_le_nat_alt)

text \<open>The two case conversions undo each other on the characters they change.\<close>

lemma upper_lower_byte:
  "(isupper c \<longrightarrow> islower (c - (0x41 - 0x61)) \<and> toupper (c - (0x41 - 0x61)) = c)"
  unfolding isupper_def isx_def
  by (rule ctypes_all [of "\<lambda>c e. e AND C_upper \<noteq> 0 \<longrightarrow>
      islower (c - (0x41 - 0x61)) \<and> toupper (c - (0x41 - 0x61)) = c"])
    (simp add: ctypes_def islower_range toupper_def)

end
