(* ===== verification/StrToX.thy ===== *)
theory StrToX
  imports IoBuffer CType
begin

text \<open>
  Number parsing: \<open>uklib/io_buffer/strtox.c\<close> parses from any \<open>io_buffer\<close>, and
  \<open>uklib/strtox.c\<close> runs it on a C string through a 32 byte scratch buffer.  A result is the
  error number or the value; \<open>Inr None\<close> says that the function reports success and never stores
  through \<open>result_ret\<close>.
\<close>

section \<open>Parsing from a buffer (uklib/io_buffer/strtox.c)\<close>

text \<open>\<open>-1\<close> of type \<open>unsigned int\<close> is \<open>-1\<close> again in the \<open>int\<close> the caller stores it in.\<close>

definition digit_value :: "u8 \<Rightarrow> int" where
  "digit_value ch =
     (if isdigit ch then uint ch - 0x30
      else if isxdigit ch then
        (if isupper ch then uint ch - 0x41 + 10 else uint ch - 0x61 + 10)
      else -1)"

definition strtoull_prefix ::
  "'d io_ops \<Rightarrow> 'd io_buffer \<Rightarrow> int \<Rightarrow> (int \<times> 'd io_buffer) option" where
  "strtoull_prefix ops io base =
     (if base = 0 then do {
        (c, io) \<leftarrow> iob_read ops io 1;
        if c \<noteq> [] then
          (if c ! 0 = 0x30 then do {
             (c1, io) \<leftarrow> iob_read ops io 1;
             if c1 \<noteq> [] then
               (if c1 ! 0 = 0x78 \<or> c1 ! 0 = 0x58 then Some (16, io)
                else do { (_, io) \<leftarrow> iob_ungetc io (c1 ! 0); Some (8, io) })
             else Some (8, io) }
           else do { (_, io) \<leftarrow> iob_ungetc io (c ! 0); Some (10, io) })
        else Some (base, io) }
      else if base = 16 then do {
        (c, io) \<leftarrow> iob_read ops io 2;
        if length c = 2 then
          (if c ! 0 \<noteq> 0x30 \<or> (c ! 1 \<noteq> 0x78 \<and> c ! 1 \<noteq> 0x58) then do {
             (_, io) \<leftarrow> iob_ungetc io (c ! 1);
             (_, io) \<leftarrow> iob_ungetc io (c ! 0);
             Some (base, io) }
           else Some (base, io))
        else if length c = 1 then do { (_, io) \<leftarrow> iob_ungetc io (c ! 0); Some (base, io) }
        else Some (base, io) }
      else Some (base, io))"

definition strtoull_overflows :: "u64 \<Rightarrow> int \<Rightarrow> int \<Rightarrow> bool" where
  "strtoull_overflows result base tmp \<longleftrightarrow>
     result AND push_bit 60 (-1) \<noteq> 0 \<and> (- 1 - of_int tmp) div of_int base < result"

partial_function (option) strtoull_loop ::
  "'d io_ops \<Rightarrow> 'd io_buffer \<Rightarrow> int \<Rightarrow> u64 \<Rightarrow> ((errno + u64) \<times> 'd io_buffer) option" where
  "strtoull_loop ops io base result =
     do {
       (c, io) \<leftarrow> iob_read ops io 1;
       if c = [] then Some (Inr result, io)
       else
         (if 0 \<le> digit_value (c ! 0) \<and> digit_value (c ! 0) < base then
            (if strtoull_overflows result base (digit_value (c ! 0)) then
               do { (_, io) \<leftarrow> iob_ungetc io (c ! 0); Some (Inl ERANGE, io) }
             else strtoull_loop ops io base
                    (result * of_int base + of_int (digit_value (c ! 0))))
          else do { (_, io) \<leftarrow> iob_ungetc io (c ! 0); Some (Inr result, io) }) }"

definition iob_strtoull ::
  "'d io_ops \<Rightarrow> 'd io_buffer \<Rightarrow> int \<Rightarrow> ((errno + u64) \<times> 'd io_buffer) option" where
  "iob_strtoull ops io base =
     do { (base, io) \<leftarrow> strtoull_prefix ops io base; strtoull_loop ops io base 0 }"

definition iob_strtoll ::
  "'d io_ops \<Rightarrow> 'd io_buffer \<Rightarrow> int \<Rightarrow> ((errno + u64 option) \<times> 'd io_buffer) option" where
  "iob_strtoll ops io base =
     do {
       (c, io) \<leftarrow> iob_read ops io 1;
       if c \<noteq> [] then
         (if c ! 0 = 0x2D then do {
            (r, io) \<leftarrow> iob_strtoull ops io base;
            case r of
              Inl e \<Rightarrow> Some (Inl e, io)
            | Inr result \<Rightarrow>
                if 0 < sint (- result) then Some (Inl ERANGE, io)
                else Some (Inr (Some (- result)), io) }
          else do {
            (_, io) \<leftarrow> (if c ! 0 \<noteq> 0x2B then map_option (map_prod (\<lambda>_. ()) id) (iob_ungetc io (c ! 0))
                         else Some ((), io));
            (r, io) \<leftarrow> iob_strtoull ops io base;
            case r of
              Inl e \<Rightarrow> Some (Inl e, io)
            | Inr result \<Rightarrow>
                if sint result < 0 then Some (Inl ERANGE, io)
                else Some (Inr (Some result), io) })
       else Some (Inr None, io) }"

section \<open>Parsing a string (uklib/strtox.c)\<close>

text \<open>The device is \<open>struct strtox\<close> without its \<open>io\<close>: the rest of the string and its length.\<close>

record strtox =
  str :: bytes
  str_n :: nat

definition strtox_read :: "nat \<Rightarrow> strtox \<Rightarrow> bytes \<times> strtox" where
  "strtox_read count x =
     (let count = c_min (str_n x) count
      in (take count (str x), x\<lparr>str := drop count (str x), str_n := str_n x - count\<rparr>))"

definition strtox_ops :: "strtox io_ops" where
  "strtox_ops = \<lparr>op_read = Some strtox_read, op_write = None, op_flush = None\<rparr>"

text \<open>
  The structure as initialised; the scratch buffer is written before it is read.  \<open>inptr\<close> is set
  by the first read, which comes before the first \<open>ungetc\<close>.
\<close>

definition strtox_init :: "bytes \<Rightarrow> nat \<Rightarrow> strtox io_buffer" where
  "strtox_init s n =
     \<lparr>mode = IONBF, io_in = 0, io_out = 0, buffer = replicate 32 0, buf_size = 32, inptr = 0,
      io_unget_slop = 0, dev = \<lparr>str = s, str_n = n\<rparr>\<rparr>"

definition strtoull :: "bytes \<Rightarrow> int \<Rightarrow> (errno + u64) option" where
  "strtoull s base =
     do { n \<leftarrow> strlen s; (r, _) \<leftarrow> iob_strtoull strtox_ops (strtox_init s n) base; Some r }"

text \<open>\<open>unsigned long\<close> and \<open>unsigned long long\<close> have 64 bits, so the range checks never fire.\<close>

definition strtoul :: "bytes \<Rightarrow> int \<Rightarrow> (errno + u64) option" where
  "strtoul s base =
     do { r \<leftarrow> strtoull s base;
          Some (case r of Inl e \<Rightarrow> Inl e
            | Inr result \<Rightarrow>
                if result \<noteq> (ucast (ucast result :: 64 word) :: u64) then Inl ERANGE else Inr result) }"

definition strtoll :: "bytes \<Rightarrow> int \<Rightarrow> (errno + u64 option) option" where
  "strtoll s base =
     do { n \<leftarrow> strlen s; (r, _) \<leftarrow> iob_strtoll strtox_ops (strtox_init s n) base; Some r }"

definition strtol :: "bytes \<Rightarrow> int \<Rightarrow> (errno + u64 option) option" where
  "strtol s base =
     do { r \<leftarrow> strtoll s base;
          Some (case r of Inl e \<Rightarrow> Inl e
            | Inr None \<Rightarrow> Inr None
            | Inr (Some result) \<Rightarrow>
                if result \<noteq> (scast (scast result :: 64 word) :: u64) then Inl ERANGE
                else Inr (Some result)) }"

section \<open>What the parser does to a list of characters\<close>

definition is_x :: "u8 \<Rightarrow> bool" where
  "is_x c \<longleftrightarrow> c = 0x78 \<or> c = 0x58"

fun parse_prefix :: "int \<Rightarrow> bytes \<Rightarrow> int \<times> bytes" where
  "parse_prefix base s =
     (if base = 0 then
        (case s of [] \<Rightarrow> (0, [])
         | c # s' \<Rightarrow> if c = 0x30 then
             (case s' of [] \<Rightarrow> (8, []) | c1 # s'' \<Rightarrow> if is_x c1 then (16, s'') else (8, s'))
           else (10, s))
      else if base = 16 then
        (case s of c # c1 # s'' \<Rightarrow> if c = 0x30 \<and> is_x c1 then (16, s'') else (16, s) | _ \<Rightarrow> (16, s))
      else (base, s))"

fun parse_digits :: "int \<Rightarrow> bytes \<Rightarrow> u64 \<Rightarrow> (errno + u64) \<times> bytes" where
  "parse_digits base [] result = (Inr result, [])"
| "parse_digits base (c # s) result =
     (if 0 \<le> digit_value c \<and> digit_value c < base then
        (if strtoull_overflows result base (digit_value c) then (Inl ERANGE, c # s)
         else parse_digits base s (result * of_int base + of_int (digit_value c)))
      else (Inr result, c # s))"

definition parse_ull :: "int \<Rightarrow> bytes \<Rightarrow> (errno + u64) \<times> bytes" where
  "parse_ull base s = (let (base', s') = parse_prefix base s in parse_digits base' s' 0)"

definition parse_ll :: "int \<Rightarrow> bytes \<Rightarrow> errno + u64 option" where
  "parse_ll base s =
     (case s of [] \<Rightarrow> Inr None
      | c # s' \<Rightarrow>
          if c = 0x2D then
            (case fst (parse_ull base s') of Inl e \<Rightarrow> Inl e
             | Inr r \<Rightarrow> if 0 < sint (- r) then Inl ERANGE else Inr (Some (- r)))
          else
            (case fst (parse_ull base (if c \<noteq> 0x2B then s else s')) of Inl e \<Rightarrow> Inl e
             | Inr r \<Rightarrow> if sint r < 0 then Inl ERANGE else Inr (Some r)))"

section \<open>The parser over any readable device\<close>

context iob_source
begin

definition source_ok :: "'d io_buffer \<Rightarrow> bool" where
  "source_ok io \<longleftrightarrow> in_ok io \<and> 2 < buf_size io"

text \<open>Reading one character.\<close>

lemma read_one:
  assumes "source_ok io"
  shows "\<exists>io'. iob_read ops io 1 = Some (take 1 (pending io), io') \<and> source_ok io'
     \<and> pending io' = drop 1 (pending io) \<and> (pending io \<noteq> [] \<longrightarrow> 0 < inptr io')"
  using iob_read_eq [of io 1] assms by (fastforce simp: source_ok_def read_post_def)

lemma unget_one:
  assumes "source_ok io" "0 < inptr io"
  shows "\<exists>io'. iob_ungetc io c = Some (Inr c, io') \<and> source_ok io' \<and> pending io' = c # pending io"
  using iob_ungetc_eq [of io c] assms by (fastforce simp: source_ok_def)

lemma strtoull_loop_eq:
  assumes "source_ok io"
  shows "\<exists>io'. strtoull_loop ops io base r = Some (fst (parse_digits base (pending io) r), io')
     \<and> source_ok io' \<and> pending io' = snd (parse_digits base (pending io) r)"
  using assms
proof (induction "pending io" arbitrary: io r)
  case Nil
  obtain io1 where "iob_read ops io 1 = Some ([], io1)" "source_ok io1" "pending io1 = []"
    using read_one [OF Nil.prems] Nil.hyps by (metis drop_Nil take_Nil)
  then show ?case by (subst strtoull_loop.simps) (simp flip: Nil.hyps)
next
  case (Cons c s)
  obtain io1 where io1: "iob_read ops io 1 = Some ([c], io1)" "source_ok io1" "pending io1 = s" "0 < inptr io1"
    using read_one [OF Cons.prems] by (auto simp flip: Cons.hyps(2))
  obtain io2 where io2: "iob_ungetc io1 c = Some (Inr c, io2)" "source_ok io2" "pending io2 = c # s"
    using unget_one [OF io1(2,4), of c] io1(3) by auto
  show ?case
  proof (cases "0 \<le> digit_value c \<and> digit_value c < base \<and> \<not> strtoull_overflows r base (digit_value c)")
    case True
    with Cons.hyps(1) [of io1 "r * of_int base + of_int (digit_value c)"] io1 show ?thesis
      by (subst strtoull_loop.simps) (simp flip: Cons.hyps(2))
  next
    case False
    with io1 io2 show ?thesis
      by (subst strtoull_loop.simps) (auto simp flip: Cons.hyps(2))
  qed
qed

end

text \<open>
  \<open>__iob_strtoull\<close> may push two characters back, and a buffer without slop takes them only when
  both were read from the same filling.  That needs a device that fills the buffer, and a buffer
  that is not down to its last byte.
\<close>

locale iob_source_full = iob_source ops stream
  for ops :: "'d io_ops" and stream :: "'d \<Rightarrow> bytes" +
  assumes read_full:
    "op_read ops = Some rd \<Longrightarrow> rd n d = (data, d') \<Longrightarrow> length data = min n (length (stream d))"
begin

definition unget2_ok :: "'d io_buffer \<Rightarrow> bool" where
  "unget2_ok io \<longleftrightarrow> io_in io = 0 \<or> 2 \<le> io_in io \<or> stream (dev io) = []"

lemma two_buffered:
  assumes ok: "source_ok io" and two: "2 \<le> io_in io"
  shows "\<exists>io'. iob_read_loop ops io [] 2 = Some (take 2 (pending io), io') \<and> source_ok io'
     \<and> pending io' = drop 2 (pending io) \<and> 2 \<le> inptr io'"
proof -
  from ok two have pre: "in_ok io" "io_in io \<noteq> 0" "(2::nat) \<noteq> 0" by (auto simp: source_ok_def)
  obtain io' where io': "iob_read_loop ops io [] 2 = iob_read_loop ops io'
       ([] @ take (min 2 (io_in io)) (pending io)) (2 - min 2 (io_in io))" "in_ok io'"
      "pending io' = drop (min 2 (io_in io)) (pending io)"
      "inptr io' = inptr io + min 2 (io_in io)" "buf_size io' = buf_size io"
    by (rule iob_read_loop_buffered [OF pre, of "[]"]) blast
  with ok two show ?thesis
    by (auto simp: min_absorb1 source_ok_def iob_read_loop.simps [of _ _ _ 0])
qed

text \<open>Filling an empty buffer.\<close>

lemma fill_step:
  assumes ok: "source_ok io" and empty: "io_in io = 0" and more: "pending io \<noteq> []"
    and count: "0 < count" "count < buf_size io"
  shows "\<exists>io1. iob_read_loop ops io acc count = iob_read_loop ops io1 acc count \<and> source_ok io1
     \<and> pending io1 = pending io \<and> io_in io1 = min (buf_size io) (length (pending io))
     \<and> stream (dev io1) = drop (buf_size io) (pending io)"
proof -
  have pend: "pending io = stream (dev io)" using empty by (simp add: pending_def)
  obtain rd where rd: "op_read ops = Some rd" using read_defined by auto
  obtain data d' where r: "rd (buf_size io) (dev io) = (data, d')" by fastforce
  from read_stream [OF rd r] have st: "stream (dev io) = data @ stream d'" "length data \<le> buf_size io"
    "data = [] \<longleftrightarrow> buf_size io = 0 \<or> stream (dev io) = []" by blast+
  then have data: "stream (dev io) = data @ stream d'" "data \<noteq> []" "length data \<le> buf_size io"
    using more ok by (auto simp: pend source_ok_def)
  have full: "length data = min (buf_size io) (length (pending io))"
    unfolding pend by (rule read_full [OF rd r])
  let ?b = "take (io_unget_slop io) (buffer io) @ data
      @ drop (io_unget_slop io + length data) (buffer io)"
  let ?io = "io\<lparr>dev := d', buffer := ?b, inptr := io_unget_slop io, io_in := length data\<rparr>"
  have "memcpy_from (buffer io) (io_unget_slop io) data (length data) = Some ?b"
    using ok data by (simp add: memcpy_from_eq in_ok_def source_ok_def)
  then have "iob_read_loop ops io acc count = iob_read_loop ops ?io acc count"
    using empty data count by (subst iob_read_loop.simps) (simp add: call_read_def rd r)
  moreover have "source_ok ?io" using ok data by (auto simp: source_ok_def in_ok_def)
  moreover have "pending ?io = pending io"
    using ok data pend by (auto simp: pending_def in_ok_def source_ok_def)
  moreover have "stream d' = drop (buf_size io) (pending io)"
    using data(1) full unfolding pend by (simp add: min_def split: if_splits)
  ultimately show ?thesis using full by (intro exI [of _ ?io]) simp
qed

lemma read_two:
  assumes ok: "source_ok io" and u2: "unget2_ok io" and len: "2 \<le> length (pending io)"
  shows "\<exists>io'. iob_read ops io 2 = Some (take 2 (pending io), io') \<and> source_ok io'
     \<and> pending io' = drop 2 (pending io) \<and> 2 \<le> inptr io'"
proof -
  have out: "io_out io = 0" using ok by (simp add: source_ok_def in_ok_def)
  consider "2 \<le> io_in io" | "io_in io = 0"
  proof (cases "io_in io = 0 \<or> 2 \<le> io_in io")
    case False
    then have "io_in io = 1" "stream (dev io) = []" using u2 by (auto simp: unget2_ok_def)
    with len show thesis by (simp add: pending_def)
  qed auto
  then show ?thesis
  proof cases
    case 1
    with two_buffered [OF ok] out show ?thesis by (simp add: iob_read_def)
  next
    case 2
    have "0 < (2::nat)" "2 < buf_size io" "pending io \<noteq> []"
      using ok len by (auto simp: source_ok_def)
    from fill_step [OF ok 2 this(3,1,2)] obtain io1 where
      "iob_read_loop ops io [] 2 = iob_read_loop ops io1 [] 2" "source_ok io1"
      "pending io1 = pending io" "io_in io1 = min (buf_size io) (length (pending io))" by blast
    with two_buffered [of io1] len ok out show ?thesis by (auto simp: iob_read_def source_ok_def)
  qed
qed

lemma unget_two:
  assumes "source_ok io" "2 \<le> inptr io"
  shows "\<exists>io1 io2. iob_ungetc io c1 = Some (Inr c1, io1) \<and> iob_ungetc io1 c0 = Some (Inr c0, io2)
     \<and> source_ok io2 \<and> pending io2 = c0 # c1 # pending io"
proof -
  obtain io1 where io1: "iob_ungetc io c1 = Some (Inr c1, io1)" "in_ok io1" "pending io1 = c1 # pending io"
      "inptr io1 = inptr io - 1" "buf_size io1 = buf_size io"
    using iob_ungetc_eq [of io c1] assms by (auto simp: source_ok_def)
  then have "source_ok io1" "0 < inptr io1" using assms by (auto simp: source_ok_def)
  from unget_one [OF this, of c0] io1 show ?thesis by auto
qed

lemma strtoull_prefix_eq:
  assumes ok: "source_ok io" and u2: "unget2_ok io"
  shows "\<exists>io'. strtoull_prefix ops io base = Some (fst (parse_prefix base (pending io)), io')
     \<and> source_ok io' \<and> pending io' = snd (parse_prefix base (pending io))"
proof -
  consider "base = 0" | "base = 16" | "base \<noteq> 0" "base \<noteq> 16" by blast
  then show ?thesis
  proof cases
    case 1
    obtain io1 where io1: "iob_read ops io 1 = Some (take 1 (pending io), io1)" "source_ok io1"
        "pending io1 = drop 1 (pending io)" "pending io \<noteq> [] \<longrightarrow> 0 < inptr io1"
      using read_one [OF ok] by blast
    obtain io2 where io2: "iob_read ops io1 1 = Some (take 1 (pending io1), io2)" "source_ok io2"
        "pending io2 = drop 1 (pending io1)" "pending io1 \<noteq> [] \<longrightarrow> 0 < inptr io2"
      using read_one [OF io1(2)] by blast
    show ?thesis
    proof (cases "pending io")
      case Nil
      with 1 io1 show ?thesis by (simp add: strtoull_prefix_def)
    next
      case (Cons c s)
      obtain io3 where io3: "iob_ungetc io1 c = Some (Inr c, io3)" "source_ok io3" "pending io3 = c # s"
        using unget_one [OF io1(2), of c] io1 Cons by auto
      show ?thesis
      proof (cases s)
        case Nil
        with 1 io1 io2 io3 Cons show ?thesis by (simp add: strtoull_prefix_def)
      next
        case (Cons c1 t)
        obtain io4 where io4: "iob_ungetc io2 c1 = Some (Inr c1, io4)" "source_ok io4" "pending io4 = c1 # t"
          using unget_one [OF io2(2), of c1] io1 io2 \<open>pending io = c # s\<close> Cons by auto
        with 1 io1 io2 io3 \<open>pending io = c # s\<close> Cons show ?thesis
          by (simp add: strtoull_prefix_def is_x_def)
      qed
    qed
  next
    case 2
    show ?thesis
    proof (cases "2 \<le> length (pending io)")
      case True
      then obtain c0 c1 t where p: "pending io = c0 # c1 # t"
        by (metis One_nat_def Suc_1 Suc_le_length_iff)
      obtain io1 where io1: "iob_read ops io 2 = Some ([c0, c1], io1)" "source_ok io1" "pending io1 = t" "2 \<le> inptr io1"
        using read_two [OF ok u2 True] p by auto
      obtain io2 io3 where io3: "iob_ungetc io1 c1 = Some (Inr c1, io2)"
          "iob_ungetc io2 c0 = Some (Inr c0, io3)" "source_ok io3" "pending io3 = c0 # c1 # t"
        using unget_two [OF io1(2,4)] io1(3) by blast
      with 2 io1 p show ?thesis by (auto simp: strtoull_prefix_def is_x_def)
    next
      case False
      obtain io1 where io1: "iob_read ops io 2 = Some (pending io, io1)" "source_ok io1" "pending io1 = []"
          "pending io \<noteq> [] \<longrightarrow> 0 < inptr io1"
        using iob_read_eq [of io 2] ok False by (fastforce simp: source_ok_def read_post_def)
      show ?thesis
      proof (cases "pending io")
        case Nil
        with 2 io1 show ?thesis by (simp add: strtoull_prefix_def)
      next
        case (Cons c s)
        with False have s: "s = []" by (cases s) auto
        obtain io2 where "iob_ungetc io1 c = Some (Inr c, io2)" "source_ok io2" "pending io2 = [c]"
          using unget_one [OF io1(2), of c] io1 Cons by auto
        with 2 io1 Cons s show ?thesis by (simp add: strtoull_prefix_def)
      qed
    qed
  next
    case 3
    with ok show ?thesis by (simp add: strtoull_prefix_def)
  qed
qed

lemma iob_strtoull_eq:
  assumes "source_ok io" "unget2_ok io"
  shows "\<exists>io'. iob_strtoull ops io base = Some (fst (parse_ull base (pending io)), io')
     \<and> pending io' = snd (parse_ull base (pending io))"
proof -
  obtain io1 where io1: "strtoull_prefix ops io base = Some (fst (parse_prefix base (pending io)), io1)"
      "source_ok io1" "pending io1 = snd (parse_prefix base (pending io))"
    using strtoull_prefix_eq [OF assms] by blast
  then show ?thesis
    using strtoull_loop_eq [OF io1(2), of "fst (parse_prefix base (pending io))" 0]
    by (auto simp: iob_strtoull_def parse_ull_def Let_def split: prod.splits)
qed

text \<open>After the first character of an empty buffer two more can be pushed back.\<close>

lemma read_one_fresh:
  assumes ok: "source_ok io" and empty: "io_in io = 0"
  shows "\<exists>io'. iob_read ops io 1 = Some (take 1 (pending io), io') \<and> source_ok io'
     \<and> pending io' = drop 1 (pending io) \<and> (pending io \<noteq> [] \<longrightarrow> 0 < inptr io')
     \<and> (pending io \<noteq> [] \<longrightarrow> 2 \<le> io_in io' \<or> stream (dev io') = [])"
proof (cases "pending io = []")
  case True
  with read_one [OF ok] show ?thesis by auto
next
  case False
  have c: "0 < (1::nat)" "1 < buf_size io" using ok by (auto simp: source_ok_def)
  from fill_step [OF ok empty False c, of "[]"] obtain io1 where io1:
      "iob_read_loop ops io [] 1 = iob_read_loop ops io1 [] 1" "source_ok io1" "pending io1 = pending io"
      "io_in io1 = min (buf_size io) (length (pending io))"
      "stream (dev io1) = drop (buf_size io) (pending io)" by blast
  then have pre: "in_ok io1" "io_in io1 \<noteq> 0" "(1::nat) \<noteq> 0"
    using False ok by (auto simp: source_ok_def)
  let ?io = "io1\<lparr>inptr := inptr io1 + 1, io_in := io_in io1 - 1\<rparr>"
  have fits: "inptr io1 + 1 \<le> length (buffer io1)" using pre by (auto simp: in_ok_def)
  have hd: "take 1 (drop (inptr io1) (buffer io1)) = take 1 (pending io1)"
    using pre by (auto simp: pending_def in_ok_def min_def)
  have "iob_read ops io 1 = Some (take 1 (pending io), ?io)"
    using io1(1,3) pre fits hd ok
    by (simp add: iob_read_def source_ok_def in_ok_def iob_read_loop.simps min_def)
  moreover have "source_ok ?io" using io1(2) pre by (auto simp: source_ok_def in_ok_def)
  moreover have "pending ?io = drop 1 (pending io)"
    using pre io1(3) [symmetric] by (auto simp: pending_def in_ok_def drop_take)
  moreover have "2 \<le> io_in ?io \<or> stream (dev ?io) = []"
    using io1(4,5) c ok by (auto simp: source_ok_def)
  ultimately show ?thesis by (intro exI [of _ ?io]) auto
qed

lemma iob_strtoll_eq:
  assumes ok: "source_ok io" and empty: "io_in io = 0"
  shows "\<exists>io'. iob_strtoll ops io base = Some (parse_ll base (pending io), io')"
proof -
  obtain io1 where io1: "iob_read ops io 1 = Some (take 1 (pending io), io1)" "source_ok io1"
      "pending io1 = drop 1 (pending io)" "pending io \<noteq> [] \<longrightarrow> 0 < inptr io1"
      "pending io \<noteq> [] \<longrightarrow> 2 \<le> io_in io1 \<or> stream (dev io1) = []"
    using read_one_fresh [OF assms] by blast
  show ?thesis
  proof (cases "pending io")
    case Nil
    with io1 show ?thesis by (simp add: iob_strtoll_def parse_ll_def)
  next
    case (Cons c s)
    obtain io2 where io2: "iob_ungetc io1 c = Some (Inr c, io2)" "source_ok io2" "pending io2 = c # s"
      using unget_one [OF io1(2), of c] io1 Cons by auto
    from io2(1) have "io_in io2 = io_in io1 + 1" "dev io2 = dev io1"
      by (auto simp: iob_ungetc_def split: if_splits)
    then have u2: "unget2_ok io1" "unget2_ok io2" using io1(5) Cons by (auto simp: unget2_ok_def)
    obtain io3 where io3: "iob_strtoull ops io1 base = Some (fst (parse_ull base s), io3)"
      using iob_strtoull_eq [OF io1(2) u2(1)] io1(3) Cons by auto
    obtain io4 where io4: "iob_strtoull ops io2 base = Some (fst (parse_ull base (c # s)), io4)"
      using iob_strtoull_eq [OF io2(2) u2(2)] io2(3) by auto
    show ?thesis
      using io1(1) io2(1) io3 io4 Cons
      by (auto simp: iob_strtoll_def parse_ll_def split: sum.splits)
  qed
qed

end

section \<open>The string device\<close>

lemma min_0_iff: "min a b = (0::nat) \<longleftrightarrow> a = 0 \<or> b = 0"
  by auto

lemma strtox_read_stream:
  assumes "strtox_read n d = (data, d')"
  shows "take (str_n d) (str d) = data @ take (str_n d') (str d')"
    and "length data = min n (length (take (str_n d) (str d)))"
proof -
  have d: "data = take (min (str_n d) n) (str d)" "str d' = drop (min (str_n d) n) (str d)"
      "str_n d' = str_n d - min (str_n d) n"
    using assms by (auto simp: strtox_read_def Let_def)
  show "take (str_n d) (str d) = data @ take (str_n d') (str d')"
    unfolding d by (rule take_drop_split) simp
  show "length data = min n (length (take (str_n d) (str d)))"
    unfolding d by simp
qed

interpretation sx: iob_source_full strtox_ops "\<lambda>x. take (str_n x) (str x)"
proof unfold_locales
  show "op_read strtox_ops \<noteq> None" by (simp add: strtox_ops_def)
next
  fix rd n d data d'
  assume "op_read strtox_ops = Some rd" "rd n d = (data, d')"
  then have r: "strtox_read n d = (data, d')" by (simp add: strtox_ops_def)
  from strtox_read_stream [OF r]
  show "take (str_n d) (str d) = data @ take (str_n d') (str d') \<and> length data \<le> n \<and>
      (data = []) = (n = 0 \<or> take (str_n d) (str d) = [])"
    by (metis length_0_conv min.cobounded1 min_0_iff)
next
  fix rd n d data d'
  assume "op_read strtox_ops = Some rd" "rd n d = (data, d')"
  then have r: "strtox_read n d = (data, d')" by (simp add: strtox_ops_def)
  show "length data = min n (length (take (str_n d) (str d)))" by (rule strtox_read_stream(2) [OF r])
qed

lemma strtox_init_ok: "sx.source_ok (strtox_init s n)"
  by (simp add: sx.source_ok_def sx.in_ok_def strtox_init_def)

lemma strtox_init_pending: "sx.pending (strtox_init s n) = take n s"
  by (simp add: sx.pending_def strtox_init_def)

lemma take_strlen: "strlen s = Some n \<Longrightarrow> take n s = cstr s"
  using takeWhile_eq_take [of "\<lambda>c. c \<noteq> 0" s, symmetric]
  by (auto simp: strlen_eq cstr_def split: if_splits)

lemma strtoull_eq: "strtoull s base = (if is_cstr s then Some (fst (parse_ull base (cstr s))) else None)"
proof (cases "strlen s")
  case None
  then show ?thesis by (simp add: strtoull_def strlen_eq split: if_splits)
next
  case (Some n)
  have "sx.unget2_ok (strtox_init s n)" by (simp add: sx.unget2_ok_def strtox_init_def)
  from sx.iob_strtoull_eq [OF strtox_init_ok this, of base] Some take_strlen [OF Some] show ?thesis
    by (fastforce simp: strtoull_def strtox_init_pending strlen_eq split: if_splits)
qed

lemma strtoll_eq: "strtoll s base = (if is_cstr s then Some (parse_ll base (cstr s)) else None)"
proof (cases "strlen s")
  case None
  then show ?thesis by (simp add: strtoll_def strlen_eq split: if_splits)
next
  case (Some n)
  have "io_in (strtox_init s n) = 0" by (simp add: strtox_init_def)
  from sx.iob_strtoll_eq [OF strtox_init_ok this, of base] Some take_strlen [OF Some] show ?thesis
    by (fastforce simp: strtoll_def strtox_init_pending strlen_eq split: if_splits)
qed

section \<open>The value of a numeral\<close>

definition valid_digit :: "nat \<Rightarrow> u8 \<Rightarrow> bool" where
  "valid_digit base c \<longleftrightarrow> 0 \<le> digit_value c \<and> digit_value c < int base"

fun numeral_value :: "nat \<Rightarrow> nat \<Rightarrow> bytes \<Rightarrow> nat" where
  "numeral_value base v [] = v"
| "numeral_value base v (c # s) = numeral_value base (v * base + nat (digit_value c)) s"

lemma numeral_value_mono: "1 \<le> base \<Longrightarrow> v \<le> numeral_value base v s"
proof (induction s arbitrary: v)
  case (Cons c s)
  have "v \<le> v * base" using Cons.prems by simp
  also have "\<dots> \<le> v * base + nat (digit_value c)" by simp
  also have "\<dots> \<le> numeral_value base (v * base + nat (digit_value c)) s" using Cons by blast
  finally show ?case by simp
qed simp

lemma high_nibble_iff: "(r :: u64) AND push_bit 60 (-1) \<noteq> 0 \<longleftrightarrow> 2 ^ 60 \<le> unat r"
proof -
  have "r = (r AND mask 60) OR (r AND NOT (mask 60))"
    by (auto simp: bit_eq_iff bit_simps)
  moreover have "r AND mask 60 = take_bit 60 r" by (simp add: take_bit_eq_mask)
  moreover have "take_bit 60 r AND NOT (mask 60) = 0"
    by (simp add: bit_eq_iff bit_simps)
  ultimately have "r AND NOT (mask 60) = 0 \<longleftrightarrow> take_bit 60 r = r"
    by (metis or.right_neutral)
  also have "\<dots> \<longleftrightarrow> unat r < 2 ^ 60"
    by (metis take_bit_nat_eq_self_iff word_unat_eq_iff unsigned_take_bit_eq)
  finally show ?thesis by (auto simp: push_bit_minus_one)
qed

lemma strtoull_overflows_iff:
  assumes base: "2 \<le> base" "base \<le> 16" and d: "0 \<le> d" "d < int base"
  shows "strtoull_overflows r (int base) d \<longleftrightarrow> 2 ^ 64 \<le> unat r * base + nat d"
proof -
  obtain k where k: "d = int k" "k < base" using d by (metis nat_0_le nat_less_iff)
  have ub: "unat (of_int (int base) :: u64) = base" "unat (of_int d :: u64) = k"
    using base k by (simp_all add: unat_of_nat take_bit_nat_eq_self)
  have "unat (- 1 - of_int d :: u64) = 2 ^ 64 - 1 - k"
    by (subst unat_sub) (simp_all add: ub unsigned_minus_1_eq_mask mask_eq_exp_minus_1)
  then have q: "unat ((- 1 - of_int d) div of_int (int base) :: u64) = (2 ^ 64 - 1 - k) div base"
    by (simp only: unat_div ub)
  have "(2 ^ 64 - 1 - k) div base < unat r \<longleftrightarrow> 2 ^ 64 - 1 - k < unat r * base"
    using base by (simp add: div_less_iff_less_mult)
  also have "\<dots> \<longleftrightarrow> 2 ^ 64 \<le> unat r * base + k" using k base by auto
  finally have gt: "(- 1 - of_int d) div of_int (int base) < r \<longleftrightarrow> 2 ^ 64 \<le> unat r * base + k"
    by (simp only: word_less_nat_alt q)
  have small: "unat r * base + k < 2 ^ 64" if "unat r < 2 ^ 60"
  proof -
    have "unat r * base \<le> (2 ^ 60 - 1) * 16" using that base by (intro mult_le_mono) auto
    moreover have "k \<le> 15" using k base by simp
    ultimately show ?thesis by simp
  qed
  show ?thesis
    unfolding strtoull_overflows_def high_nibble_iff gt using small k by (cases "2 ^ 60 \<le> unat r") auto
qed

lemma parse_digits_value:
  assumes base: "2 \<le> base" "base \<le> 16"
    and ds: "\<forall>c \<in> set ds. valid_digit base c"
    and rest: "rest = [] \<or> \<not> valid_digit base (hd rest)"
  shows "fst (parse_digits (int base) (ds @ rest) r) =
     (if numeral_value base (unat r) ds < 2 ^ 64
      then Inr (of_nat (numeral_value base (unat r) ds)) else Inl ERANGE)"
  using ds
proof (induction ds arbitrary: r)
  case Nil
  have "unat r < 2 ^ 64" by (rule unat_u64_lt)
  with rest show ?case by (cases rest) (auto simp: valid_digit_def)
next
  case (Cons c ds)
  let ?d = "digit_value c"
  let ?v = "unat r * base + nat ?d"
  have d: "0 \<le> ?d" "?d < int base" using Cons.prems by (auto simp: valid_digit_def)
  note ov = strtoull_overflows_iff [OF base d, of r]
  show ?case
  proof (cases "2 ^ 64 \<le> ?v")
    case True
    have "?v \<le> numeral_value base ?v ds" using base by (intro numeral_value_mono) simp
    with True d ov show ?thesis by simp
  next
    case False
    have "unat (r * of_int (int base) + of_int ?d) = ?v"
    proof -
      have "r * of_int (int base) + of_int ?d = of_nat ?v"
        using d by (simp add: of_nat_nat)
      moreover have "unat (of_nat ?v :: u64) = ?v"
        using False by (simp only: unat_of_nat take_bit_nat_eq_self not_le) (simp add: take_bit_nat_eq_self)
      ultimately show ?thesis by simp
    qed
    with Cons.IH [of "r * of_int (int base) + of_int ?d"] Cons.prems False d ov show ?thesis
      by simp
  qed
qed

section \<open>Properties\<close>



text \<open>
  the automatic base: \<open>0x\<close> selects base 16 and is dropped, another leading zero selects
  base 8, anything else is decimal.
\<close>

theorem strtoull_auto_base:
  assumes "is_cstr s"
  shows "strtoull s 0 =
     (case cstr s of [] \<Rightarrow> Some (Inr 0)
      | c # t \<Rightarrow>
          if c = 0x30 \<and> t \<noteq> [] \<and> is_x (hd t) then Some (fst (parse_digits 16 (tl t) 0))
          else if c = 0x30 then Some (fst (parse_digits 8 t 0))
          else Some (fst (parse_digits 10 (c # t) 0)))"
  using assms by (auto simp: strtoull_eq parse_ull_def split: list.splits)

theorem strtoull_auto_base_witness:
  "strtoull [0x30, 0x78, 0x41, 0] 0 = Some (Inr 10)"
  using strtoull_auto_base [of "[0x30, 0x78, 0x41, 0]"]
  by (simp add: is_x_def digit_value_def isdigit_range isxdigit_range isupper_range word_le_nat_alt
      strtoull_overflows_def)

text \<open>
  on a string that is not empty \<open>strtoll\<close> gives the signed value or an error, but on the empty
  string it reports success without storing a result.
\<close>

theorem strtoll_result:
  assumes "is_cstr s"
  shows "strtoll s base = Some (Inr None) \<longleftrightarrow> cstr s = []"
proof -
  have "parse_ll base (c # t) \<noteq> Inr None" for c t
    by (simp add: parse_ll_def split: sum.splits)
  moreover have "parse_ll base [] = Inr None" by (simp add: parse_ll_def)
  ultimately show ?thesis using assms by (cases "cstr s") (auto simp: strtoll_eq)
qed

theorem strtoll_result_witness: "strtoll [0] 10 = Some (Inr None)"
  using strtoll_result [of "[0]" 10] by simp

end
