(* ===== verification/Printf.thy ===== *)
theory Printf
  imports StrToX
begin

text \<open>
  Formatted output, \<open>uklib/io_buffer/vsnprintf.c\<close>.  The formatter never looks at what a write
  returns, so it is modelled by the list of its writes, each one call of \<open>__iob_write\<close>; running
  the writes on an \<open>io_buffer\<close> is \<open>run_writes\<close>.  The flag word is the set of its flags.
  \<open>None\<close> is undefined behaviour: a write outside \<open>t_str\<close>, an \<open>int\<close> overflow, an argument of the
  wrong type, or a format that does not end.
\<close>

section \<open>Flags, ranks, arguments\<close>

datatype fl = FL_ZERO | FL_MINUS | FL_PLUS | FL_SPACE | FL_HASH | FL_SIGNED | FL_UPPER

abbreviation (input) RANK_CHAR :: int where "RANK_CHAR \<equiv> -2"
abbreviation (input) RANK_SHORT :: int where "RANK_SHORT \<equiv> -1"
abbreviation (input) RANK_INT :: int where "RANK_INT \<equiv> 0"
abbreviation (input) RANK_LONG :: int where "RANK_LONG \<equiv> 1"
abbreviation (input) RANK_LLONG :: int where "RANK_LLONG \<equiv> 2"

datatype va_arg =
    VA_int u32            \<comment> \<open>\<open>int\<close> or \<open>unsigned int\<close>\<close>
  | VA_long u64           \<comment> \<open>\<open>long\<close> or \<open>unsigned long\<close>\<close>
  | VA_llong u64          \<comment> \<open>\<open>long long\<close> or \<open>unsigned long long\<close>\<close>
  | VA_ptr u64            \<comment> \<open>\<open>void *\<close>\<close>
  | VA_str "bytes option" \<comment> \<open>\<open>const char *\<close>, \<open>None\<close> is \<open>NULL\<close>\<close>

abbreviation (input) INT_MAX :: int where "INT_MAX \<equiv> 2 ^ 31 - 1"

section \<open>Padding and digits\<close>

definition put_char :: "u8 \<Rightarrow> bytes list" where
  "put_char c = [[c]]"

definition put_padding :: "bool \<Rightarrow> u8 \<Rightarrow> int \<Rightarrow> int \<Rightarrow> bytes list" where
  "put_padding condition c width nchar =
     (if condition \<and> nchar < width then replicate (nat (width - nchar)) [c] else [])"

definition lcdigits :: bytes where
  "lcdigits = [0x30, 0x31, 0x32, 0x33, 0x34, 0x35, 0x36, 0x37, 0x38, 0x39,
               0x61, 0x62, 0x63, 0x64, 0x65, 0x66]"

definition ucdigits :: bytes where
  "ucdigits = [0x30, 0x31, 0x32, 0x33, 0x34, 0x35, 0x36, 0x37, 0x38, 0x39,
               0x41, 0x42, 0x43, 0x44, 0x45, 0x46]"

definition digits :: "fl set \<Rightarrow> bytes" where
  "digits flags = (if FL_UPPER \<in> flags then ucdigits else lcdigits)"

text \<open>The counting loop; every caller passes the base 8, 10 or 16.\<close>

function count_digits :: "nat \<Rightarrow> nat \<Rightarrow> nat" where
  "count_digits base v = (if base < 2 \<or> v div base = 0 then 1 else Suc (count_digits base (v div base)))"
  by pat_completeness auto
termination
proof (relation "measure snd")
  fix base v :: nat
  assume "\<not> (base < 2 \<or> v div base = 0)"
  then have "1 < base" "0 < v" by (auto intro: ccontr)
  then show "((base, v div base), base, v) \<in> measure snd" by simp
qed simp

declare count_digits.simps [simp del]

text \<open>The loop that fills \<open>t_str\<close> from index \<open>t_ndigit - 1\<close> down to 0.\<close>

fun fill_digits :: "fl set \<Rightarrow> nat \<Rightarrow> nat \<Rightarrow> nat \<Rightarrow> bytes" where
  "fill_digits flags base 0 v = []"
| "fill_digits flags base (Suc t_ndigit) v =
     fill_digits flags base t_ndigit (v div base) @ [digits flags ! (v mod base)]"

section \<open>Formatting a number\<close>

definition int_sign :: "fl set \<Rightarrow> u64 \<Rightarrow> u64 \<times> bool" where
  "int_sign flags value =
     (if FL_SIGNED \<in> flags \<and> sint value < 0 then (- value, True) else (value, False))"

definition int_ndigits :: "nat \<Rightarrow> u64 \<Rightarrow> int \<Rightarrow> int" where
  "int_ndigits base value precision =
     (let ndigits = int (count_digits base (unat value))
      in if ndigits < precision then precision else ndigits)"

definition int_nchar :: "fl set \<Rightarrow> bool \<Rightarrow> nat \<Rightarrow> int \<Rightarrow> int" where
  "int_nchar flags neg base ndigits =
     ndigits + (if neg \<or> FL_PLUS \<in> flags \<or> FL_SPACE \<in> flags then 1 else 0)
       + (if FL_HASH \<in> flags then (if base = 16 then 2 else if base = 8 then 1 else 0) else 0)"

definition int_prefix :: "fl set \<Rightarrow> bool \<Rightarrow> nat \<Rightarrow> bytes list" where
  "int_prefix flags neg base =
     (if neg then put_char 0x2D
      else if FL_PLUS \<in> flags then put_char 0x2B
      else if FL_SPACE \<in> flags then put_char 0x20 else [])
     @ (if FL_HASH \<in> flags then
          (if base = 16 then put_char 0x30 @ put_char (if FL_UPPER \<in> flags then 0x58 else 0x78)
           else if base = 8 then put_char 0x30 else [])
        else [])"

text \<open>
  \<open>t_str\<close> has 64 bytes; with more digits the loop stores beyond them.  The negation of the least
  \<open>long long\<close> overflows.
\<close>

definition format_int :: "u64 \<Rightarrow> fl set \<Rightarrow> nat \<Rightarrow> int \<Rightarrow> int \<Rightarrow> bytes list option" where
  "format_int value0 flags base width precision =
     (let (value, neg) = int_sign flags value0;
          ndigits = int_ndigits base value precision;
          nchar = int_nchar flags neg base ndigits
      in if 64 < ndigits \<or> (FL_SIGNED \<in> flags \<and> sint value0 = - (2 ^ 63)) then None
         else Some
          (put_padding (FL_MINUS \<notin> flags \<and> FL_ZERO \<notin> flags) 0x20 width nchar
           @ int_prefix flags neg base
           @ put_padding (FL_MINUS \<notin> flags \<and> FL_ZERO \<in> flags) 0x30 width nchar
           @ [fill_digits flags base (nat ndigits) (unat value)]
           @ put_padding (FL_MINUS \<in> flags) 0x20 width nchar))"

fun va_int :: "va_arg list \<Rightarrow> (u32 \<times> va_arg list) option" where
  "va_int (VA_int v # ap) = Some (v, ap)"
| "va_int _ = None"

fun va_long :: "va_arg list \<Rightarrow> (u64 \<times> va_arg list) option" where
  "va_long (VA_long v # ap) = Some (v, ap)"
| "va_long _ = None"

fun va_llong :: "va_arg list \<Rightarrow> (u64 \<times> va_arg list) option" where
  "va_llong (VA_llong v # ap) = Some (v, ap)"
| "va_llong _ = None"

fun va_ptr :: "va_arg list \<Rightarrow> (u64 \<times> va_arg list) option" where
  "va_ptr (VA_ptr v # ap) = Some (v, ap)"
| "va_ptr _ = None"

fun va_str :: "va_arg list \<Rightarrow> (bytes option \<times> va_arg list) option" where
  "va_str (VA_str v # ap) = Some (v, ap)"
| "va_str _ = None"

definition ap_value :: "fl set \<Rightarrow> int \<Rightarrow> va_arg list \<Rightarrow> (u64 \<times> va_arg list) option" where
  "ap_value flags rank ap =
     (if FL_SIGNED \<in> flags then
        (if rank = RANK_CHAR then map_option (map_prod (\<lambda>v. ucast (ucast v :: u8)) id) (va_int ap)
         else if rank = RANK_SHORT then map_option (map_prod (\<lambda>v. ucast (ucast v :: u16)) id) (va_int ap)
         else if rank = RANK_INT then map_option (map_prod scast id) (va_int ap)
         else if rank = RANK_LONG then va_long ap
         else if rank = RANK_LLONG then va_llong ap
         else Some (0, ap))
      else
        (if rank = RANK_CHAR then map_option (map_prod (\<lambda>v. ucast (ucast v :: u8)) id) (va_int ap)
         else if rank = RANK_SHORT then map_option (map_prod (\<lambda>v. ucast (ucast v :: u16)) id) (va_int ap)
         else if rank = RANK_INT then map_option (map_prod ucast id) (va_int ap)
         else if rank = RANK_LONG then va_long ap
         else if rank = RANK_LLONG then va_llong ap
         else Some (0, ap)))"

definition ap_format_int ::
  "nat \<Rightarrow> fl set \<Rightarrow> int \<Rightarrow> int \<Rightarrow> int \<Rightarrow> va_arg list \<Rightarrow> (bytes list \<times> va_arg list) option" where
  "ap_format_int base flags width precision rank ap =
     do { (value, ap) \<leftarrow> ap_value flags rank ap;
          out \<leftarrow> format_int value flags base width precision;
          Some (out, ap) }"

definition format_str :: "bytes \<Rightarrow> int \<Rightarrow> fl set \<Rightarrow> int \<Rightarrow> int \<Rightarrow> bytes list option" where
  "format_str s count flags width precision =
     (let count = (if precision \<noteq> -1 \<and> precision < count then precision else count)
      in if count < 0 \<or> int (length s) < count then None
         else Some (put_padding (FL_MINUS \<notin> flags) 0x20 width count
                    @ [take (nat count) s]
                    @ put_padding (FL_MINUS \<in> flags) 0x20 width count))"

section \<open>The state machine over the format\<close>

datatype st = ST_NORMAL | ST_FLAGS | ST_WIDTH | ST_PRECISION | ST_MODIFIERS

record spec =
  sp_flags :: "fl set"
  sp_width :: int
  sp_precision :: int
  sp_rank :: int

definition spec_init :: spec where
  "spec_init = \<lparr>sp_flags = {}, sp_width = 0, sp_precision = -1, sp_rank = RANK_INT\<rparr>"

datatype step = Return int | Continue st spec "va_arg list" "bytes list"

text \<open>\<open>"(null)"\<close> and its terminator.\<close>

definition null_str :: bytes where
  "null_str = [0x28, 0x6E, 0x75, 0x6C, 0x6C, 0x29, 0]"

definition st_modifiers :: "u8 \<Rightarrow> spec \<Rightarrow> va_arg list \<Rightarrow> step option" where
  "st_modifiers ch sp ap =
     (let flags = sp_flags sp; width = sp_width sp; precision = sp_precision sp; rank = sp_rank sp;
          done = (\<lambda>sp (out, ap). Continue ST_NORMAL sp ap out)
      in
      if ch = 0x68 \<and> RANK_CHAR < rank then
        Some (Continue ST_MODIFIERS (sp\<lparr>sp_rank := rank - 1\<rparr>) ap [])
      else if ch = 0x6C \<and> rank < RANK_LLONG then
        Some (Continue ST_MODIFIERS (sp\<lparr>sp_rank := rank + 1\<rparr>) ap [])
      else if ch = 0x50 \<or> ch = 0x70 then
        (let flags = insert FL_HASH (if ch = 0x50 then insert FL_UPPER flags else flags) in
         do { (v, ap) \<leftarrow> va_ptr ap;
              out \<leftarrow> format_int v flags 16 width 2;
              Some (done (sp\<lparr>sp_flags := flags\<rparr>) (out, ap)) })
      else if ch = 0x64 \<or> ch = 0x69 \<or> ch = 0x75 then
        (let flags = (if ch = 0x75 then flags else insert FL_SIGNED flags) in
         map_option (done (sp\<lparr>sp_flags := flags\<rparr>)) (ap_format_int 10 flags width precision rank ap))
      else if ch = 0x6F then
        map_option (done sp) (ap_format_int 8 flags width precision rank ap)
      else if ch = 0x58 \<or> ch = 0x78 then
        (let flags = (if ch = 0x58 then insert FL_UPPER flags else flags) in
         map_option (done (sp\<lparr>sp_flags := flags\<rparr>)) (ap_format_int 16 flags width precision rank ap))
      else if ch = 0x63 then
        do { (v, ap) \<leftarrow> va_int ap;
             out \<leftarrow> format_str [ucast v] 1 flags width precision;
             Some (done sp (out, ap)) }
      else if ch = 0x73 then
        do { (s, ap) \<leftarrow> va_str ap;
             let s = (case s of None \<Rightarrow> null_str | Some s \<Rightarrow> s);
             n \<leftarrow> strlen s;
             out \<leftarrow> format_str s (sint (of_nat n :: u32)) flags width precision;
             Some (done sp (out, ap)) }
      else Some (Return (-1)))"

text \<open>\<open>next\<close> is \<open>format[p]\<close>, the character behind \<open>ch\<close>.\<close>

definition st_width :: "u8 \<Rightarrow> u8 \<Rightarrow> spec \<Rightarrow> va_arg list \<Rightarrow> step option" where
  "st_width ch next sp ap =
     (if isdigit ch then
        (let w = sp_width sp * 10 + (uint ch - 0x30)
         in if INT_MAX < w then None else Some (Continue ST_WIDTH (sp\<lparr>sp_width := w\<rparr>) ap []))
      else if ch = 0x2A \<and> sp_width sp = 0 then
        do { (v, ap) \<leftarrow> va_int ap;
             let w = sint v;
             if w = - INT_MAX - 1 then None
             else
               (let sp = (if w < 0 then sp\<lparr>sp_width := - w, sp_flags := insert FL_MINUS (sp_flags sp)\<rparr>
                          else sp\<lparr>sp_width := w\<rparr>)
                in Some (Continue (if next \<noteq> 0x2E then ST_MODIFIERS else ST_WIDTH) sp ap [])) }
      else if ch = 0x2E then Some (Continue ST_PRECISION (sp\<lparr>sp_precision := 0\<rparr>) ap [])
      else st_modifiers ch sp ap)"

definition st_precision :: "u8 \<Rightarrow> spec \<Rightarrow> va_arg list \<Rightarrow> step option" where
  "st_precision ch sp ap =
     (if isdigit ch then
        (let q = sp_precision sp * 10 + (uint ch - 0x30)
         in if INT_MAX < q then None
            else Some (Continue ST_PRECISION (sp\<lparr>sp_precision := q\<rparr>) ap []))
      else if ch = 0x2A \<and> sp_precision sp = 0 then
        do { (v, ap) \<leftarrow> va_int ap;
             Some (Continue ST_MODIFIERS
               (sp\<lparr>sp_precision := (if sint v < 0 then -1 else sint v)\<rparr>) ap []) }
      else st_modifiers ch sp ap)"

definition st_flags :: "u8 \<Rightarrow> u8 \<Rightarrow> spec \<Rightarrow> va_arg list \<Rightarrow> step option" where
  "st_flags ch next sp ap =
     (let add = (\<lambda>f. Some (Continue ST_FLAGS (sp\<lparr>sp_flags := insert f (sp_flags sp)\<rparr>) ap [])) in
      if ch = 0x2D then add FL_MINUS
      else if ch = 0x2B then add FL_PLUS
      else if ch = 0x20 then add FL_SPACE
      else if ch = 0x23 then add FL_HASH
      else if ch = 0x30 then add FL_ZERO
      else st_width ch next sp ap)"

definition st_conversion :: "st \<Rightarrow> u8 \<Rightarrow> u8 \<Rightarrow> spec \<Rightarrow> va_arg list \<Rightarrow> step option" where
  "st_conversion state ch next sp ap =
     (case state of
        ST_NORMAL \<Rightarrow> Some (Continue ST_NORMAL sp ap (put_char ch))
      | ST_FLAGS \<Rightarrow> st_flags ch next sp ap
      | ST_WIDTH \<Rightarrow> st_width ch next sp ap
      | ST_PRECISION \<Rightarrow> st_precision ch sp ap
      | ST_MODIFIERS \<Rightarrow> st_modifiers ch sp ap)"

text \<open>
  The loop; the format is the list from \<open>format + p\<close> on.  The character behind a character that is
  not the terminator exists, or the format does not end.
\<close>

fun vsnprintf_loop ::
  "bytes \<Rightarrow> st \<Rightarrow> spec \<Rightarrow> va_arg list \<Rightarrow> bytes list \<Rightarrow> (int \<times> bytes list) option" where
  "vsnprintf_loop [] state sp ap out = None"
| "vsnprintf_loop [ch] state sp ap out = (if ch = 0 then Some (0, out) else None)"
| "vsnprintf_loop (ch # next # rest) state sp ap out =
     (if ch = 0 then Some (0, out)
      else if state = ST_NORMAL \<and> ch = 0x25 then
        (if next \<noteq> 0x25 then vsnprintf_loop (next # rest) ST_FLAGS spec_init ap out
         else vsnprintf_loop rest ST_NORMAL sp ap (out @ put_char ch))
      else
        (case st_conversion state ch next sp ap of
           None \<Rightarrow> None
         | Some (Return r) \<Rightarrow> Some (r, out)
         | Some (Continue state sp ap o') \<Rightarrow> vsnprintf_loop (next # rest) state sp ap (out @ o')))"

definition vsnprintf :: "bytes \<Rightarrow> va_arg list \<Rightarrow> (int \<times> bytes list) option" where
  "vsnprintf format ap = vsnprintf_loop format ST_NORMAL spec_init ap []"

fun run_writes :: "'d io_ops \<Rightarrow> 'd io_buffer \<Rightarrow> bytes list \<Rightarrow> 'd io_buffer option" where
  "run_writes ops io [] = Some io"
| "run_writes ops io (w # ws) =
     do { (_, io) \<leftarrow> iob_write ops io w (length w); run_writes ops io ws }"

definition iob_vsnprintf ::
  "'d io_ops \<Rightarrow> 'd io_buffer \<Rightarrow> bytes \<Rightarrow> va_arg list \<Rightarrow> (int \<times> 'd io_buffer) option" where
  "iob_vsnprintf ops io format ap =
     do { (r, ws) \<leftarrow> vsnprintf format ap; io \<leftarrow> run_writes ops io ws; Some (r, io) }"

section \<open>The printed digits\<close>

lemma length_fill_digits [simp]: "length (fill_digits flags base n v) = n"
  by (induction n arbitrary: v) auto

lemma count_digits_bound: "2 \<le> base \<Longrightarrow> v < base ^ count_digits base v"
proof (induction base v rule: count_digits.induct)
  case (1 base v)
  show ?case
  proof (cases "v div base = 0")
    case True
    then have "v < base" using 1(2) by (auto simp: div_eq_0_iff)
    with True show ?thesis by (simp add: count_digits.simps [of base v])
  next
    case False
    with 1 have "v div base < base ^ count_digits base (v div base)" by auto
    then have "v < base ^ count_digits base (v div base) * base"
      using 1(2) by (simp add: div_less_iff_less_mult)
    with False 1(2) show ?thesis by (simp add: count_digits.simps [of base v] mult.commute)
  qed
qed

lemma count_digits_pos: "0 < count_digits base v"
  by (simp add: count_digits.simps)

lemma digits_value:
  assumes "d < 16"
  shows "digit_value (digits flags ! d) = int d" "digits flags ! d \<noteq> 0"
proof -
  have "d \<in> {0, 1, 2, 3, 4, 5, 6, 7, 8, 9, 10, 11, 12, 13, 14, 15}"
    using assms unfolding insert_iff empty_iff by presburger
  then show "digit_value (digits flags ! d) = int d" "digits flags ! d \<noteq> 0"
    by (auto simp: digits_def ucdigits_def lcdigits_def digit_value_def isdigit_range isxdigit_range
        isupper_range word_le_nat_alt)
qed

lemma numeral_value_append:
  "numeral_value base v (s @ t) = numeral_value base (numeral_value base v s) t"
  by (induction s arbitrary: v) auto

lemma fill_digits_value:
  assumes "2 \<le> base" "base \<le> 16" "v < base ^ n"
  shows "numeral_value base 0 (fill_digits flags base n v) = v"
  using assms(3)
proof (induction n arbitrary: v)
  case (Suc n)
  have "v div base < base ^ n" using Suc.prems assms by (simp add: div_less_iff_less_mult mult.commute)
  moreover have "v mod base < 16" using mod_less_divisor [of base v] assms by linarith
  ultimately show ?case using Suc.IH by (simp add: numeral_value_append digits_value)
qed simp

lemma fill_digits_valid:
  assumes "2 \<le> base" "base \<le> 16"
  shows "\<forall>c \<in> set (fill_digits flags base n v). valid_digit base c \<and> c \<noteq> 0"
proof (induction n arbitrary: v)
  case (Suc n)
  have "v mod base < base" using mod_less_divisor [of base v] assms by linarith
  then have "v mod base < 16" "v mod base < base" using assms by linarith+
  with Suc show ?case by (auto simp: valid_digit_def digits_value)
qed simp

section \<open>The layout of a number\<close>

lemma concat_put_padding [simp]:
  "concat (put_padding cond c width nchar) = (if cond then replicate (nat (width - nchar)) c else [])"
proof -
  have "concat (replicate k [c]) = replicate k c" for k by (induction k) auto
  then show ?thesis by (auto simp: put_padding_def)
qed

lemma int_prefix_length:
  "base \<in> {8, 10, 16} \<Longrightarrow>
     int (length (concat (int_prefix flags neg base))) + ndigits = int_nchar flags neg base ndigits"
  by (auto simp: int_prefix_def int_nchar_def put_char_def)

lemma int_ndigits_pos: "0 < int_ndigits base value precision"
  using count_digits_pos [of base "unat value"] by (auto simp: int_ndigits_def Let_def)

lemma int_ndigits_bound: "2 \<le> base \<Longrightarrow> unat value < base ^ nat (int_ndigits base value precision)"
proof -
  assume base: "2 \<le> base"
  have "count_digits base (unat value) \<le> nat (int_ndigits base value precision)"
    by (auto simp: int_ndigits_def Let_def)
  then have "base ^ count_digits base (unat value) \<le> base ^ nat (int_ndigits base value precision)"
    using base by (simp add: power_increasing)
  with count_digits_bound [OF base, of "unat value"] show ?thesis by linarith
qed

text \<open>
  Prefix, digits and padding in the order of the flags: blanks on the left, zeros behind the prefix,
  or blanks on the right.
\<close>

lemma format_int_layout:
  assumes "format_int value flags base width precision = Some out"
  obtains v neg ndigits where
    "int_sign flags value = (v, neg)" "ndigits = nat (int_ndigits base v precision)" "ndigits \<le> 64"
    "concat out =
       (let pad = replicate (nat (width - int_nchar flags neg base (int ndigits)));
            body = fill_digits flags base ndigits (unat v)
        in (if FL_MINUS \<notin> flags \<and> FL_ZERO \<notin> flags then pad 0x20 else [])
           @ concat (int_prefix flags neg base)
           @ (if FL_MINUS \<notin> flags \<and> FL_ZERO \<in> flags then pad 0x30 else []) @ body
           @ (if FL_MINUS \<in> flags then pad 0x20 else []))"
proof -
  obtain v neg where s: "int_sign flags value = (v, neg)" by fastforce
  have n: "int (nat (int_ndigits base v precision)) = int_ndigits base v precision"
    using int_ndigits_pos [of base v precision] by simp
  show thesis
    by (rule that [OF s refl])
      (use assms s n in \<open>auto simp: format_int_def Let_def split: if_splits\<close>)
qed

lemma format_int_length:
  assumes "format_int value flags base width precision = Some out" "base \<in> {8, 10, 16}"
  shows "\<exists>v neg. int_sign flags value = (v, neg) \<and>
     int (length (concat out)) = max width (int_nchar flags neg base (int_ndigits base v precision))"
proof -
  obtain v neg ndigits where r:
    "int_sign flags value = (v, neg)" "ndigits = nat (int_ndigits base v precision)"
    "concat out =
       (let pad = replicate (nat (width - int_nchar flags neg base (int ndigits)));
            body = fill_digits flags base ndigits (unat v)
        in (if FL_MINUS \<notin> flags \<and> FL_ZERO \<notin> flags then pad 0x20 else [])
           @ concat (int_prefix flags neg base)
           @ (if FL_MINUS \<notin> flags \<and> FL_ZERO \<in> flags then pad 0x30 else []) @ body
           @ (if FL_MINUS \<in> flags then pad 0x20 else []))"
    by (rule format_int_layout [OF assms(1)])
  have n: "int ndigits = int_ndigits base v precision"
    using int_ndigits_pos [of base v precision] r(2) by simp
  have "int (length (concat out)) = int (nat (width - int_nchar flags neg base (int ndigits)))
      + (int (length (concat (int_prefix flags neg base))) + int ndigits)"
    unfolding r(3) by (auto simp: Let_def)
  also have "\<dots> = max width (int_nchar flags neg base (int ndigits))"
    unfolding int_prefix_length [OF assms(2)] by simp
  finally show ?thesis using r(1) n by auto
qed

section \<open>Printing and parsing again\<close>

lemma parse_prefix_digits:
  assumes "base \<in> {8, 10}"
  shows "parse_prefix (int base) s = (int base, s)"
  using assms by auto

lemma parse_printed_digits:
  assumes b: "2 \<le> base" "base \<le> 16"
  shows "fst (parse_digits (int base)
           (fill_digits flags base (nat (int_ndigits base v precision)) (unat v)) 0) = Inr v"
proof -
  let ?ds = "fill_digits flags base (nat (int_ndigits base v precision)) (unat v)"
  have "numeral_value base 0 ?ds = unat v"
    by (rule fill_digits_value [OF b int_ndigits_bound [OF b(1)]])
  moreover have "\<forall>c \<in> set ?ds. valid_digit base c" using fill_digits_valid [OF b] by blast
  ultimately show ?thesis
    using parse_digits_value [OF b, of ?ds "[]" 0] unat_u64_lt [of v] by simp
qed

lemma parse_printed:
  assumes "base \<in> {8, 10}"
  shows "fst (parse_ull (int base) (fill_digits flags base (nat (int_ndigits base v precision)) (unat v))) = Inr v"
proof -
  have "2 \<le> base" "base \<le> 16" using assms by auto
  from parse_printed_digits [OF this] show ?thesis
    unfolding parse_ull_def parse_prefix_digits [OF assms] by simp
qed

lemma printed_no_nul:
  "base \<in> {8, 10, 16} \<Longrightarrow> 0 \<notin> set (fill_digits flags base n v)"
  using fill_digits_valid [of base flags n v] by auto

lemma printed_head:
  assumes "base \<in> {8, 10}"
  obtains c s where "fill_digits flags base (nat (int_ndigits base v precision)) (unat v) = c # s"
    "valid_digit base c"
proof -
  let ?ds = "fill_digits flags base (nat (int_ndigits base v precision)) (unat v)"
  have "length ?ds \<noteq> 0" using int_ndigits_pos [of base v precision] by simp
  then obtain c s where "?ds = c # s" by (cases ?ds) auto
  moreover have "valid_digit base c"
    using fill_digits_valid [of base flags "nat (int_ndigits base v precision)" "unat v"] assms
    unfolding \<open>?ds = c # s\<close> by auto
  ultimately show thesis by (rule that)
qed

lemma signed_parse:
  fixes flags precision
  assumes "base \<in> {8, 10}" and v: "0 \<le> sint v"
  defines "ds \<equiv> fill_digits flags base (nat (int_ndigits base v precision)) (unat v)"
  shows "parse_ll (int base) ds = Inr (Some v)"
    and "0 < sint (- v) \<or> parse_ll (int base) (0x2D # ds) = Inr (Some (- v))"
proof -
  obtain c s where ds: "ds = c # s" "valid_digit base c"
    unfolding ds_def by (rule printed_head [OF assms(1)])
  have p: "fst (parse_ull (int base) ds) = Inr v"
    unfolding ds_def by (rule parse_printed [OF assms(1)])
  have "c \<noteq> 0x2D" "c \<noteq> 0x2B"
    using ds(2) by (auto simp: valid_digit_def digit_value_def isdigit_range isxdigit_range word_le_nat_alt)
  then show "parse_ll (int base) ds = Inr (Some v)"
    using p v by (simp add: parse_ll_def ds(1))
  show "0 < sint (- v) \<or> parse_ll (int base) (0x2D # ds) = Inr (Some (- v))"
    using p by (simp add: parse_ll_def)
qed

section \<open>Whole conversions\<close>

lemma count_digits_le: "2 \<le> base \<Longrightarrow> v < base ^ k \<Longrightarrow> 0 < k \<Longrightarrow> count_digits base v \<le> k"
proof (induction base v arbitrary: k rule: count_digits.induct)
  case (1 base v)
  obtain j where k: "k = Suc j" using 1(4) by (cases k) auto
  show ?case
  proof (cases "v div base = 0")
    case True
    with k show ?thesis by (simp add: count_digits.simps [of base v])
  next
    case False
    have lt: "v div base < base ^ j" using 1(2,3) k by (simp add: div_less_iff_less_mult mult.commute)
    then have "0 < j" using False by (cases j) auto
    with 1 False lt have "count_digits base (v div base) \<le> j" by auto
    with False 1(2) k show ?thesis by (simp add: count_digits.simps [of base v])
  qed
qed

lemma int_ndigits_64:
  assumes "2 \<le> base"
  shows "int_ndigits base v (-1) \<le> 64"
proof -
  have "(2::nat) ^ 64 \<le> base ^ 64" using assms by (rule power_mono) simp
  then have "unat v < base ^ 64" using unat_u64_lt [of v] by linarith
  then have "count_digits base (unat v) \<le> 64" by (rule count_digits_le [OF assms]) simp
  then show ?thesis by (simp add: int_ndigits_def Let_def)
qed

lemma format_int_plain:
  assumes "2 \<le> base" and "neg = (FL_SIGNED \<in> flags \<and> sint value < 0)" and "v = (if neg then - value else value)"
    and "\<not> (FL_SIGNED \<in> flags \<and> sint value = - (2 ^ 63))"
  shows "\<exists>out. format_int value flags base 0 (-1) = Some out \<and>
     concat out = concat (int_prefix flags neg base)
       @ fill_digits flags base (nat (int_ndigits base v (-1))) (unat v)"
proof -
  have s: "int_sign flags value = (v, neg)" using assms(2,3) by (auto simp: int_sign_def)
  have "0 \<le> int_nchar flags neg base (int_ndigits base v (-1))"
    using int_ndigits_pos [of base v "-1"] by (auto simp: int_nchar_def)
  with s int_ndigits_64 [OF assms(1), of v] assms(4) show ?thesis
    by (auto simp: format_int_def Let_def)
qed

lemma sint_negate:
  assumes "sint (x :: u64) \<noteq> - (2 ^ 63)"
  shows "sint (- x) = - sint x"
proof -
  have "- (2 ^ 63) \<le> sint x" "sint x < 2 ^ 63"
    using sint_ge [of x] sint_less [of x] by simp_all
  with assms have "- (2 ^ 63) \<le> - sint x" "- sint x < 2 ^ 63" by linarith+
  then show ?thesis
    by (simp add: sint_word_minus signed_take_bit_int_eq_self)
qed

section \<open>Whole formats\<close>

lemma vsnprintf_lld:
  "vsnprintf [0x25, 0x6C, 0x6C, 0x64, 0] [VA_llong v] =
     map_option (\<lambda>out. (0, out)) (format_int v {FL_SIGNED} 10 0 (-1))"
  by (cases "format_int v {FL_SIGNED} 10 0 (-1)")
    (simp_all add: vsnprintf_def spec_init_def st_conversion_def st_flags_def st_width_def
      st_modifiers_def isdigit_range word_le_nat_alt ap_format_int_def ap_value_def)

lemma vsnprintf_hash_llx:
  "vsnprintf [0x25, 0x23, 0x6C, 0x6C, 0x78, 0] [VA_llong v] =
     map_option (\<lambda>out. (0, out)) (format_int v {FL_HASH} 16 0 (-1))"
  by (cases "format_int v {FL_HASH} 16 0 (-1)")
    (simp_all add: vsnprintf_def spec_init_def st_conversion_def st_flags_def st_width_def
      st_modifiers_def isdigit_range word_le_nat_alt ap_format_int_def ap_value_def)

lemma vsnprintf_loop_text:
  assumes "0x25 \<notin> set s" "0 \<notin> set s" "rest \<noteq> []"
  shows "vsnprintf_loop (s @ rest) ST_NORMAL sp ap out =
     vsnprintf_loop rest ST_NORMAL sp ap (out @ map (\<lambda>c. [c]) s)"
  using assms
proof (induction s arbitrary: out)
  case (Cons c s)
  then obtain d t where "s @ rest = d # t" by (cases "s @ rest") auto
  with Cons show ?case
    by (auto simp: st_conversion_def put_char_def)
qed simp

lemma vsnprintf_text:
  assumes "0x25 \<notin> set s" "0 \<notin> set s"
  shows "vsnprintf (s @ [0]) ap = Some (0, map (\<lambda>c. [c]) s)"
  using vsnprintf_loop_text [OF assms, of "[0]"] by (simp add: vsnprintf_def)

section \<open>No write is longer than an \<open>int\<close>\<close>

definition short_writes :: "bytes list \<Rightarrow> bool" where
  "short_writes ws \<longleftrightarrow> (\<forall>w \<in> set ws. length w < 2 ^ 31)"

lemma short_writes_simps [simp]:
  "short_writes []"
  "short_writes (ws @ vs) \<longleftrightarrow> short_writes ws \<and> short_writes vs"
  "short_writes (w # ws) \<longleftrightarrow> length w < 2 ^ 31 \<and> short_writes ws"
  "short_writes (put_char c)"
  "short_writes (put_padding cond c width nchar)"
  "short_writes (int_prefix flags neg base)"
  by (auto simp: short_writes_def put_char_def put_padding_def int_prefix_def)

lemma format_int_short: "format_int v flags base width precision = Some out \<Longrightarrow> short_writes out"
  by (auto simp: format_int_def Let_def split: if_splits prod.splits)

lemma format_str_short:
  assumes "format_str s count flags width precision = Some out" "count < 2 ^ 31"
  shows "short_writes out"
  using assms by (auto simp: format_str_def Let_def split: if_splits)

lemma st_modifiers_short:
  assumes "st_modifiers ch sp ap = Some (Continue state' sp' ap' out)"
  shows "short_writes out"
proof -
  have c: "sint (x :: u32) < 2 ^ 31" for x using sint_less [of x] by simp
  show ?thesis
    using assms
    by (auto simp: st_modifiers_def Let_def ap_format_int_def bind_eq_Some_conv
        intro: format_int_short format_str_short c elim!: map_option_eq_SomeE split: if_splits prod.splits)
qed

lemma st_conversion_short:
  assumes "st_conversion state ch next sp ap = Some (Continue state' sp' ap' out)"
  shows "short_writes out"
  using assms
  by (auto simp: st_conversion_def st_flags_def st_width_def st_precision_def Let_def bind_eq_Some_conv
      intro: st_modifiers_short split: if_splits st.splits)

lemma vsnprintf_loop_short:
  assumes "vsnprintf_loop format state sp ap out = Some (r, ws)" "short_writes out"
  shows "short_writes ws"
  using assms
proof (induction format state sp ap out rule: vsnprintf_loop.induct)
  case (3 ch n rest state sp ap out)
  then show ?case
    by (auto split: if_splits option.splits step.splits dest: st_conversion_short)
qed (auto split: if_splits)

lemma vsnprintf_short: "vsnprintf format ap = Some (r, ws) \<Longrightarrow> short_writes ws"
  unfolding vsnprintf_def by (rule vsnprintf_loop_short) auto

context iob_sink
begin

text \<open>The writes of a formatted print reach the device in order and without loss.\<close>

lemma run_writes_eq:
  assumes "out_ok io" "short_writes ws"
  shows "\<exists>io'. run_writes ops io ws = Some io' \<and> out_ok io' \<and> sent io' = sent io @ render (concat ws)"
  using assms
proof (induction ws arbitrary: io)
  case (Cons w ws)
  obtain io1 where io1: "iob_write ops io w (length w) = Some (length w, io1)" "write_post io w io1"
    using iob_write_eq [of io w] Cons.prems by (auto simp: short_writes_def)
  with Cons.IH [of io1] Cons.prems show ?case by (auto simp: write_post_def short_writes_def)
qed simp

lemma iob_vsnprintf_eq:
  assumes "out_ok io" "vsnprintf format ap = Some (r, ws)"
  shows "\<exists>io'. iob_vsnprintf ops io format ap = Some (r, io') \<and> out_ok io' \<and> sent io' = sent io @ render (concat ws)"
  using run_writes_eq [OF assms(1) vsnprintf_short [OF assms(2)]] assms(2) by (auto simp: iob_vsnprintf_def)

end

section \<open>Properties\<close>

text \<open>
  C37: printing a signed \<open>long long\<close> with \<open>%lld\<close> and reading the text with \<open>strtoll\<close> gives the
  number back, for every number but the least one.
\<close>

theorem print_parse_lld:
  assumes "sint v \<noteq> - (2 ^ 63)"
  shows "\<exists>out. vsnprintf [0x25, 0x6C, 0x6C, 0x64, 0] [VA_llong v] = Some (0, out) \<and>
     strtoll (concat out @ [0]) 10 = Some (Inr (Some v))"
proof -
  define neg where "neg \<longleftrightarrow> sint v < 0"
  define w where "w = (if neg then - v else v)"
  let ?ds = "fill_digits {FL_SIGNED} 10 (nat (int_ndigits 10 w (-1))) (unat w)"
  have "0 \<le> sint w" using sint_negate [OF assms] by (auto simp: w_def neg_def)
  note parse = signed_parse [OF _ this, of 10 "{FL_SIGNED}" "-1", simplified]
  have c: "cstr ((if neg then [0x2D] else []) @ ?ds @ [0]) = (if neg then [0x2D] else []) @ ?ds"
    using printed_no_nul [of 10 "{FL_SIGNED}" "nat (int_ndigits 10 w (-1))" "unat w"]
    by (subst append_assoc [symmetric]) (rule cstr_append_nul, auto)
  obtain out where out: "format_int v {FL_SIGNED} 10 0 (-1) = Some out"
      "concat out = concat (int_prefix {FL_SIGNED} neg 10) @ ?ds"
    using format_int_plain [of 10 neg "{FL_SIGNED}" v w] assms by (auto simp: neg_def w_def)
  moreover have "concat (int_prefix {FL_SIGNED} neg 10) = (if neg then [0x2D] else [])"
    by (simp add: int_prefix_def put_char_def)
  ultimately have "strtoll (concat out @ [0]) 10 =
      Some (parse_ll 10 ((if neg then [0x2D] else []) @ ?ds))"
    unfolding strtoll_eq using c by (simp add: is_cstr_def)
  also have "\<dots> = Some (Inr (Some v))"
    using parse by (cases neg) (auto simp: w_def neg_def)
  finally show ?thesis using out(1) by (simp add: vsnprintf_lld)
qed

theorem print_parse_lld_witness:
  "\<exists>out. vsnprintf [0x25, 0x6C, 0x6C, 0x64, 0] [VA_llong (-7)] = Some (0, out) \<and>
     strtoll (concat out @ [0]) 10 = Some (Inr (Some (-7)))"
  by (rule print_parse_lld) simp

text \<open>
  a number takes exactly the larger of the field width and its own length, sign, prefix and
  leading zeros included, whatever the flags.
\<close>

theorem format_int_width:
  assumes "format_int value flags base width precision = Some out" "base \<in> {8, 10, 16}"
  shows "\<exists>v neg. int_sign flags value = (v, neg) \<and>
     int (length (concat out)) = max width (int_nchar flags neg base (int_ndigits base v precision))"
  by (rule format_int_length [OF assms])

theorem format_int_width_witness:
  "\<exists>out. format_int 255 {FL_HASH, FL_ZERO} 16 8 (-1) = Some out \<and>
     (\<exists>v neg. int_sign {FL_HASH, FL_ZERO} 255 = (v, neg) \<and>
     int (length (concat out)) = max 8 (int_nchar {FL_HASH, FL_ZERO} neg 16 (int_ndigits 16 v (-1))))"
proof -
  have "int_ndigits 16 255 (-1) = 2"
    by (simp add: int_ndigits_def count_digits.simps)
  then obtain out where "format_int 255 {FL_HASH, FL_ZERO} 16 8 (-1) = Some out"
    by (auto simp: format_int_def int_sign_def Let_def)
  with format_int_width [OF this] show ?thesis by simp
qed

text \<open>
  the formatter reads the argument of \<open>%hhd\<close> as an \<open>unsigned char\<close>: the number that is printed
  is never negative.
\<close>

theorem hhd_unsigned:
  "vsnprintf [0x25, 0x68, 0x68, 0x64, 0] [VA_int v] =
     map_option (\<lambda>out. (0, out)) (format_int (ucast (ucast v :: u8)) {FL_SIGNED} 10 0 (-1))"
  by (cases "format_int (ucast (ucast v :: u8)) {FL_SIGNED} 10 0 (-1)")
    (simp_all add: vsnprintf_def spec_init_def st_conversion_def st_flags_def st_width_def
      st_modifiers_def isdigit_range word_le_nat_alt ap_format_int_def ap_value_def)

end
