(* ===== verification/Console.thy ===== *)
theory Console
  imports Printf
begin

text \<open>
  The console layer: the table of preferred consoles and the registered console of
  \<open>drivers/console.c\<close>, and the kernel log of \<open>ukernel/ulog.c\<close>, an \<open>io_buffer\<close> on top of it.  A driver
  is a record of its callbacks, which act on a state \<open>'s\<close> of its own; a callback that is \<open>NULL\<close> is
  \<open>None\<close>, and a call without a result is one that goes wrong.
\<close>

section \<open>State\<close>

abbreviation (input) MAX_CONSOLE :: nat where "MAX_CONSOLE \<equiv> 8"

record preferred_console =
  pc_name :: bytes
  pc_index :: int
  pc_user_specified :: int
  pc_options :: bytes

record console =
  c_name :: bytes
  c_index :: int
  c_speed :: u32

record 's con_ops =
  co_write :: "console \<Rightarrow> bytes \<Rightarrow> 's \<Rightarrow> 's option"
  co_setup :: "(bytes \<Rightarrow> console \<Rightarrow> 's \<Rightarrow> (int \<times> console \<times> 's) option) option"
  co_match :: "(bytes \<Rightarrow> bytes \<Rightarrow> console \<Rightarrow> 's \<Rightarrow> (int \<times> console \<times> 's) option) option"
  co_exit :: "(console \<Rightarrow> 's \<Rightarrow> 's option) option"

record 's con_state =
  pcs :: "preferred_console list"
  active_console :: "(console \<times> 's con_ops) option"
  world :: 's

definition pc_empty :: preferred_console where
  "pc_empty = \<lparr>pc_name = replicate 8 0, pc_index = 0, pc_user_specified = 0, pc_options = replicate 64 0\<rparr>"

definition con_init :: "'s \<Rightarrow> 's con_state" where
  "con_init w = \<lparr>pcs = replicate MAX_CONSOLE pc_empty, active_console = None, world = w\<rparr>"

section \<open>Preferred consoles (drivers/console.c)\<close>

text \<open>The search: the index of the entry, and whether it is one with this name and index.\<close>

fun find_pc :: "preferred_console list \<Rightarrow> bytes \<Rightarrow> int \<Rightarrow> nat \<Rightarrow> (nat \<times> bool) option" where
  "find_pc [] name index i = Some (i, False)"
| "find_pc (pc # rest) name index i =
     (if pc_name pc ! 0 = 0 then Some (i, False)
      else do {
        d \<leftarrow> strcmp (pc_name pc) name;
        if d = 0 \<and> pc_index pc = index then Some (i, True) else find_pc rest name index (i + 1) })"

definition add_preferred ::
  "preferred_console list \<Rightarrow> bytes \<Rightarrow> int \<Rightarrow> bytes option \<Rightarrow> int \<Rightarrow> (preferred_console list \<times> (errno + unit)) option" where
  "add_preferred tab name index options user_specified =
     do {
       (i, found) \<leftarrow> find_pc tab name index 0;
       if found then
         Some (if user_specified \<noteq> 0 then tab[i := (tab ! i)\<lparr>pc_user_specified := 1\<rparr>] else tab, Inr ())
       else if i = length tab then Some (tab, Inl ENOSPC)
       else do {
         nm \<leftarrow> strncpy (pc_name (tab ! i)) 0 name 8;
         opts \<leftarrow> (case options of None \<Rightarrow> Some (pc_options (tab ! i))
                  | Some p \<Rightarrow> strncpy (pc_options (tab ! i)) 0 p 64);
         Some (tab[i := \<lparr>pc_name = nm, pc_index = index, pc_user_specified = user_specified, pc_options = opts\<rparr>],
               Inr ()) } }"

text \<open>The name and the number of \<open>console=<name><index>,<options>\<close>; \<open>None\<close> when \<open>index\<close> is not set.\<close>

definition parse_console :: "bytes \<Rightarrow> (bytes \<times> int \<times> bytes option) option" where
  "parse_console arg =
     do {
       comma \<leftarrow> strchr arg 0x2C;
       let (arg, options) = (case comma of None \<Rightarrow> (arg, None) | Some k \<Rightarrow> (arg[k := 0], Some (drop (k + 1) arg)));
       buf \<leftarrow> strncpy (replicate 16 0) 0 arg 15;
       let k = length (takeWhile (\<lambda>c. c \<noteq> 0 \<and> \<not> isdigit c) buf);
       r \<leftarrow> strtoul (drop k buf) 0;
       (case r of
          Inl _ \<Rightarrow> None
        | Inr index \<Rightarrow> Some (buf[k := 0], sint (ucast index :: u32), options)) }"

definition console_setup :: "bytes \<Rightarrow> 's con_state \<Rightarrow> ('s con_state \<times> (errno + unit)) option" where
  "console_setup arg cs =
     do { (name, index, options) \<leftarrow> parse_console arg;
          (tab, r) \<leftarrow> add_preferred (pcs cs) name index options 1;
          Some (cs\<lparr>pcs := tab\<rparr>, r) }"

definition add_preferred_console ::
  "bytes \<Rightarrow> int \<Rightarrow> bytes option \<Rightarrow> 's con_state \<Rightarrow> ('s con_state \<times> (errno + unit)) option" where
  "add_preferred_console name index options cs =
     do { (tab, r) \<leftarrow> add_preferred (pcs cs) name index options 0; Some (cs\<lparr>pcs := tab\<rparr>, r) }"

section \<open>Registering (drivers/console.c)\<close>

text \<open>The part of the loop body behind \<open>match\<close>; the first component says whether it is a \<open>continue\<close>.\<close>

definition try_name ::
  "'s con_ops \<Rightarrow> preferred_console \<Rightarrow> console \<Rightarrow> 's \<Rightarrow> (bool \<times> int \<times> console \<times> 's) option" where
  "try_name ops pc con w =
     do {
       d \<leftarrow> strcmp (pc_name pc) (c_name con);
       if d \<noteq> 0 then Some (True, 0, con, w)
       else if 0 \<le> c_index con \<and> c_index con \<noteq> pc_index pc then Some (True, 0, con, w)
       else do {
         let con = (if 0 \<le> c_index con then con else con\<lparr>c_index := pc_index pc\<rparr>);
         (case co_setup ops of
            None \<Rightarrow> Some (False, 0, con, w)
          | Some setup \<Rightarrow> do { (err, con, w) \<leftarrow> setup (pc_options pc) con w; Some (False, err, con, w) }) } }"

fun try_enable ::
  "'s con_ops \<Rightarrow> preferred_console list \<Rightarrow> int \<Rightarrow> console \<Rightarrow> 's \<Rightarrow> (int \<times> console \<times> 's) option" where
  "try_enable ops [] user_specified con w = Some (- errno_code ENOENT, con, w)"
| "try_enable ops (pc # rest) user_specified con w =
     (if pc_name pc ! 0 = 0 then Some (- errno_code ENOENT, con, w)
      else if pc_user_specified pc \<noteq> user_specified then try_enable ops rest user_specified con w
      else do {
        (m, con, w) \<leftarrow> (case co_match ops of
            None \<Rightarrow> Some (1, con, w)
          | Some match \<Rightarrow> match (pc_name pc) (pc_options pc) con w);
        if m \<noteq> 0 then do {
          (again, err, con, w) \<leftarrow> try_name ops pc con w;
          if again then try_enable ops rest user_specified con w
          else Some (err, con, w) }
        else Some (0, con, w) })"

definition register_console ::
  "'s con_ops \<Rightarrow> console \<Rightarrow> 's con_state \<Rightarrow> ('s con_state \<times> (errno + unit)) option" where
  "register_console ops con cs =
     do {
       (e1, con, w) \<leftarrow> try_enable ops (pcs cs) 1 con (world cs);
       (e2, con, w) \<leftarrow> (if e1 \<noteq> 0 then try_enable ops (pcs cs) 0 con w else Some (0, con, w));
       if e1 \<noteq> 0 \<and> e2 \<noteq> 0 then Some (cs\<lparr>world := w\<rparr>, Inl ENOENT)
       else do {
         w \<leftarrow> (case active_console cs of
             Some (old, old_ops) \<Rightarrow> (case co_exit old_ops of Some ex \<Rightarrow> ex old w | None \<Rightarrow> Some w)
           | None \<Rightarrow> Some w);
         Some (cs\<lparr>active_console := Some (con, ops), world := w\<rparr>, Inr ()) } }"

definition console_write :: "bytes \<Rightarrow> 's con_state \<Rightarrow> ('s con_state \<times> (errno + unit)) option" where
  "console_write s cs =
     (case active_console cs of
        None \<Rightarrow> Some (cs, Inl EINVAL)
      | Some (con, ops) \<Rightarrow> do { w \<leftarrow> co_write ops con s (world cs); Some (cs\<lparr>world := w\<rparr>, Inr ()) })"

section \<open>The kernel log (ukernel/ulog.c)\<close>

text \<open>
  The device of the log is the console layer.  Both callbacks report success whatever the console
  does; a console driver that goes wrong leaves no device.
\<close>

definition log_write :: "bytes \<Rightarrow> 's con_state option \<Rightarrow> nat \<times> 's con_state option" where
  "log_write bs d = (length bs, map_option fst (Option.bind d (console_write bs)))"

definition log_flush :: "'s con_state option io_buffer \<Rightarrow> int \<times> 's con_state option io_buffer" where
  "log_flush io =
     (0, io\<lparr>dev := snd (log_write (take (io_out io) (buffer io)) (dev io)), io_out := 0\<rparr>)"

definition ulog_ops :: "'s con_state option io_ops" where
  "ulog_ops = \<lparr>op_read = None, op_write = Some log_write, op_flush = Some log_flush\<rparr>"

definition ulog_init :: "'s con_state \<Rightarrow> 's con_state option io_buffer" where
  "ulog_init cs =
     \<lparr>mode = IOLBF, io_in = 0, io_out = 0, buffer = replicate 128 0, buf_size = 128, inptr = 0,
      io_unget_slop = 0, dev = Some cs\<rparr>"

definition ulog ::
  "bytes \<Rightarrow> va_arg list \<Rightarrow> 's con_state option io_buffer \<Rightarrow> 's con_state option io_buffer option" where
  "ulog fmt ap io = map_option snd (iob_vsnprintf ulog_ops io fmt ap)"

section \<open>A console device\<close>

text \<open>
  The interface the log relies on: while the driver is live, its write callback sends what it makes
  of the bytes and stays live.
\<close>

locale con_device =
  fixes ops :: "'s con_ops"
    and tx :: "'s \<Rightarrow> bytes"
    and live :: "console \<Rightarrow> 's \<Rightarrow> bool"
    and render :: "bytes \<Rightarrow> bytes"
  assumes render_pieces: "render (xs @ ys) = render xs @ render ys"
    and write_sends: "live con w \<Longrightarrow> \<exists>w'. co_write ops con bs w = Some w' \<and> live con w' \<and> tx w' = tx w @ render bs"
begin

definition log_out :: "'s con_state option \<Rightarrow> bytes" where
  "log_out d = (case d of None \<Rightarrow> [] | Some cs \<Rightarrow> tx (world cs))"

definition log_ready :: "'s con_state option \<Rightarrow> bool" where
  "log_ready d \<longleftrightarrow> (\<exists>cs con. d = Some cs \<and> active_console cs = Some (con, ops) \<and> live con (world cs))"

lemma console_write_sends:
  assumes "active_console cs = Some (con, ops)" "live con (world cs)"
  shows "\<exists>w'. console_write bs cs = Some (cs\<lparr>world := w'\<rparr>, Inr ()) \<and> live con w' \<and> tx w' = tx (world cs) @ render bs"
proof -
  obtain w' where "co_write ops con bs (world cs) = Some w'" "live con w'" "tx w' = tx (world cs) @ render bs"
    using write_sends [OF assms(2)] by blast
  with assms(1) show ?thesis by (intro exI [of _ w']) (simp add: console_write_def)
qed

lemma log_write_sends:
  assumes "log_ready d"
  shows "log_ready (snd (log_write bs d)) \<and> log_out (snd (log_write bs d)) = log_out d @ render bs"
proof -
  obtain cs con where d: "d = Some cs" "active_console cs = Some (con, ops)" "live con (world cs)"
    using assms by (auto simp: log_ready_def)
  obtain w' where "console_write bs cs = Some (cs\<lparr>world := w'\<rparr>, Inr ())" "live con w'"
      "tx w' = tx (world cs) @ render bs"
    using console_write_sends [OF d(2,3)] by blast
  with d show ?thesis by (auto simp: log_write_def log_ready_def log_out_def)
qed

end

sublocale con_device \<subseteq> iob_sink ulog_ops log_out log_ready render
proof unfold_locales
  show "render (xs @ ys) = render xs @ render ys" for xs ys by (rule render_pieces)
  show "op_write ulog_ops \<noteq> None" "op_flush ulog_ops \<noteq> None" by (simp_all add: ulog_ops_def)
next
  fix w d bs n d'
  assume "op_write ulog_ops = Some w" "log_ready d" "w bs d = (n, d')"
  then show "n = length bs \<and> log_out d' = log_out d @ render bs \<and> log_ready d'"
    using log_write_sends [of d bs] by (auto simp: ulog_ops_def log_write_def)
next
  fix f and io io' :: "'s con_state option io_buffer" and e
  let ?d = "snd (log_write (take (io_out io) (buffer io)) (dev io))"
  assume "op_flush ulog_ops = Some f" "log_ready (dev io)" "f io = (e, io')"
  moreover have "io\<lparr>dev := ?d, io_out := 0\<rparr> = io\<lparr>io_out := 0, dev := ?d\<rparr>" by simp
  ultimately show "e = 0 \<and> (\<exists>d'. io' = io\<lparr>io_out := 0, dev := d'\<rparr> \<and> log_ready d' \<and>
      log_out d' = log_out (dev io) @ render (take (io_out io) (buffer io)))"
    using log_write_sends [of "dev io" "take (io_out io) (buffer io)"]
    by (auto simp: ulog_ops_def log_flush_def intro!: exI [of _ ?d])
qed

context con_device
begin

text \<open>The log loses nothing: what is on the device and in the buffer grows by what is printed.\<close>

lemma ulog_sends:
  assumes "out_ok io" "vsnprintf fmt ap = Some (r, ws)"
  shows "\<exists>io'. ulog fmt ap io = Some io' \<and> out_ok io' \<and> sent io' = sent io @ render (concat ws)"
  using iob_vsnprintf_eq [OF assms] by (auto simp: ulog_def)

end

section \<open>The table of preferred consoles\<close>

text \<open>Entries that are in use come first, are terminated strings, and no two agree in name and index.\<close>

definition used :: "preferred_console list \<Rightarrow> preferred_console list" where
  "used tab = takeWhile (\<lambda>pc. pc_name pc ! 0 \<noteq> 0) tab"

definition pc_key :: "preferred_console \<Rightarrow> bytes \<times> int" where
  "pc_key pc = (cstr (pc_name pc), pc_index pc)"

definition tab_ok :: "preferred_console list \<Rightarrow> bool" where
  "tab_ok tab \<longleftrightarrow>
     (\<forall>pc \<in> set tab. length (pc_name pc) = 8 \<and> length (pc_options pc) = 64) \<and>
     (\<forall>pc \<in> set (drop (length (used tab)) tab). pc_name pc ! 0 = 0) \<and>
     (\<forall>pc \<in> set (used tab). is_cstr (pc_name pc)) \<and> distinct (map pc_key (used tab))"

lemma find_pc_eq:
  assumes "\<forall>pc \<in> set (used tab). is_cstr (pc_name pc)" "is_cstr name"
  shows "\<exists>j found. find_pc tab name index i = Some (i + j, found) \<and> j \<le> length (used tab) \<and>
     (found \<longleftrightarrow> (cstr name, index) \<in> pc_key ` set (used tab)) \<and>
     (if found then j < length (used tab) \<and> pc_key (used tab ! j) = (cstr name, index) else j = length (used tab))"
  using assms(1)
proof (induction tab arbitrary: i)
  case (Cons pc tab)
  show ?case
  proof (cases "pc_name pc ! 0 = 0")
    case True
    then have "used (pc # tab) = []" "find_pc (pc # tab) name index i = Some (i, False)" by (simp_all add: used_def)
    then show ?thesis by (intro exI [of _ 0] exI [of _ False]) simp
  next
    case False
    then have u: "used (pc # tab) = pc # used tab" by (simp add: used_def)
    with Cons.prems have c: "is_cstr (pc_name pc)" "\<forall>pc \<in> set (used tab). is_cstr (pc_name pc)" by auto
    obtain d where d: "strcmp (pc_name pc) name = Some d" using strcmp_returns [OF c(1) assms(2)] by blast
    have d0: "d = 0 \<longleftrightarrow> cstr (pc_name pc) = cstr name"
      using strcmp_zero_iff [OF c(1) assms(2)] d by simp
    show ?thesis
    proof (cases "d = 0 \<and> pc_index pc = index")
      case True
      then have "pc_key pc = (cstr name, index)" using d0 by (simp add: pc_key_def)
      moreover have "find_pc (pc # tab) name index i = Some (i, True)" using d True False by simp
      ultimately show ?thesis unfolding u by (intro exI [of _ 0]) auto
    next
      case ne: False
      then have k: "pc_key pc \<noteq> (cstr name, index)" using d0 by (auto simp: pc_key_def)
      obtain j found where j: "find_pc tab name index (i + 1) = Some (i + 1 + j, found)" "j \<le> length (used tab)"
        "found \<longleftrightarrow> (cstr name, index) \<in> pc_key ` set (used tab)"
        "if found then j < length (used tab) \<and> pc_key (used tab ! j) = (cstr name, index) else j = length (used tab)"
        using Cons.IH [OF c(2), of "i + 1"] by blast
      have "find_pc (pc # tab) name index i = Some (i + Suc j, found)" using d ne False j(1) by simp
      with j k show ?thesis unfolding u by (intro exI [of _ "Suc j"] exI [of _ found]) auto
    qed
  qed
next
  case Nil
  then show ?case by (intro exI [of _ 0] exI [of _ False]) (simp add: used_def)
qed

lemma used_take: "used tab = take (length (used tab)) tab"
  by (simp add: used_def takeWhile_eq_take flip: takeWhile_eq_take)

lemma tab_ok_init: "tab_ok (pcs (con_init w))"
  by (simp add: tab_ok_def con_init_def pc_empty_def used_def numeral_eq_Suc)

lemma used_extend:
  assumes "tab_ok tab" "length (used tab) < length tab" "pc_name pc ! 0 \<noteq> 0"
  shows "used (tab[length (used tab) := pc]) = used tab @ [pc]"
    "drop (length (used tab) + 1) (tab[length (used tab) := pc]) = drop (length (used tab) + 1) tab"
proof -
  let ?i = "length (used tab)"
  have tab: "tab[?i := pc] = used tab @ pc # drop (Suc ?i) tab"
    using assms(2) used_take [of tab] by (simp add: upd_conv_take_nth_drop)
  have "\<forall>x \<in> set (drop (Suc ?i) tab). pc_name x ! 0 = 0"
    using assms(1) set_drop_subset_set_drop [of ?i "Suc ?i" tab] by (auto simp: tab_ok_def)
  moreover have "\<forall>x \<in> set (used tab). pc_name x ! 0 \<noteq> 0" by (auto simp: used_def dest: set_takeWhileD)
  ultimately show "used (tab[?i := pc]) = used tab @ [pc]"
    unfolding tab used_def [of "_ @ _"] using assms(3)
    by (cases "drop (Suc ?i) tab") (auto simp: takeWhile_append2)
  show "drop (?i + 1) (tab[?i := pc]) = drop (?i + 1) tab" by simp
qed

lemma used_flag:
  assumes "j < length tab"
  shows "map pc_key (used (tab[j := (tab ! j)\<lparr>pc_user_specified := 1\<rparr>])) = map pc_key (used tab)"
  using assms
proof (induction tab arbitrary: j)
  case (Cons pc tab)
  then show ?case by (cases j) (auto simp: used_def pc_key_def)
qed simp

lemma strncpy_pads_all:
  assumes "is_cstr s" "length (cstr s) < unat n" "length m = unat n"
  shows "strncpy m 0 s n = Some (cstr s @ replicate (unat n - length (cstr s)) 0)"
proof -
  obtain r where "s = cstr s @ 0 # r" using cstr_decomp [OF assms(1)] by blast
  then show ?thesis using strncpy_pads [of "cstr s" n 0 m r] assms cstr_no_nul [of s] by simp
qed

lemma padded_name:
  assumes "0 \<notin> set t" "length t < k"
  shows "is_cstr (t @ replicate (k - length t) 0)" "cstr (t @ replicate (k - length t) 0) = t"
proof -
  obtain d where "k - length t = Suc d" using assms(2) by (metis Suc_diff_Suc)
  then have "t @ replicate (k - length t) 0 = t @ 0 # replicate d (0::u8)" by simp
  then show "is_cstr (t @ replicate (k - length t) 0)" "cstr (t @ replicate (k - length t) 0) = t"
    using assms(1) by (simp_all del: replicate_Suc)
qed

text \<open>Every case of \<open>add_preferred\<close>, for a name and options that fit the entry.\<close>

lemma add_preferred_cases:
  assumes tab: "tab_ok tab" and name: "is_cstr name" "cstr name \<noteq> []" "length (cstr name) < 8"
    and opts: "\<forall>p. options = Some p \<longrightarrow> is_cstr p \<and> length (cstr p) < 64"
  obtains j where "(cstr name, index) \<in> pc_key ` set (used tab)" "j < length tab"
      "add_preferred tab name index options u =
         Some (if u \<noteq> 0 then tab[j := (tab ! j)\<lparr>pc_user_specified := 1\<rparr>] else tab, Inr ())"
  | "(cstr name, index) \<notin> pc_key ` set (used tab)" "length (used tab) = length tab"
      "add_preferred tab name index options u = Some (tab, Inl ENOSPC)"
  | pc where "(cstr name, index) \<notin> pc_key ` set (used tab)" "length (used tab) < length tab"
      "pc_key pc = (cstr name, index)" "is_cstr (pc_name pc)" "length (pc_name pc) = 8" "length (pc_options pc) = 64"
      "pc_user_specified pc = u" "\<forall>p. options = Some p \<longrightarrow> cstr (pc_options pc) = cstr p"
      "add_preferred tab name index options u = Some (tab[length (used tab) := pc], Inr ())"
proof -
  have len: "length (used tab) \<le> length tab" by (simp add: used_def length_takeWhile_le)
  obtain j found where f: "find_pc tab name index 0 = Some (0 + j, found)"
    "found \<longleftrightarrow> (cstr name, index) \<in> pc_key ` set (used tab)"
    "if found then j < length (used tab) \<and> pc_key (used tab ! j) = (cstr name, index) else j = length (used tab)"
    using find_pc_eq [of tab name index 0] tab name(1) by (auto simp: tab_ok_def)
  consider (found) found | (full) "\<not> found" "j = length tab" | (room) "\<not> found" "j < length tab"
    using f(3) len by fastforce
  then show thesis
  proof cases
    case found
    then show thesis using f len that(1) [of j] by (simp add: add_preferred_def)
  next
    case full
    then show thesis using f that(2) by (simp add: add_preferred_def)
  next
    case room
    then have in_tab: "tab ! j \<in> set tab" and j: "j = length (used tab)" using f(3) by simp_all
    then have lens: "length (pc_name (tab ! j)) = 8" "length (pc_options (tab ! j)) = 64"
      using tab by (auto simp: tab_ok_def)
    let ?nm = "cstr name @ replicate (8 - length (cstr name)) 0"
    obtain op where op: "length op = 64" "\<forall>p. options = Some p \<longrightarrow> cstr op = cstr p"
      "(case options of None \<Rightarrow> Some (pc_options (tab ! j)) | Some p \<Rightarrow> strncpy (pc_options (tab ! j)) 0 p 64) = Some op"
    proof (cases options)
      case (Some p)
      then have p: "is_cstr p" "length (cstr p) < 64" using opts by simp_all
      then have "strncpy (pc_options (tab ! j)) 0 p 64 = Some (cstr p @ replicate (64 - length (cstr p)) 0)"
        using strncpy_pads_all [of p 64] lens by simp
      with p Some padded_name [OF cstr_no_nul p(2)] show thesis
        by (intro that [of "cstr p @ replicate (64 - length (cstr p)) 0"]) simp_all
    qed (use lens that in simp)
    have "strncpy (pc_name (tab ! j)) 0 name 8 = Some ?nm"
      using strncpy_pads_all [of name 8] name lens by simp
    with op f room have "add_preferred tab name index options u =
        Some (tab[j := \<lparr>pc_name = ?nm, pc_index = index, pc_user_specified = u, pc_options = op\<rparr>], Inr ())"
      unfolding add_preferred_def f(1) j op(3) [unfolded j] by (simp add: op(3) [unfolded j])
    then show thesis
      using f room op padded_name [OF cstr_no_nul name(3)] name(3)
      by (intro that(3) [of "\<lparr>pc_name = ?nm, pc_index = index, pc_user_specified = u, pc_options = op\<rparr>"])
        (simp_all add: pc_key_def flip: j)
  qed
qed

text \<open>Setting the flag of an entry keeps the table.\<close>

lemma tab_ok_cong:
  assumes eq: "map (\<lambda>pc. (pc_name pc, pc_index pc, pc_options pc)) tab = map (\<lambda>pc. (pc_name pc, pc_index pc, pc_options pc)) tab'"
    and ok: "tab_ok tab"
  shows "tab_ok tab'"
proof -
  let ?f = "\<lambda>pc. (pc_name pc, pc_index pc, pc_options pc)"
  let ?k = "\<lambda>(n, i, op). (cstr n, i) :: bytes \<times> int"
  have tw: "map ?f (used xs) = takeWhile (\<lambda>(n, i, op). n ! 0 \<noteq> 0) (map ?f xs)" for xs
    by (simp add: used_def takeWhile_map comp_def)
  have u: "map ?f (used tab) = map ?f (used tab')" by (simp add: tw eq)
  have d: "map ?f (drop (length (used tab)) tab) = map ?f (drop (length (used tab')) tab')"
    using eq map_eq_imp_length_eq [OF u] by (simp flip: drop_map)
  have ball: "(\<forall>pc \<in> set xs. Q (?f pc)) \<longleftrightarrow> (\<forall>y \<in> set (map ?f xs). Q y)" for Q xs by auto
  have key: "map pc_key xs = map ?k (map ?f xs)" for xs by (simp add: pc_key_def)
  show ?thesis
    using ok ball [of tab "\<lambda>(n, i, op). length n = 8 \<and> length op = 64"] ball [of tab' "\<lambda>(n, i, op). length n = 8 \<and> length op = 64"]
      ball [of "drop (length (used tab)) tab" "\<lambda>(n, i, op). n ! 0 = 0"]
      ball [of "drop (length (used tab')) tab'" "\<lambda>(n, i, op). n ! 0 = 0"]
      ball [of "used tab" "\<lambda>(n, i, op). is_cstr n"] ball [of "used tab'" "\<lambda>(n, i, op). is_cstr n"]
    unfolding tab_ok_def key eq u d by simp
qed

lemma tab_ok_flag:
  assumes "tab_ok tab" "j < length tab"
  shows "tab_ok (tab[j := (tab ! j)\<lparr>pc_user_specified := 1\<rparr>])"
  using assms by (intro tab_ok_cong [OF _ assms(1)]) (auto intro!: nth_equalityI simp: nth_list_update)

lemma tab_ok_extend:
  assumes tab: "tab_ok tab" and i: "length (used tab) < length tab" and pc: "is_cstr (pc_name pc)" "pc_name pc ! 0 \<noteq> 0"
      "length (pc_name pc) = 8" "length (pc_options pc) = 64" and new: "pc_key pc \<notin> pc_key ` set (used tab)"
  shows "tab_ok (tab[length (used tab) := pc])"
proof -
  let ?tab = "tab[length (used tab) := pc]"
  have u: "used ?tab = used tab @ [pc]" "drop (length (used tab) + 1) ?tab = drop (length (used tab) + 1) tab"
    using used_extend [OF tab i pc(2)] by simp_all
  have "\<forall>x \<in> set (drop (length (used tab) + 1) tab). pc_name x ! 0 = 0"
    using tab set_drop_subset_set_drop [of "length (used tab)" "length (used tab) + 1" tab] by (auto simp: tab_ok_def)
  moreover have "set ?tab \<subseteq> insert pc (set tab)" by (rule set_update_subset_insert)
  ultimately show ?thesis using tab pc new u by (auto simp: tab_ok_def)
qed

lemma cstr_nonempty_hd: "is_cstr s \<Longrightarrow> cstr s \<noteq> [] \<Longrightarrow> s ! 0 \<noteq> 0"
  by (cases s) (auto split: if_splits)

section \<open>Properties\<close>

text \<open>
  C33: The table of preferred consoles stays well formed: an entry with a name and options that fit is
  found or appended, and the table then holds exactly the old names and the new one, each once; the
  only refusal is a full table without the name.
\<close>

theorem add_preferred_table:
  assumes tab: "tab_ok tab" and name: "is_cstr name" "cstr name \<noteq> []" "length (cstr name) < 8"
    and opts: "\<forall>p. options = Some p \<longrightarrow> is_cstr p \<and> length (cstr p) < 64"
  shows "\<exists>tab' r. add_preferred tab name index options u = Some (tab', r) \<and> tab_ok tab' \<and> length tab' = length tab \<and>
     (if r = Inr () then pc_key ` set (used tab') = insert (cstr name, index) (pc_key ` set (used tab))
      else r = Inl ENOSPC \<and> tab' = tab \<and> length (used tab) = length tab \<and>
           (cstr name, index) \<notin> pc_key ` set (used tab))"
proof (rule add_preferred_cases [OF assms, of index u])
  fix j
  assume "(cstr name, index) \<in> pc_key ` set (used tab)" "j < length tab"
    "add_preferred tab name index options u =
       Some (if u \<noteq> 0 then tab[j := (tab ! j)\<lparr>pc_user_specified := 1\<rparr>] else tab, Inr ())"
  with tab_ok_flag [OF tab] used_flag [of j tab, THEN arg_cong [of _ _ set]] tab show ?thesis
    by (auto simp: insert_absorb)
next
  assume "(cstr name, index) \<notin> pc_key ` set (used tab)" "length (used tab) = length tab"
    "add_preferred tab name index options u = Some (tab, Inl ENOSPC)"
  with tab show ?thesis by simp
next
  fix pc
  assume new: "(cstr name, index) \<notin> pc_key ` set (used tab)" "length (used tab) < length tab"
      "pc_key pc = (cstr name, index)" "is_cstr (pc_name pc)" "length (pc_name pc) = 8" "length (pc_options pc) = 64"
    and res: "add_preferred tab name index options u = Some (tab[length (used tab) := pc], Inr ())"
  then have "pc_name pc ! 0 \<noteq> 0" using name cstr_nonempty_hd [of "pc_name pc"] by (simp add: pc_key_def)
  with new res tab_ok_extend [OF tab] used_extend [OF tab new(2)] show ?thesis by auto
qed

theorem add_preferred_table_witness:
  "\<exists>tab' r. add_preferred (replicate 8 pc_empty) (of_nat 116 # of_nat 116 # [0]) 0 None 1 = Some (tab', r) \<and> tab_ok tab'"
  using add_preferred_table [of "replicate 8 pc_empty" "of_nat 116 # of_nat 116 # [0]" None 0 1]
    tab_ok_init [unfolded con_init_def] by auto

text \<open>The entries a console without \<open>match\<close> and \<open>setup\<close> can be enabled by.\<close>

definition eligible :: "console \<Rightarrow> int \<Rightarrow> preferred_console \<Rightarrow> bool" where
  "eligible con u pc \<longleftrightarrow> pc_user_specified pc = u \<and> cstr (pc_name pc) = cstr (c_name con) \<and>
     (c_index con < 0 \<or> c_index con = pc_index pc)"

lemma try_enable_find:
  assumes ops: "co_match ops = None" "co_setup ops = None" and con: "is_cstr (c_name con)"
    and tab: "\<forall>pc \<in> set (used tab). is_cstr (pc_name pc)"
  shows "try_enable ops tab u con w = Some (case find (eligible con u) (used tab) of
     None \<Rightarrow> (- 5, con, w) | Some pc \<Rightarrow> (0, con\<lparr>c_index := pc_index pc\<rparr>, w))"
  using tab
proof (induction tab)
  case (Cons pc tab)
  show ?case
  proof (cases "pc_name pc ! 0 = 0")
    case True
    then show ?thesis by (simp add: used_def)
  next
    case False
    then have u: "used (pc # tab) = pc # used tab" by (simp add: used_def)
    with Cons.prems have pc: "is_cstr (pc_name pc)" and IH: "try_enable ops tab u con w = Some (case find (eligible con u) (used tab) of
        None \<Rightarrow> (- 5, con, w) | Some pc \<Rightarrow> (0, con\<lparr>c_index := pc_index pc\<rparr>, w))"
      using Cons.IH by simp_all
    obtain d where d: "strcmp (pc_name pc) (c_name con) = Some d" using strcmp_returns [OF pc con] by blast
    with strcmp_zero_iff [OF pc con] have "d = 0 \<longleftrightarrow> cstr (pc_name pc) = cstr (c_name con)" by simp
    moreover have "con\<lparr>c_index := pc_index pc\<rparr> = con" if "c_index con = pc_index pc" using that by (cases con) simp
    ultimately show ?thesis
      using False IH d by (auto simp: u eligible_def [of con u pc] try_name_def ops)
  qed
qed (simp add: used_def)

text \<open>
  A console without \<open>match\<close> and \<open>setup\<close> is registered exactly when a preferred entry names it; the
  first entry the user asked for wins over those of the code, whatever their order in the table, and
  gives the console its index.
\<close>

theorem register_console_choice:
  assumes ops: "co_match ops = None" "co_setup ops = None" and con: "is_cstr (c_name con)"
    and cs: "tab_ok (pcs cs)" "active_console cs = None"
  shows "register_console ops con cs = Some (
     case (find (eligible con 1) (used (pcs cs)), find (eligible con 0) (used (pcs cs))) of
       (Some pc, _) \<Rightarrow> (cs\<lparr>active_console := Some (con\<lparr>c_index := pc_index pc\<rparr>, ops)\<rparr>, Inr ())
     | (None, Some pc) \<Rightarrow> (cs\<lparr>active_console := Some (con\<lparr>c_index := pc_index pc\<rparr>, ops)\<rparr>, Inr ())
     | (None, None) \<Rightarrow> (cs, Inl ENOENT))"
proof -
  have "\<forall>pc \<in> set (used (pcs cs)). is_cstr (pc_name pc)" using cs(1) by (simp add: tab_ok_def)
  note tr = try_enable_find [OF ops con this]
  have same: "cs\<lparr>world := world cs\<rparr> = cs" by simp
  show ?thesis
    by (auto simp: register_console_def tr cs(2) same split: option.splits)
qed

theorem register_console_choice_witness:
  "register_console \<lparr>co_write = \<lambda>_ _ _. None, co_setup = None, co_match = None, co_exit = None\<rparr>
     \<lparr>c_name = [1, 0], c_index = - 1, c_speed = 0\<rparr>
     \<lparr>pcs = [\<lparr>pc_name = [1, 0, 0, 0, 0, 0, 0, 0], pc_index = 0, pc_user_specified = 0, pc_options = replicate 64 0\<rparr>,
            \<lparr>pc_name = [1, 0, 0, 0, 0, 0, 0, 0], pc_index = 3, pc_user_specified = 1, pc_options = replicate 64 0\<rparr>],
      active_console = None, world = ()\<rparr>
   = Some (\<lparr>pcs = [\<lparr>pc_name = [1, 0, 0, 0, 0, 0, 0, 0], pc_index = 0, pc_user_specified = 0, pc_options = replicate 64 0\<rparr>,
                  \<lparr>pc_name = [1, 0, 0, 0, 0, 0, 0, 0], pc_index = 3, pc_user_specified = 1, pc_options = replicate 64 0\<rparr>],
            active_console = Some (\<lparr>c_name = [1, 0], c_index = 3, c_speed = 0\<rparr>,
              \<lparr>co_write = \<lambda>_ _ _. None, co_setup = None, co_match = None, co_exit = None\<rparr>), world = ()\<rparr>, Inr ())"
  by (subst register_console_choice) (simp_all add: tab_ok_def used_def pc_key_def eligible_def)

end
