(* ===== verification/Uart.thy ===== *)
theory Uart
  imports Console
begin

text \<open>
  The serial driver: the table of ports of \<open>drivers/uart_core.c\<close>, the 8250 driver and its console
  callbacks of \<open>drivers/uart/8250.c\<close>, with the registers of \<open>uart_regs.h\<close> and the ports of
  \<open>asm/uart.h\<close>.  What the processor does at its I/O ports is a trace; what a port answers is decided
  by the hardware \<open>hw\<close> from the trace so far.  An abstract 8250 replays the trace: it is what the
  driver is specified against.
\<close>

section \<open>Port accesses (arch/x86/include/asm/io.h)\<close>

datatype io_event = In_port u16 u8 | Out_port u16 u8 | Slow_down

type_synonym hardware = "io_event list \<Rightarrow> u16 \<Rightarrow> u8"

text \<open>The events are in the order of time.\<close>

definition inb_p :: "hardware \<Rightarrow> u16 \<Rightarrow> io_event list \<Rightarrow> u8 \<times> io_event list" where
  "inb_p hw p tr = (let v = hw tr p in (v, tr @ [In_port p v, Slow_down]))"

definition outb_p :: "u8 \<Rightarrow> u16 \<Rightarrow> io_event list \<Rightarrow> io_event list" where
  "outb_p v p tr = tr @ [Out_port p v, Slow_down]"

section \<open>The table of ports (drivers/uart.h, drivers/uart_core.c)\<close>

abbreviation (input) UART_NR :: nat where "UART_NR \<equiv> 4"
abbreviation (input) PORT_UNKNOWN :: u32 where "PORT_UNKNOWN \<equiv> 0"
abbreviation (input) PORT_8250 :: u32 where "PORT_8250 \<equiv> 1"
abbreviation (input) UART_IO_PORT :: u8 where "UART_IO_PORT \<equiv> 0"
abbreviation (input) UART_IO_MEM :: u8 where "UART_IO_MEM \<equiv> 1"

text \<open>
  The union of a port number and a pointer is the wider of the two; the only function the source
  stores in \<open>poll_putchar\<close> is the one of the 8250 driver.
\<close>

datatype putchar_fn = Putchar_8250

record uart_port =
  up_name :: bytes
  up_type :: u32
  io_type :: u8
  io_addr :: u64
  up_index :: int
  uart_clock :: u32
  poll_putchar :: "putchar_fn option"

definition io_port :: "uart_port \<Rightarrow> u16" where
  "io_port up = ucast (io_addr up)"

definition port_zero :: uart_port where
  "port_zero = \<lparr>up_name = replicate 8 0, up_type = PORT_UNKNOWN, io_type = UART_IO_PORT, io_addr = 0,
     up_index = 0, uart_clock = 0, poll_putchar = None\<rparr>"

record uart_world =
  uart_ports :: "uart_port list"
  trace :: "io_event list"

definition uart_init :: uart_world where
  "uart_init = \<lparr>uart_ports = replicate UART_NR port_zero, trace = []\<rparr>"

definition uart_io_parse_option :: "bytes \<Rightarrow> (errno + u8 \<times> u64 \<times> bytes option) option" where
  "uart_io_parse_option p =
     do {
       io \<leftarrow> strncmp p [0x69, 0x6F, 0x2C, 0] 3;
       mem \<leftarrow> (if io = 0 then Some 0 else strncmp p [0x30, 0x78, 0] 2);
       if io \<noteq> 0 \<and> mem \<noteq> 0 then Some (Inl EINVAL)
       else do {
         let p = (if io = 0 then drop 3 p else p);
         addr \<leftarrow> strtoul p 0;
         (case addr of
            Inl _ \<Rightarrow> Some (Inl EINVAL)
          | Inr a \<Rightarrow> do {
              comma \<leftarrow> strchr p 0x2C;
              Some (Inr (if io = 0 then UART_IO_PORT else UART_IO_MEM, a,
                         map_option (\<lambda>k. drop (k + 1) p) comma)) }) } }"

definition uart_match_port :: "uart_port \<Rightarrow> uart_port \<Rightarrow> bool" where
  "uart_match_port up1 up2 =
     (if io_type up1 \<noteq> io_type up2 then False
      else if io_type up1 = UART_IO_PORT then io_port up1 = io_port up2
      else if io_type up1 = UART_IO_MEM then io_addr up1 = io_addr up2
      else False)"

fun find_match_from :: "uart_port list \<Rightarrow> uart_port \<Rightarrow> nat \<Rightarrow> nat option" where
  "find_match_from [] up i = None"
| "find_match_from (q # qs) up i = (if uart_match_port q up then Some i else find_match_from qs up (i + 1))"

definition find_match_port :: "uart_port list \<Rightarrow> uart_port \<Rightarrow> nat option" where
  "find_match_port tab up = find_match_from tab up 0"

fun find_free_port :: "uart_port list \<Rightarrow> nat \<Rightarrow> nat" where
  "find_free_port [] i = i"
| "find_free_port (q # qs) i = (if up_type q = PORT_UNKNOWN then i else find_free_port qs (i + 1))"

definition register_uart_port :: "uart_port \<Rightarrow> uart_port list \<Rightarrow> (uart_port list \<times> (errno + unit)) option" where
  "register_uart_port up tab =
     (if uart_clock up = 0 then Some (tab, Inl EINVAL)
      else if find_match_port tab up \<noteq> None then Some (tab, Inl EEXIST)
      else let i = find_free_port tab 0 in
        if i = length tab then Some (tab, Inl ENOSPC)
        else do {
          name \<leftarrow> strcpy (up_name (tab ! i)) 0 (up_name up);
          Some (tab[i := \<lparr>up_name = name, up_type = up_type up, io_type = io_type up, io_addr = io_addr up,
                         up_index = int i, uart_clock = uart_clock up, poll_putchar = poll_putchar up\<rparr>],
                Inr ()) })"

section \<open>The 8250 driver (drivers/uart/8250.c)\<close>

abbreviation (input) UART_THR :: u16 where "UART_THR \<equiv> 0"
abbreviation (input) UART_DLL :: u16 where "UART_DLL \<equiv> 0"
abbreviation (input) UART_DLH :: u16 where "UART_DLH \<equiv> 1"
abbreviation (input) UART_IER :: u16 where "UART_IER \<equiv> 1"
abbreviation (input) UART_FCR :: u16 where "UART_FCR \<equiv> 2"
abbreviation (input) UART_LCR :: u16 where "UART_LCR \<equiv> 3"
abbreviation (input) UART_MCR :: u16 where "UART_MCR \<equiv> 4"
abbreviation (input) UART_LSR :: u16 where "UART_LSR \<equiv> 5"
abbreviation (input) UART_LCR_DLAB :: u8 where "UART_LCR_DLAB \<equiv> 0x80"
abbreviation (input) UART_LCR_WLEN8 :: u8 where "UART_LCR_WLEN8 \<equiv> 0x03"
abbreviation (input) UART_MCR_DTR_RTS :: u8 where "UART_MCR_DTR_RTS \<equiv> 0x03"
abbreviation (input) UART_LSR_THRE :: u8 where "UART_LSR_THRE \<equiv> 0x20"
abbreviation (input) UART_LSR_TEMT_THRE :: u8 where "UART_LSR_TEMT_THRE \<equiv> 0x60"

definition uart_in :: "hardware \<Rightarrow> uart_port \<Rightarrow> u16 \<Rightarrow> io_event list \<Rightarrow> u8 \<times> io_event list" where
  "uart_in hw up offset tr =
     (if io_type up = UART_IO_PORT then inb_p hw (io_port up + offset) tr else (0, tr))"

definition uart_out :: "uart_port \<Rightarrow> u16 \<Rightarrow> u8 \<Rightarrow> io_event list \<Rightarrow> io_event list" where
  "uart_out up offset v tr =
     (if io_type up = UART_IO_PORT then outb_p v (io_port up + offset) tr else tr)"

text \<open>The polling loop, with the number of reads that are left.\<close>

fun lsr_loop :: "hardware \<Rightarrow> uart_port \<Rightarrow> u8 \<Rightarrow> nat \<Rightarrow> io_event list \<Rightarrow> io_event list" where
  "lsr_loop hw up bits 0 tr = tr"
| "lsr_loop hw up bits (Suc t) tr =
     (let (status, tr) = uart_in hw up UART_LSR tr
      in if status AND bits = bits \<or> t = 0 then tr else lsr_loop hw up bits t tr)"

definition wait_for_lsr :: "hardware \<Rightarrow> uart_port \<Rightarrow> u8 \<Rightarrow> io_event list \<Rightarrow> io_event list" where
  "wait_for_lsr hw up bits tr = lsr_loop hw up bits 10000 tr"

definition get_divisor :: "uart_port \<Rightarrow> u32 \<Rightarrow> u32 option" where
  "get_divisor up s = (if s * 16 = 0 then None else Some (uart_clock up div (s * 16)))"

definition set_speed :: "hardware \<Rightarrow> uart_port \<Rightarrow> u32 \<Rightarrow> io_event list \<Rightarrow> io_event list option" where
  "set_speed hw up speed tr =
     do {
       divisor \<leftarrow> get_divisor up speed;
       let (c, tr) = uart_in hw up UART_LCR tr;
       let tr = uart_out up UART_LCR (c OR UART_LCR_DLAB) tr;
       let tr = uart_out up UART_DLL (ucast (divisor AND 0xFF)) tr;
       let tr = uart_out up UART_DLH (ucast (drop_bit 8 divisor AND 0xFF)) tr;
       Some (uart_out up UART_LCR c tr) }"

definition putchar :: "hardware \<Rightarrow> uart_port \<Rightarrow> u8 \<Rightarrow> io_event list \<Rightarrow> io_event list" where
  "putchar hw up c tr = uart_out up UART_THR c (wait_for_lsr hw up UART_LSR_THRE tr)"

definition setup_port :: "hardware \<Rightarrow> uart_port \<Rightarrow> u32 \<Rightarrow> io_event list \<Rightarrow> io_event list option" where
  "setup_port hw up speed tr =
     do {
       let tr = uart_out up UART_IER 0 tr;
       let tr = wait_for_lsr hw up UART_LSR_TEMT_THRE tr;
       let tr = uart_out up UART_MCR 0 tr;
       let tr = uart_out up UART_FCR 0 tr;
       let tr = uart_out up UART_LCR UART_LCR_WLEN8 tr;
       tr \<leftarrow> set_speed hw up speed tr;
       Some (uart_out up UART_MCR UART_MCR_DTR_RTS tr) }"

definition exit_port :: "hardware \<Rightarrow> uart_port \<Rightarrow> io_event list \<Rightarrow> io_event list" where
  "exit_port hw up tr = uart_out up UART_MCR 0 (wait_for_lsr hw up UART_LSR_TEMT_THRE tr)"

definition ttyS :: bytes where
  "ttyS = [0x74, 0x74, 0x79, 0x53, 0, 0, 0, 0]"

text \<open>The base of the baud rates and the addresses of \<open>UART_PORTS\<close>.\<close>

definition serial_ports :: "(u32 \<times> u16) list" where
  "serial_ports = [(115200, 0x3F8), (115200, 0x2F8), (115200, 0x3E8), (115200, 0x2E8)]"

definition serial_port :: "u32 \<times> u16 \<Rightarrow> uart_port" where
  "serial_port sp = \<lparr>up_name = ttyS, up_type = PORT_8250, io_type = UART_IO_PORT, io_addr = ucast (snd sp),
     up_index = 0, uart_clock = fst sp * 16, poll_putchar = Some Putchar_8250\<rparr>"

fun init_ports_loop :: "(u32 \<times> u16) list \<Rightarrow> uart_port list \<Rightarrow> uart_port list option" where
  "init_ports_loop [] tab = Some tab"
| "init_ports_loop (sp # sps) tab =
     do { (tab, _) \<leftarrow> register_uart_port (serial_port sp) tab; init_ports_loop sps tab }"

definition init_ports :: "uart_world \<Rightarrow> uart_world option" where
  "init_ports w = do { tab \<leftarrow> init_ports_loop serial_ports (uart_ports w); Some (w\<lparr>uart_ports := tab\<rparr>) }"

section \<open>The console callbacks (drivers/uart_core.c, drivers/uart/8250.c)\<close>

text \<open>An index outside the table is an access outside of \<open>uart_ports\<close>.\<close>

definition port_at :: "uart_world \<Rightarrow> int \<Rightarrow> uart_port option" where
  "port_at w i = (if 0 \<le> i \<and> nat i < length (uart_ports w) then Some (uart_ports w ! nat i) else None)"

definition call_putchar :: "hardware \<Rightarrow> uart_port \<Rightarrow> u8 \<Rightarrow> io_event list \<Rightarrow> io_event list option" where
  "call_putchar hw up c tr =
     (case poll_putchar up of None \<Rightarrow> None | Some Putchar_8250 \<Rightarrow> Some (putchar hw up c tr))"

definition uart_poll_put_char :: "hardware \<Rightarrow> int \<Rightarrow> u8 \<Rightarrow> uart_world \<Rightarrow> uart_world option" where
  "uart_poll_put_char hw index ch w =
     do {
       up \<leftarrow> port_at w index;
       tr \<leftarrow> (if ch = 0x0A then call_putchar hw up 0x0D (trace w) else Some (trace w));
       tr \<leftarrow> call_putchar hw up ch tr;
       Some (w\<lparr>trace := tr\<rparr>) }"

fun con_write :: "hardware \<Rightarrow> console \<Rightarrow> bytes \<Rightarrow> uart_world \<Rightarrow> uart_world option" where
  "con_write hw con [] w = Some w"
| "con_write hw con (c # s) w = do { w \<leftarrow> uart_poll_put_char hw (c_index con) c w; con_write hw con s w }"

definition con_setup :: "hardware \<Rightarrow> bytes option \<Rightarrow> console \<Rightarrow> uart_world \<Rightarrow> (int \<times> console \<times> uart_world) option" where
  "con_setup hw options con w =
     do { up \<leftarrow> port_at w (c_index con); tr \<leftarrow> setup_port hw up 9600 (trace w);
          Some (0, con\<lparr>c_speed := 9600\<rparr>, w\<lparr>trace := tr\<rparr>) }"

definition con_match :: "hardware \<Rightarrow> bytes \<Rightarrow> bytes \<Rightarrow> console \<Rightarrow> uart_world \<Rightarrow> (int \<times> console \<times> uart_world) option" where
  "con_match hw name options con w =
     do {
       d \<leftarrow> strncmp name [0x75, 0x61, 0x72, 0x74, 0] 4;
       if d \<noteq> 0 then Some (- errno_code ENODEV, con, w)
       else do {
         r \<leftarrow> uart_io_parse_option options;
         (case r of
            Inl _ \<Rightarrow> Some (- errno_code ENODEV, con, w)
          | Inr (ty, addr, options) \<Rightarrow>
              let up = port_zero\<lparr>io_type := ty,
                  io_addr := (if ty = UART_IO_PORT then ucast (ucast addr :: u16) else addr)\<rparr>;
                con = (case find_match_port (uart_ports w) up of
                    Some p \<Rightarrow> con\<lparr>c_index := up_index (uart_ports w ! p)\<rparr>
                  | None \<Rightarrow> con)
              in con_setup hw options con w) } }"

definition con_exit :: "hardware \<Rightarrow> console \<Rightarrow> uart_world \<Rightarrow> uart_world option" where
  "con_exit hw con w =
     do { up \<leftarrow> port_at w (c_index con); Some (w\<lparr>trace := exit_port hw up (trace w)\<rparr>) }"

definition uart_ops :: "hardware \<Rightarrow> uart_world con_ops" where
  "uart_ops hw = \<lparr>co_write = con_write hw, co_setup = Some (\<lambda>options. con_setup hw (Some options)),
     co_match = Some (con_match hw), co_exit = Some (con_exit hw)\<rparr>"

definition console_8250 :: console where
  "console_8250 = \<lparr>c_name = ttyS, c_index = - 1, c_speed = 0\<rparr>"

text \<open>The constructor of the driver; the result of \<open>register_console\<close> is not looked at.\<close>

definition console_init :: "hardware \<Rightarrow> uart_world con_state \<Rightarrow> uart_world con_state option" where
  "console_init hw cs =
     do { w \<leftarrow> init_ports (world cs);
          map_option fst (register_console (uart_ops hw) console_8250 (cs\<lparr>world := w\<rparr>)) }"

section \<open>An abstract 8250\<close>

text \<open>
  The registers of the device at \<open>base\<close> after a trace, and the characters it was given to transmit.
  With the divisor latch access bit set the first two addresses are the divisor.
\<close>

record uart8250 =
  r_ier :: u8
  r_fcr :: u8
  r_lcr :: u8
  r_mcr :: u8
  r_dll :: u8
  r_dlh :: u8
  r_tx :: bytes

definition dlab :: "uart8250 \<Rightarrow> bool" where
  "dlab r \<longleftrightarrow> r_lcr r AND UART_LCR_DLAB \<noteq> 0"

definition reset8250 :: uart8250 where
  "reset8250 = \<lparr>r_ier = 0, r_fcr = 0, r_lcr = 0, r_mcr = 0, r_dll = 0, r_dlh = 0, r_tx = []\<rparr>"

fun reg_write :: "u16 \<Rightarrow> io_event \<Rightarrow> uart8250 \<Rightarrow> uart8250" where
  "reg_write base (Out_port p v) r =
     (if p = base then (if dlab r then r\<lparr>r_dll := v\<rparr> else r\<lparr>r_tx := r_tx r @ [v]\<rparr>)
      else if p = base + 1 then (if dlab r then r\<lparr>r_dlh := v\<rparr> else r\<lparr>r_ier := v\<rparr>)
      else if p = base + 2 then r\<lparr>r_fcr := v\<rparr>
      else if p = base + 3 then r\<lparr>r_lcr := v\<rparr>
      else if p = base + 4 then r\<lparr>r_mcr := v\<rparr>
      else r)"
| "reg_write base _ r = r"

definition replay :: "u16 \<Rightarrow> io_event list \<Rightarrow> uart8250" where
  "replay base tr = fold (reg_write base) tr reset8250"

lemma replay_snoc [simp]: "replay base (tr @ [e]) = reg_write base e (replay base tr)"
  by (simp add: replay_def)

lemma replay_append: "replay base (tr @ tr') = fold (reg_write base) tr' (replay base tr)"
  by (simp add: replay_def)

named_theorems uart_simps \<open>what the accesses of the driver do to the abstract device\<close>

lemma replay_in [uart_simps]: "replay base (snd (uart_in hw up off tr)) = replay base tr"
  by (simp add: uart_in_def inb_p_def Let_def replay_append)

lemma replay_out [uart_simps]:
  assumes "io_type up = UART_IO_PORT"
  shows "replay base (uart_out up off v tr) = reg_write base (Out_port (io_port up + off) v) (replay base tr)"
  using assms by (simp add: uart_out_def outb_p_def replay_append)

text \<open>The polling loop only reads the line status register, between once and ten thousand times.\<close>

definition lsr_reads :: "u16 \<Rightarrow> u8 list \<Rightarrow> io_event list" where
  "lsr_reads p vs = concat (map (\<lambda>v. [In_port p v, Slow_down]) vs)"

lemma lsr_reads_simps [simp]:
  "lsr_reads p [] = []" "lsr_reads p (v # vs) = In_port p v # Slow_down # lsr_reads p vs"
  by (simp_all add: lsr_reads_def)

lemma lsr_reads_replay [simp]: "fold (reg_write base) (lsr_reads p vs) r = r"
  by (induction vs) auto

lemma lsr_loop_eq:
  assumes "io_type up = UART_IO_PORT" "0 < t"
  shows "\<exists>vs s. lsr_loop hw up bits t tr = tr @ lsr_reads (io_port up + UART_LSR) (vs @ [s]) \<and> length vs < t \<and>
     (\<forall>v \<in> set vs. v AND bits \<noteq> bits) \<and> (s AND bits = bits \<or> length vs = t - 1)"
  using assms(2)
proof (induction t arbitrary: tr)
  case (Suc t)
  let ?p = "io_port up + UART_LSR"
  let ?s = "hw tr ?p"
  have one: "uart_in hw up UART_LSR tr = (?s, tr @ [In_port ?p ?s, Slow_down])"
    using assms(1) by (simp add: uart_in_def inb_p_def Let_def)
  show ?case
  proof (cases "?s AND bits = bits \<or> t = 0")
    case True
    then show ?thesis by (intro exI [of _ "[]"] exI [of _ ?s]) (auto simp: one)
  next
    case False
    then obtain vs s where "lsr_loop hw up bits t (tr @ [In_port ?p ?s, Slow_down]) =
        (tr @ [In_port ?p ?s, Slow_down]) @ lsr_reads ?p (vs @ [s])" "length vs < t"
        "\<forall>v \<in> set vs. v AND bits \<noteq> bits" "s AND bits = bits \<or> length vs = t - 1"
      using Suc.IH [of "tr @ [In_port ?p ?s, Slow_down]"] by auto
    with False show ?thesis
      by (intro exI [of _ "?s # vs"] exI [of _ s]) (auto simp: one)
  qed
qed simp

lemma wait_for_lsr_eq:
  assumes "io_type up = UART_IO_PORT"
  shows "\<exists>vs s. wait_for_lsr hw up bits tr = tr @ lsr_reads (io_port up + UART_LSR) (vs @ [s]) \<and> length vs < 10000 \<and>
     (\<forall>v \<in> set vs. v AND bits \<noteq> bits) \<and> (s AND bits = bits \<or> length vs = 9999)"
  using lsr_loop_eq [OF assms, of 10000 hw bits tr] by (simp add: wait_for_lsr_def)

lemma replay_wait [uart_simps]:
  assumes "io_type up = UART_IO_PORT"
  shows "replay base (wait_for_lsr hw up bits tr) = replay base tr"
  using wait_for_lsr_eq [OF assms, of hw bits tr] by (auto simp: replay_append simp del: lsr_reads_simps)

lemma offsets_differ [simp]:
  "(x::u16) + 1 \<noteq> x" "x + 2 \<noteq> x" "x + 3 \<noteq> x" "x + 4 \<noteq> x" by (simp_all)

section \<open>Sending\<close>

definition crlf :: "bytes \<Rightarrow> bytes" where
  "crlf bs = concat (map (\<lambda>c. if c = 0x0A then [0x0D, c] else [c]) bs)"

definition uart_tx :: "u16 \<Rightarrow> uart_world \<Rightarrow> bytes" where
  "uart_tx base w = r_tx (replay base (trace w))"

text \<open>The port of the console is an 8250 at \<open>base\<close> that is not in its divisor mode.\<close>

definition uart_live :: "u16 \<Rightarrow> console \<Rightarrow> uart_world \<Rightarrow> bool" where
  "uart_live base con w \<longleftrightarrow> (case port_at w (c_index con) of None \<Rightarrow> False
     | Some up \<Rightarrow> io_type up = UART_IO_PORT \<and> io_port up = base \<and> poll_putchar up = Some Putchar_8250) \<and>
     \<not> dlab (replay base (trace w))"

lemma putchar_sends:
  assumes "io_type up = UART_IO_PORT" "io_port up = base" "\<not> dlab (replay base tr)"
  shows "replay base (putchar hw up c tr) = (replay base tr)\<lparr>r_tx := r_tx (replay base tr) @ [c]\<rparr>"
  using assms by (simp add: putchar_def uart_simps)

lemma poll_put_char_sends:
  assumes "uart_live base con w"
  shows "\<exists>w'. uart_poll_put_char hw (c_index con) c w = Some w' \<and> uart_live base con w' \<and>
     uart_tx base w' = uart_tx base w @ crlf [c]"
proof -
  obtain up where up: "port_at w (c_index con) = Some up" "io_type up = UART_IO_PORT" "io_port up = base"
      "poll_putchar up = Some Putchar_8250" "\<not> dlab (replay base (trace w))"
    using assms by (auto simp: uart_live_def split: option.splits)
  have port: "port_at (w\<lparr>trace := tr\<rparr>) = port_at w" for tr by (simp add: port_at_def fun_eq_iff)
  have dl: "dlab (r\<lparr>r_tx := x\<rparr>) = dlab r" for r x by (simp add: dlab_def)
  show ?thesis
    using up by (auto simp: uart_poll_put_char_def call_putchar_def uart_live_def uart_tx_def port dl crlf_def
        putchar_sends [OF up(2,3)])
qed

lemma con_write_sends:
  "uart_live base con w \<Longrightarrow>
     \<exists>w'. con_write hw con bs w = Some w' \<and> uart_live base con w' \<and> uart_tx base w' = uart_tx base w @ crlf bs"
proof (induction bs arbitrary: w)
  case (Cons c bs)
  obtain w1 where w1: "uart_poll_put_char hw (c_index con) c w = Some w1" "uart_live base con w1"
      "uart_tx base w1 = uart_tx base w @ crlf [c]"
    using poll_put_char_sends [OF Cons.prems] by blast
  obtain w2 where "con_write hw con bs w1 = Some w2" "uart_live base con w2" "uart_tx base w2 = uart_tx base w1 @ crlf bs"
    using Cons.IH [OF w1(2)] by blast
  with w1 show ?case by (simp add: crlf_def)
qed (simp add: crlf_def)

interpretation uart: con_device "uart_ops hw" "uart_tx base" "uart_live base" crlf for hw base
proof unfold_locales
  show "crlf (xs @ ys) = crlf xs @ crlf ys" for xs ys by (simp add: crlf_def)
next
  fix con w bs
  assume "uart_live base con w"
  then show "\<exists>w'. co_write (uart_ops hw) con bs w = Some w' \<and> uart_live base con w' \<and> uart_tx base w' = uart_tx base w @ crlf bs"
    using con_write_sends [of base con w hw bs] by (simp add: uart_ops_def)
qed

section \<open>Programming the device\<close>

text \<open>A device that gives back the line control register it was last written.\<close>

definition reads_lcr :: "hardware \<Rightarrow> u16 \<Rightarrow> bool" where
  "reads_lcr hw base \<longleftrightarrow> (\<forall>tr. hw tr (base + 3) = r_lcr (replay base tr))"

lemma set_speed_replay:
  assumes up: "io_type up = UART_IO_PORT" "io_port up = base" and hw: "reads_lcr hw base"
    and d: "get_divisor up speed = Some d"
  shows "\<exists>tr'. set_speed hw up speed tr = Some tr' \<and>
     replay base tr' = (replay base tr)\<lparr>r_dll := ucast (d AND 0xFF), r_dlh := ucast (drop_bit 8 d AND 0xFF)\<rparr>"
proof -
  have lcr: "fst (uart_in hw up UART_LCR tr) = r_lcr (replay base tr)"
    using hw up by (simp add: uart_in_def inb_p_def Let_def reads_lcr_def)
  have set: "(r_lcr r OR UART_LCR_DLAB) AND UART_LCR_DLAB \<noteq> 0" for r :: uart8250
    by (simp add: bit.conj_disj_distrib2)
  have "(set_speed hw up speed tr) = Some (uart_out up UART_LCR (r_lcr (replay base tr))
     (uart_out up UART_DLH (ucast (drop_bit 8 d AND 0xFF)) (uart_out up UART_DLL (ucast (d AND 0xFF))
       (uart_out up UART_LCR (r_lcr (replay base tr) OR UART_LCR_DLAB) (snd (uart_in hw up UART_LCR tr))))))"
    using lcr by (simp add: set_speed_def d case_prod_beta Let_def)
  then show ?thesis using set by (auto simp: uart_simps up dlab_def)
qed

lemma setup_port_replay:
  assumes up: "io_type up = UART_IO_PORT" "io_port up = base" and hw: "reads_lcr hw base"
    and d: "get_divisor up speed = Some d" and tr: "\<not> dlab (replay base tr)"
  shows "\<exists>tr'. setup_port hw up speed tr = Some tr' \<and>
     replay base tr' = \<lparr>r_ier = 0, r_fcr = 0, r_lcr = 3, r_mcr = 3, r_dll = ucast (d AND 0xFF),
       r_dlh = ucast (drop_bit 8 d AND 0xFF), r_tx = r_tx (replay base tr)\<rparr>"
proof -
  let ?tr1 = "uart_out up UART_LCR UART_LCR_WLEN8 (uart_out up UART_FCR 0 (uart_out up UART_MCR 0
     (wait_for_lsr hw up UART_LSR_TEMT_THRE (uart_out up UART_IER 0 tr))))"
  obtain tr2 where tr2: "set_speed hw up speed ?tr1 = Some tr2"
    "replay base tr2 = (replay base ?tr1)\<lparr>r_dll := ucast (d AND 0xFF), r_dlh := ucast (drop_bit 8 d AND 0xFF)\<rparr>"
    using set_speed_replay [OF up hw d] by blast
  have "setup_port hw up speed tr = Some (uart_out up UART_MCR UART_MCR_DTR_RTS tr2)"
    using tr2(1) by (simp add: setup_port_def Let_def)
  then show ?thesis using tr by (simp add: uart_simps up tr2(2))
qed

lemma divisor_bytes:
  fixes d :: u32
  shows "unat (ucast (d AND 0xFF) :: u8) + 256 * unat (ucast (drop_bit 8 d AND 0xFF) :: u8) = unat d mod 65536"
proof -
  have m: "(0xFF :: u32) = mask 8" by (simp add: mask_eq_exp_minus_1)
  have lo: "unat (ucast (d AND 0xFF) :: u8) = unat d mod 256"
    unfolding m by (simp add: unsigned_ucast_eq take_bit_eq_mod unat_mod_distrib flip: take_bit_eq_mask)
  have hi: "unat (ucast (drop_bit 8 d AND 0xFF) :: u8) = unat d div 256 mod 256"
    unfolding m by (simp add: unsigned_ucast_eq take_bit_eq_mod unat_mod_distrib unat_div_distrib drop_bit_eq_div
        take_bit_eq_mask [symmetric])
  show ?thesis using mod_mult2_eq [of "unat d" 256 256] by (simp add: lo hi)
qed

section \<open>The ports of the machine\<close>

definition ready_port :: "nat \<Rightarrow> uart_port" where
  "ready_port i = (serial_port (serial_ports ! i))\<lparr>up_index := int i\<rparr>"

lemma init_ports_init: "init_ports uart_init = Some \<lparr>uart_ports = map ready_port [0, 1, 2, 3], trace = []\<rparr>"
  by code_simp

definition boot_world :: uart_world where
  "boot_world = \<lparr>uart_ports = map ready_port [0, 1, 2, 3], trace = []\<rparr>"

lemma ready_port_props:
  assumes "i < 4"
  shows "io_type (ready_port i) = UART_IO_PORT" "poll_putchar (ready_port i) = Some Putchar_8250"
    "io_port (ready_port i) = snd (serial_ports ! i)" "get_divisor (ready_port i) 9600 = Some 12"
proof -
  have "i = 0 \<or> i = 1 \<or> i = 2 \<or> i = 3" using assms by auto
  then show "get_divisor (ready_port i) 9600 = Some 12" "io_port (ready_port i) = snd (serial_ports ! i)"
    by (auto simp: ready_port_def serial_port_def serial_ports_def get_divisor_def io_port_def)
qed (simp_all add: ready_port_def serial_port_def)

lemma port_at_boot: "port_at (boot_world\<lparr>trace := tr\<rparr>) i = (if 0 \<le> i \<and> i < 4 then Some (ready_port (nat i)) else None)"
proof (cases "0 \<le> i \<and> i < 4")
  case True
  then have "i = 0 \<or> i = 1 \<or> i = 2 \<or> i = 3" by auto
  then show ?thesis by (auto simp: port_at_def boot_world_def)
qed (auto simp: port_at_def boot_world_def)

lemma ttyS_facts: "strcmp ttyS ttyS = Some 0" "ttyS ! 0 \<noteq> 0"
  "strncmp ttyS [0x75, 0x61, 0x72, 0x74, 0] 4 = Some (- 1)"
  by code_simp+

section \<open>Properties\<close>

text \<open>
  Waiting for the line status ends whatever the device answers: the register is read between once
  and ten thousand times and nothing else happens; every answer but the last lacks the bits, and the
  last one has them unless all ten thousand reads are used up.
\<close>

theorem wait_for_lsr_ends:
  assumes "io_type up = UART_IO_PORT"
  shows "\<exists>vs s. wait_for_lsr hw up bits tr = tr @ concat (map (\<lambda>v. [In_port (io_port up + 5) v, Slow_down]) (vs @ [s])) \<and>
     length vs < 10000 \<and> (\<forall>v \<in> set vs. v AND bits \<noteq> bits) \<and> (s AND bits = bits \<or> length vs = 9999)"
  using wait_for_lsr_eq [OF assms, of hw bits tr] unfolding lsr_reads_def .

theorem wait_for_lsr_ends_witness:
  "\<exists>vs s. wait_for_lsr (\<lambda>_ _. 0x60) (ready_port 0) 0x20 [] = concat (map (\<lambda>v. [In_port (0x3F8 + 5) v, Slow_down]) (vs @ [s]))"
  using wait_for_lsr_ends [where up = "ready_port 0" and hw = "\<lambda>_ _. 0x60" and bits = "0x20" and tr = "[]"]
  by (auto simp: ready_port_def serial_port_def serial_ports_def io_port_def)

text \<open>
  \<open>setup_port\<close> programs an 8250: on a device that remembers its line control register and is not in
  divisor mode, it ends with eight data bits, no parity, one stop bit, interrupts and FIFOs off, the
  modem lines on, and the low sixteen bits of the divisor in the latch; nothing is transmitted.
\<close>

theorem setup_port_programs:
  assumes "io_type up = UART_IO_PORT" "reads_lcr hw (io_port up)" "get_divisor up speed = Some d"
    and "\<not> dlab (replay (io_port up) tr)"
  shows "\<exists>tr' lo hi. setup_port hw up speed tr = Some tr' \<and> unat lo + 256 * unat hi = unat d mod 65536 \<and>
     replay (io_port up) tr' = \<lparr>r_ier = 0, r_fcr = 0, r_lcr = 3, r_mcr = 3, r_dll = lo, r_dlh = hi,
       r_tx = r_tx (replay (io_port up) tr)\<rparr>"
  using setup_port_replay [OF assms(1) refl assms(2-4)] divisor_bytes [of d] by blast

theorem setup_port_programs_witness:
  "\<exists>tr' lo hi. setup_port (\<lambda>tr _. r_lcr (replay 0x3F8 tr)) (ready_port 0) 9600 [] = Some tr' \<and> unat lo + 256 * unat hi = 12 \<and>
     replay 0x3F8 tr' = \<lparr>r_ier = 0, r_fcr = 0, r_lcr = 3, r_mcr = 3, r_dll = lo, r_dlh = hi, r_tx = []\<rparr>"
proof -
  have "io_port (ready_port 0) = 0x3F8" by (simp add: ready_port_props serial_ports_def)
  then show ?thesis
    using setup_port_programs [of "ready_port 0" "\<lambda>tr _. r_lcr (replay 0x3F8 tr)" 9600 12 "[]"] ready_port_props [of 0]
    by (simp add: reads_lcr_def dlab_def replay_def reset8250_def)
qed

text \<open>
  The constructor of the driver with \<open>console=ttyS<i>\<close>: for the four ports of the machine it
  registers the console with index \<open>i\<close> on an 8250 that is ready to transmit; every other index makes
  it reach outside the table of ports.
\<close>

theorem console_init_ttyS:
  assumes pc: "pc_name pc = ttyS" "pc_user_specified pc = 1" and cs: "used (pcs cs) = [pc]" "active_console cs = None"
      "world cs = uart_init"
    and hw: "\<forall>sp \<in> set serial_ports. reads_lcr hw (snd sp)"
  shows "if 0 \<le> pc_index pc \<and> pc_index pc < 4
     then \<exists>cs'. console_init hw cs = Some cs' \<and>
       active_console cs' = Some (\<lparr>c_name = ttyS, c_index = pc_index pc, c_speed = 9600\<rparr>, uart_ops hw) \<and>
       uart_live (snd (serial_ports ! nat (pc_index pc))) \<lparr>c_name = ttyS, c_index = pc_index pc, c_speed = 9600\<rparr> (world cs')
     else console_init hw cs = None"
proof -
  obtain rest where rest: "pcs cs = pc # rest"
    using cs(1) by (cases "pcs cs") (auto simp: used_def split: if_splits)
  have w: "init_ports (world cs) = Some boot_world" by (simp add: cs(3) init_ports_init boot_world_def)
  let ?i = "pc_index pc"
  let ?con = "console_8250\<lparr>c_index := ?i\<rparr>"
  have en: "try_enable (uart_ops hw) (pcs cs) 1 console_8250 boot_world =
      (case con_setup hw (Some (pc_options pc)) ?con boot_world of None \<Rightarrow> None | Some (e, con, w) \<Rightarrow> Some (e, con, w))"
    using ttyS_facts by (simp add: rest pc uart_ops_def con_match_def try_name_def console_8250_def split: option.split)
  have at: "port_at boot_world ?i = (if 0 \<le> ?i \<and> ?i < 4 then Some (ready_port (nat ?i)) else None)"
    using port_at_boot [of "trace boot_world" ?i] by simp
  show ?thesis
  proof (cases "0 \<le> ?i \<and> ?i < 4")
    case False
    then have "con_setup hw (Some (pc_options pc)) ?con boot_world = None" by (auto simp: con_setup_def at)
    with False show ?thesis by (auto simp: console_init_def w register_console_def en cs(2))
  next
    case True
    let ?up = "ready_port (nat ?i)"
    have i: "nat ?i < 4" using True by linarith
    note up = ready_port_props [OF i]
    have "serial_ports ! nat ?i \<in> set serial_ports" using i by (intro nth_mem) (simp add: serial_ports_def)
    with hw have base: "reads_lcr hw (io_port ?up)" by (simp add: up(3))
    obtain tr' lo hi where tr': "setup_port hw ?up 9600 [] = Some tr'"
      "replay (io_port ?up) tr' = \<lparr>r_ier = 0, r_fcr = 0, r_lcr = 3, r_mcr = 3, r_dll = lo, r_dlh = hi,
         r_tx = r_tx (replay (io_port ?up) [])\<rparr>"
      using setup_port_replay [OF up(1) refl base up(4), of "[]"] by (auto simp: replay_def reset8250_def dlab_def)
    let ?w = "boot_world\<lparr>trace := tr'\<rparr>"
    have boot_trace: "trace boot_world = []" by (simp add: boot_world_def)
    have "con_setup hw (Some (pc_options pc)) ?con boot_world = Some (0, ?con\<lparr>c_speed := 9600\<rparr>, ?w)"
      using True tr'(1) boot_trace by (simp add: con_setup_def at)
    then have "console_init hw cs = Some (cs\<lparr>active_console := Some (?con\<lparr>c_speed := 9600\<rparr>, uart_ops hw), world := ?w\<rparr>)"
      by (simp add: console_init_def w register_console_def en cs(2))
    moreover have "uart_live (snd (serial_ports ! nat ?i)) (?con\<lparr>c_speed := 9600\<rparr>) ?w"
      using True up tr'(2) by (simp add: uart_live_def port_at_boot dlab_def flip: up(3))
    ultimately show ?thesis using True by (simp add: console_8250_def)
  qed
qed

text \<open>The state of the witness: \<open>console=ttyS2\<close>.\<close>

definition ttyS2_state :: "uart_world con_state" where
  "ttyS2_state = \<lparr>pcs = [\<lparr>pc_name = ttyS, pc_index = 2, pc_user_specified = 1, pc_options = replicate 64 0\<rparr>],
     active_console = None, world = uart_init\<rparr>"

theorem console_init_ttyS_witness:
  "\<exists>cs'. console_init (\<lambda>tr p. r_lcr (replay (p - 3) tr)) ttyS2_state = Some cs' \<and>
     uart_live 0x3E8 \<lparr>c_name = ttyS, c_index = 2, c_speed = 9600\<rparr> (world cs')"
  using console_init_ttyS [where cs = ttyS2_state and hw = "\<lambda>tr p. r_lcr (replay (p - 3) tr)" and
      pc = "\<lparr>pc_name = ttyS, pc_index = 2, pc_user_specified = 1, pc_options = replicate 64 0\<rparr>"]
  by (auto simp: ttyS2_state_def used_def ttyS_facts reads_lcr_def serial_ports_def)




end
