(* ===== verification/Deflate.thy ===== *)
theory Deflate
  imports CString
begin

text \<open>
  The decompressor of the EFI boot stub, \<open>efi-boot/deflate.c\<close>: bit input, canonical Huffman codes,
  the three kinds of deflate blocks, the CRC and the gzip container.  The input and the output are
  arrays of bytes; an access outside of them, a shift by the width of its operand or more, and the use
  of a symbol that was never stored have no result.
\<close>

section \<open>State\<close>

abbreviation (input) MAX_BITS :: nat where "MAX_BITS \<equiv> 16"
abbreviation (input) MAX_SYMBOLS :: nat where "MAX_SYMBOLS \<equiv> 288"
abbreviation (input) MAX_DISTANCE :: nat where "MAX_DISTANCE \<equiv> 32"

datatype derr = ERR_NONE | ERR_OVERFLOW | ERR_SYMBOL | ERR_UNDEFINED

text \<open>A symbol that was not stored yet is \<open>None\<close>.\<close>

record huff_tree =
  bl_count :: "nat list"
  sorted_symbols :: "nat option list"

record deflate =
  src :: bytes
  in_ptr :: nat
  out :: bytes
  dest :: nat
  derror :: derr
  bit_accum :: u32
  nr_bits :: nat
  dest_size :: nat
  ll :: huff_tree
  distance :: huff_tree

text \<open>What is left of the input, in bits.\<close>

definition bits_left :: "deflate \<Rightarrow> nat" where
  "bits_left d = 8 * (length (src d) - in_ptr d) + nr_bits d"

section \<open>Canonical Huffman codes\<close>

text \<open>Results of type \<open>unsigned short\<close> wrap.\<close>

fun count_lengths :: "nat list \<Rightarrow> nat list \<Rightarrow> nat list option" where
  "count_lengths [] counts = Some counts"
| "count_lengths (l # ls) counts =
     (if l < MAX_BITS then count_lengths ls (counts[l := (counts ! l + 1) mod 65536]) else None)"

fun code_offsets :: "nat list \<Rightarrow> nat \<Rightarrow> nat list" where
  "code_offsets [] acc = []"
| "code_offsets (c # counts) acc = acc # code_offsets counts ((acc + c) mod 65536)"

fun place_symbols :: "nat list \<Rightarrow> nat \<Rightarrow> nat list \<Rightarrow> nat option list \<Rightarrow> nat option list option" where
  "place_symbols [] it offs symbols = Some symbols"
| "place_symbols (l # ls) it offs symbols =
     (if l \<noteq> 0 then
        (if offs ! l < length symbols
         then place_symbols ls (it + 1) (offs[l := (offs ! l + 1) mod 65536]) (symbols[offs ! l := Some (it mod 65536)])
         else None)
      else place_symbols ls (it + 1) offs symbols)"

definition huffman_tree :: "huff_tree \<Rightarrow> nat list \<Rightarrow> huff_tree option" where
  "huffman_tree t lengths =
     do {
       counts \<leftarrow> count_lengths lengths (replicate MAX_BITS 0);
       let counts = counts[0 := 0];
       symbols \<leftarrow> place_symbols lengths 0 (code_offsets counts 0) (sorted_symbols t);
       Some \<lparr>bl_count = counts, sorted_symbols = symbols\<rparr> }"

section \<open>Bit input\<close>

function fill_bits :: "nat \<Rightarrow> deflate \<Rightarrow> deflate option" where
  "fill_bits n d =
     (if nr_bits d < n then
        (if in_ptr d = length (src d) then Some (d\<lparr>derror := ERR_OVERFLOW\<rparr>)
         else if 32 \<le> nr_bits d \<or> length (src d) < in_ptr d then None
         else fill_bits n (d\<lparr>bit_accum := bit_accum d OR push_bit (nr_bits d) (ucast (src d ! in_ptr d)),
                             in_ptr := in_ptr d + 1, nr_bits := nr_bits d + 8\<rparr>))
      else Some d)"
  by auto
termination by (relation "measure (\<lambda>(n, d). n - nr_bits d)") auto

declare fill_bits.simps [simp del]

definition get_bits :: "deflate \<Rightarrow> nat \<Rightarrow> (u32 \<times> deflate) option" where
  "get_bits d n =
     (if derror d \<noteq> ERR_NONE then Some (0, d)
      else do {
        d \<leftarrow> fill_bits n d;
        if derror d \<noteq> ERR_NONE then Some (0, d)
        else if 31 \<le> n then None
        else Some (bit_accum d AND (push_bit n 1 - 1),
                   d\<lparr>bit_accum := drop_bit n (bit_accum d), nr_bits := nr_bits d - n\<rparr>) })"

definition get_extra_bits :: "deflate \<Rightarrow> nat \<Rightarrow> u32 \<Rightarrow> (u32 \<times> deflate) option" where
  "get_extra_bits d n base =
     do { (bits, d) \<leftarrow> (if n \<noteq> 0 then get_bits d n else Some (0, d)); Some (base + bits, d) }"

text \<open>The loop over the code lengths, with the number of lengths that are left.\<close>

fun decode_loop :: "nat \<Rightarrow> huff_tree \<Rightarrow> nat \<Rightarrow> nat \<Rightarrow> deflate \<Rightarrow> (nat \<times> deflate) option" where
  "decode_loop 0 t acc offs d = Some (0, d\<lparr>derror := ERR_SYMBOL\<rparr>)"
| "decode_loop (Suc k) t acc offs d =
     do {
       (bit, d) \<leftarrow> get_bits d 1;
       let offs = (2 * offs + unat bit) mod 65536;
       if derror d \<noteq> ERR_NONE then Some (0, d)
       else let n = bl_count t ! (MAX_BITS - Suc k) in
         if offs < n then
           (if acc + offs < length (sorted_symbols t)
            then do { s \<leftarrow> sorted_symbols t ! (acc + offs); Some (s, d) } else None)
         else decode_loop k t ((acc + n) mod 65536) (offs - n) d }"

definition decode_symbol :: "deflate \<Rightarrow> huff_tree \<Rightarrow> (nat \<times> deflate) option" where
  "decode_symbol d t = decode_loop (MAX_BITS - 1) t 0 0 d"

section \<open>What the input functions use up\<close>

lemma fill_bits_left:
  "fill_bits n d = Some d' \<Longrightarrow> bits_left d' = bits_left d \<and> (derror d' = derror d \<longrightarrow> derror d \<noteq> ERR_OVERFLOW \<longrightarrow> n \<le> nr_bits d')"
proof (induction n d rule: fill_bits.induct)
  case (1 n d)
  let ?d = "d\<lparr>bit_accum := bit_accum d OR push_bit (nr_bits d) (ucast (src d ! in_ptr d)),
                             in_ptr := in_ptr d + 1, nr_bits := nr_bits d + 8\<rparr>"
  show ?case
  proof (cases "nr_bits d < n \<and> in_ptr d \<noteq> length (src d)")
    case True
    then have le: "\<not> (32 \<le> nr_bits d \<or> length (src d) < in_ptr d)" "fill_bits n ?d = Some d'"
      using 1(2) by (auto simp: fill_bits.simps [of n d] split: if_splits)
    have "bits_left ?d = bits_left d" using True le by (auto simp: bits_left_def)
    with 1(1) True le show ?thesis by auto
  next
    case False
    then show ?thesis using 1(2) by (auto simp: fill_bits.simps [of n d] bits_left_def split: if_splits)
  qed
qed

lemma get_bits_left:
  assumes "get_bits d n = Some (b, d')"
  shows "bits_left d' \<le> bits_left d \<and> (derror d' = ERR_NONE \<longrightarrow> bits_left d' + n = bits_left d)"
proof (cases "derror d = ERR_NONE")
  case True
  with assms obtain d1 where d1: "fill_bits n d = Some d1"
    "(derror d1 \<noteq> ERR_NONE \<and> d' = d1) \<or>
     (derror d1 = ERR_NONE \<and> d' = d1\<lparr>bit_accum := drop_bit n (bit_accum d1), nr_bits := nr_bits d1 - n\<rparr>)"
    by (auto simp: get_bits_def bind_eq_Some_conv split: if_splits)
  from fill_bits_left [OF d1(1)] d1(2) True show ?thesis by (auto simp: bits_left_def)
next
  case False
  with assms show ?thesis by (auto simp: get_bits_def)
qed

lemma get_extra_bits_left: "get_extra_bits d n base = Some (b, d') \<Longrightarrow> bits_left d' \<le> bits_left d"
  by (auto simp: get_extra_bits_def bind_eq_Some_conv dest: get_bits_left [THEN conjunct1] split: if_splits)

lemma decode_loop_left:
  "decode_loop k t acc offs d = Some (s, d') \<Longrightarrow>
     bits_left d' \<le> bits_left d \<and> (derror d' = ERR_NONE \<longrightarrow> bits_left d' < bits_left d)"
proof (induction k t acc offs d rule: decode_loop.induct)
  case (1 t acc offs d)
  then show ?case by (auto simp: bits_left_def)
next
  case (2 k t acc offs d)
  then obtain b d1 where d1: "get_bits d 1 = Some (b, d1)" by (auto simp: bind_eq_Some_conv)
  let ?offs = "(2 * offs + unat b) mod 65536" and ?n = "bl_count t ! (MAX_BITS - Suc k)"
  have left: "bits_left d1 \<le> bits_left d" "derror d1 = ERR_NONE \<Longrightarrow> bits_left d1 < bits_left d"
    using get_bits_left [OF d1] by auto
  consider (err) "derror d1 \<noteq> ERR_NONE" "d' = d1" | (sym) "derror d1 = ERR_NONE" "d' = d1"
    | (more) "derror d1 = ERR_NONE" "\<not> ?offs < ?n" "decode_loop k t ((acc + ?n) mod 65536) (?offs - ?n) d1 = Some (s, d')"
    using 2(2) d1 by (auto simp: Let_def bind_eq_Some_conv split: if_splits)
  then show ?case
  proof cases
    case more
    have "bits_left d' \<le> bits_left d1" using 2(1) [OF d1 refl] more by simp
    with left more show ?thesis by simp
  qed (use left in simp_all)
qed

lemma decode_symbol_left:
  assumes "decode_symbol d t = Some (s, d')"
  shows "bits_left d' \<le> bits_left d" "derror d' = ERR_NONE \<Longrightarrow> bits_left d' < bits_left d"
  using decode_loop_left [OF assms [unfolded decode_symbol_def]] by auto

section \<open>The trees of a block\<close>

definition huffman_fixed_tree :: "deflate \<Rightarrow> deflate" where
  "huffman_fixed_tree d = d\<lparr>
     ll := \<lparr>bl_count = (replicate MAX_BITS 0)[7 := 24, 8 := 152, 9 := 112],
            sorted_symbols = map Some ([256..<280] @ [0..<144] @ [280..<288] @ [144..<256])\<rparr>,
     distance := \<lparr>bl_count = (replicate MAX_BITS 0)[5 := 32],
                  sorted_symbols = map Some [0..<32] @ drop 32 (sorted_symbols (distance d))\<rparr>\<rparr>"

definition code_len_for_code_idx :: "nat list" where
  "code_len_for_code_idx = [16, 17, 18, 0, 8, 7, 9, 6, 10, 5, 11, 4, 12, 3, 13, 2, 14, 1, 15]"

fun read_code_lengths :: "nat list \<Rightarrow> nat list \<Rightarrow> deflate \<Rightarrow> (nat list \<times> deflate) option" where
  "read_code_lengths [] lengths d = Some (lengths, d)"
| "read_code_lengths (i # idx) lengths d =
     do { (b, d) \<leftarrow> get_bits d 3; read_code_lengths idx (lengths[i := unat b]) d }"

text \<open>The meaning of a symbol of the code length alphabet: the length to store, and how many times.\<close>

definition code_length_symbol :: "nat \<Rightarrow> nat list \<Rightarrow> nat \<Rightarrow> deflate \<Rightarrow> (nat \<times> nat \<times> deflate) option" where
  "code_length_symbol symbol lengths it d =
     (if symbol = 16 then
        (if it = 0 then Some (0, 0, d\<lparr>derror := ERR_SYMBOL\<rparr>)
         else do { (len, d) \<leftarrow> get_extra_bits d 2 3; Some (lengths ! (it - 1), unat len, d) })
      else if symbol = 17 then do { (len, d) \<leftarrow> get_extra_bits d 3 3; Some (0, unat len, d) }
      else if symbol = 18 then do { (len, d) \<leftarrow> get_extra_bits d 7 11; Some (0, unat len, d) }
      else Some (symbol, 1, d))"

lemma code_length_symbol_left:
  "code_length_symbol symbol lengths it d = Some (v, n, d') \<Longrightarrow> bits_left d' \<le> bits_left d"
  by (auto simp: code_length_symbol_def bind_eq_Some_conv bits_left_def dest: get_extra_bits_left split: if_splits)

function read_lengths_loop :: "nat \<Rightarrow> nat list \<Rightarrow> nat \<Rightarrow> deflate \<Rightarrow> (nat list \<times> deflate) option" where
  "read_lengths_loop total_codes lengths it d =
     (if it < total_codes then do {
        (symbol, d') \<leftarrow> decode_symbol d (ll d);
        if derror d' \<noteq> ERR_NONE then Some (lengths, d')
        else do {
          (v, n, d2) \<leftarrow> code_length_symbol symbol lengths it d';
          if derror d2 \<noteq> ERR_NONE then Some (lengths, d2)
          else do {
            lengths \<leftarrow> memset lengths it (v mod 256) n;
            read_lengths_loop total_codes lengths (it + n) d2 } } }
      else Some (lengths, d))"
  by auto
termination
proof (relation "measure (\<lambda>(_, _, _, d). bits_left d)", goal_cases)
  case (2 total_codes lengths it d p symbol d' q v q' n d2)
  then have "bits_left d' < bits_left d" "bits_left d2 \<le> bits_left d'"
    using decode_symbol_left(2) [of d "ll d" symbol d'] code_length_symbol_left [of symbol lengths it d' v n d2] by auto
  then show ?case by simp
qed simp

declare read_lengths_loop.simps [simp del]

definition huffman_dynamic_tree :: "deflate \<Rightarrow> deflate option" where
  "huffman_dynamic_tree d =
     do {
       (hlit, d) \<leftarrow> get_extra_bits d 5 257;
       (hdist, d) \<leftarrow> get_extra_bits d 5 1;
       (hclen, d) \<leftarrow> get_extra_bits d 4 4;
       if derror d \<noteq> ERR_NONE then Some d
       else do {
         (lengths, d) \<leftarrow> read_code_lengths (take (unat hclen) code_len_for_code_idx)
             (replicate (MAX_SYMBOLS + MAX_DISTANCE) 0) d;
         if derror d \<noteq> ERR_NONE then Some d
         else do {
           lt \<leftarrow> huffman_tree (ll d) (take 19 lengths);
           let d = d\<lparr>ll := lt\<rparr>;
           (lengths, d) \<leftarrow> read_lengths_loop (unat hlit + unat hdist) lengths 0 d;
           if derror d \<noteq> ERR_NONE then Some d
           else do {
             lt \<leftarrow> huffman_tree (ll d) (take (unat hlit) lengths);
             dt \<leftarrow> huffman_tree (distance d) (take (unat hdist) (drop (unat hlit) lengths));
             Some (d\<lparr>ll := lt, distance := dt\<rparr>) } } } }"

section \<open>Blocks\<close>

definition length_bits :: "nat list" where
  "length_bits = [0, 0, 0, 0, 0, 0, 0, 0, 1, 1, 1, 1, 2, 2, 2, 2, 3, 3, 3, 3, 4, 4, 4, 4, 5, 5, 5, 5, 0, 127]"

definition length_base :: "u32 list" where
  "length_base = [3, 4, 5, 6, 7, 8, 9, 10, 11, 13, 15, 17, 19, 23, 27, 31, 35, 43, 51, 59,
     67, 83, 99, 115, 131, 163, 195, 227, 258, 0]"

definition dist_bits :: "nat list" where
  "dist_bits = [0, 0, 0, 0, 1, 1, 2, 2, 3, 3, 4, 4, 5, 5, 6, 6, 7, 7, 8, 8, 9, 9, 10, 10, 11, 11, 12, 12, 13, 13]"

definition dist_base :: "u32 list" where
  "dist_base = [1, 2, 3, 4, 5, 7, 9, 13, 17, 25, 33, 49, 65, 97, 129, 193, 257, 385, 513, 769,
     1025, 1537, 2049, 3073, 4097, 6145, 8193, 12289, 16385, 24577]"

definition table_at :: "'a list \<Rightarrow> nat \<Rightarrow> 'a option" where
  "table_at xs i = (if i < length xs then Some (xs ! i) else None)"

text \<open>The copy from \<open>offset\<close> bytes back, one byte after the other, so that it may repeat itself.\<close>

fun copy_back :: "bytes \<Rightarrow> nat \<Rightarrow> nat \<Rightarrow> nat \<Rightarrow> bytes option" where
  "copy_back m q offset 0 = Some m"
| "copy_back m q offset (Suc n) =
     (if q < length m \<and> offset \<le> q then copy_back (m[q := m ! (q - offset)]) (q + 1) offset n else None)"

definition put_literal :: "nat \<Rightarrow> deflate \<Rightarrow> deflate option" where
  "put_literal symbol d =
     (if dest d < length (out d) then Some (d\<lparr>out := (out d)[dest d := of_nat symbol], dest := dest d + 1\<rparr>) else None)"

definition length_distance :: "nat \<Rightarrow> deflate \<Rightarrow> deflate option" where
  "length_distance symbol d =
     do {
       lbits \<leftarrow> table_at length_bits (symbol - 257);
       lbase \<leftarrow> table_at length_base (symbol - 257);
       (len, d) \<leftarrow> get_extra_bits d lbits lbase;
       (dist, d) \<leftarrow> decode_symbol d (distance d);
       dbits \<leftarrow> table_at dist_bits dist;
       dbase \<leftarrow> table_at dist_base dist;
       (offset, d) \<leftarrow> get_extra_bits d dbits dbase;
       if derror d \<noteq> ERR_NONE then Some d
       else do {
         m \<leftarrow> copy_back (out d) (dest d) (unat offset) (unat len);
         Some (d\<lparr>out := m, dest := dest d + unat len\<rparr>) } }"

lemma put_literal_left: "put_literal symbol d = Some d' \<Longrightarrow> bits_left d' = bits_left d"
  by (auto simp: put_literal_def bits_left_def split: if_splits)

lemma length_distance_left:
  assumes "length_distance symbol d = Some d'"
  shows "bits_left d' \<le> bits_left d"
proof -
  obtain lbits lbase len d1 dist d2 dbits dbase offset d3 where
    d1: "get_extra_bits d lbits lbase = Some (len, d1)" and d2: "decode_symbol d1 (distance d1) = Some (dist, d2)"
    and d3: "get_extra_bits d2 dbits dbase = Some (offset, d3)"
    and d': "bits_left d' = bits_left d3"
    using assms by (force simp: length_distance_def bind_eq_Some_conv bits_left_def split: if_splits)
  from d' get_extra_bits_left [OF d1] decode_symbol_left(1) [OF d2] get_extra_bits_left [OF d3] show ?thesis by simp
qed

function deflate_block_loop :: "nat \<Rightarrow> deflate \<Rightarrow> deflate option" where
  "deflate_block_loop t_dest d =
     do {
       (symbol, d1) \<leftarrow> decode_symbol d (ll d);
       if derror d1 \<noteq> ERR_NONE then Some d1
       else if symbol = 256 then Some (d1\<lparr>dest_size := dest_size d1 + (dest d1 - t_dest)\<rparr>)
       else if symbol < 256 then do { d2 \<leftarrow> put_literal symbol d1; deflate_block_loop t_dest d2 }
       else do {
         d2 \<leftarrow> length_distance symbol d1;
         if derror d2 \<noteq> ERR_NONE then Some d2 else deflate_block_loop t_dest d2 } }"
  by auto
termination
proof (relation "measure (\<lambda>(_, d). bits_left d)", goal_cases)
  case (2 t_dest d p symbol d1 d2)
  then show ?case using decode_symbol_left(2) [of d "ll d" symbol d1] put_literal_left [of symbol d1 d2] by simp
next
  case (3 t_dest d p symbol d1 d2)
  then show ?case using decode_symbol_left(2) [of d "ll d" symbol d1] length_distance_left [of symbol d1 d2] by simp
qed simp

declare deflate_block_loop.simps [simp del]

definition deflate_block :: "deflate \<Rightarrow> deflate option" where
  "deflate_block d = deflate_block_loop (dest d) d"

fun copy_input :: "nat \<Rightarrow> deflate \<Rightarrow> deflate option" where
  "copy_input 0 d = Some d"
| "copy_input (Suc n) d =
     (if dest d < length (out d) \<and> in_ptr d < length (src d)
      then copy_input n (d\<lparr>out := (out d)[dest d := src d ! in_ptr d], dest := dest d + 1, in_ptr := in_ptr d + 1\<rparr>)
      else None)"

definition deflate_uncompressed_block :: "deflate \<Rightarrow> deflate option" where
  "deflate_uncompressed_block d =
     (if length (src d) - in_ptr d < 4 then Some (d\<lparr>derror := ERR_OVERFLOW\<rparr>)
      else do {
        len \<leftarrow> get_unaligned_le 2 (drop (in_ptr d) (src d));
        let d = d\<lparr>in_ptr := in_ptr d + 4\<rparr>;
        if length (src d) - in_ptr d < len then Some (d\<lparr>derror := ERR_OVERFLOW\<rparr>)
        else do {
          d \<leftarrow> copy_input len d;
          Some (d\<lparr>dest_size := dest_size d + len, bit_accum := 0, nr_bits := 0\<rparr>) } })"


section \<open>The whole stream\<close>

lemma deflate_block_loop_left: "deflate_block_loop t d = Some d' \<Longrightarrow> bits_left d' \<le> bits_left d"
proof (induction t d rule: deflate_block_loop.induct)
  case (1 t d)
  obtain symbol d1 where d1: "decode_symbol d (ll d) = Some (symbol, d1)"
    using 1(3) by (auto simp: deflate_block_loop.simps [of t d] bind_eq_Some_conv)
  note left = decode_symbol_left(1) [OF d1]
  show ?case
  proof (cases "derror d1 = ERR_NONE")
    case False
    then show ?thesis using 1(3) d1 left by (auto simp: deflate_block_loop.simps [of t d])
  next
    case ok: True
    consider "symbol = 256" | "symbol < 256" | "256 < symbol" by linarith
    then show ?thesis
    proof cases
      case 1
      then show ?thesis using \<open>deflate_block_loop t d = Some d'\<close> d1 left ok
        by (auto simp: deflate_block_loop.simps [of t d] bits_left_def)
    next
      case 2
      then obtain d2 where d2: "put_literal symbol d1 = Some d2" "deflate_block_loop t d2 = Some d'"
        using 1(3) d1 ok by (auto simp: deflate_block_loop.simps [of t d] bind_eq_Some_conv)
      then have "bits_left d' \<le> bits_left d2" using 1(1) [OF d1 refl] ok 2 by simp
      with put_literal_left [OF d2(1)] left show ?thesis by simp
    next
      case 3
      then obtain d2 where d2: "length_distance symbol d1 = Some d2"
          "derror d2 \<noteq> ERR_NONE \<and> d' = d2 \<or> derror d2 = ERR_NONE \<and> deflate_block_loop t d2 = Some d'"
        using 1(3) d1 ok by (auto simp: deflate_block_loop.simps [of t d] bind_eq_Some_conv split: if_splits)
      then have "bits_left d' \<le> bits_left d2" using 1(2) [OF d1 refl] ok 3 by auto
      with length_distance_left [OF d2(1)] left show ?thesis by simp
    qed
  qed
qed

lemma copy_input_left: "copy_input n d = Some d' \<Longrightarrow> bits_left d' \<le> bits_left d \<and> nr_bits d' = nr_bits d"
  by (induction n d rule: copy_input.induct) (auto simp: bits_left_def split: if_splits)

lemma deflate_uncompressed_block_left:
  assumes "deflate_uncompressed_block d = Some d'"
  shows "bits_left d' \<le> bits_left d"
proof -
  consider "bits_left d' = bits_left d"
    | "bits_left d' = bits_left (d\<lparr>in_ptr := in_ptr d + 4\<rparr>)"
    | n d1 where "copy_input n (d\<lparr>in_ptr := in_ptr d + 4\<rparr>) = Some d1" "bits_left d' \<le> bits_left d1"
    using assms
    by (auto simp: deflate_uncompressed_block_def bind_eq_Some_conv Let_def bits_left_def split: if_splits)
  then show ?thesis
  proof cases
    case 3
    then show ?thesis using copy_input_left [OF 3(1)] by (auto simp: bits_left_def)
  qed (auto simp: bits_left_def)
qed

lemma read_code_lengths_left: "read_code_lengths idx lengths d = Some (r, d') \<Longrightarrow> bits_left d' \<le> bits_left d"
proof (induction idx lengths d rule: read_code_lengths.induct)
  case (2 i idx lengths d)
  then obtain b d1 where d1: "get_bits d 3 = Some (b, d1)" "read_code_lengths idx (lengths[i := unat b]) d1 = Some (r, d')"
    by (auto simp: bind_eq_Some_conv)
  with 2(1) [OF d1(1) refl d1(2)] get_bits_left [OF d1(1)] show ?case by simp
qed simp

lemma read_lengths_loop_left: "read_lengths_loop n lengths it d = Some (r, d') \<Longrightarrow> bits_left d' \<le> bits_left d"
proof (induction n lengths it d rule: read_lengths_loop.induct)
  case (1 n lengths it d)
  show ?case
  proof (cases "it < n")
    case False
    then show ?thesis using 1(2) by (simp add: read_lengths_loop.simps [of n lengths it d])
  next
    case it: True
    then obtain symbol d1 where d1: "decode_symbol d (ll d) = Some (symbol, d1)"
      using 1(2) by (auto simp: read_lengths_loop.simps [of n lengths it d] bind_eq_Some_conv)
    note left = decode_symbol_left(1) [OF d1]
    show ?thesis
    proof (cases "derror d1 = ERR_NONE")
      case False
      then show ?thesis using 1(2) it d1 left by (simp add: read_lengths_loop.simps [of n lengths it d])
    next
      case ok: True
      then obtain v k d2 where d2: "code_length_symbol symbol lengths it d1 = Some (v, k, d2)"
        using 1(2) it d1 by (auto simp: read_lengths_loop.simps [of n lengths it d] bind_eq_Some_conv)
      note left2 = code_length_symbol_left [OF d2]
      show ?thesis
      proof (cases "derror d2 = ERR_NONE")
        case False
        then show ?thesis using 1(2) it d1 d2 ok left left2 by (simp add: read_lengths_loop.simps [of n lengths it d])
      next
        case ok2: True
        then obtain l where l: "memset lengths it (v mod 256) k = Some l" "read_lengths_loop n l (it + k) d2 = Some (r, d')"
          using 1(2) it d1 d2 ok by (auto simp: read_lengths_loop.simps [of n lengths it d] bind_eq_Some_conv)
        have "bits_left d' \<le> bits_left d2" using 1(1) [OF it d1 refl _ d2 refl refl _ l] ok ok2 by simp
        with left left2 show ?thesis by simp
      qed
    qed
  qed
qed

lemma huffman_dynamic_tree_left:
  assumes "huffman_dynamic_tree d = Some d'"
  shows "bits_left d' \<le> bits_left d"
proof -
  obtain b1 d1 b2 d2 b3 d3 where d3: "get_extra_bits d 5 257 = Some (b1, d1)" "get_extra_bits d1 5 1 = Some (b2, d2)"
      "get_extra_bits d2 4 4 = Some (b3, d3)"
    using assms by (auto simp: huffman_dynamic_tree_def bind_eq_Some_conv)
  have left3: "bits_left d3 \<le> bits_left d" using d3 [THEN get_extra_bits_left] by simp
  have ll: "bits_left (d\<lparr>ll := t\<rparr>) = bits_left d" "bits_left (d\<lparr>ll := t, distance := t'\<rparr>) = bits_left d" for d t t'
    by (simp_all add: bits_left_def)
  show ?thesis
  proof (cases "derror d3 = ERR_NONE")
    case False
    then show ?thesis using assms d3 left3 by (simp add: huffman_dynamic_tree_def)
  next
    case ok3: True
    then obtain ls d4 where d4: "read_code_lengths (take (unat b3) code_len_for_code_idx) (replicate (MAX_SYMBOLS + MAX_DISTANCE) 0) d3 = Some (ls, d4)"
      using assms d3 by (auto simp: huffman_dynamic_tree_def bind_eq_Some_conv)
    note left4 = read_code_lengths_left [OF d4]
    show ?thesis
    proof (cases "derror d4 = ERR_NONE")
      case False
      then show ?thesis using assms d3 d4 ok3 left3 left4 by (simp add: huffman_dynamic_tree_def)
    next
      case ok4: True
      then obtain lt ls' d5 where d5: "read_lengths_loop (unat b1 + unat b2) ls 0 (d4\<lparr>ll := lt\<rparr>) = Some (ls', d5)"
        and "d' = d5 \<or> (\<exists>lt dt. d' = d5\<lparr>ll := lt, distance := dt\<rparr>)"
        using assms d3 d4 ok3
        by (fastforce simp: huffman_dynamic_tree_def bind_eq_Some_conv Let_def split: if_splits)
      then have "bits_left d' = bits_left d5" by (auto simp: ll)
      with read_lengths_loop_left [OF d5] left3 left4 show ?thesis by (simp add: ll)
    qed
  qed
qed

text \<open>One block: its two header fields, then its contents by type.\<close>

definition deflate_contents :: "u32 \<Rightarrow> deflate \<Rightarrow> deflate option" where
  "deflate_contents block_type d =
     (if block_type = 0 then deflate_uncompressed_block d
      else if block_type = 1 then deflate_block (huffman_fixed_tree d)
      else if block_type = 2 then do {
        d \<leftarrow> huffman_dynamic_tree d;
        if derror d = ERR_NONE then deflate_block d else Some d }
      else Some (d\<lparr>derror := ERR_UNDEFINED\<rparr>))"

lemma deflate_contents_left:
  assumes "deflate_contents ty d = Some d'"
  shows "bits_left d' \<le> bits_left d"
proof -
  have fixed: "bits_left (huffman_fixed_tree d) = bits_left d" by (simp add: huffman_fixed_tree_def bits_left_def)
  consider (stored) "deflate_uncompressed_block d = Some d'" | (fixed) "deflate_block (huffman_fixed_tree d) = Some d'"
    | (dyn) d1 where "huffman_dynamic_tree d = Some d1" "deflate_block d1 = Some d' \<or> d' = d1"
    | (bad) "bits_left d' = bits_left d"
    using assms by (auto simp: deflate_contents_def bind_eq_Some_conv bits_left_def split: if_splits)
  then show ?thesis
  proof cases
    case stored
    then show ?thesis by (rule deflate_uncompressed_block_left)
  next
    case fixed
    then show ?thesis using deflate_block_loop_left by (fastforce simp: deflate_block_def \<open>bits_left (huffman_fixed_tree d) = _\<close>)
  next
    case dyn
    then show ?thesis using huffman_dynamic_tree_left [OF dyn(1)] deflate_block_loop_left [of "dest d1" d1 d']
      by (auto simp: deflate_block_def)
  qed simp
qed

function deflate_loop :: "deflate \<Rightarrow> deflate option" where
  "deflate_loop d =
     do {
       (block_final, d1) \<leftarrow> get_bits d 1;
       (block_type, d2) \<leftarrow> get_bits d1 2;
       if derror d2 \<noteq> ERR_NONE then Some d2
       else do {
         d3 \<leftarrow> deflate_contents block_type d2;
         if block_final = 0 \<and> derror d3 = ERR_NONE then deflate_loop d3 else Some d3 } }"
  by auto
termination
proof (relation "measure bits_left", goal_cases)
  case (2 d p block_final d1 q block_type d2 d3)
  have "bits_left d1 \<le> bits_left d" "bits_left d2 < bits_left d1" "bits_left d3 \<le> bits_left d2"
    using get_bits_left [of d 1 block_final d1] get_bits_left [of d1 2 block_type d2] deflate_contents_left [of block_type d2 d3] 2
    by auto
  then show ?case by simp
qed simp

declare deflate_loop.simps [simp del]

text \<open>The trees of the state are not initialised.\<close>

definition no_tree :: huff_tree where
  "no_tree = \<lparr>bl_count = replicate MAX_BITS 0, sorted_symbols = replicate MAX_SYMBOLS None\<rparr>"

definition deflate_start :: "bytes \<Rightarrow> bytes \<Rightarrow> deflate" where
  "deflate_start m source =
     \<lparr>src = source, in_ptr = 0, out = m, dest = 0, derror = ERR_NONE, bit_accum = 0, nr_bits = 0, dest_size = 0,
      ll = no_tree, distance = no_tree\<rparr>"

text \<open>The error, or the length of the output, with the output.\<close>

definition deflate_buffer :: "bytes \<Rightarrow> bytes \<Rightarrow> ((derr + nat) \<times> bytes) option" where
  "deflate_buffer m source =
     do { d \<leftarrow> deflate_loop (deflate_start m source);
          Some (if derror d = ERR_NONE then Inr (dest_size d) else Inl (derror d), out d) }"

section \<open>The checksum\<close>

definition crctab32 :: "u32 list" where
  "crctab32 = [0x00000000, 0x1DB71064, 0x3B6E20C8, 0x26D930AC, 0x76DC4190, 0x6B6B51F4, 0x4DB26158, 0x5005713C,
     0xEDB88320, 0xF00F9344, 0xD6D6A3E8, 0xCB61B38C, 0x9B64C2B0, 0x86D3D2D4, 0xA00AE278, 0xBDBDF21C]"

definition crc_nibble :: "u32 \<Rightarrow> u32" where
  "crc_nibble crc = crctab32 ! unat (crc AND 0x0F) XOR drop_bit 4 crc"

fun crc_loop :: "bytes \<Rightarrow> u32 \<Rightarrow> u32" where
  "crc_loop [] crc = crc"
| "crc_loop (b # bs) crc = crc_loop bs (crc_nibble (crc_nibble (crc XOR ucast b)))"

definition update_crc32 :: "bytes \<Rightarrow> u32" where
  "update_crc32 bs = (if bs = [] then 0 else crc_loop bs 0xFFFFFFFF XOR 0xFFFFFFFF)"

section \<open>The gzip container\<close>

text \<open>The loops that skip a string; \<open>Inl\<close> is the early return.\<close>

fun skip_string :: "bytes \<Rightarrow> nat \<Rightarrow> (errno + nat)" where
  "skip_string [] start = Inl EINVAL"
| "skip_string (c # s) start = (if c = 0 then Inr (start + 1) else skip_string s (start + 1))"

definition skip_extra :: "bytes \<Rightarrow> u8 \<Rightarrow> nat \<Rightarrow> (errno + nat) option" where
  "skip_extra source flag start =
     (if flag AND 4 \<noteq> 0 then do {
        n \<leftarrow> get_unaligned_le 2 (drop start source);
        Some (if length source < start + n + 2 then Inl EINVAL else Inr (start + n + 2)) }
      else Some (Inr start))"

definition skip_if :: "bool \<Rightarrow> bytes \<Rightarrow> nat \<Rightarrow> errno + nat" where
  "skip_if b source start = (if b then skip_string (drop start source) start else Inr start)"

definition check_header_crc :: "bytes \<Rightarrow> u8 \<Rightarrow> nat \<Rightarrow> (errno + nat) option" where
  "check_header_crc source flag start =
     (if flag AND 2 \<noteq> 0 then
        (if length source < start + 2 then Some (Inl EINVAL)
         else do {
           crc16 \<leftarrow> get_unaligned_le 2 (drop start source);
           Some (if unat (update_crc32 (take start source) AND 0xFFFF) \<noteq> crc16 then Inl EINVAL
                 else Inr (start + 2)) })
      else Some (Inr start))"

definition on_ok :: "(errno + 'a) option \<Rightarrow> ('a \<Rightarrow> (errno + 'b) option) \<Rightarrow> (errno + 'b) option" where
  "on_ok r f = (case r of None \<Rightarrow> None | Some (Inl e) \<Rightarrow> Some (Inl e) | Some (Inr x) \<Rightarrow> f x)"

text \<open>Where the compressed data start; the header has at least 18 bytes.\<close>

definition gzip_header :: "bytes \<Rightarrow> (errno + nat) option" where
  "gzip_header source =
     (if length source < 18 \<or> source ! 0 \<noteq> 0x1F \<or> source ! 1 \<noteq> 0x8B \<or> source ! 2 \<noteq> 8 \<or> source ! 3 AND 0xE0 \<noteq> 0
      then Some (Inl EINVAL)
      else let flag = source ! 3 in
        on_ok (skip_extra source flag 10) (\<lambda>start.
        on_ok (Some (skip_if (flag AND 8 \<noteq> 0) source start)) (\<lambda>start.
        on_ok (Some (skip_if (flag AND 16 \<noteq> 0) source start)) (\<lambda>start.
        check_header_crc source flag start))))"

definition decompress_gzip :: "bytes \<Rightarrow> bytes \<Rightarrow> ((errno + nat) \<times> bytes) option" where
  "decompress_gzip m source =
     do {
       r \<leftarrow> gzip_header source;
       (case r of
          Inl e \<Rightarrow> Some (Inl e, m)
        | Inr start \<Rightarrow>
            if length source < start + 8 then Some (Inl EINVAL, m)
            else do {
              (r, m) \<leftarrow> deflate_buffer m (take (length source - start - 8) (drop start source));
              (case r of
                 Inl _ \<Rightarrow> Some (Inl EINVAL, m)
               | Inr n \<Rightarrow> do {
                   crc \<leftarrow> get_unaligned_le 4 (drop (length source - 8) source);
                   Some (if unat (update_crc32 (take n m)) \<noteq> crc then Inl EINVAL else Inr n, m) }) }) }"

end
