(* ===== verification/DeflateProps.thy ===== *)
theory DeflateProps
  imports Deflate
begin

text \<open>
  What the decompressor of \<open>efi-boot/deflate.c\<close> computes: the bit stream it reads, the canonical
  Huffman codes of RFC 1951 that its trees decode, the meaning of a block as a list of literals and
  copies, and the checksum as the division of polynomials it stands for.
\<close>

section \<open>The bit stream\<close>

definition byte_bits :: "u8 \<Rightarrow> bool list" where
  "byte_bits b = map (bit b) [0..<8]"

definition stream_bits :: "bytes \<Rightarrow> bool list" where
  "stream_bits bs = concat (map byte_bits bs)"

definition bits_of :: "deflate \<Rightarrow> bool list" where
  "bits_of d = map (bit (bit_accum d)) [0..<nr_bits d] @ stream_bits (drop (in_ptr d) (src d))"

definition accum_ok :: "deflate \<Rightarrow> bool" where
  "accum_ok d \<longleftrightarrow> (\<forall>i \<ge> nr_bits d. \<not> bit (bit_accum d) i) \<and> in_ptr d \<le> length (src d) \<and> derror d = ERR_NONE"

definition stream_ok :: "deflate \<Rightarrow> bool" where
  "stream_ok d \<longleftrightarrow> accum_ok d \<and> nr_bits d < 8"

text \<open>What reading does: only the position in the input changes.\<close>

definition moved :: "deflate \<Rightarrow> deflate \<Rightarrow> bool" where
  "moved d d' \<longleftrightarrow> src d' = src d \<and> out d' = out d \<and> dest d' = dest d \<and> derror d' = derror d \<and>
     dest_size d' = dest_size d \<and> ll d' = ll d \<and> distance d' = distance d"

definition reads :: "deflate \<Rightarrow> bool list \<Rightarrow> deflate \<Rightarrow> bool" where
  "reads d rest d' \<longleftrightarrow> stream_ok d' \<and> bits_of d' = rest \<and> moved d d'"

lemma reads_fields:
  assumes "reads d rest d'"
  shows "stream_ok d'" "bits_of d' = rest" "out d' = out d" "dest d' = dest d" "dest_size d' = dest_size d"
    "ll d' = ll d" "distance d' = distance d" "derror d' = ERR_NONE"
  using assms by (auto simp: reads_def stream_ok_def accum_ok_def moved_def)

lemma reads_trans: "reads d r d1 \<Longrightarrow> reads d1 r' d2 \<Longrightarrow> reads d r' d2"
  by (auto simp: reads_def moved_def)

lemma length_stream_bits [simp]: "length (stream_bits bs) = 8 * length bs"
  by (induction bs) (auto simp: stream_bits_def byte_bits_def)

lemma length_bits_of: "length (bits_of d) = bits_left d"
  by (simp add: bits_of_def bits_left_def)

lemma upt_shift: "map ((+) n) [0..<k] = [n..<n + k]"
  using map_add_upt [of n k] by (simp add: add.commute cong: map_cong)

lemma bits_of_fill:
  assumes "accum_ok d" "nr_bits d \<le> 24" "in_ptr d < length (src d)"
  shows "bits_of (d\<lparr>bit_accum := bit_accum d OR push_bit (nr_bits d) (ucast (src d ! in_ptr d)),
           in_ptr := in_ptr d + 1, nr_bits := nr_bits d + 8\<rparr>) = bits_of d"
    "accum_ok (d\<lparr>bit_accum := bit_accum d OR push_bit (nr_bits d) (ucast (src d ! in_ptr d)),
           in_ptr := in_ptr d + 1, nr_bits := nr_bits d + 8\<rparr>)"
proof -
  let ?b = "src d ! in_ptr d" and ?n = "nr_bits d"
  let ?a = "bit_accum d OR push_bit ?n (ucast ?b)"
  have low: "bit ?a i \<longleftrightarrow> bit (bit_accum d) i" if "i < ?n" for i
    using that by (simp add: bit_simps)
  have high: "bit ?a (?n + i) \<longleftrightarrow> bit ?b i" if "i < 8" for i
    using that assms(1,2) by (auto simp: bit_simps accum_ok_def)
  have none: "\<not> bit ?a i" if "?n + 8 \<le> i" for i
    using that assms(1) by (auto simp: bit_simps accum_ok_def dest: bit_imp_le_length)
  have up: "[0..<?n + 8] = [0..<?n] @ map ((+) ?n) [0..<8]"
    using upt_add_eq_append [of 0 ?n 8] by (simp add: upt_shift)
  have "map (bit ?a) [0..<?n + 8] = map (bit (bit_accum d)) [0..<?n] @ byte_bits ?b"
    unfolding up map_append map_map byte_bits_def using low high by simp
  moreover have "stream_bits (drop (in_ptr d) (src d)) = byte_bits ?b @ stream_bits (drop (in_ptr d + 1) (src d))"
    using assms(3) by (simp add: stream_bits_def flip: Cons_nth_drop_Suc)
  ultimately show "bits_of (d\<lparr>bit_accum := ?a, in_ptr := in_ptr d + 1, nr_bits := ?n + 8\<rparr>) = bits_of d"
    by (simp add: bits_of_def)
  show "accum_ok (d\<lparr>bit_accum := ?a, in_ptr := in_ptr d + 1, nr_bits := ?n + 8\<rparr>)"
    using none assms(1,3) by (auto simp: accum_ok_def)
qed

lemma fill_bits_stream:
  assumes "accum_ok d" "nr_bits d < n + 8" "n \<le> 16" "n \<le> length (bits_of d)"
  shows "\<exists>d'. fill_bits n d = Some d' \<and> accum_ok d' \<and> n \<le> nr_bits d' \<and> nr_bits d' < n + 8 \<and> bits_of d' = bits_of d \<and>
     moved d d'"
  using assms
proof (induction n d rule: fill_bits.induct)
  case (1 n d)
  show ?case
  proof (cases "nr_bits d < n")
    case True
    have in_p: "in_ptr d < length (src d)"
      using 1(2,5) True by (auto simp: length_bits_of bits_left_def accum_ok_def)
    let ?d = "d\<lparr>bit_accum := bit_accum d OR push_bit (nr_bits d) (ucast (src d ! in_ptr d)),
           in_ptr := in_ptr d + 1, nr_bits := nr_bits d + 8\<rparr>"
    have step: "fill_bits n d = fill_bits n ?d"
      using True in_p 1(4) by (subst fill_bits.simps) auto
    have ok: "accum_ok ?d" "bits_of ?d = bits_of d" using bits_of_fill [OF 1(2) _ in_p] True 1(4) by auto
    obtain d' where "fill_bits n ?d = Some d'" "accum_ok d'" "n \<le> nr_bits d'" "nr_bits d' < n + 8" "bits_of d' = bits_of ?d"
        "moved ?d d'"
      using 1(1) [OF True _ _ ok(1)] True in_p 1(4,5) ok(2) by auto
    with step ok(2) show ?thesis by (auto simp: moved_def)
  next
    case False
    then show ?thesis using 1(2,3) by (simp add: fill_bits.simps [of n d] moved_def)
  qed
qed

lemma get_bits_stream:
  assumes "stream_ok d" "bits_of d = bs @ rest" "length bs = n" "n \<le> 16"
  shows "\<exists>d'. get_bits d n = Some (horner_sum of_bool 2 bs, d') \<and> reads d rest d'"
proof -
  obtain d1 where d1: "fill_bits n d = Some d1" "accum_ok d1" "n \<le> nr_bits d1" "nr_bits d1 < n + 8" "bits_of d1 = bits_of d"
      "moved d d1"
    using fill_bits_stream [of d n] assms by (auto simp: stream_ok_def)
  let ?d = "d1\<lparr>bit_accum := drop_bit n (bit_accum d1), nr_bits := nr_bits d1 - n\<rparr>"
  have split: "map (bit (bit_accum d1)) [0..<nr_bits d1] = map (bit (bit_accum d1)) [0..<n] @ map (bit (drop_bit n (bit_accum d1))) [0..<nr_bits d1 - n]"
  proof -
    have up: "[0..<nr_bits d1] = [0..<n] @ map ((+) n) [0..<nr_bits d1 - n]"
      using d1(3) upt_add_eq_append [of 0 n "nr_bits d1 - n"] by (simp add: upt_shift)
    show ?thesis unfolding up by (simp add: bit_drop_bit_eq comp_def)
  qed
  have bs: "bs = map (bit (bit_accum d1)) [0..<n] \<and> rest = map (bit (drop_bit n (bit_accum d1))) [0..<nr_bits d1 - n] @ stream_bits (drop (in_ptr d1) (src d1))"
    using assms(2,3) d1(5) split by (simp add: bits_of_def append_eq_append_conv)
  have val: "bit_accum d1 AND (2 ^ n - 1) = horner_sum of_bool 2 bs"
    using bs by (simp add: horner_sum_bit_eq_take_bit take_bit_eq_mask mask_eq_exp_minus_1 push_bit_eq_mult)
  have "get_bits d n = Some (horner_sum of_bool 2 bs, ?d)"
    using d1(1,2) assms by (simp add: get_bits_def stream_ok_def accum_ok_def val)
  moreover have "reads d rest ?d"
    using d1(2,3,4,6) bs by (auto simp: reads_def stream_ok_def accum_ok_def bits_of_def bit_drop_bit_eq moved_def)
  ultimately show ?thesis by blast
qed

lemma unat_horner:
  assumes "length bs \<le> 16"
  shows "unat (horner_sum of_bool 2 bs :: u32) = horner_sum of_bool 2 bs"
proof -
  have "horner_sum of_bool 2 bs < (2::nat) ^ length bs" by (rule horner_sum_of_bool_2_less)
  also have "\<dots> \<le> 2 ^ 16" using assms by (intro power_increasing) auto
  finally have "horner_sum of_bool 2 bs < (2::nat) ^ 32" by simp
  moreover have "(horner_sum of_bool 2 bs :: u32) = of_nat (horner_sum of_bool 2 bs)"
    by (induction bs) (simp_all)
  ultimately show ?thesis by (simp add: unat_of_nat take_bit_nat_eq_self)
qed


section \<open>Canonical codes\<close>

text \<open>The code of length \<open>n\<close> with value \<open>w\<close>, the most significant bit first.\<close>

fun code_bits :: "nat \<Rightarrow> nat \<Rightarrow> bool list" where
  "code_bits 0 w = []"
| "code_bits (Suc n) w = odd (w div 2 ^ n) # code_bits n w"

text \<open>The first code of each length (RFC 1951, 3.2.2), from the number of codes of each length.\<close>

fun first_code :: "nat list \<Rightarrow> nat \<Rightarrow> nat" where
  "first_code c 0 = 0"
| "first_code c (Suc l) = 2 * (first_code c l + c ! l)"

definition shorter :: "nat list \<Rightarrow> nat \<Rightarrow> nat" where
  "shorter c l = sum_list (take l c)"

lemma length_code_bits [simp]: "length (code_bits n w) = n"
  by (induction n) auto

lemma first_code_grows: "2 ^ k * (first_code c (Suc l)) \<le> first_code c (Suc l + k)"
proof (induction k)
  case (Suc k)
  have "2 ^ Suc k * first_code c (Suc l) = 2 * (2 ^ k * first_code c (Suc l))" by simp
  also have "\<dots> \<le> 2 * first_code c (Suc l + k)" using Suc by simp
  also have "\<dots> \<le> first_code c (Suc l + Suc k)" by simp
  finally show ?case .
qed simp

text \<open>Above its length, a code lies behind all the codes that end there.\<close>

lemma code_prefix:
  assumes "first_code c L \<le> w" "l < L"
  shows "first_code c l + c ! l \<le> w div 2 ^ (L - l)"
proof -
  obtain k where L: "L = Suc l + k" using assms(2) less_iff_Suc_add by auto
  have "2 ^ k * (2 * (first_code c l + c ! l)) \<le> w"
    using first_code_grows [of k c l] assms(1) by (simp add: L)
  then have "(2 ^ (L - l)) * (first_code c l + c ! l) \<le> w" by (simp add: L algebra_simps)
  then show ?thesis by (simp add: less_eq_div_iff_mult_less_eq mult.commute)
qed

lemma get_bit_stream:
  assumes "stream_ok d" "bits_of d = b # rest"
  shows "\<exists>d'. get_bits d 1 = Some (of_bool b, d') \<and> reads d rest d'"
  using get_bits_stream [of d "[b]" rest 1] assms by simp

lemma decode_loop_step:
  assumes "get_bits d 1 = Some (of_bool b, d1)" "derror d1 = ERR_NONE" "2 * offs + of_bool b = v" "v < 65536"
  shows "v < bl_count t ! (16 - Suc k) \<Longrightarrow> acc + v < length (sorted_symbols t) \<Longrightarrow>
      sorted_symbols t ! (acc + v) = Some s \<Longrightarrow> decode_loop (Suc k) t acc offs d = Some (s, d1)"
    "bl_count t ! (16 - Suc k) \<le> v \<Longrightarrow> decode_loop (Suc k) t acc offs d =
      decode_loop k t ((acc + bl_count t ! (16 - Suc k)) mod 65536) (v - bl_count t ! (16 - Suc k)) d1"
proof -
  have v: "(2 * offs + unat (of_bool b :: u32)) mod 65536 = v" using assms(3,4) by (cases b) simp_all
  show "v < bl_count t ! (16 - Suc k) \<Longrightarrow> acc + v < length (sorted_symbols t) \<Longrightarrow>
      sorted_symbols t ! (acc + v) = Some s \<Longrightarrow> decode_loop (Suc k) t acc offs d = Some (s, d1)"
    using assms(1,2) by (simp only: decode_loop.simps v bind.bind_lunit Let_def prod.case) simp
  show "bl_count t ! (16 - Suc k) \<le> v \<Longrightarrow> decode_loop (Suc k) t acc offs d =
      decode_loop k t ((acc + bl_count t ! (16 - Suc k)) mod 65536) (v - bl_count t ! (16 - Suc k)) d1"
    using assms(1,2) by (simp only: decode_loop.simps v bind.bind_lunit Let_def prod.case) simp
qed

text \<open>The loop, having read the code down to length \<open>l\<close>.\<close>

lemma decode_loop_code:
  assumes counts: "length (bl_count t) = 16" "bl_count t ! 0 = 0" "sum_list (bl_count t) < 65536"
    and code: "first_code (bl_count t) L \<le> w" "w < first_code (bl_count t) L + bl_count t ! L" "w < 2 ^ L" "0 < L" "L < 16"
    and sym: "shorter (bl_count t) L + (w - first_code (bl_count t) L) < length (sorted_symbols t)"
      "sorted_symbols t ! (shorter (bl_count t) L + (w - first_code (bl_count t) L)) = Some s"
    and l: "l < L" "offs + (first_code (bl_count t) l + bl_count t ! l) = w div 2 ^ (L - l)" "acc = shorter (bl_count t) (Suc l)"
    and d: "stream_ok d" "bits_of d = code_bits (L - l) w @ rest"
  shows "\<exists>d'. decode_loop (15 - l) t acc offs d = Some (s, d') \<and> reads d rest d'"
  using l d
proof (induction "L - Suc l" arbitrary: l offs acc d)
  case 0
  then have L: "L = Suc l" by simp
  obtain d1 where d1: "get_bits d 1 = Some (of_bool (odd w), d1)" "reads d rest d1"
    using get_bit_stream [of d "odd w" rest] 0 L by auto
  have "2 * (offs + (first_code (bl_count t) l + bl_count t ! l)) + of_bool (odd w) = w"
    using 0(3) by (simp add: L)
  then have offs: "2 * offs + of_bool (odd w) = w - first_code (bl_count t) L" by (simp add: L)
  have "w < 65536" using code(3,5) power_strict_increasing [of L 16 "2::nat"] by simp
  then have small: "w - first_code (bl_count t) L < 65536" by simp
  have k: "15 - l = Suc (14 - l)" "16 - Suc (14 - l) = L" using code(5) L by auto
  have "decode_loop (15 - l) t acc offs d = Some (s, d1)"
    unfolding k(1) using code(1,2) sym 0(4)
    by (intro decode_loop_step(1) [OF d1(1) reads_fields(8) [OF d1(2)] offs small]) (simp_all only: k(2), simp_all add: L)
  with d1(2) show ?case by blast
next
  case (Suc m)
  have lt: "Suc l < L" using Suc(2) by simp
  let ?b = "odd (w div 2 ^ (L - Suc l))"
  have Ll: "L - l = Suc (L - Suc l)" using lt by simp
  then have cb: "code_bits (L - l) w = ?b # code_bits (L - Suc l) w" by (simp only: code_bits.simps)
  obtain d1 where d1: "get_bits d 1 = Some (of_bool ?b, d1)" "reads d (code_bits (L - Suc l) w @ rest) d1"
    using get_bit_stream [of d ?b] Suc(6,7) cb by auto
  have half: "w div 2 ^ (L - l) = w div 2 ^ (L - Suc l) div 2"
    unfolding Ll by (simp add: div_mult2_eq [symmetric] mult.commute)
  have "2 * (offs + (first_code (bl_count t) l + bl_count t ! l)) + of_bool ?b = w div 2 ^ (L - Suc l)"
    using Suc(4) half by simp
  then have offs: "2 * offs + of_bool ?b + first_code (bl_count t) (Suc l) = w div 2 ^ (L - Suc l)" by simp
  have "w < 65536" using code(3,5) power_strict_increasing [of L 16 "2::nat"] by simp
  moreover have "w div 2 ^ (L - Suc l) \<le> w" by simp
  ultimately have small: "2 * offs + of_bool ?b < 65536" using offs by linarith
  have pre: "first_code (bl_count t) (Suc l) + bl_count t ! Suc l \<le> w div 2 ^ (L - Suc l)"
    by (rule code_prefix [OF code(1) lt])
  have n: "bl_count t ! Suc l \<le> 2 * offs + of_bool ?b" using pre offs by linarith
  have acc: "acc + bl_count t ! Suc l = shorter (bl_count t) (Suc (Suc l))"
    using Suc(5) counts(1) lt code(5) by (simp add: shorter_def take_Suc_conv_app_nth)
  have "shorter (bl_count t) (Suc (Suc l)) \<le> sum_list (bl_count t)"
    using sum_list_append [of "take (Suc (Suc l)) (bl_count t)" "drop (Suc (Suc l)) (bl_count t)"] by (simp add: shorter_def)
  with counts(3) acc have accm: "(acc + bl_count t ! Suc l) mod 65536 = shorter (bl_count t) (Suc (Suc l))" by simp
  have k: "15 - l = Suc (15 - Suc l)" "16 - Suc (15 - Suc l) = Suc l" using code(5) lt by auto
  have m: "m = L - Suc (Suc l)" using Suc(2) by simp
  obtain d' where d': "decode_loop (15 - Suc l) t (shorter (bl_count t) (Suc (Suc l))) (2 * offs + of_bool ?b - bl_count t ! Suc l) d1 = Some (s, d')"
      "reads d1 rest d'"
    using Suc(1) [of "Suc l" "2 * offs + of_bool ?b - bl_count t ! Suc l" "shorter (bl_count t) (Suc (Suc l))" d1, OF m] lt offs n reads_fields [OF d1(2)] by auto
  have "decode_loop (15 - l) t acc offs d = Some (s, d')"
    unfolding k(1) using d'(1) n accm decode_loop_step(2) [OF d1(1) reads_fields(8) [OF d1(2)] refl small, of t "15 - Suc l" acc]
    unfolding k(2) by simp
  with reads_trans [OF d1(2) d'(2)] show ?case by blast
qed


lemma decode_symbol_code:
  assumes counts: "length (bl_count t) = 16" "bl_count t ! 0 = 0" "sum_list (bl_count t) < 65536"
    and code: "first_code (bl_count t) L \<le> w" "w < first_code (bl_count t) L + bl_count t ! L" "w < 2 ^ L" "0 < L" "L < 16"
    and sym: "shorter (bl_count t) L + (w - first_code (bl_count t) L) < length (sorted_symbols t)"
      "sorted_symbols t ! (shorter (bl_count t) L + (w - first_code (bl_count t) L)) = Some s"
    and d: "stream_ok d" "bits_of d = code_bits L w @ rest"
  shows "\<exists>d'. decode_symbol d t = Some (s, d') \<and> reads d rest d'"
proof -
  have "shorter (bl_count t) 1 = 0" using counts(1,2) by (simp add: shorter_def take_Suc_conv_app_nth)
  then show ?thesis
    using decode_loop_code [OF counts code sym, of 0 0 0 d rest] code(3,4) counts(2) d by (simp add: decode_symbol_def)
qed

section \<open>The trees\<close>

text \<open>How many symbols have each length; unused symbols, of length zero, do not count.\<close>

definition length_counts :: "nat list \<Rightarrow> nat list" where
  "length_counts lengths = map (\<lambda>l. if l = 0 then 0 else count_list lengths l) [0..<16]"

lemma length_counts_simps [simp]:
  "length (length_counts ls) = 16" "length_counts ls ! 0 = 0"
  "l < 16 \<Longrightarrow> l \<noteq> 0 \<Longrightarrow> length_counts ls ! l = count_list ls l"
  by (simp_all add: length_counts_def)

lemma count_lengths_eq:
  assumes "\<forall>l \<in> set ls. l < 16" "length c = 16" "\<forall>l < 16. c ! l + length ls < 65536"
  shows "count_lengths ls c = Some (map (\<lambda>l. c ! l + count_list ls l) [0..<16])"
  using assms
proof (induction ls arbitrary: c)
  case Nil
  then show ?case using map_nth [of c] by simp
next
  case (Cons l ls)
  then have l: "l < 16" and m: "(c ! l + 1) mod 65536 = c ! l + 1" by auto
  have "count_lengths ls (c[l := c ! l + 1]) = Some (map (\<lambda>k. c[l := c ! l + 1] ! k + count_list ls k) [0..<16])"
    using Cons.prems l by (intro Cons.IH) (auto simp: nth_list_update)
  moreover have "map (\<lambda>k. c[l := c ! l + 1] ! k + count_list ls k) [0..<16] = map (\<lambda>k. c ! k + count_list (l # ls) k) [0..<16]"
    using l Cons.prems(2) by (intro map_cong) (auto simp: nth_list_update)
  ultimately show ?case using l m by simp
qed

lemma code_offsets_eq:
  assumes "acc + sum_list c < 65536" "l < length c"
  shows "code_offsets c acc ! l = acc + shorter c l"
  using assms
proof (induction c arbitrary: acc l)
  case (Cons a c)
  then show ?case by (cases l) (auto simp: shorter_def add.assoc)
qed simp

lemma length_code_offsets [simp]: "length (code_offsets c acc) = length c"
  by (induction c arbitrary: acc) auto

lemma sum_length_counts: "\<forall>l \<in> set ls. l < 16 \<Longrightarrow> sum_list (length_counts ls) \<le> length ls"
proof (induction ls)
  case Nil
  then show ?case by (simp add: length_counts_def)
next
  case (Cons a ls)
  have "sum_list (length_counts (a # ls)) \<le> sum_list (map (\<lambda>l. (if l = 0 then 0 else count_list ls l) + (if l = a then 1 else 0)) [0..<16])"
    unfolding length_counts_def by (intro sum_list_mono) auto
  also have "\<dots> = sum_list (length_counts ls) + (\<Sum>l \<leftarrow> [0..<16]. if l = a then 1 else 0)"
    by (simp add: sum_list_addf length_counts_def)
  also have "(\<Sum>l \<leftarrow> [0..<16]. if l = a then 1 else 0 :: nat) \<le> 1"
    by (simp add: interv_sum_list_conv_sum_set_nat)
  finally show ?case using Cons by simp
qed

text \<open>The loop that sorts the symbols, on offsets whose ranges do not overlap.\<close>

lemma place_symbols_eq:
  assumes "\<forall>l \<in> set ls. l < 16" "length offs = 16" "length symbols < 65536" "it + length ls \<le> 65536"
    and "\<And>l. 0 < l \<Longrightarrow> l < 16 \<Longrightarrow> offs ! l + count_list ls l \<le> length symbols"
    and "\<And>l k. 0 < l \<Longrightarrow> l < k \<Longrightarrow> k < 16 \<Longrightarrow> offs ! l + count_list ls l \<le> offs ! k"
  shows "\<exists>symbols'. place_symbols ls it offs symbols = Some symbols' \<and> length symbols' = length symbols \<and>
     (\<forall>i < length ls. ls ! i \<noteq> 0 \<longrightarrow> symbols' ! (offs ! (ls ! i) + count_list (take i ls) (ls ! i)) = Some (it + i)) \<and>
     (\<forall>p. (\<forall>l < 16. 0 < l \<longrightarrow> p < offs ! l \<or> offs ! l + count_list ls l \<le> p) \<longrightarrow> symbols' ! p = symbols ! p)"
  using assms
proof (induction ls arbitrary: it offs symbols)
  case (Cons a ls)
  show ?case
  proof (cases "a = 0")
    case True
    obtain symbols' where IH: "place_symbols ls (it + 1) offs symbols = Some symbols'" "length symbols' = length symbols"
      "\<forall>i < length ls. ls ! i \<noteq> 0 \<longrightarrow> symbols' ! (offs ! (ls ! i) + count_list (take i ls) (ls ! i)) = Some (it + 1 + i)"
      "\<forall>p. (\<forall>l < 16. 0 < l \<longrightarrow> p < offs ! l \<or> offs ! l + count_list ls l \<le> p) \<longrightarrow> symbols' ! p = symbols ! p"
    proof -
      have c: "count_list (a # ls) l = count_list ls l" if "0 < l" for l using True that by simp
      show thesis
        using Cons.IH [of offs symbols "it + 1"] Cons.prems c that by (auto simp del: count_list.simps)
    qed
    have "symbols' ! (offs ! ((a # ls) ! i) + count_list (take i (a # ls)) ((a # ls) ! i)) = Some (it + i)"
      if "i < length (a # ls)" "(a # ls) ! i \<noteq> 0" for i
      using that IH(3) True by (cases i) auto
    with IH True show ?thesis by (intro exI [of _ symbols']) auto
  next
    case False
    then have a: "a < 16" "0 < a" using Cons.prems(1) by auto
    let ?p = "offs ! a" and ?offs = "offs[a := offs ! a + 1]" and ?symbols = "symbols[offs ! a := Some it]"
    have p: "?p < length symbols" using Cons.prems(5) [of a] a by simp
    have step: "place_symbols (a # ls) it offs symbols = place_symbols ls (it + 1) ?offs ?symbols"
      using False p Cons.prems(3,4) by simp
    obtain symbols' where IH: "place_symbols ls (it + 1) ?offs ?symbols = Some symbols'" "length symbols' = length symbols"
      "\<forall>i < length ls. ls ! i \<noteq> 0 \<longrightarrow> symbols' ! (?offs ! (ls ! i) + count_list (take i ls) (ls ! i)) = Some (it + 1 + i)"
      "\<forall>p. (\<forall>l < 16. 0 < l \<longrightarrow> p < ?offs ! l \<or> ?offs ! l + count_list ls l \<le> p) \<longrightarrow> symbols' ! p = ?symbols ! p"
    proof -
      have "?offs ! l + count_list ls l \<le> length ?symbols" if "0 < l" "l < 16" for l
        using Cons.prems(5) [OF that] Cons.prems(2) that a by (auto simp: nth_list_update split: if_splits)
      moreover have "?offs ! l + count_list ls l \<le> ?offs ! k" if "0 < l" "l < k" "k < 16" for l k
        using Cons.prems(6) [OF that] Cons.prems(2) that a by (auto simp: nth_list_update split: if_splits)
      ultimately show thesis
        using Cons.IH [of ?offs ?symbols "it + 1"] Cons.prems(1-4) that by auto
    qed
    have own: "symbols' ! ?p = Some it"
    proof -
      have "?p < ?offs ! l \<or> ?offs ! l + count_list ls l \<le> ?p" if "l < 16" "0 < l" for l
        using Cons.prems(6) [of l a] Cons.prems(6) [of a l] Cons.prems(2) a that
        by (cases l a rule: linorder_cases) (auto simp: nth_list_update split: if_splits)
      then show ?thesis using IH(4) p by auto
    qed
    have "symbols' ! (offs ! ((a # ls) ! i) + count_list (take i (a # ls)) ((a # ls) ! i)) = Some (it + i)"
      if "i < length (a # ls)" "(a # ls) ! i \<noteq> 0" for i
    proof (cases i)
      case (Suc j)
      have "ls ! j < 16" using Cons.prems(1) that Suc by simp
      then show ?thesis using IH(3) Suc that a Cons.prems(2) by (auto simp: nth_list_update split: if_splits)
    qed (use own in simp)
    moreover have "symbols' ! q = symbols ! q"
      if "\<forall>l < 16. 0 < l \<longrightarrow> q < offs ! l \<or> offs ! l + count_list (a # ls) l \<le> q" for q
    proof -
      have "q \<noteq> ?p" using that a by (auto dest: spec [of _ a])
      moreover have "q < ?offs ! l \<or> ?offs ! l + count_list ls l \<le> q" if l: "l < 16" "0 < l" for l
      proof -
        have "q < offs ! l \<or> offs ! l + count_list (a # ls) l \<le> q" using that l
          using \<open>\<forall>l < 16. 0 < l \<longrightarrow> q < offs ! l \<or> offs ! l + count_list (a # ls) l \<le> q\<close> by blast
        then show ?thesis using Cons.prems(2) l by (auto simp: nth_list_update split: if_splits)
      qed
      ultimately show ?thesis using IH(4) by auto
    qed
    ultimately show ?thesis using step IH(1,2) by auto
  qed
qed simp


lemma shorter_mono: "l \<le> k \<Longrightarrow> shorter c l \<le> shorter c k"
proof -
  assume "l \<le> k"
  then have "take k c = take l c @ take (k - l) (drop l c)" by (rule take_drop_split)
  then show ?thesis by (simp add: shorter_def)
qed

lemma shorter_Suc: "l < length c \<Longrightarrow> shorter c (Suc l) = shorter c l + c ! l"
  by (simp add: shorter_def take_Suc_conv_app_nth)

lemma shorter_le_sum: "shorter c l \<le> sum_list c"
  using sum_list_append [of "take l c" "drop l c"] by (simp add: shorter_def)

lemma count_take_less: "s < length ls \<Longrightarrow> count_list (take s ls) (ls ! s) < count_list ls (ls ! s)"
proof -
  assume "s < length ls"
  from arg_cong [OF id_take_nth_drop [OF this], of "\<lambda>x. count_list x (ls ! s)"] show ?thesis by simp
qed

text \<open>A tree stands for the code lengths \<open>ls\<close>.\<close>

definition tree_for :: "nat list \<Rightarrow> huff_tree \<Rightarrow> bool" where
  "tree_for ls t \<longleftrightarrow> bl_count t = length_counts ls \<and> length (sorted_symbols t) = 288 \<and>
     (\<forall>s < length ls. ls ! s \<noteq> 0 \<longrightarrow>
        sorted_symbols t ! (shorter (length_counts ls) (ls ! s) + count_list (take s ls) (ls ! s)) = Some s)"

lemma huffman_tree_for:
  assumes ls: "\<forall>l \<in> set ls. l < 16" "length ls \<le> 288" and t: "length (sorted_symbols t) = 288"
  shows "\<exists>t'. huffman_tree t ls = Some t' \<and> tree_for ls t'"
proof -
  let ?c = "length_counts ls"
  let ?offs = "code_offsets ?c 0"
  have "count_lengths ls (replicate 16 0) = Some (map (\<lambda>l. replicate 16 0 ! l + count_list ls l) [0..<16])"
    using ls by (intro count_lengths_eq) auto
  moreover have "(map (\<lambda>l. replicate 16 0 ! l + count_list ls l) [0..<16])[0 := 0] = ?c"
    by (rule nth_equalityI) (auto simp: length_counts_def nth_list_update)
  ultimately have counts: "\<exists>c. count_lengths ls (replicate 16 0) = Some c \<and> c[0 := 0] = ?c" by auto
  have sum: "sum_list ?c \<le> 288" using sum_length_counts [OF ls(1)] ls(2) by simp
  have offs: "?offs ! l = shorter ?c l" if "l < 16" for l
    using code_offsets_eq [of 0 ?c l] that sum by simp
  have next_l: "shorter ?c l + count_list ls l = shorter ?c (Suc l)" if "0 < l" "l < 16" for l
    using that shorter_Suc [of l ?c] by simp
  have "\<exists>symbols'. place_symbols ls 0 ?offs (sorted_symbols t) = Some symbols' \<and> length symbols' = length (sorted_symbols t) \<and>
     (\<forall>i < length ls. ls ! i \<noteq> 0 \<longrightarrow> symbols' ! (?offs ! (ls ! i) + count_list (take i ls) (ls ! i)) = Some (0 + i)) \<and>
     (\<forall>p. (\<forall>l < 16. 0 < l \<longrightarrow> p < ?offs ! l \<or> ?offs ! l + count_list ls l \<le> p) \<longrightarrow> symbols' ! p = sorted_symbols t ! p)"
  proof (rule place_symbols_eq [OF ls(1)])
    show "?offs ! l + count_list ls l \<le> length (sorted_symbols t)" if "0 < l" "l < 16" for l
      using that offs next_l shorter_le_sum [of ?c "Suc l"] sum t by simp
    show "?offs ! l + count_list ls l \<le> ?offs ! k" if "0 < l" "l < k" "k < 16" for l k
      using that offs next_l shorter_mono [of "Suc l" k ?c] by simp
  qed (use ls t in simp_all)
  then obtain symbols' where s: "place_symbols ls 0 ?offs (sorted_symbols t) = Some symbols'" "length symbols' = 288"
    "\<forall>i < length ls. ls ! i \<noteq> 0 \<longrightarrow> symbols' ! (?offs ! (ls ! i) + count_list (take i ls) (ls ! i)) = Some i"
    using t by auto
  have "tree_for ls \<lparr>bl_count = ?c, sorted_symbols = symbols'\<rparr>"
    using s(2,3) offs ls(1) by (auto simp: tree_for_def)
  moreover have "huffman_tree t ls = Some \<lparr>bl_count = ?c, sorted_symbols = symbols'\<rparr>"
    using counts s(1) by (auto simp: huffman_tree_def)
  ultimately show ?thesis by blast
qed

text \<open>The canonical code of a symbol, and lengths for which every code fits its length.\<close>

definition huff_code :: "nat list \<Rightarrow> nat \<Rightarrow> bool list" where
  "huff_code ls s = code_bits (ls ! s) (first_code (length_counts ls) (ls ! s) + count_list (take s ls) (ls ! s))"

definition code_fits :: "nat list \<Rightarrow> bool" where
  "code_fits ls \<longleftrightarrow> (\<forall>l \<in> {0<..<16}. first_code (length_counts ls) l + length_counts ls ! l \<le> 2 ^ l)"

lemma decode_symbol_for:
  assumes t: "tree_for ls t" and ls: "\<forall>l \<in> set ls. l < 16" "length ls \<le> 288" "code_fits ls"
    and s: "s < length ls" "ls ! s \<noteq> 0" and d: "stream_ok d" "bits_of d = huff_code ls s @ rest"
  shows "\<exists>d'. decode_symbol d t = Some (s, d') \<and> reads d rest d'"
proof -
  let ?c = "length_counts ls" and ?l = "ls ! s" and ?r = "count_list (take s ls) (ls ! s)"
  have l: "0 < ?l" "?l < 16" using ls(1) s by auto
  have r: "?r < ?c ! ?l" using count_take_less [OF s(1)] l by simp
  have sum: "sum_list ?c \<le> 288" using sum_length_counts [OF ls(1)] ls(2) by simp
  have pos: "shorter ?c ?l + ?r < 288"
    using r shorter_Suc [of ?l ?c] shorter_le_sum [of ?c "Suc ?l"] sum l by simp
  have fit: "first_code ?c ?l + ?r < 2 ^ ?l"
    using ls(3) r l unfolding code_fits_def by (metis greaterThanLessThan_iff add_strict_left_mono less_le_trans)
  show ?thesis
    using decode_symbol_code [of t ?l "first_code ?c ?l + ?r" s d rest] t s d l r sum pos fit
    unfolding tree_for_def huff_code_def by simp
qed

section \<open>The fixed code\<close>

text \<open>The code lengths of RFC 1951, 3.2.6.\<close>

definition fixed_lengths :: "nat list" where
  "fixed_lengths = replicate 144 8 @ replicate 112 9 @ replicate 24 7 @ replicate 8 8"

definition fixed_dist_lengths :: "nat list" where
  "fixed_dist_lengths = replicate 32 5"

lemma fixed_counts:
  "length_counts fixed_lengths = (replicate 16 0)[7 := 24, 8 := 152, 9 := 112]"
  "length_counts fixed_dist_lengths = (replicate 16 0)[5 := 32]"
  by code_simp+

lemma first_code_numeral [simp]:
  "first_code c (numeral k) = 2 * (first_code c (pred_numeral k) + c ! pred_numeral k)"
  by (simp add: numeral_eq_Suc)

lemma code_fits_fixed: "code_fits fixed_lengths" "code_fits fixed_dist_lengths"
proof -
  have "[1..<16] = [1, 2, 3, 4, 5, 6, 7, 8, 9, 10, 11, 12, 13, 14, 15::nat]" by code_simp
  then have set: "{0<..<16} = set [1, 2, 3, 4, 5, 6, 7, 8, 9, 10, 11, 12, 13, 14, 15::nat]"
    by (metis atLeastLessThan_upt atLeastSucLessThan_greaterThanLessThan One_nat_def)
  show "code_fits fixed_lengths" "code_fits fixed_dist_lengths"
    unfolding code_fits_def set fixed_counts by simp_all
qed

end
