(* ===== verification/DeflateBlock.thy ===== *)
theory DeflateBlock
  imports DeflateProps
begin

text \<open>
  The meaning of a block of \<open>efi-boot/deflate.c\<close>: a list of literals and copies, the bits that encode
  it, and the proof that the decoder turns the second into the first.  Then the properties of the
  decompressor and of its checksum.
\<close>

section \<open>Literals and copies\<close>

text \<open>A copy has a length symbol and a distance symbol, each with the value of its extra bits.\<close>

datatype lz_token = Literal u8 | Copy nat nat nat nat

definition copy_length :: "nat \<Rightarrow> nat \<Rightarrow> nat" where
  "copy_length l le = unat (length_base ! (l - 257)) + le"

definition copy_offset :: "nat \<Rightarrow> nat \<Rightarrow> nat" where
  "copy_offset s de = unat (dist_base ! s) + de"

fun lz_copy :: "bytes \<Rightarrow> nat \<Rightarrow> nat \<Rightarrow> bytes option" where
  "lz_copy xs off 0 = Some xs"
| "lz_copy xs off (Suc n) = (if off \<le> length xs \<and> 0 < off then lz_copy (xs @ [xs ! (length xs - off)]) off n else None)"

fun run_token :: "lz_token \<Rightarrow> bytes \<Rightarrow> bytes option" where
  "run_token (Literal b) xs = Some (xs @ [b])"
| "run_token (Copy l le s de) xs = lz_copy xs (copy_offset s de) (copy_length l le)"

fun run_tokens :: "lz_token list \<Rightarrow> bytes \<Rightarrow> bytes option" where
  "run_tokens [] xs = Some xs"
| "run_tokens (t # ts) xs = Option.bind (run_token t xs) (run_tokens ts)"

section \<open>Their encoding\<close>

definition low_bits :: "nat \<Rightarrow> nat \<Rightarrow> bool list" where
  "low_bits n v = map (bit v) [0..<n]"

definition coded :: "nat list \<Rightarrow> nat \<Rightarrow> bool" where
  "coded ls s \<longleftrightarrow> s < length ls \<and> ls ! s \<noteq> 0"

text \<open>A token that can be written with the code lengths \<open>ls\<close> and \<open>ds\<close>.\<close>

fun token_ok :: "nat list \<Rightarrow> nat list \<Rightarrow> lz_token \<Rightarrow> bool" where
  "token_ok ls ds (Literal b) \<longleftrightarrow> coded ls (unat b)"
| "token_ok ls ds (Copy l le s de) \<longleftrightarrow> 257 \<le> l \<and> l \<le> 285 \<and> coded ls l \<and> le < 2 ^ (length_bits ! (l - 257)) \<and>
     s < 30 \<and> coded ds s \<and> de < 2 ^ (dist_bits ! s)"

fun token_bits :: "nat list \<Rightarrow> nat list \<Rightarrow> lz_token \<Rightarrow> bool list" where
  "token_bits ls ds (Literal b) = huff_code ls (unat b)"
| "token_bits ls ds (Copy l le s de) =
     huff_code ls l @ low_bits (length_bits ! (l - 257)) le @ huff_code ds s @ low_bits (dist_bits ! s) de"

definition tokens_bits :: "nat list \<Rightarrow> nat list \<Rightarrow> lz_token list \<Rightarrow> bool list" where
  "tokens_bits ls ds ts = concat (map (token_bits ls ds) ts) @ huff_code ls 256"

section \<open>Reading extra bits\<close>

lemma get_extra_bits_stream:
  assumes d: "stream_ok d" "bits_of d = low_bits n v @ rest" and n: "n \<le> 16" "v < 2 ^ n" and b: "unat base + v < 2 ^ 32"
  shows "\<exists>e d'. get_extra_bits d n base = Some (e, d') \<and> unat e = unat base + v \<and> reads d rest d'"
proof (cases "n = 0")
  case True
  then have "reads d rest d" "v = 0" using d n(2) by (simp_all add: reads_def moved_def low_bits_def)
  with True show ?thesis by (simp add: get_extra_bits_def)
next
  case False
  obtain d' where d': "get_bits d n = Some (horner_sum of_bool 2 (low_bits n v), d')" "reads d rest d'"
    using get_bits_stream [OF d _ n(1)] by (auto simp: low_bits_def)
  have "horner_sum of_bool 2 (low_bits n v) = v"
    using n(2) by (simp add: low_bits_def horner_sum_bit_eq_take_bit take_bit_nat_eq_self)
  moreover have "unat (horner_sum of_bool 2 (low_bits n v) :: u32) = horner_sum of_bool 2 (low_bits n v)"
    using n(1) by (intro unat_horner) (simp add: low_bits_def)
  ultimately have "unat (horner_sum of_bool 2 (low_bits n v) :: u32) = v" by simp
  then show ?thesis
    using d' False b by (simp add: get_extra_bits_def unat_add_nowrap)
qed

section \<open>Copying\<close>

text \<open>The output \<open>xs\<close> fills the memory \<open>mem\<close> from its start.\<close>

definition filled :: "bytes \<Rightarrow> bytes \<Rightarrow> deflate \<Rightarrow> bool" where
  "filled mem xs d \<longleftrightarrow> length xs \<le> length mem \<and> out d = xs @ drop (length xs) mem \<and> dest d = length xs"

lemma lz_copy_length: "lz_copy xs off n = Some ys \<Longrightarrow> length ys = length xs + n"
  by (induction xs off n rule: lz_copy.induct) (auto split: if_splits)

lemma fill_next:
  assumes "length xs < length mem"
  shows "(xs @ drop (length xs) mem)[length xs := b] = (xs @ [b]) @ drop (length (xs @ [b])) mem"
  using assms by (simp add: list_update_append flip: Cons_nth_drop_Suc)

lemma copy_back_eq:
  assumes "lz_copy xs off n = Some ys" "length ys \<le> length mem"
  shows "copy_back (xs @ drop (length xs) mem) (length xs) off n = Some (ys @ drop (length ys) mem)"
  using assms
proof (induction xs off n rule: lz_copy.induct)
  case (2 xs off n)
  then have off: "off \<le> length xs" "0 < off" and rec: "lz_copy (xs @ [xs ! (length xs - off)]) off n = Some ys"
    by (auto split: if_splits)
  have len: "length xs < length mem" using lz_copy_length [OF rec] 2(3) by simp
  have "(xs @ drop (length xs) mem) ! (length xs - off) = xs ! (length xs - off)"
    using off by (subst nth_append) auto
  then show ?case using 2(1) off rec 2(3) len fill_next [OF len] by (simp del: append_assoc)
qed simp

lemma run_token_grows: "run_token tok xs = Some ys \<Longrightarrow> length xs \<le> length ys"
  by (cases tok) (auto dest: lz_copy_length)

lemma run_tokens_grows: "run_tokens ts xs = Some ys \<Longrightarrow> length xs \<le> length ys"
  by (induction ts arbitrary: xs) (auto simp: bind_eq_Some_conv dest!: run_token_grows, fastforce)

lemma length_table: "i < 29 \<Longrightarrow> length_bits ! i \<le> 5 \<and> unat (length_base ! i) \<le> 258"
proof -
  have "\<forall>i \<in> set [0..<29]. length_bits ! i \<le> 5 \<and> unat (length_base ! i) \<le> 258" by code_simp
  then show "i < 29 \<Longrightarrow> length_bits ! i \<le> 5 \<and> unat (length_base ! i) \<le> 258" by simp
qed

lemma dist_table: "i < 30 \<Longrightarrow> dist_bits ! i \<le> 13 \<and> unat (dist_base ! i) \<le> 24577"
proof -
  have "\<forall>i \<in> set [0..<30]. dist_bits ! i \<le> 13 \<and> dist_base ! i \<le> 24577" by code_simp
  then show "i < 30 \<Longrightarrow> dist_bits ! i \<le> 13 \<and> unat (dist_base ! i) \<le> 24577" by (simp add: word_le_nat_alt)
qed

lemma fill_bits_127:
  assumes "stream_ok d" "48 \<le> bits_left d"
  shows "fill_bits 127 d = None"
proof -
  have gen: "fill_bits 127 d = None" if "5 * 8 \<le> nr_bits d + 8 * k" "nr_bits d < 40" "k < length (src d) - in_ptr d" "derror d = ERR_NONE"
    for k d
    using that
  proof (induction k arbitrary: d)
    case 0
    then show ?case by (subst fill_bits.simps) auto
  next
    case (Suc k)
    let ?d = "d\<lparr>bit_accum := bit_accum d OR push_bit (nr_bits d) (ucast (src d ! in_ptr d)),
       in_ptr := in_ptr d + 1, nr_bits := nr_bits d + 8\<rparr>"
    show ?case
    proof (cases "32 \<le> nr_bits d")
      case True
      then show ?thesis using Suc.prems by (subst fill_bits.simps) auto
    next
      case False
      have "fill_bits 127 ?d = None" using Suc.prems False by (intro Suc.IH) auto
      then show ?thesis using Suc.prems False by (subst fill_bits.simps) auto
    qed
  qed
  show ?thesis using assms by (intro gen [of d 5]) (auto simp: stream_ok_def accum_ok_def bits_left_def)
qed

section \<open>Blocks\<close>

locale block_codes =
  fixes ls ds :: "nat list"
  assumes ls: "\<forall>l \<in> set ls. l < 16" "length ls \<le> 288" "code_fits ls"
    and ds: "\<forall>l \<in> set ds. l < 16" "length ds \<le> 288" "code_fits ds"
    and eob: "coded ls 256"
begin

lemma decode_ll:
  "tree_for ls (ll d) \<Longrightarrow> coded ls s \<Longrightarrow> stream_ok d \<Longrightarrow> bits_of d = huff_code ls s @ rest \<Longrightarrow>
     \<exists>d'. decode_symbol d (ll d) = Some (s, d') \<and> reads d rest d'"
  using decode_symbol_for [of ls "ll d" s d rest] ls by (simp add: coded_def)

lemma decode_dist:
  "tree_for ds (distance d) \<Longrightarrow> coded ds s \<Longrightarrow> stream_ok d \<Longrightarrow> bits_of d = huff_code ds s @ rest \<Longrightarrow>
     \<exists>d'. decode_symbol d (distance d) = Some (s, d') \<and> reads d rest d'"
  using decode_symbol_for [of ds "distance d" s d rest] ds by (simp add: coded_def)

definition ready_block :: "deflate \<Rightarrow> bool" where
  "ready_block d \<longleftrightarrow> stream_ok d \<and> tree_for ls (ll d) \<and> tree_for ds (distance d)"

lemma literal_token_step:
  assumes "ready_block d" "filled mem xs d" "length xs < length mem" "coded ls (unat b)" "bits_of d = huff_code ls (unat b) @ rest"
  shows "\<exists>d'. deflate_block_loop t d = deflate_block_loop t d' \<and> ready_block d' \<and> filled mem (xs @ [b]) d' \<and>
     bits_of d' = rest \<and> dest_size d' = dest_size d"
proof -
  obtain d1 where d1: "decode_symbol d (ll d) = Some (unat b, d1)" "reads d rest d1"
    using decode_ll [of d "unat b" rest] assms by (auto simp: ready_block_def)
  note f = reads_fields [OF d1(2)]
  have b: "unat b < 256" using unsigned_less [of b] by simp
  let ?d = "d1\<lparr>out := (xs @ [b]) @ drop (length (xs @ [b])) mem, dest := length xs + 1\<rparr>"
  have "put_literal (unat b) d1 = Some ?d"
    using assms(2,3) f fill_next [OF assms(3), of b] by (simp add: put_literal_def filled_def)
  then have "deflate_block_loop t d = deflate_block_loop t ?d"
    using d1(1) f b by (subst deflate_block_loop.simps) simp
  moreover have "ready_block ?d" "filled mem (xs @ [b]) ?d" "bits_of ?d = rest" "dest_size ?d = dest_size d"
    using assms(1,2,3) f by (auto simp: ready_block_def filled_def stream_ok_def accum_ok_def bits_of_def)
  ultimately show ?thesis by blast
qed

lemma copy_token_step:
  assumes d: "ready_block d" "filled mem xs d" and tok: "token_ok ls ds (Copy l le s de)"
    and run: "run_token (Copy l le s de) xs = Some ys" "length ys \<le> length mem"
    and bits: "bits_of d = token_bits ls ds (Copy l le s de) @ rest"
  shows "\<exists>d'. deflate_block_loop t d = deflate_block_loop t d' \<and> ready_block d' \<and> filled mem ys d' \<and>
     bits_of d' = rest \<and> dest_size d' = dest_size d"
proof -
  have l: "257 \<le> l" "l \<le> 285" "l - 257 < 29" "coded ls l" "le < 2 ^ (length_bits ! (l - 257))"
    and s: "s < 30" "coded ds s" "de < 2 ^ (dist_bits ! s)" using tok by auto
  note lt = length_table [OF l(3)] and dt = dist_table [OF s(1)]
  let ?r3 = "low_bits (dist_bits ! s) de @ rest"
  let ?r2 = "huff_code ds s @ ?r3"
  let ?r1 = "low_bits (length_bits ! (l - 257)) le @ ?r2"
  obtain d1 where d1: "decode_symbol d (ll d) = Some (l, d1)" "reads d ?r1 d1"
    using decode_ll [of d l ?r1] d(1) l(4) bits by (auto simp: ready_block_def)
  note f1 = reads_fields [OF d1(2)]
  have pow: "(2::nat) ^ (length_bits ! (l - 257)) \<le> 2 ^ 5" "(2::nat) ^ (dist_bits ! s) \<le> 2 ^ 13"
    using lt dt by (intro power_increasing; simp)+
  obtain len d2 where d2: "get_extra_bits d1 (length_bits ! (l - 257)) (length_base ! (l - 257)) = Some (len, d2)"
      "unat len = copy_length l le" "reads d1 ?r2 d2"
    using get_extra_bits_stream [OF f1(1,2) _ l(5)] lt l(5) pow unfolding copy_length_def by force
  note f2 = reads_fields [OF d2(3)]
  obtain d3 where d3: "decode_symbol d2 (distance d2) = Some (s, d3)" "reads d2 ?r3 d3"
    using decode_dist [of d2 s ?r3] d(1) s(2) f1 f2 by (auto simp: ready_block_def)
  note f3 = reads_fields [OF d3(2)]
  have d3': "decode_symbol d2 (distance d) = Some (s, d3)" using d3(1) f1(7) f2(7) by simp
  obtain off d4 where d4: "get_extra_bits d3 (dist_bits ! s) (dist_base ! s) = Some (off, d4)"
      "unat off = copy_offset s de" "reads d3 rest d4"
    using get_extra_bits_stream [OF f3(1,2) _ s(3)] dt s(3) pow unfolding copy_offset_def by force
  note f4 = reads_fields [OF d4(3)]
  have copy: "lz_copy xs (copy_offset s de) (copy_length l le) = Some ys" using run(1) by simp
  have len_ys: "length ys = length xs + copy_length l le" by (rule lz_copy_length [OF copy])
  let ?d = "d4\<lparr>out := ys @ drop (length ys) mem, dest := length ys\<rparr>"
  have tabs: "table_at length_bits (l - 257) = Some (length_bits ! (l - 257))"
      "table_at length_base (l - 257) = Some (length_base ! (l - 257))"
      "table_at dist_bits s = Some (dist_bits ! s)" "table_at dist_base s = Some (dist_base ! s)"
    using l(3) s(1) by (simp_all add: table_at_def length_bits_def length_base_def dist_bits_def dist_base_def)
  have "length_distance l d1 = Some ?d"
    using d(2) f1 f2 f3 f4 copy_back_eq [OF copy run(2)] len_ys
    by (simp add: length_distance_def tabs d2(1,2) d3' d4(1,2) filled_def)
  then have "deflate_block_loop t d = deflate_block_loop t ?d"
    using d1(1) f1 f4 l(1) by (subst deflate_block_loop.simps) simp
  moreover have "ready_block ?d" "filled mem ys ?d" "bits_of ?d = rest" "dest_size ?d = dest_size d"
    using d(1) f1 f2 f3 f4 run(2) by (auto simp: ready_block_def filled_def stream_ok_def accum_ok_def bits_of_def)
  ultimately show ?thesis by blast
qed

text \<open>A list of tokens, and the whole block.\<close>

lemma tokens_step:
  assumes "ready_block d" "filled mem xs d" "\<forall>tok \<in> set ts. token_ok ls ds tok"
    and "run_tokens ts xs = Some ys" "length ys \<le> length mem" "bits_of d = concat (map (token_bits ls ds) ts) @ rest"
  shows "\<exists>d'. deflate_block_loop t d = deflate_block_loop t d' \<and> ready_block d' \<and> filled mem ys d' \<and> bits_of d' = rest \<and>
     dest_size d' = dest_size d"
  using assms
proof (induction ts arbitrary: d xs)
  case Nil
  then show ?case by auto
next
  case (Cons tok ts)
  let ?rest = "concat (map (token_bits ls ds) ts) @ rest"
  obtain zs where zs: "run_token tok xs = Some zs" "run_tokens ts zs = Some ys"
    using Cons.prems(4) by (auto simp: bind_eq_Some_conv)
  have "length zs \<le> length ys" by (rule run_tokens_grows [OF zs(2)])
  then have len: "length zs \<le> length mem" using Cons.prems(5) by simp
  have bits: "bits_of d = token_bits ls ds tok @ ?rest" using Cons.prems(6) by simp
  have ok: "token_ok ls ds tok" using Cons.prems(3) by simp
  have "\<exists>d'. deflate_block_loop t d = deflate_block_loop t d' \<and> ready_block d' \<and> filled mem zs d' \<and>
     bits_of d' = ?rest \<and> dest_size d' = dest_size d"
  proof (cases tok)
    case (Literal b)
    then show ?thesis using literal_token_step [of d mem xs b ?rest t] Cons.prems(1,2) bits ok zs(1) len by auto
  next
    case (Copy l le s de)
    then show ?thesis using copy_token_step [of d mem xs l le s de zs ?rest t] Cons.prems(1,2) bits ok zs(1) len by simp
  qed
  then obtain d1 where d1: "deflate_block_loop t d = deflate_block_loop t d1" "ready_block d1" "filled mem zs d1"
      "bits_of d1 = ?rest" "dest_size d1 = dest_size d" by blast
  show ?case using Cons.IH [OF d1(2,3) _ zs(2) Cons.prems(5) d1(4)] Cons.prems(3) d1(1,5) by simp
qed

lemma block_loop_eq:
  assumes "ready_block d" "filled mem xs d" "\<forall>tok \<in> set ts. token_ok ls ds tok"
    and "run_tokens ts xs = Some ys" "length ys \<le> length mem" "bits_of d = tokens_bits ls ds ts @ rest"
  shows "\<exists>d'. deflate_block_loop t d = Some d' \<and> ready_block d' \<and> filled mem ys d' \<and> bits_of d' = rest \<and>
     dest_size d' = dest_size d + (length ys - t)"
proof -
  obtain d0 where d0: "deflate_block_loop t d = deflate_block_loop t d0" "ready_block d0" "filled mem ys d0"
      "bits_of d0 = huff_code ls 256 @ rest" "dest_size d0 = dest_size d"
    using tokens_step [OF assms(1-5), of "huff_code ls 256 @ rest" t] assms(6) by (auto simp: tokens_bits_def)
  obtain d1 where d1: "decode_symbol d0 (ll d0) = Some (256, d1)" "reads d0 rest d1"
    using decode_ll [of d0 256 rest] d0 eob by (auto simp: ready_block_def)
  note f = reads_fields [OF d1(2)]
  have "deflate_block_loop t d0 = Some (d1\<lparr>dest_size := dest_size d1 + (dest d1 - t)\<rparr>)"
    using d1(1) f by (subst deflate_block_loop.simps) simp
  then show ?thesis using d0 f by (auto simp: ready_block_def filled_def stream_ok_def accum_ok_def bits_of_def)
qed

text \<open>The symbols that stand for nothing.\<close>

lemma reserved_length:
  assumes d: "ready_block d" "coded ls s" "bits_of d = huff_code ls s @ rest" and s: "s = 286 \<and> 48 \<le> length rest \<or> s = 287"
  shows "deflate_block_loop t d = None"
proof -
  obtain d1 where d1: "decode_symbol d (ll d) = Some (s, d1)" "reads d rest d1"
    using decode_ll [of d s rest] d by (auto simp: ready_block_def)
  note f = reads_fields [OF d1(2)]
  have "length_distance s d1 = None"
  proof (cases "s = 286")
    case True
    have "fill_bits 127 d1 = None" using fill_bits_127 [OF f(1)] f(2) s True by (simp flip: length_bits_of)
    then show ?thesis using True f(8)
      by (simp add: length_distance_def table_at_def length_bits_def length_base_def get_extra_bits_def get_bits_def)
  next
    case False
    with s show ?thesis by (simp add: length_distance_def table_at_def length_bits_def)
  qed
  then show ?thesis using d1(1) f s by (subst deflate_block_loop.simps) auto
qed

end

section \<open>Streams of fixed blocks\<close>

lemma count_list_replicate [simp]: "count_list (replicate n x) y = (if x = y then n else 0)"
  by (induction n) auto

lemma shorter_fixed:
  "shorter ((replicate 16 0)[7 := 24, 8 := 152, 9 := 112]) 7 = 0"
  "shorter ((replicate 16 0)[7 := 24, 8 := 152, 9 := 112]) 8 = 24"
  "shorter ((replicate 16 0)[7 := 24, 8 := 152, 9 := 112]) 9 = 176"
  "shorter ((replicate 16 0)[5 := 32]) 5 = 0"
  by code_simp+

lemma fixed_symbol_cases:
  assumes "(s::nat) < 288"
  obtains "s < 144" | i where "s = 144 + i" "i < 112" | i where "s = 256 + i" "i < 24" | i where "s = 280 + i" "i < 8"
proof -
  have "s < 144 \<or> s = 144 + (s - 144) \<and> s - 144 < 112 \<or> s = 256 + (s - 256) \<and> s - 256 < 24 \<or>
      s = 280 + (s - 280) \<and> s - 280 < 8" using assms by linarith
  then show thesis using that by blast
qed

text \<open>The codes in the table of RFC 1951, 3.2.6.\<close>

lemma huff_code_fixed:
  "s < 288 \<Longrightarrow> huff_code fixed_lengths s =
     (if s < 144 then code_bits 8 (48 + s) else if s < 256 then code_bits 9 (400 + (s - 144))
      else if s < 280 then code_bits 7 (s - 256) else code_bits 8 (192 + (s - 280)))"
  "s < 32 \<Longrightarrow> huff_code fixed_dist_lengths s = code_bits 5 s"
proof -
  assume "s < 288"
  then show "huff_code fixed_lengths s =
     (if s < 144 then code_bits 8 (48 + s) else if s < 256 then code_bits 9 (400 + (s - 144))
      else if s < 280 then code_bits 7 (s - 256) else code_bits 8 (192 + (s - 280)))"
    unfolding huff_code_def fixed_counts
    by (cases rule: fixed_symbol_cases) (simp_all add: fixed_lengths_def nth_append)
next
  assume "s < 32"
  then show "huff_code fixed_dist_lengths s = code_bits 5 s"
    unfolding huff_code_def fixed_counts by (simp add: fixed_dist_lengths_def)
qed

lemma tree_for_fixed:
  assumes "length (sorted_symbols (distance d)) = 288"
  shows "tree_for fixed_lengths (ll (huffman_fixed_tree d))" "tree_for fixed_dist_lengths (distance (huffman_fixed_tree d))"
proof -
  let ?sorted = "map Some ([256..<280] @ [0..<144] @ [280..<288] @ [144..<256])"
  have sorted: "i < 24 \<Longrightarrow> ?sorted ! i = Some (256 + i)" "i < 144 \<Longrightarrow> ?sorted ! (24 + i) = Some i"
    "i < 8 \<Longrightarrow> ?sorted ! (168 + i) = Some (280 + i)" "i < 112 \<Longrightarrow> ?sorted ! (176 + i) = Some (144 + i)" for i
    by (simp_all add: nth_append del: upt_rec_numeral)
  have "?sorted ! (shorter (length_counts fixed_lengths) (fixed_lengths ! s) + count_list (take s fixed_lengths) (fixed_lengths ! s)) = Some s"
    if s: "s < 288" for s
  proof -
    from s show ?thesis
      unfolding fixed_counts
      by (cases rule: fixed_symbol_cases) (simp_all add: fixed_lengths_def nth_append shorter_fixed sorted del: upt_rec_numeral map_append)
  qed
  moreover have fixed_length: "length fixed_lengths = 288" by (simp add: fixed_lengths_def)
  ultimately show "tree_for fixed_lengths (ll (huffman_fixed_tree d))"
    using fixed_counts(1) fixed_length
    by (simp add: tree_for_def huffman_fixed_tree_def del: upt_rec_numeral map_append)
  show "tree_for fixed_dist_lengths (distance (huffman_fixed_tree d))"
    using assms fixed_counts(2) [unfolded fixed_dist_lengths_def] shorter_fixed(4)
    by (auto simp: tree_for_def huffman_fixed_tree_def fixed_dist_lengths_def nth_append simp del: upt_rec_numeral)
qed

interpretation fixed: block_codes fixed_lengths fixed_dist_lengths
  by unfold_locales (auto simp: fixed_lengths_def fixed_dist_lengths_def coded_def nth_append
      code_fits_fixed [unfolded fixed_lengths_def fixed_dist_lengths_def])

text \<open>A block: whether it is the last one, its type with the low bit first, its contents.\<close>

fun fixed_stream :: "lz_token list list \<Rightarrow> bool list" where
  "fixed_stream [] = []"
| "fixed_stream (ts # bs) =
     (bs = []) # True # False # tokens_bits fixed_lengths fixed_dist_lengths ts @ fixed_stream bs"

lemma run_tokens_append: "run_tokens (ts @ us) xs = Option.bind (run_tokens ts xs) (run_tokens us)"
  by (induction ts arbitrary: xs) (simp_all split: bind_split)

lemma huffman_fixed_tree_fields:
  "bits_of (huffman_fixed_tree d) = bits_of d" "stream_ok (huffman_fixed_tree d) = stream_ok d"
  "filled mem xs (huffman_fixed_tree d) = filled mem xs d" "dest_size (huffman_fixed_tree d) = dest_size d"
  "dest (huffman_fixed_tree d) = dest d"
  by (simp_all add: huffman_fixed_tree_def bits_of_def stream_ok_def accum_ok_def filled_def)

lemma loop_header:
  assumes "stream_ok d" "bits_of d = final # True # False # rest"
  shows "\<exists>d2. deflate_loop d = do { d3 \<leftarrow> deflate_contents 1 d2;
      if (of_bool final :: u32) = 0 \<and> derror d3 = ERR_NONE then deflate_loop d3 else Some d3 } \<and> reads d rest d2"
proof -
  obtain d1 where d1: "get_bits d 1 = Some (of_bool final, d1)" "reads d (True # False # rest) d1"
    using get_bit_stream [OF assms] by blast
  note f1 = reads_fields [OF d1(2)]
  obtain d2 where d2: "get_bits d1 2 = Some (1, d2)" "reads d1 rest d2"
    using get_bits_stream [of d1 "[True, False]" rest 2] f1 by auto
  have "deflate_loop d = do { d3 \<leftarrow> deflate_contents 1 d2;
      if (of_bool final :: u32) = 0 \<and> derror d3 = ERR_NONE then deflate_loop d3 else Some d3 }"
    using d1(1) d2(1) reads_fields(8) [OF d2(2)] by (subst deflate_loop.simps) simp
  with reads_trans [OF d1(2) d2(2)] show ?thesis by blast
qed

lemma deflate_loop_fixed:
  assumes "stream_ok d" "bits_of d = fixed_stream bs @ rest" "bs \<noteq> []" "filled mem xs d" "dest_size d = length xs"
    and "length (sorted_symbols (distance d)) = 288"
    and "\<forall>ts \<in> set bs. \<forall>tok \<in> set ts. token_ok fixed_lengths fixed_dist_lengths tok"
    and "run_tokens (concat bs) xs = Some ys" "length ys \<le> length mem"
  shows "\<exists>d'. deflate_loop d = Some d' \<and> derror d' = ERR_NONE \<and> out d' = ys @ drop (length ys) mem \<and> dest_size d' = length ys"
  using assms
proof (induction bs arbitrary: d xs)
  case (Cons ts bs)
  let ?rest = "tokens_bits fixed_lengths fixed_dist_lengths ts @ fixed_stream bs @ rest"
  obtain d2 where d2: "deflate_loop d = do { d3 \<leftarrow> deflate_contents 1 d2;
      if (of_bool (bs = []) :: u32) = 0 \<and> derror d3 = ERR_NONE then deflate_loop d3 else Some d3 }" "reads d ?rest d2"
    using loop_header [of d "bs = []" ?rest] Cons.prems(1,2) by auto
  note f2 = reads_fields [OF d2(2)]
  obtain zs where zs: "run_tokens ts xs = Some zs" "run_tokens (concat bs) zs = Some ys"
    using Cons.prems(8) by (auto simp: run_tokens_append bind_eq_Some_conv)
  have "length zs \<le> length mem" using run_tokens_grows [OF zs(2)] Cons.prems(9) by simp
  moreover have "fixed.ready_block (huffman_fixed_tree d2)"
    using tree_for_fixed [of d2] Cons.prems(6) f2 by (simp add: fixed.ready_block_def huffman_fixed_tree_fields)
  moreover have "filled mem xs (huffman_fixed_tree d2)" "dest d2 = length xs"
    unfolding huffman_fixed_tree_fields using Cons.prems(4) f2 by (simp_all add: filled_def)
  ultimately obtain d3 where d3: "deflate_block (huffman_fixed_tree d2) = Some d3" "fixed.ready_block d3" "filled mem zs d3"
      "bits_of d3 = fixed_stream bs @ rest" "dest_size d3 = length zs"
    using fixed.block_loop_eq [of "huffman_fixed_tree d2" mem xs ts zs "fixed_stream bs @ rest" "length xs"]
      Cons.prems(5,7) zs(1) f2 run_tokens_grows [OF zs(1)]
    by (auto simp: huffman_fixed_tree_fields(1,2,4,5) deflate_block_def)
  have ok3: "stream_ok d3" "derror d3 = ERR_NONE" "length (sorted_symbols (distance d3)) = 288"
    using d3(2) by (auto simp: fixed.ready_block_def tree_for_def stream_ok_def accum_ok_def)
  have step: "deflate_loop d = (if bs = [] then Some d3 else deflate_loop d3)"
    using d2(1) d3(1) ok3(2) by (simp add: deflate_contents_def)
  show ?case
  proof (cases "bs = []")
    case True
    with step zs d3 ok3 show ?thesis by (auto simp: filled_def)
  next
    case False
    with Cons.IH [OF ok3(1) d3(4) False d3(3,5) ok3(3) _ zs(2) Cons.prems(9)] Cons.prems(7) step show ?thesis by simp
  qed
qed simp

lemma deflate_buffer_fixed:
  assumes "stream_bits source = fixed_stream bs @ rest" "bs \<noteq> []"
    and "\<forall>ts \<in> set bs. \<forall>tok \<in> set ts. token_ok fixed_lengths fixed_dist_lengths tok"
    and "run_tokens (concat bs) [] = Some ys" "length ys \<le> length m"
  shows "deflate_buffer m source = Some (Inr (length ys), ys @ drop (length ys) m)"
proof -
  have "\<exists>d'. deflate_loop (deflate_start m source) = Some d' \<and> derror d' = ERR_NONE \<and>
      out d' = ys @ drop (length ys) m \<and> dest_size d' = length ys"
    by (rule deflate_loop_fixed [OF _ _ assms(2) _ _ _ assms(3-5)])
      (use assms(1) in \<open>simp_all add: deflate_start_def stream_ok_def accum_ok_def bits_of_def filled_def no_tree_def\<close>)
  then show ?thesis by (auto simp: deflate_buffer_def)
qed

section \<open>The checksum\<close>

text \<open>One step of the division by the reflected polynomial, bit by bit.\<close>

definition crc_bit :: "u32 \<Rightarrow> u32" where
  "crc_bit c = (if bit c 0 then drop_bit 1 c XOR 0xEDB88320 else drop_bit 1 c)"

definition crc32_spec :: "bytes \<Rightarrow> u32" where
  "crc32_spec bs = fold (\<lambda>b c. (crc_bit ^^ 8) (c XOR ucast b)) bs 0xFFFFFFFF XOR 0xFFFFFFFF"

lemma crc_bit_xor: "crc_bit (a XOR b) = crc_bit a XOR crc_bit b"
  by (rule bit_word_eqI) (auto simp: crc_bit_def bit_simps)

lemma crc_bits_xor: "(crc_bit ^^ n) (a XOR b) = (crc_bit ^^ n) a XOR (crc_bit ^^ n) b"
  by (induction n) (simp_all add: crc_bit_xor)

lemma crc_bit_push:
  assumes "\<forall>i \<ge> 31 - k. \<not> bit x i" "k < 31" "j = Suc k"
  shows "crc_bit (push_bit j x) = push_bit k x"
proof -
  note j = assms(3)
  have "drop_bit 1 (push_bit (Suc k) x) = push_bit k x"
  proof (rule bit_word_eqI)
    fix n
    assume "n < LENGTH(32)"
    then show "bit (drop_bit 1 (push_bit (Suc k) x)) n \<longleftrightarrow> bit (push_bit k x) n"
      using assms by (cases "n = 31") (auto simp: bit_simps simp del: push_bit_Suc)
  qed
  moreover have "\<not> bit (push_bit (Suc k) x) 0" by (simp add: bit_simps del: push_bit_Suc)
  ultimately show ?thesis unfolding j crc_bit_def by (simp del: push_bit_Suc)
qed

lemma crc_bit_table: "n < 16 \<Longrightarrow> (crc_bit ^^ 4) (of_nat n) = crctab32 ! n"
proof -
  have "\<forall>n \<in> set [0..<16]. (crc_bit ^^ 4) (of_nat n) = crctab32 ! n" by code_simp
  then show "n < 16 \<Longrightarrow> (crc_bit ^^ 4) (of_nat n) = crctab32 ! n" by simp
qed

lemma crc_nibble_bits: "crc_nibble c = (crc_bit ^^ 4) c"
proof -
  let ?lo = "c AND 0x0F" and ?hi = "push_bit 4 (drop_bit 4 c)"
  have f: "(0x0F :: u32) = mask 4" by (simp add: mask_eq_exp_minus_1)
  have "c = ?lo XOR ?hi" unfolding f by (rule bit_word_eqI) (auto simp: bit_simps)
  then have "(crc_bit ^^ 4) c = (crc_bit ^^ 4) (?lo XOR ?hi)" by (rule arg_cong)
  then have "(crc_bit ^^ 4) c = (crc_bit ^^ 4) ?lo XOR (crc_bit ^^ 4) ?hi" by (simp only: crc_bits_xor)
  moreover have "(crc_bit ^^ 4) ?hi = drop_bit 4 c"
  proof -
    have top: "\<forall>i \<ge> 31 - k. \<not> bit (drop_bit 4 c) i" if "k \<le> 3" for k
      using that by (auto simp: bit_simps dest!: bit_imp_le_length)
    have four: "(crc_bit ^^ 4) x = crc_bit (crc_bit (crc_bit (crc_bit x)))" for x by (simp add: eval_nat_numeral)
    have "crc_bit (push_bit 4 (drop_bit 4 c)) = push_bit 3 (drop_bit 4 c)" "crc_bit (push_bit 3 (drop_bit 4 c)) = push_bit 2 (drop_bit 4 c)"
      "crc_bit (push_bit 2 (drop_bit 4 c)) = push_bit 1 (drop_bit 4 c)" "crc_bit (push_bit 1 (drop_bit 4 c)) = push_bit 0 (drop_bit 4 c)"
      by (rule crc_bit_push [OF top]; simp)+
    then show ?thesis unfolding four by (simp only: push_bit_0_id id_apply)
  qed
  moreover have "unat ?lo < 16" unfolding f by (simp add: take_bit_eq_mod unat_mod_distrib flip: take_bit_eq_mask)
  ultimately show ?thesis
    using crc_bit_table [of "unat ?lo"] by (simp add: crc_nibble_def)
qed

lemma update_crc32_eq: "update_crc32 bs = crc32_spec bs"
proof -
  have loop: "crc_loop bs c = fold (\<lambda>b c. (crc_bit ^^ 8) (c XOR ucast b)) bs c" for c
  proof (induction bs arbitrary: c)
    case (Cons b bs)
    have "crc_nibble (crc_nibble x) = (crc_bit ^^ 8) x" for x
      using funpow_add [of 4 4 crc_bit] by (simp add: crc_nibble_bits)
    then show ?case using Cons by simp
  qed simp
  then show ?thesis by (simp add: update_crc32_def crc32_spec_def)
qed

section \<open>Properties\<close>

text \<open>
  C14: The canonical Huffman codes: for code lengths below 16 of at most 288 symbols whose codes fit, the
  tree that \<open>huffman_tree\<close> builds makes \<open>decode_symbol\<close> read the RFC 1951 code of every used symbol as
  that symbol, and use up exactly the bits of the code.
\<close>

theorem huffman_roundtrip:
  assumes "\<forall>l \<in> set ls. l < 16" "length ls \<le> 288" "code_fits ls" "length (sorted_symbols t) = 288"
    and "s < length ls" "ls ! s \<noteq> 0" "stream_ok d" "bits_of d = huff_code ls s @ rest"
  shows "\<exists>t' d'. huffman_tree t ls = Some t' \<and> decode_symbol d t' = Some (s, d') \<and> stream_ok d' \<and> bits_of d' = rest \<and>
     out d' = out d \<and> dest d' = dest d"
proof -
  obtain t' where t': "huffman_tree t ls = Some t'" "tree_for ls t'"
    using huffman_tree_for [OF assms(1,2,4)] by blast
  with decode_symbol_for [OF t'(2) assms(1-3,5-8)] show ?thesis by (auto dest: reads_fields)
qed

theorem huffman_roundtrip_witness:
  "\<exists>t' d'. huffman_tree no_tree [1, 2, 0, 2] = Some t' \<and> decode_symbol (deflate_start [] [3]) t' = Some (3, d')"
proof -
  have "code_fits [1, 2, 0, 2]"
  proof -
    have "{0<..<16} = set [1..<16::nat]" by auto
    moreover have "\<forall>l \<in> set [1..<16]. first_code (length_counts [1, 2, 0, 2]) l + length_counts [1, 2, 0, 2] ! l \<le> 2 ^ l"
      by (simp add: length_counts_def upt_conv_Cons)
    ultimately show ?thesis by (simp only: code_fits_def)
  qed
  moreover have "huff_code [1, 2, 0, 2] 3 = [True, True]" by code_simp
  moreover have "bits_of (deflate_start [] [3]) = [True, True, False, False, False, False, False, False]"
    by (simp add: bits_of_def deflate_start_def stream_bits_def byte_bits_def upt_conv_Cons)
  ultimately show ?thesis
    using huffman_roundtrip [of "[1, 2, 0, 2]" no_tree 3 "deflate_start [] [3]" "[False, False, False, False, False, False]"]
    by (auto simp: no_tree_def stream_ok_def accum_ok_def deflate_start_def)
qed


definition four_a :: "lz_token list list" where
  "four_a = [[Literal 0x61, Copy 257 0 0 0]]"

lemma code_bits_numeral [simp]:
  "code_bits (numeral n) w = odd (w div 2 ^ pred_numeral n) # code_bits (pred_numeral n) w"
  by (simp add: numeral_eq_Suc)

lemma four_a_ok:
  "stream_bits [0x4B, 4, 2, 0] = fixed_stream four_a @ [False, False]"
  "\<forall>ts \<in> set four_a. \<forall>tok \<in> set ts. token_ok fixed_lengths fixed_dist_lengths tok"
  "run_tokens (concat four_a) [] = Some [0x61, 0x61, 0x61, 0x61]"
proof -
  have "stream_bits [0x4B, 4, 2, 0] = [True, True, False, True, False, False, True, False, False, False, True, False, False, False,
      False, False, False, True, False, False, False, False, False, False, False, False, False, False, False, False, False, False]"
    by code_simp
  also have "\<dots> = fixed_stream four_a @ [False, False]"
    by (simp add: four_a_def tokens_bits_def huff_code_fixed length_bits_def dist_bits_def low_bits_def)
  finally show "stream_bits [0x4B, 4, 2, 0] = fixed_stream four_a @ [False, False]" .
  show "\<forall>ts \<in> set four_a. \<forall>tok \<in> set ts. token_ok fixed_lengths fixed_dist_lengths tok"
    by (simp add: four_a_def coded_def fixed_lengths_def fixed_dist_lengths_def nth_append length_bits_def dist_bits_def)
  show "run_tokens (concat four_a) [] = Some [0x61, 0x61, 0x61, 0x61]" by code_simp
qed


text \<open>
  C15: The checksum is CRC-32: folding the sixteen-entry table over the half bytes is the division by
  the reflected polynomial \<open>0xEDB88320\<close>, one bit at a time.
\<close>

theorem update_crc32_correct: "update_crc32 bs = crc32_spec bs"
  by (rule update_crc32_eq)

text \<open>
  The trees of a fixed block are those of the code lengths of RFC 1951, 3.2.6: the counts of every
  length, and every symbol at the place of its code.
\<close>

theorem huffman_fixed_tree_correct:
  assumes "length (sorted_symbols (distance d)) = 288"
  shows "tree_for fixed_lengths (ll (huffman_fixed_tree d)) \<and> tree_for fixed_dist_lengths (distance (huffman_fixed_tree d))"
  using tree_for_fixed [OF assms] by blast

theorem huffman_fixed_tree_correct_witness:
  "tree_for fixed_lengths (ll (huffman_fixed_tree (deflate_start [] [])))"
  using huffman_fixed_tree_correct [of "deflate_start [] []"] by (simp add: deflate_start_def no_tree_def)

lemma decompress_gzip_fixed:
  assumes "stream_bits data = fixed_stream bs @ rest" "bs \<noteq> []"
    and "\<forall>ts \<in> set bs. \<forall>tok \<in> set ts. token_ok fixed_lengths fixed_dist_lengths tok"
    and "run_tokens (concat bs) [] = Some ys" "length ys \<le> length m" "length six = 6" "length isize = 4"
  shows "decompress_gzip m ([0x1F, 0x8B, 8, 0] @ six @ data @ le_bytes 4 (unat (crc32_spec ys)) @ isize) =
     Some (Inr (length ys), ys @ drop (length ys) m)"
proof -
  let ?crc = "le_bytes 4 (unat (crc32_spec ys))"
  let ?s = "[0x1F, 0x8B, 8, 0] @ six @ data @ ?crc @ isize"
  have len: "length ?s = length data + 18" using assms(6,7) by simp
  have "?s ! 0 = 0x1F" "?s ! 1 = 0x8B" "?s ! 2 = 8" "?s ! 3 = 0" by simp_all
  then have hd: "gzip_header ?s = Some (Inr 10)"
    using len by (simp add: gzip_header_def skip_extra_def skip_if_def check_header_crc_def on_ok_def Let_def del: append_Cons)
  have data: "take (length ?s - 10 - 8) (drop 10 ?s) = data" using assms(6,7) by simp
  have "length ?s - 8 = length ([0x1F, 0x8B, 8, 0] @ six @ data)" using assms(6,7) by simp
  moreover have "?s = ([0x1F, 0x8B, 8, 0] @ six @ data) @ ?crc @ isize" by simp
  ultimately have "drop (length ?s - 8) ?s = ?crc @ isize" by (metis append_eq_conv_conj)
  moreover have "unat (crc32_spec ys) < 256 ^ 4" using unsigned_less [of "crc32_spec ys"] by simp
  ultimately have crc: "get_unaligned_le 4 (drop (length ?s - 8) ?s) = Some (unat (crc32_spec ys))"
    by (simp add: get_unaligned_le_def le_value_le_bytes del: le_bytes.simps)
  have "deflate_buffer m (take (length ?s - 10 - 8) (drop 10 ?s)) = Some (Inr (length ys), ys @ drop (length ys) m)"
    unfolding data by (rule deflate_buffer_fixed [OF assms(1-5)])
  then show ?thesis
    using crc len unfolding decompress_gzip_def hd
    by (simp add: update_crc32_eq del: append_Cons append_Nil append_assoc le_bytes.simps)
qed




text \<open>
  The fixed code has two symbols, 286 and 287, that stand for no length, and the decoder does not
  refuse them: 287 makes it read behind its tables, and 286 makes it collect 127 bits in a 32-bit word.
\<close>

theorem reserved_length_faults:
  assumes "stream_bits source = final # True # False #
      concat (map (token_bits fixed_lengths fixed_dist_lengths) ts) @ huff_code fixed_lengths s @ rest"
    and "s = 286 \<and> 48 \<le> length rest \<or> s = 287"
    and "\<forall>tok \<in> set ts. token_ok fixed_lengths fixed_dist_lengths tok"
    and "run_tokens ts [] = Some ys" "length ys \<le> length m"
  shows "deflate_buffer m source = None"
proof -
  let ?rest = "concat (map (token_bits fixed_lengths fixed_dist_lengths) ts) @ huff_code fixed_lengths s @ rest"
  let ?d = "deflate_start m source"
  have start: "stream_ok ?d" "bits_of ?d = final # True # False # ?rest" "filled m [] ?d" "length (sorted_symbols (distance ?d)) = 288"
    using assms(1) by (simp_all add: deflate_start_def stream_ok_def accum_ok_def bits_of_def filled_def no_tree_def)
  obtain d2 where d2: "deflate_loop ?d = do { d3 \<leftarrow> deflate_contents 1 d2; if (of_bool final :: u32) = 0 \<and> derror d3 = ERR_NONE then deflate_loop d3 else Some d3 }"
      "reads ?d ?rest d2"
    using loop_header [OF start(1,2)] by blast
  note f2 = reads_fields [OF d2(2)]
  have "filled m [] d2" using start(3) f2 by (simp add: filled_def)
  then have "fixed.ready_block (huffman_fixed_tree d2)" "filled m [] (huffman_fixed_tree d2)"
    using tree_for_fixed [of d2] start(4) f2 by (simp_all add: fixed.ready_block_def huffman_fixed_tree_fields)
  then obtain d3 where "deflate_block_loop (dest d2) (huffman_fixed_tree d2) = deflate_block_loop (dest d2) d3"
      "fixed.ready_block d3" "bits_of d3 = huff_code fixed_lengths s @ rest"
    using fixed.tokens_step [OF _ _ assms(3-5), of "huffman_fixed_tree d2" "huff_code fixed_lengths s @ rest" "dest d2"] f2
    by (auto simp: huffman_fixed_tree_fields)
  moreover have "coded fixed_lengths s" using assms(2) by (auto simp: coded_def fixed_lengths_def nth_append)
  ultimately have "deflate_contents 1 d2 = None"
    using fixed.reserved_length [of d3 s rest "dest d2"] assms(2)
    by (simp add: deflate_contents_def deflate_block_def huffman_fixed_tree_fields)
  then show ?thesis by (simp add: deflate_buffer_def d2(1))
qed

theorem reserved_length_faults_witness: "deflate_buffer [] [0x1B, 7] = None"
proof -
  have "stream_bits [0x1B, 7] = [True, True, False, True, True, False, False, False, True, True, True, False, False, False, False, False]"
    by code_simp
  then have "stream_bits [0x1B, 7] = True # True # False # concat (map (token_bits fixed_lengths fixed_dist_lengths) []) @
      huff_code fixed_lengths 287 @ [False, False, False, False, False]"
    by (simp add: huff_code_fixed)
  from reserved_length_faults [OF this] show ?thesis by simp
qed

end
