(* ===== verification/E820.thy ===== *)
theory E820
  imports MemblockMap
begin

text \<open>
  The memory map of the firmware: the E820 table of \<open>arch/x86/ukernel/e820.c\<close>, the walk over the EFI
  memory map of \<open>arch/x86/ukernel/efi.c\<close> that fills it, and its hand-over to the boot allocator.
  Messages are left out.
\<close>

section \<open>The table (arch/x86/ukernel/e820.c)\<close>

datatype e820_type = E820_TYPE_RAM | E820_TYPE_RESERVED | E820_TYPE_ACPI | E820_TYPE_NVS | E820_TYPE_UNUSABLE | E820_TYPE_PMEM

record e820_entry =
  e_start :: u64
  e_size :: u64
  e_type :: e820_type

abbreviation (input) E820_MAX_ENTRIES :: nat where "E820_MAX_ENTRIES \<equiv> 128"

record e820_table =
  nr_entries :: nat
  e_entries :: "e820_entry list"

text \<open>The table is static; the type zero of an unused entry is none of the constructors and is never read.\<close>

definition e820_init :: e820_table where
  "e820_init = \<lparr>nr_entries = 0, e_entries = replicate E820_MAX_ENTRIES \<lparr>e_start = 0, e_size = 0, e_type = E820_TYPE_RESERVED\<rparr>\<rparr>"

definition e820_range_add :: "u64 \<Rightarrow> u64 \<Rightarrow> e820_type \<Rightarrow> e820_table \<Rightarrow> e820_table" where
  "e820_range_add start sz ty tab =
     (if nr_entries tab = E820_MAX_ENTRIES then tab
      else tab\<lparr>e_entries := (e_entries tab)[nr_entries tab := \<lparr>e_start = start, e_size = sz, e_type = ty\<rparr>],
               nr_entries := nr_entries tab + 1\<rparr>)"

text \<open>The loop from \<open>cur_idx\<close> on, with the number of entries that are left.\<close>

fun e820_merge_loop :: "nat \<Rightarrow> nat \<Rightarrow> nat \<Rightarrow> e820_entry list \<Rightarrow> nat \<times> e820_entry list" where
  "e820_merge_loop 0 idx cur_idx es = (idx, es)"
| "e820_merge_loop (Suc k) idx cur_idx es =
     (let a = es ! idx; c = es ! cur_idx
      in if e_type a = e_type c \<and> e_start a + e_size a = e_start c
         then e820_merge_loop k idx (cur_idx + 1) (es[idx := a\<lparr>e_size := e_size a + e_size c\<rparr>])
         else e820_merge_loop k (idx + 1) (cur_idx + 1) (es[idx + 1 := c]))"

definition e820_update_table :: "e820_table \<Rightarrow> e820_table" where
  "e820_update_table tab =
     (if nr_entries tab = 0 then tab
      else let (idx, es) = e820_merge_loop (nr_entries tab - 1) 0 1 (e_entries tab)
           in tab\<lparr>e_entries := es, nr_entries := idx + 1\<rparr>)"

fun e820_memblock_loop :: "e820_entry list \<Rightarrow> memblock \<Rightarrow> memblock option" where
  "e820_memblock_loop [] m = Some m"
| "e820_memblock_loop (e # es) m =
     do {
       m \<leftarrow> (if e_type e = E820_TYPE_RAM then memblock_add m (e_start e) (e_size e) (-1) 0 else Some m);
       e820_memblock_loop es m }"

definition e820_memblock_setup :: "e820_table \<Rightarrow> memblock \<Rightarrow> memblock option" where
  "e820_memblock_setup tab m = e820_memblock_loop (take (nr_entries tab) (e_entries tab)) m"

section \<open>The EFI memory map (arch/x86/ukernel/efi.c)\<close>

text \<open>The fields of \<open>struct efi_memory_desc\<close> at their offsets.\<close>

definition md_type :: "bytes \<Rightarrow> nat \<Rightarrow> nat option" where
  "md_type descs p = get_unaligned_le 4 (drop p descs)"

definition md_phys_addr :: "bytes \<Rightarrow> nat \<Rightarrow> nat option" where
  "md_phys_addr descs p = get_unaligned_le 8 (drop (p + 8) descs)"

definition md_num_pages :: "bytes \<Rightarrow> nat \<Rightarrow> nat option" where
  "md_num_pages descs p = get_unaligned_le 8 (drop (p + 24) descs)"

definition efi_e820_type :: "nat \<Rightarrow> e820_type" where
  "efi_e820_type ty =
     (if ty = 1 \<or> ty = 2 \<or> ty = 3 \<or> ty = 4 \<or> ty = 7 then E820_TYPE_RAM
      else if ty = 9 then E820_TYPE_ACPI
      else if ty = 10 then E820_TYPE_NVS
      else if ty = 8 then E820_TYPE_UNUSABLE
      else if ty = 14 then E820_TYPE_PMEM
      else E820_TYPE_RESERVED)"

text \<open>The walk does not end when the firmware reports descriptors of size zero.\<close>

partial_function (option) efi_memmap_loop :: "bytes \<Rightarrow> nat \<Rightarrow> nat \<Rightarrow> nat \<Rightarrow> e820_table \<Rightarrow> e820_table option" where
  "efi_memmap_loop descs desc_size map_size p tab =
     (if p + desc_size \<le> map_size then do {
        ty \<leftarrow> md_type descs p;
        addr \<leftarrow> md_phys_addr descs p;
        pages \<leftarrow> md_num_pages descs p;
        efi_memmap_loop descs desc_size map_size (p + desc_size)
          (e820_range_add (of_nat addr) (of_nat pages * 4096) (efi_e820_type ty) tab) }
      else Some tab)"

text \<open>\<open>memremap\<close> gives the map, or nothing.\<close>

definition efi_add_memmap :: "bytes option \<Rightarrow> nat \<Rightarrow> nat \<Rightarrow> e820_table \<Rightarrow> (e820_table \<times> (errno + unit)) option" where
  "efi_add_memmap mapped desc_size map_size tab =
     (case mapped of
        None \<Rightarrow> Some (tab, Inl ENOMEM)
      | Some descs \<Rightarrow> do {
          tab \<leftarrow> efi_memmap_loop descs desc_size map_size 0 tab;
          Some (e820_update_table tab, Inr ()) })"

section \<open>Merging\<close>

text \<open>What the in-place loop computes.\<close>

fun e820_merge :: "e820_entry \<Rightarrow> e820_entry list \<Rightarrow> e820_entry list" where
  "e820_merge a [] = [a]"
| "e820_merge a (c # cs) =
     (if e_type a = e_type c \<and> e_start a + e_size a = e_start c
      then e820_merge (a\<lparr>e_size := e_size a + e_size c\<rparr>) cs else a # e820_merge c cs)"

definition live :: "e820_table \<Rightarrow> e820_entry list" where
  "live tab = take (nr_entries tab) (e_entries tab)"

lemma e820_merge_loop_eq:
  assumes "length es = idx + 1 + g + k + rest" "cur_idx = idx + 1 + g"
  shows "\<exists>idx' es'. e820_merge_loop k idx cur_idx es = (idx', es') \<and> length es' = length es \<and> idx' \<le> idx + k \<and>
     take (idx' + 1) es' = take idx es @ e820_merge (es ! idx) (take k (drop cur_idx es))"
  using assms
proof (induction k arbitrary: idx g cur_idx es)
  case 0
  then show ?case by (simp add: take_Suc_conv_app_nth)
next
  case (Suc k)
  let ?a = "es ! idx" and ?c = "es ! cur_idx"
  have cur: "cur_idx < length es" "idx < cur_idx" using Suc.prems by simp_all
  have tl: "take (Suc k) (drop cur_idx es) = ?c # take k (drop (Suc cur_idx) es)"
    using cur by (simp flip: Cons_nth_drop_Suc)
  show ?case
  proof (cases "e_type ?a = e_type ?c \<and> e_start ?a + e_size ?a = e_start ?c")
    case True
    let ?es = "es[idx := ?a\<lparr>e_size := e_size ?a + e_size ?c\<rparr>]"
    obtain idx' es' where "e820_merge_loop k idx (cur_idx + 1) ?es = (idx', es')" "length es' = length ?es" "idx' \<le> idx + k"
        "take (idx' + 1) es' = take idx ?es @ e820_merge (?es ! idx) (take k (drop (cur_idx + 1) ?es))"
      using Suc.IH [of ?es idx "g + 1" "cur_idx + 1"] Suc.prems by auto
    with True cur show ?thesis by (simp add: tl Let_def)
  next
    case False
    let ?es = "es[idx + 1 := ?c]"
    obtain idx' es' where IH: "e820_merge_loop k (idx + 1) (cur_idx + 1) ?es = (idx', es')" "length es' = length ?es" "idx' \<le> idx + 1 + k"
        "take (idx' + 1) es' = take (idx + 1) ?es @ e820_merge (?es ! (idx + 1)) (take k (drop (cur_idx + 1) ?es))"
      using Suc.IH [of ?es "idx + 1" g "cur_idx + 1"] Suc.prems by auto
    have "take (idx + 1) ?es = take idx es @ [?a]" using cur by (simp add: take_Suc_conv_app_nth)
    moreover have "?es ! (idx + 1) = ?c" using cur by simp
    moreover have "drop (cur_idx + 1) ?es = drop (cur_idx + 1) es" using cur by simp
    ultimately show ?thesis using IH False by (auto simp: tl Let_def)
  qed
qed

lemma e820_update_live:
  assumes "nr_entries tab \<le> length (e_entries tab)"
  shows "live (e820_update_table tab) = (case live tab of [] \<Rightarrow> [] | e # es \<Rightarrow> e820_merge e es)"
    "nr_entries (e820_update_table tab) \<le> nr_entries tab" "length (e_entries (e820_update_table tab)) = length (e_entries tab)"
proof -
  have "live (e820_update_table tab) = (case live tab of [] \<Rightarrow> [] | e # es \<Rightarrow> e820_merge e es) \<and>
     nr_entries (e820_update_table tab) \<le> nr_entries tab \<and> length (e_entries (e820_update_table tab)) = length (e_entries tab)"
  proof (cases "nr_entries tab")
    case 0
    then show ?thesis by (simp add: e820_update_table_def live_def)
  next
    case (Suc k)
    obtain idx' es' where r: "e820_merge_loop k 0 1 (e_entries tab) = (idx', es')" "length es' = length (e_entries tab)" "idx' \<le> k"
        "take (idx' + 1) es' = e820_merge (e_entries tab ! 0) (take k (drop 1 (e_entries tab)))"
    proof -
      have "length (e_entries tab) = 0 + 1 + 0 + k + (length (e_entries tab) - 1 - k)" using assms Suc by linarith
      from e820_merge_loop_eq [OF this, of 1] that show thesis by auto
    qed
    have "live tab = e_entries tab ! 0 # take k (drop 1 (e_entries tab))"
      using assms Suc by (cases "e_entries tab") (simp_all add: live_def)
    with r Suc show ?thesis by (simp add: e820_update_table_def live_def)
  qed
  then show "live (e820_update_table tab) = (case live tab of [] \<Rightarrow> [] | e # es \<Rightarrow> e820_merge e es)"
    "nr_entries (e820_update_table tab) \<le> nr_entries tab" "length (e_entries (e820_update_table tab)) = length (e_entries tab)"
    by simp_all
qed

text \<open>An entry covers its addresses, which must not wrap around.\<close>

definition covers :: "e820_entry \<Rightarrow> nat \<Rightarrow> bool" where
  "covers e a \<longleftrightarrow> unat (e_start e) \<le> a \<and> a < unat (e_start e) + unat (e_size e)"

definition entry_ok :: "e820_entry \<Rightarrow> bool" where
  "entry_ok e \<longleftrightarrow> unat (e_start e) + unat (e_size e) < 2 ^ 64"

lemma e820_merge_covers:
  assumes "entry_ok a" "\<forall>e \<in> set es. entry_ok e"
  shows "(\<exists>e \<in> set (e820_merge a es). e_type e = ty \<and> covers e x) \<longleftrightarrow> (\<exists>e \<in> set (a # es). e_type e = ty \<and> covers e x)"
    "\<forall>e \<in> set (e820_merge a es). entry_ok e"
proof -
  have "((\<exists>e \<in> set (e820_merge a es). e_type e = ty \<and> covers e x) \<longleftrightarrow> (\<exists>e \<in> set (a # es). e_type e = ty \<and> covers e x)) \<and>
    (\<forall>e \<in> set (e820_merge a es). entry_ok e)"
    using assms
  proof (induction a es rule: e820_merge.induct)
    case (2 a c cs)
    show ?case
    proof (cases "e_type a = e_type c \<and> e_start a + e_size a = e_start c")
      case True
      have a: "unat (e_start a) + unat (e_size a) < 2 ^ 64" and c: "unat (e_start c) + unat (e_size c) < 2 ^ 64"
        using 2(3,4) by (simp_all add: entry_ok_def)
      have st: "unat (e_start c) = unat (e_start a) + unat (e_size a)"
        using True a unat_add_nowrap [of "e_start a" "e_size a"] by simp
      let ?a = "a\<lparr>e_size := e_size a + e_size c\<rparr>"
      have sz: "unat (e_size ?a) = unat (e_size a) + unat (e_size c)"
        using c st by (simp add: unat_add_nowrap)
      have "covers ?a x \<longleftrightarrow> covers a x \<or> covers c x" using st sz by (auto simp: covers_def)
      moreover have "entry_ok ?a" using c st sz by (simp add: entry_ok_def)
      ultimately show ?thesis using 2(1) True 2(4) by auto
    next
      case False
      with 2(2-4) show ?thesis by auto
    qed
  qed auto
  then show "(\<exists>e \<in> set (e820_merge a es). e_type e = ty \<and> covers e x) \<longleftrightarrow> (\<exists>e \<in> set (a # es). e_type e = ty \<and> covers e x)"
    "\<forall>e \<in> set (e820_merge a es). entry_ok e" by blast+
qed

section \<open>The walk over the EFI memory map\<close>

definition efi_entry :: "bytes \<Rightarrow> nat \<Rightarrow> e820_entry" where
  "efi_entry descs p = \<lparr>e_start = of_nat (the (md_phys_addr descs p)), e_size = of_nat (the (md_num_pages descs p)) * 4096,
     e_type = efi_e820_type (the (md_type descs p))\<rparr>"

definition tab_room :: "e820_table \<Rightarrow> bool" where
  "tab_room tab \<longleftrightarrow> nr_entries tab \<le> 128 \<and> length (e_entries tab) = 128"

lemma range_add_live:
  assumes "tab_room tab"
  shows "live (e820_range_add (e_start e) (e_size e) (e_type e) tab) = take 128 (live tab @ [e])"
  using assms by (cases e) (auto simp: live_def tab_room_def e820_range_add_def take_Suc_conv_app_nth)

lemma range_add_room: "tab_room tab \<Longrightarrow> tab_room (e820_range_add b s ty tab)"
  by (auto simp: tab_room_def e820_range_add_def)

lemma take_absorb: "take k (take k xs @ ys) = take k (xs @ ys)"
  by (cases "k \<le> length xs") simp_all

lemma efi_memmap_loop_eq:
  assumes "p + k * desc_size \<le> map_size" "map_size < p + Suc k * desc_size" "40 \<le> desc_size" "map_size \<le> length descs" "tab_room tab"
  shows "\<exists>tab'. efi_memmap_loop descs desc_size map_size p tab = Some tab' \<and> tab_room tab' \<and>
     live tab' = take 128 (live tab @ map (\<lambda>i. efi_entry descs (p + i * desc_size)) [0..<k])"
  using assms
proof (induction k arbitrary: p tab)
  case 0
  then show ?case by (subst efi_memmap_loop.simps) (auto simp: live_def tab_room_def)
next
  case (Suc k)
  let ?tab = "e820_range_add (e_start (efi_entry descs p)) (e_size (efi_entry descs p)) (e_type (efi_entry descs p)) tab"
  have room: "p + desc_size \<le> map_size" using Suc.prems(1) by simp
  then have "md_type descs p \<noteq> None" "md_phys_addr descs p \<noteq> None" "md_num_pages descs p \<noteq> None"
    using Suc.prems(3,4) by (simp_all add: md_type_def md_phys_addr_def md_num_pages_def get_unaligned_le_def)
  then have step: "efi_memmap_loop descs desc_size map_size p tab = efi_memmap_loop descs desc_size map_size (p + desc_size) ?tab"
    using room by (subst efi_memmap_loop.simps) (auto simp: efi_entry_def)
  obtain tab' where IH: "efi_memmap_loop descs desc_size map_size (p + desc_size) ?tab = Some tab'" "tab_room tab'"
      "live tab' = take 128 (live ?tab @ map (\<lambda>i. efi_entry descs (p + desc_size + i * desc_size)) [0..<k])"
    using Suc.IH [of "p + desc_size" ?tab] Suc.prems range_add_room [OF Suc.prems(5)] by (auto simp: algebra_simps)
  have "live ?tab = take 128 (live tab @ [efi_entry descs p])"
    by (rule range_add_live [OF Suc.prems(5)])
  moreover have "map (\<lambda>i. efi_entry descs (p + i * desc_size)) [0..<Suc k] =
      efi_entry descs p # map (\<lambda>i. efi_entry descs (p + desc_size + i * desc_size)) [0..<k]"
    by (simp add: upt_conv_Cons map_Suc_upt [symmetric] comp_def algebra_simps del: upt_Suc)
  ultimately show ?case using IH step by (simp add: take_absorb del: take_append)
qed

lemma efi_memmap_loop_stuck: "efi_memmap_loop descs 0 map_size p tab = Some tab' \<Longrightarrow> map_size < p"
proof -
  have "desc_size = 0 \<longrightarrow> map_size < p" if "efi_memmap_loop descs desc_size map_size p tab = Some tab'" for descs desc_size map_size p tab tab'
    using _ that
    by (rule efi_memmap_loop.raw_induct [of "\<lambda>descs desc_size map_size p tab tab'. desc_size = 0 \<longrightarrow> map_size < p"])
      (fastforce simp: bind_eq_Some_conv split: if_splits)
  then show "efi_memmap_loop descs 0 map_size p tab = Some tab' \<Longrightarrow> map_size < p" by blast
qed

section \<open>The boot allocator\<close>

text \<open>Adding a range behind everything takes one entry.\<close>

lemma add_list_behind:
  assumes "\<forall>r \<in> set xs. base r < rend r \<and> rend r \<le> b" "b \<le> e"
  shows "add_list b e nd fl xs = xs @ gap b e nd fl"
  using assms
proof (induction xs)
  case (Cons r xs)
  then have "\<not> e \<le> base r" by (metis linorder_not_le list.set_intros(1) order_less_le_trans)
  with Cons show ?case by simp
qed simp

lemma wf_from_none_behind:
  assumes "wf_from lo xs" "\<forall>a \<ge> b. region_at xs a = None"
  shows "\<forall>r \<in> set xs. base r < rend r \<and> rend r \<le> b"
proof
  fix r
  assume r: "r \<in> set xs"
  have lt: "base r < rend r" using wf_from_mem [OF assms(1) r] by simp
  have "rend r \<le> b"
  proof (rule ccontr)
    assume "\<not> rend r \<le> b"
    then have "max (base r) b < rend r" "base r \<le> max (base r) b" using lt by simp_all
    then have "region_at xs (max (base r) b) \<noteq> None" using region_at_mem [OF assms(1) r] by simp
    with assms(2) show False by simp
  qed
  with lt show "base r < rend r \<and> rend r \<le> b" by simp
qed

definition is_ram :: "e820_entry \<Rightarrow> bool" where
  "is_ram e \<longleftrightarrow> e_type e = E820_TYPE_RAM"

text \<open>The entries for RAM are in order, do not overlap and do not wrap around.\<close>

fun ram_sorted :: "u64 \<Rightarrow> e820_entry list \<Rightarrow> bool" where
  "ram_sorted lo [] = True"
| "ram_sorted lo (e # es) =
     (if is_ram e then lo \<le> e_start e \<and> e_start e \<le> e_start e + e_size e \<and> ram_sorted (e_start e + e_size e) es
      else ram_sorted lo es)"

definition ram_at :: "e820_entry list \<Rightarrow> u64 \<Rightarrow> bool" where
  "ram_at es a \<longleftrightarrow> (\<exists>e \<in> set es. is_ram e \<and> e_start e \<le> a \<and> a < e_start e + e_size e)"

lemma ram_sorted_above: "ram_sorted lo es \<Longrightarrow> ram_at es a \<Longrightarrow> lo \<le> a"
proof (induction lo es rule: ram_sorted.induct)
  case (2 lo e es)
  show ?case
  proof (cases "is_ram e")
    case True
    with 2 show ?thesis by (auto simp: ram_at_def dest: order_trans)
  next
    case False
    with 2 show ?thesis by (auto simp: ram_at_def)
  qed
qed (simp add: ram_at_def)

lemma memblock_loop_ok:
  assumes "map_ok m xs st" "\<forall>a \<ge> lo. region_at xs a = None" "ram_sorted lo es" "length (filter is_ram es) < length st"
  shows "\<exists>m' xs' st'. e820_memblock_loop es m = Some m' \<and> map_ok m' xs' st' \<and>
     length xs' + length st' = length xs + length st \<and> length xs' \<le> length xs + length (filter is_ram es) \<and>
     (\<forall>a. region_at xs' a = (if ram_at es a then Some (- 1, 0) else region_at xs a))"
  using assms
proof (induction es arbitrary: m xs st lo)
  case Nil
  then show ?case by (auto simp: ram_at_def)
next
  case (Cons e es)
  show ?case
  proof (cases "is_ram e")
    case False
    then have "ram_at (e # es) a = ram_at es a" for a by (simp add: ram_at_def)
    with False Cons.IH [OF Cons.prems(1,2)] Cons.prems(3,4) show ?thesis by (auto simp: is_ram_def)
  next
    case True
    let ?b = "e_start e" and ?e = "e_start e + e_size e"
    have b: "lo \<le> ?b" "?b \<le> ?e" "ram_sorted ?e es" using Cons.prems(3) True by simp_all
    have len: "length (add_list ?b ?e (- 1) 0 xs) \<le> length xs + 1"
    proof -
      have "\<forall>r \<in> set xs. base r < rend r \<and> rend r \<le> ?b"
        using Cons.prems(2) b(1) by (intro wf_from_none_behind [OF map_okD(2) [OF Cons.prems(1)]]) auto
      from add_list_behind [OF this b(2)] show ?thesis by (simp add: gap_def)
    qed
    obtain m1 xs1 st1 where m1: "add_range m ?b (e_size e) (- 1) 0 = Some m1" "map_ok m1 xs1 st1"
        "length xs1 + length st1 = length xs + length st" "length xs1 \<le> length (add_list ?b ?e (- 1) 0 xs)"
        "\<forall>a. region_at xs1 a = add_value ?b ?e (- 1) 0 a (region_at xs a)"
      using add_range_ok [OF Cons.prems(1) b(2), of "- 1" 0] len Cons.prems(4) True by auto
    have "region_at xs1 a = None" if "?e \<le> a" for a
      using m1(5) Cons.prems(2) b that by (auto simp: add_value_def)
    moreover have "length (filter is_ram es) < length st1" using m1(3,4) len Cons.prems(4) True by simp
    ultimately obtain m' xs' st' where IH: "e820_memblock_loop es m1 = Some m'" "map_ok m' xs' st'"
        "length xs' + length st' = length xs1 + length st1" "length xs' \<le> length xs1 + length (filter is_ram es)"
        "\<forall>a. region_at xs' a = (if ram_at es a then Some (- 1, 0) else region_at xs1 a)"
      using Cons.IH [OF m1(2) _ b(3)] by blast
    have "region_at xs' a = (if ram_at (e # es) a then Some (- 1, 0) else region_at xs a)" for a
    proof (cases "ram_at es a")
      case True
      then have "ram_at (e # es) a" by (auto simp: ram_at_def)
      with True IH(5) show ?thesis by simp
    next
      case False
      then have "ram_at (e # es) a \<longleftrightarrow> ?b \<le> a \<and> a < ?e" using \<open>is_ram e\<close> by (auto simp: ram_at_def)
      moreover have "region_at xs a = None" if "?b \<le> a" using Cons.prems(2) b(1) that by (meson order_trans)
      moreover have "region_at xs' a = add_value ?b ?e (- 1) 0 a (region_at xs a)" using False IH(5) m1(5) by simp
      ultimately show ?thesis by (auto simp: add_value_def split: option.splits)
    qed
    moreover have "e820_memblock_loop (e # es) m = Some m'"
      using m1(1) IH(1) True by (simp add: is_ram_def memblock_add_def)
    moreover have "length xs' + length st' = length xs + length st" "length xs' \<le> length xs + length (filter is_ram (e # es))"
      using IH(3,4) m1(3,4) len True by simp_all
    ultimately show ?thesis using IH(2) by blast
  qed
qed

section \<open>Properties\<close>

text \<open>
  \<open>e820__update_table\<close> changes no address: after merging, exactly the same addresses have each
  type, the table has not grown, and it is the in-place form of merging neighbours from the left.
\<close>

theorem e820_update_table_covers:
  assumes "nr_entries tab \<le> length (e_entries tab)" "\<forall>e \<in> set (live tab). entry_ok e"
  shows "((\<exists>e \<in> set (live (e820_update_table tab)). e_type e = ty \<and> covers e a) \<longleftrightarrow> (\<exists>e \<in> set (live tab). e_type e = ty \<and> covers e a)) \<and>
    nr_entries (e820_update_table tab) \<le> nr_entries tab \<and>
    live (e820_update_table tab) = (case live tab of [] \<Rightarrow> [] | e # es \<Rightarrow> e820_merge e es)"
proof -
  note live = e820_update_live [OF assms(1)]
  have "(\<exists>e \<in> set (live (e820_update_table tab)). e_type e = ty \<and> covers e a) \<longleftrightarrow> (\<exists>e \<in> set (live tab). e_type e = ty \<and> covers e a)"
  proof (cases "live tab")
    case (Cons e es)
    then show ?thesis using e820_merge_covers(1) [of e es ty a] assms(2) by (simp add: live(1))
  qed (simp add: live(1))
  with live show ?thesis by blast
qed

definition two_entries :: e820_table where
  "two_entries = \<lparr>nr_entries = 2, e_entries = [\<lparr>e_start = 0, e_size = 0x1000, e_type = E820_TYPE_RAM\<rparr>,
     \<lparr>e_start = 0x1000, e_size = 0x2000, e_type = E820_TYPE_RAM\<rparr>]\<rparr>"

theorem e820_update_table_covers_witness:
  "(\<exists>e \<in> set (live (e820_update_table two_entries)). e_type e = E820_TYPE_RAM \<and> covers e 0x2FFF)"
  using e820_update_table_covers [of two_entries E820_TYPE_RAM "0x2FFF"] by (simp add: two_entries_def live_def entry_ok_def covers_def)

text \<open>
  The boot allocator gets exactly the RAM: from an ordered table with fewer than 128 entries for RAM,
  \<open>e820__memblock_setup\<close> on the empty map returns, the map is well formed, and an address is in it, with
  no node and no flags, exactly when an entry for RAM covers it.
\<close>

theorem e820_memblock_setup_maps_ram:
  assumes "ram_sorted 0 (live tab)" "length (filter is_ram (live tab)) < 128"
  shows "\<exists>m. e820_memblock_setup tab memory_init = Some m \<and> memblock_ok m \<and>
     (\<forall>a. mem_map m a = (if ram_at (live tab) a then Some (- 1, 0) else None))"
proof -
  have "\<forall>a \<ge> 0. region_at [] a = None" by simp
  from memblock_loop_ok [OF memory_init_ok this assms(1)] assms(2)
  obtain m xs st where m: "e820_memblock_loop (live tab) memory_init = Some m" "map_ok m xs st"
      "\<forall>a. region_at xs a = (if ram_at (live tab) a then Some (- 1, 0) else None)"
    by auto
  then show ?thesis using ok_live(5) [OF m(2)] by (auto simp: e820_memblock_setup_def live_def memblock_ok_def)
qed

theorem e820_memblock_setup_maps_ram_witness:
  "\<exists>m. e820_memblock_setup two_entries memory_init = Some m \<and> mem_map m 0x2FFF = Some (- 1, 0)"
  using e820_memblock_setup_maps_ram [of two_entries]
  by (auto simp: two_entries_def live_def is_ram_def ram_at_def)

text \<open>
  The walk over the firmware's memory map ends when its descriptors have a size, and the table
  then holds one entry for every whole descriptor, in order, up to 128 of them; with descriptors of
  size zero it never ends.
\<close>

theorem efi_memmap_loop_ends:
  assumes "tab_room tab" "map_size \<le> length descs"
  shows "(40 \<le> desc_size \<longrightarrow> (\<exists>tab'. efi_memmap_loop descs desc_size map_size 0 tab = Some tab' \<and>
       live tab' = take 128 (live tab @ map (\<lambda>i. efi_entry descs (i * desc_size)) [0..<map_size div desc_size]))) \<and>
     (desc_size = 0 \<longrightarrow> efi_memmap_loop descs desc_size map_size 0 tab = None)"
proof (intro conjI impI)
  assume d: "40 \<le> desc_size"
  then have "0 + (map_size div desc_size) * desc_size \<le> map_size" "map_size < 0 + Suc (map_size div desc_size) * desc_size"
    using div_times_less_eq_dividend [of map_size desc_size] dividend_less_div_times [of desc_size map_size] by simp_all
  from efi_memmap_loop_eq [OF this d assms(2,1)]
  show "\<exists>tab'. efi_memmap_loop descs desc_size map_size 0 tab = Some tab' \<and>
       live tab' = take 128 (live tab @ map (\<lambda>i. efi_entry descs (i * desc_size)) [0..<map_size div desc_size])"
    by auto
next
  assume "desc_size = 0"
  then show "efi_memmap_loop descs desc_size map_size 0 tab = None"
    using efi_memmap_loop_stuck [of descs map_size 0 tab] by (cases "efi_memmap_loop descs 0 map_size 0 tab") auto
qed

theorem efi_memmap_loop_ends_witness:
  "\<exists>tab'. efi_memmap_loop (replicate 48 0) 48 48 0 e820_init = Some tab' \<and>
     live tab' = [efi_entry (replicate 48 0) 0]"
  using efi_memmap_loop_ends [of e820_init 48 "replicate 48 0" 48]
  by (simp add: tab_room_def e820_init_def live_def)

end
