(* ===== verification/Relocs.thy ===== *)
theory Relocs
  imports CString
begin

text \<open>
  The build tool \<open>arch/x86/realmode/relocs.c\<close>: it walks the relocation sections of the 32-bit ELF file
  of the real-mode kernel and prints the offsets to patch when the kernel has been moved.  The mapped
  file is a list of bytes, read at the offsets the ELF format gives to the fields of its structures; a
  read behind its end (a section header is read whole) and a division by an entry size of zero are \<open>None\<close>, an exit through \<open>die\<close> is
  \<open>Inl\<close> of its reason.
\<close>

section \<open>The ELF structures\<close>

definition rd :: "nat \<Rightarrow> bytes \<Rightarrow> nat \<Rightarrow> nat option" where
  "rd w file p = get_unaligned_le w (drop p file)"

abbreviation (input) SHT_REL :: nat where "SHT_REL \<equiv> 9"
abbreviation (input) SHF_ALLOC_bit :: nat where "SHF_ALLOC_bit \<equiv> 1"
abbreviation (input) SHN_ABS :: nat where "SHN_ABS \<equiv> 0xFFF1"
abbreviation (input) R_386_NONE :: nat where "R_386_NONE \<equiv> 0"
abbreviation (input) R_386_32 :: nat where "R_386_32 \<equiv> 1"
abbreviation (input) R_386_PC32 :: nat where "R_386_PC32 \<equiv> 2"
abbreviation (input) R_386_16 :: nat where "R_386_16 \<equiv> 20"

record elf_shdr =
  sh_type :: nat
  sh_flags :: nat
  sh_offset :: nat
  sh_size :: nat
  sh_link :: nat
  sh_info :: nat
  sh_entsize :: nat

record elf_rel =
  r_offset :: u32
  r_info :: nat

record elf_sym =
  st_name :: nat
  st_shndx :: nat

definition read_shdr :: "bytes \<Rightarrow> nat \<Rightarrow> elf_shdr option" where
  "read_shdr file p = do {
     ty \<leftarrow> rd 4 file (p + 4); fl \<leftarrow> rd 4 file (p + 8); off \<leftarrow> rd 4 file (p + 16); sz \<leftarrow> rd 4 file (p + 20);
     lk \<leftarrow> rd 4 file (p + 24); info \<leftarrow> rd 4 file (p + 28); ent \<leftarrow> rd 4 file (p + 36);
     Some \<lparr>sh_type = ty, sh_flags = fl, sh_offset = off, sh_size = sz, sh_link = lk, sh_info = info, sh_entsize = ent\<rparr> }"

definition read_rel :: "bytes \<Rightarrow> nat \<Rightarrow> elf_rel option" where
  "read_rel file p = do {
     off \<leftarrow> rd 4 file p; info \<leftarrow> rd 4 file (p + 4);
     Some \<lparr>r_offset = of_nat off, r_info = info\<rparr> }"

definition read_sym :: "bytes \<Rightarrow> nat \<Rightarrow> elf_sym option" where
  "read_sym file p = do {
     nm \<leftarrow> rd 4 file p; shndx \<leftarrow> rd 2 file (p + 14);
     Some \<lparr>st_name = nm, st_shndx = shndx\<rparr> }"

definition e_shoff :: "bytes \<Rightarrow> nat option" where "e_shoff file = rd 4 file 32"
definition e_shnum :: "bytes \<Rightarrow> nat option" where "e_shnum file = rd 2 file 48"

definition ELF32_R_SYM :: "nat \<Rightarrow> nat" where "ELF32_R_SYM info = info div 256"
definition ELF32_R_TYPE :: "nat \<Rightarrow> nat" where "ELF32_R_TYPE info = info mod 256"

definition section_hdr :: "bytes \<Rightarrow> nat \<Rightarrow> elf_shdr option" where
  "section_hdr file i = do { shoff \<leftarrow> e_shoff file; read_shdr file (shoff + 40 * i) }"

definition get_section :: "bytes \<Rightarrow> nat \<Rightarrow> nat option" where
  "get_section file i = map_option sh_offset (section_hdr file i)"

definition chars :: "string \<Rightarrow> bytes" where
  "chars s = map (\<lambda>c. of_nat (of_char c)) s"

definition sym_name :: "bytes \<Rightarrow> nat \<Rightarrow> elf_sym \<Rightarrow> bytes option" where
  "sym_name file sym_strtab sy =
     (if st_name sy \<noteq> 0
      then let s = drop (sym_strtab + st_name sy) file in if is_cstr s then Some (cstr s) else None
      else Some (chars ''<no-name>''))"

section \<open>Classification\<close>

datatype symtype = S_ABS | S_REL | S_SEG | S_LIN

text \<open>The regular expressions: \<open>^pa_\<close> matches a prefix, \<open>^real_mode_seg$\<close> the whole name; S_ABS has none.\<close>

fun is_reloc :: "symtype \<Rightarrow> bytes \<Rightarrow> bool" where
  "is_reloc S_ABS nm = False"
| "is_reloc S_REL nm = (take 3 nm = chars ''pa_'')"
| "is_reloc S_SEG nm = (nm = chars ''real_mode_seg'')"
| "is_reloc S_LIN nm = (take 3 nm = chars ''pa_'')"

abbreviation (input) RELOCS_MAX :: nat where "RELOCS_MAX \<equiv> 100"

record relocs =
  relocs16 :: "u32 list"
  relocs32 :: "u32 list"

definition no_relocs :: relocs where "no_relocs = \<lparr>relocs16 = [], relocs32 = []\<rparr>"

datatype die = Add_reloc_failed | Invalid_relocation bool nat bytes | Unsupported_type nat | Not_elf

definition add_reloc :: "u32 list \<Rightarrow> u32 \<Rightarrow> die + u32 list" where
  "add_reloc r off = (if length r = RELOCS_MAX then Inl Add_reloc_failed else Inr (r @ [off]))"

definition do_reloc :: "elf_rel \<Rightarrow> elf_sym \<Rightarrow> bytes \<Rightarrow> relocs \<Rightarrow> die + relocs" where
  "do_reloc rel sy symname rs =
     (let r_type = ELF32_R_TYPE (r_info rel);
          shn_abs = (st_shndx sy = SHN_ABS \<and> \<not> is_reloc S_REL symname)
      in if r_type = R_386_NONE \<or> r_type = R_386_PC32 then Inr rs
         else if r_type = R_386_16 then
           (if shn_abs then
              (if is_reloc S_ABS symname then Inr rs
               else if is_reloc S_SEG symname
                    then map_sum id (\<lambda>r. rs\<lparr>relocs16 := r\<rparr>) (add_reloc (relocs16 rs) (r_offset rel))
                    else Inl (Invalid_relocation shn_abs r_type symname))
            else if \<not> is_reloc S_LIN symname then Inr rs
                 else Inl (Invalid_relocation shn_abs r_type symname))
         else if r_type = R_386_32 then
           (if shn_abs then
              (if is_reloc S_ABS symname then Inr rs else Inl (Invalid_relocation shn_abs r_type symname))
            else if is_reloc S_REL symname
                 then map_sum id (\<lambda>r. rs\<lparr>relocs32 := r\<rparr>) (add_reloc (relocs32 rs) (r_offset rel))
                 else Inr rs)
         else Inl (Unsupported_type r_type))"

section \<open>The walk\<close>

type_synonym 's process = "elf_rel \<Rightarrow> elf_sym \<Rightarrow> bytes \<Rightarrow> 's \<Rightarrow> die + 's"

text \<open>The entries \<open>js\<close> of one relocation section, then the sections \<open>is\<close> of the file.\<close>

fun walk_entries :: "bytes \<Rightarrow> 's process \<Rightarrow> nat \<Rightarrow> nat \<Rightarrow> nat \<Rightarrow> nat list \<Rightarrow> 's \<Rightarrow> (die + 's) option" where
  "walk_entries file process reltab symtab sym_strtab [] s = Some (Inr s)"
| "walk_entries file process reltab symtab sym_strtab (j # js) s = do {
     rel \<leftarrow> read_rel file (reltab + 8 * j);
     sy \<leftarrow> read_sym file (symtab + 16 * ELF32_R_SYM (r_info rel));
     name \<leftarrow> sym_name file sym_strtab sy;
     case process rel sy name s of
       Inl d \<Rightarrow> Some (Inl d)
     | Inr s \<Rightarrow> walk_entries file process reltab symtab sym_strtab js s }"

fun walk_sections :: "bytes \<Rightarrow> 's process \<Rightarrow> nat list \<Rightarrow> 's \<Rightarrow> (die + 's) option" where
  "walk_sections file process [] s = Some (Inr s)"
| "walk_sections file process (i # is) s = do {
     h \<leftarrow> section_hdr file i;
     if sh_type h \<noteq> SHT_REL then walk_sections file process is s
     else do {
       target \<leftarrow> section_hdr file (sh_info h);
       if \<not> bit (sh_flags target) SHF_ALLOC_bit then walk_sections file process is s
       else do {
         reltab \<leftarrow> get_section file i;
         symtab \<leftarrow> get_section file (sh_link h);
         link \<leftarrow> section_hdr file (sh_link h);
         sym_strtab \<leftarrow> get_section file (sh_link link);
         if sh_entsize h = 0 then None
         else do {
           r \<leftarrow> walk_entries file process reltab symtab sym_strtab [0..<sh_size h div sh_entsize h] s;
           case r of Inl d \<Rightarrow> Some (Inl d) | Inr s \<Rightarrow> walk_sections file process is s } } } }"

definition walk_relocs :: "bytes \<Rightarrow> 's process \<Rightarrow> 's \<Rightarrow> (die + 's) option" where
  "walk_relocs file process s = do { shnum \<leftarrow> e_shnum file; walk_sections file process [0..<shnum] s }"

section \<open>The output\<close>

definition hex_digit :: "nat \<Rightarrow> char" where
  "hex_digit d = ''0123456789abcdef'' ! d"

definition hex8 :: "u32 \<Rightarrow> string" where
  "hex8 w = map (\<lambda>i. hex_digit (unat (drop_bit (4 * i) w AND 15))) [7, 6, 5, 4, 3, 2, 1, 0]"

definition long_line :: "u32 \<Rightarrow> string \<Rightarrow> string" where
  "long_line w rest = CHR 0x09 # ''.long 0x'' @ hex8 w @ rest @ [CHR 0x0A]"

definition print_table :: "string \<Rightarrow> u32 list \<Rightarrow> string" where
  "print_table name r = long_line (of_nat (length r)) (CHR 0x09 # name) @ concat (map (\<lambda>w. long_line w '''') r)"

definition print_relocs :: "relocs \<Rightarrow> string" where
  "print_relocs rs = print_table (''# '' @ [CHR 0x27] @ ''relocs16.count'' @ [CHR 0x27] @ ''.'') (relocs16 rs) @
     print_table (''# '' @ [CHR 0x27] @ ''relocs32.count'' @ [CHR 0x27] @ ''.'') (relocs32 rs)"

text \<open>The comparison is that of the C library of the host.\<close>

definition ELFMAG :: bytes where "ELFMAG = [0x7F, 0x45, 0x4C, 0x46]"

definition relocs_main :: "bytes \<Rightarrow> (die + string) option" where
  "relocs_main file =
    (if length file < 4 then None
     else if take 4 file \<noteq> ELFMAG then Some (Inl Not_elf)
     else do {
       r \<leftarrow> walk_relocs file do_reloc no_relocs;
       Some (map_sum id print_relocs r) })"

section \<open>The walk visits a list of entries\<close>

type_synonym entry = "elf_rel \<times> elf_sym \<times> bytes"

definition collect :: "entry list process" where
  "collect rel sy name acc = Inr (acc @ [(rel, sy, name)])"

lemma collect_eq: "collect rel sy name acc = Inr (acc @ [(rel, sy, name)])"
  by (simp add: collect_def)

fun run_all :: "'s process \<Rightarrow> entry list \<Rightarrow> 's \<Rightarrow> die + 's" where
  "run_all process [] s = Inr s"
| "run_all process ((rel, sy, name) # es) s =
     (case process rel sy name s of Inl d \<Rightarrow> Inl d | Inr s \<Rightarrow> run_all process es s)"

lemma run_all_append:
  "run_all process (es @ fs) s = (case run_all process es s of Inl d \<Rightarrow> Inl d | Inr s \<Rightarrow> run_all process fs s)"
  by (induction process es s rule: run_all.induct) (auto split: sum.splits)

lemma walk_entries_visit:
  assumes "walk_entries file collect reltab symtab strtab js acc = Some (Inr es)"
  shows "\<exists>ds. es = acc @ ds \<and> walk_entries file process reltab symtab strtab js s = Some (run_all process ds s)"
  using assms
proof (induction js arbitrary: acc s)
  case (Cons j js)
  then obtain rel sy name where e: "read_rel file (reltab + 8 * j) = Some rel" "read_sym file (symtab + 16 * ELF32_R_SYM (r_info rel)) = Some sy"
      "sym_name file strtab sy = Some name"
      "(case collect rel sy name acc of Inl d \<Rightarrow> Some (Inl d) | Inr s \<Rightarrow> walk_entries file collect reltab symtab strtab js s) = Some (Inr es)"
    by (auto simp: bind_eq_Some_conv)
  have "walk_entries file collect reltab symtab strtab js (acc @ [(rel, sy, name)]) = Some (Inr es)"
    using e(4) by (subst (asm) collect_eq) simp
  note e = e(1-3) this
  show ?case
  proof (cases "process rel sy name s")
    case (Inl d)
    from Cons.IH [OF e(4)] obtain ds where "es = (acc @ [(rel, sy, name)]) @ ds" by blast
    with e(1-3) Inl show ?thesis by (intro exI [of _ "(rel, sy, name) # ds"]) simp
  next
    case (Inr s')
    from Cons.IH [OF e(4), of s'] obtain ds where "es = (acc @ [(rel, sy, name)]) @ ds"
        "walk_entries file process reltab symtab strtab js s' = Some (run_all process ds s')" by blast
    with e(1-3) Inr show ?thesis by (intro exI [of _ "(rel, sy, name) # ds"]) simp
  qed
qed simp

lemma walk_sections_visit:
  assumes "walk_sections file collect is acc = Some (Inr es)"
  shows "\<exists>ds. es = acc @ ds \<and> walk_sections file process is s = Some (run_all process ds s)"
  using assms
proof (induction "is" arbitrary: acc s)
  case (Cons i "is")
  obtain h where h: "section_hdr file i = Some h" using Cons.prems by (auto simp: bind_eq_Some_conv)
  consider "sh_type h \<noteq> SHT_REL"
    | target where "sh_type h = SHT_REL" "section_hdr file (sh_info h) = Some target" "\<not> bit (sh_flags target) SHF_ALLOC_bit"
    | target where "sh_type h = SHT_REL" "section_hdr file (sh_info h) = Some target" "bit (sh_flags target) SHF_ALLOC_bit"
    using Cons.prems h by (auto simp: bind_eq_Some_conv split: if_splits)
  then show ?case
  proof cases
    case 1
    with Cons.prems Cons.IH [of acc s] h show ?thesis by simp
  next
    case 2
    with Cons.prems Cons.IH [of acc s] h show ?thesis by simp
  next
    case 3
    with Cons.prems h obtain reltab symtab link strtab r where l: "get_section file i = Some reltab" "get_section file (sh_link h) = Some symtab"
        "section_hdr file (sh_link h) = Some link" "get_section file (sh_link link) = Some strtab" "sh_entsize h \<noteq> 0"
        "walk_entries file collect reltab symtab strtab [0..<sh_size h div sh_entsize h] acc = Some r"
        "(case r of Inl d \<Rightarrow> Some (Inl d) | Inr s \<Rightarrow> walk_sections file collect is s) = Some (Inr es)"
      by (auto simp: bind_eq_Some_conv split: if_splits)
    then obtain es1 where es1: "r = Inr es1" "walk_sections file collect is es1 = Some (Inr es)" by (cases r) auto
    obtain ds1 where ds1: "es1 = acc @ ds1"
        "walk_entries file process reltab symtab strtab [0..<sh_size h div sh_entsize h] s = Some (run_all process ds1 s)"
      using walk_entries_visit [OF l(6) [unfolded es1(1)], of process s] by blast
    show ?thesis
    proof (cases "run_all process ds1 s")
      case (Inl d)
      obtain ds2 where "es = es1 @ ds2" using Cons.IH [OF es1(2), of s] by blast
      with Inl ds1 l(1-5) h 3 show ?thesis by (intro exI [of _ "ds1 @ ds2"]) (simp add: run_all_append)
    next
      case (Inr s')
      obtain ds2 where "es = es1 @ ds2" "walk_sections file process is s' = Some (run_all process ds2 s')"
        using Cons.IH [OF es1(2), of s'] by blast
      with Inr ds1 l(1-5) h 3 show ?thesis by (intro exI [of _ "ds1 @ ds2"]) (simp add: run_all_append)
    qed
  qed
qed simp

definition reloc_entries :: "bytes \<Rightarrow> entry list option" where
  "reloc_entries file = (case walk_relocs file collect [] of Some (Inr es) \<Rightarrow> Some es | _ \<Rightarrow> None)"

lemma walk_relocs_visit:
  assumes "reloc_entries file = Some es"
  shows "walk_relocs file process s = Some (run_all process es s)"
  using assms walk_sections_visit [of "file" _ "[]" es process s]
  by (auto simp: reloc_entries_def walk_relocs_def bind_eq_Some_conv split: option.splits sum.splits)

section \<open>What the walk keeps\<close>

fun want16 :: "entry \<Rightarrow> bool" where
  "want16 (rel, sy, name) \<longleftrightarrow> ELF32_R_TYPE (r_info rel) = R_386_16 \<and> st_shndx sy = SHN_ABS \<and> name = chars ''real_mode_seg''"

fun want32 :: "entry \<Rightarrow> bool" where
  "want32 (rel, sy, name) \<longleftrightarrow> ELF32_R_TYPE (r_info rel) = R_386_32 \<and> take 3 name = chars ''pa_''"

text \<open>What the linker must not have left: other relocations, addresses relative to absolute symbols.\<close>

fun refused :: "entry \<Rightarrow> bool" where
  "refused (rel, sy, name) \<longleftrightarrow>
     (let ty = ELF32_R_TYPE (r_info rel); pa = (take 3 name = chars ''pa_'')
      in ty \<notin> {R_386_NONE, R_386_32, R_386_PC32, R_386_16} \<or>
         ty = R_386_16 \<and> (pa \<or> st_shndx sy = SHN_ABS \<and> name \<noteq> chars ''real_mode_seg'') \<or>
         ty = R_386_32 \<and> \<not> pa \<and> st_shndx sy = SHN_ABS)"

definition rel_offset :: "entry \<Rightarrow> u32" where "rel_offset e = r_offset (fst e)"

lemma do_reloc_step:
  "case do_reloc rel sy name rs of
     Inl d \<Rightarrow> refused (rel, sy, name) \<or> want16 (rel, sy, name) \<and> length (relocs16 rs) = 100 \<or> want32 (rel, sy, name) \<and> length (relocs32 rs) = 100
   | Inr rs' \<Rightarrow> \<not> refused (rel, sy, name) \<and>
       (want16 (rel, sy, name) \<longrightarrow> length (relocs16 rs) \<noteq> 100) \<and> (want32 (rel, sy, name) \<longrightarrow> length (relocs32 rs) \<noteq> 100) \<and>
       rs' = \<lparr>relocs16 = relocs16 rs @ (if want16 (rel, sy, name) then [r_offset rel] else []),
              relocs32 = relocs32 rs @ (if want32 (rel, sy, name) then [r_offset rel] else [])\<rparr>"
proof -
  have "take 3 (chars ''real_mode_seg'') \<noteq> chars ''pa_''" by code_simp
  then show ?thesis by (cases rs) (auto simp: do_reloc_def add_reloc_def Let_def)
qed

definition fits :: "relocs \<Rightarrow> entry list \<Rightarrow> bool" where
  "fits rs es \<longleftrightarrow> (\<forall>e \<in> set es. \<not> refused e) \<and>
     length (relocs16 rs) + length (filter want16 es) \<le> 100 \<and> length (relocs32 rs) + length (filter want32 es) \<le> 100"

lemma run_all_do_reloc:
  assumes "length (relocs16 rs) \<le> 100" "length (relocs32 rs) \<le> 100"
  shows "if fits rs es
     then run_all do_reloc es rs = Inr \<lparr>relocs16 = relocs16 rs @ map rel_offset (filter want16 es), relocs32 = relocs32 rs @ map rel_offset (filter want32 es)\<rparr>
     else \<exists>d. run_all do_reloc es rs = Inl d"
  using assms
proof (induction es arbitrary: rs)
  case Nil
  then show ?case by (cases rs) (simp add: fits_def)
next
  case (Cons e es)
  obtain rel sy name where e: "e = (rel, sy, name)" by (cases e) auto
  note st = do_reloc_step [of rel sy name rs]
  show ?case
  proof (cases "do_reloc rel sy name rs")
    case (Inl d)
    with st have "\<not> fits rs (e # es)" using Cons.prems by (auto simp: fits_def e)
    with Inl show ?thesis by (simp add: e)
  next
    case (Inr rs')
    with st have rs': "\<not> refused e" "want16 e \<longrightarrow> length (relocs16 rs) \<noteq> 100" "want32 e \<longrightarrow> length (relocs32 rs) \<noteq> 100"
        "relocs16 rs' = relocs16 rs @ (if want16 e then [rel_offset e] else [])" "relocs32 rs' = relocs32 rs @ (if want32 e then [rel_offset e] else [])"
      by (simp_all add: e rel_offset_def)
    then have "length (relocs16 rs') \<le> 100" "length (relocs32 rs') \<le> 100" using Cons.prems by auto
    note IH = Cons.IH [OF this]
    have "fits rs (e # es) = fits rs' es" using rs' by (auto simp: fits_def)
    moreover have "run_all do_reloc (e # es) rs = run_all do_reloc es rs'" using Inr by (simp add: e)
    ultimately show ?thesis using IH rs'(4,5) by simp
  qed
qed

section \<open>Reading the output\<close>

text \<open>The assembler's reading of the printed text: the numbers behind every \<open>0x\<close>.\<close>

definition hex_digit_val :: "char \<Rightarrow> nat" where
  "hex_digit_val c = (let k = of_char c in if k \<le> 57 then k - 48 else k - 87)"

definition hex_value :: "string \<Rightarrow> u32" where
  "hex_value s = of_nat (foldl (\<lambda>v c. 16 * v + hex_digit_val c) 0 s)"

fun longs :: "string \<Rightarrow> u32 list" where
  "longs [] = []"
| "longs (c # cs) = (if c = CHR ''0'' \<and> take 1 cs = ''x'' then hex_value (take 8 (drop 1 cs)) # longs cs else longs cs)"

lemma hex_digit_value:
  assumes "d < 16"
  shows "hex_digit_val (hex_digit d) = d" "hex_digit d \<noteq> CHR ''x''"
proof -
  have "\<forall>d \<in> set [0..<16]. hex_digit_val (hex_digit d) = d \<and> hex_digit d \<noteq> CHR ''x''" by code_simp
  with assms show "hex_digit_val (hex_digit d) = d" "hex_digit d \<noteq> CHR ''x''" by simp_all
qed

lemma nibble: "unat (drop_bit k (w::u32) AND 15) = unat w div 2 ^ k mod 16"
proof -
  have "drop_bit k w AND 15 = take_bit 4 (drop_bit k w)" by (simp add: take_bit_eq_mask mask_eq_exp_minus_1)
  moreover have "unat (take_bit 4 (drop_bit k w)) = take_bit 4 (unat (drop_bit k w))" by (simp add: unsigned_take_bit_eq)
  moreover have "unat w < 2 ^ 32" using unsigned_less [of w] by simp
  then have "unat (drop_bit k w) = unat w div 2 ^ k" by (simp add: unsigned_drop_bit_eq take_bit_nat_eq_self flip: drop_bit_eq_div)
  ultimately show ?thesis by (simp add: take_bit_eq_mod)
qed

lemma hex8_value: "hex_value (hex8 w) = w"
proof -
  let ?d = "\<lambda>i. unat w div 2 ^ (4 * i) mod 16"
  have h: "hex8 w = map (\<lambda>i. hex_digit (?d i)) [7, 6, 5, 4, 3, 2, 1, 0]" by (simp only: hex8_def nibble)
  have "foldl (\<lambda>v c. 16 * v + hex_digit_val c) 0 (hex8 w) = unat w"
  proof -
    have step: "16 * (x div (16 * p)) + x div p mod 16 = x div p" for x p :: nat
      by (metis div_mult2_eq mult.commute mult_div_mod_eq)
    have "unat w < 2 ^ 32" using unsigned_less [of w] by simp
    then have "unat w div 268435456 mod 16 = unat w div 268435456" by simp
    moreover have "foldl (\<lambda>v c. 16 * v + hex_digit_val c) 0 (hex8 w) =
      268435456 * (unat w div 268435456 mod 16) + 16777216 * (unat w div 16777216 mod 16) + 1048576 * (unat w div 1048576 mod 16) +
      65536 * (unat w div 65536 mod 16) + 4096 * (unat w div 4096 mod 16) + 256 * (unat w div 256 mod 16) + 16 * (unat w div 16 mod 16) + unat w mod 16"
      by (simp add: h hex_digit_value)
    moreover have "16 * (unat w div 256) + unat w div 16 mod 16 = unat w div 16" using step [of "unat w" 16] by simp
    moreover have "16 * (unat w div 4096) + unat w div 256 mod 16 = unat w div 256" using step [of "unat w" 256] by simp
    moreover have "16 * (unat w div 65536) + unat w div 4096 mod 16 = unat w div 4096" using step [of "unat w" 4096] by simp
    moreover have "16 * (unat w div 1048576) + unat w div 65536 mod 16 = unat w div 65536" using step [of "unat w" 65536] by simp
    moreover have "16 * (unat w div 16777216) + unat w div 1048576 mod 16 = unat w div 1048576" using step [of "unat w" 1048576] by simp
    moreover have "16 * (unat w div 268435456) + unat w div 16777216 mod 16 = unat w div 16777216" using step [of "unat w" 16777216] by simp
    moreover have "16 * (unat w div 16) + unat w mod 16 = unat w" by (rule mult_div_mod_eq)
    ultimately show ?thesis by linarith
  qed
  then show ?thesis by (simp add: hex_value_def)
qed

lemma longs_no_x: "CHR ''x'' \<notin> set s \<Longrightarrow> take 1 t \<noteq> ''x'' \<Longrightarrow> longs (s @ t) = longs t"
proof (induction s)
  case (Cons c s)
  have "take 1 (s @ t) \<noteq> ''x''" using Cons.prems by (cases s) auto
  with Cons show ?case by simp
qed simp

lemma longs_long_line:
  assumes "CHR ''x'' \<notin> set rest"
  shows "longs (long_line w rest @ t) = w # longs t"
proof -
  let ?r = "rest @ [CHR 0x0A]"
  have "CHR ''x'' \<noteq> hex_digit (a mod 16)" for a
    using hex_digit_value(2) [of "a mod 16"] by simp
  then have x: "CHR ''x'' \<notin> set (hex8 w @ ?r)" using assms by (simp add: hex8_def nibble)
  have len: "length (hex8 w) = 8" by (simp add: hex8_def)
  have t: "longs (hex8 w @ ?r @ t) = longs t"
  proof -
    have "CHR ''x'' \<notin> set (hex8 w @ rest)" using x by simp
    from longs_no_x [OF this, of "CHR 0x0A # t"] show ?thesis by simp
  qed
  have "longs (long_line w rest @ t) = longs (''0x'' @ hex8 w @ ?r @ t)" by (simp add: long_line_def)
  also have "\<dots> = hex_value (hex8 w) # longs (hex8 w @ ?r @ t)" using len by simp
  finally show ?thesis using t by (simp add: hex8_value)
qed

lemma longs_lines: "longs (concat (map (\<lambda>w. long_line w '''') r) @ t) = r @ longs t"
  by (induction r) (simp_all add: longs_long_line)

lemma longs_print_relocs:
  "longs (print_relocs rs) = of_nat (length (relocs16 rs)) # relocs16 rs @ of_nat (length (relocs32 rs)) # relocs32 rs"
proof -
  have t: "longs (print_table name r @ t) = of_nat (length r) # r @ longs t" if "CHR ''x'' \<notin> set name" for name r t
    using that by (simp add: print_table_def longs_long_line longs_lines)
  have "longs (print_table name r) = of_nat (length r) # r" if "CHR ''x'' \<notin> set name" for name r
    using t [OF that, of r "[]"] by simp
  with t show ?thesis by (simp add: print_relocs_def)
qed

section \<open>Properties\<close>


text \<open>A file with four sections: the one relocated, the symbols, their names, and two relocations.\<close>

definition demo_shdr :: "nat \<Rightarrow> nat \<Rightarrow> nat \<Rightarrow> nat \<Rightarrow> nat \<Rightarrow> nat \<Rightarrow> bytes" where
  "demo_shdr ty fl off sz lk ent =
     le_bytes 4 0 @ le_bytes 4 ty @ le_bytes 4 fl @ le_bytes 4 0 @ le_bytes 4 off @ le_bytes 4 sz @ le_bytes 4 lk @ le_bytes 4 0 @
     le_bytes 4 0 @ le_bytes 4 ent"

definition demo_elf :: bytes where
  "demo_elf = ELFMAG @ replicate 28 0 @ le_bytes 4 52 @ replicate 12 0 @ le_bytes 2 4 @ replicate 2 0 @
     demo_shdr 1 2 0 0 0 0 @ demo_shdr 2 0 212 48 2 16 @ demo_shdr 3 0 260 20 0 0 @ demo_shdr 9 0 280 16 1 8 @
     replicate 16 0 @ le_bytes 4 1 @ replicate 10 0 @ le_bytes 2 0xFFF1 @ le_bytes 4 15 @ replicate 10 0 @ le_bytes 2 1 @
     [0] @ chars ''real_mode_seg'' @ [0] @ chars ''pa_x'' @ [0] @
     le_bytes 4 0x11 @ le_bytes 4 0x114 @ le_bytes 4 0x22 @ le_bytes 4 0x201"

lemmas demo_defs = demo_elf_def demo_shdr_def ELFMAG_def chars_def

lemmas rd_defs = rd_def get_unaligned_le_def le_value_le_bytes

lemma demo_header: "e_shnum demo_elf = Some 4" "e_shoff demo_elf = Some 52"
  by (simp_all add: e_shnum_def e_shoff_def demo_defs rd_defs)

lemma demo_sections: "section_hdr demo_elf 0 = Some \<lparr>sh_type = 1, sh_flags = 2, sh_offset = 0, sh_size = 0, sh_link = 0, sh_info = 0, sh_entsize = 0\<rparr>"
 "section_hdr demo_elf 1 = Some \<lparr>sh_type = 2, sh_flags = 0, sh_offset = 212, sh_size = 48, sh_link = 2, sh_info = 0, sh_entsize = 16\<rparr>"
 "section_hdr demo_elf 2 = Some \<lparr>sh_type = 3, sh_flags = 0, sh_offset = 260, sh_size = 20, sh_link = 0, sh_info = 0, sh_entsize = 0\<rparr>"
 "section_hdr demo_elf 3 = Some \<lparr>sh_type = 9, sh_flags = 0, sh_offset = 280, sh_size = 16, sh_link = 1, sh_info = 0, sh_entsize = 8\<rparr>"
  unfolding section_hdr_def demo_header by (simp_all add: read_shdr_def demo_defs rd_defs)

lemma demo_symbols: "read_rel demo_elf 280 = Some \<lparr>r_offset = 0x11, r_info = 0x114\<rparr>" "read_rel demo_elf 288 = Some \<lparr>r_offset = 0x22, r_info = 0x201\<rparr>"
    "read_sym demo_elf 228 = Some \<lparr>st_name = 1, st_shndx = 0xFFF1\<rparr>" "read_sym demo_elf 244 = Some \<lparr>st_name = 15, st_shndx = 1\<rparr>"
  by (simp_all add: read_rel_def read_sym_def demo_defs rd_defs)

lemma demo_names: "sym_name demo_elf 260 \<lparr>st_name = 1, st_shndx = 0xFFF1\<rparr> = Some (chars ''real_mode_seg'')"
    "sym_name demo_elf 260 \<lparr>st_name = 15, st_shndx = 1\<rparr> = Some (chars ''pa_x'')"
  by (simp_all add: sym_name_def demo_defs)

lemma demo_entries: "reloc_entries demo_elf = Some [(\<lparr>r_offset = 0x11, r_info = 0x114\<rparr>, \<lparr>st_name = 1, st_shndx = 0xFFF1\<rparr>, chars ''real_mode_seg''),
    (\<lparr>r_offset = 0x22, r_info = 0x201\<rparr>, \<lparr>st_name = 15, st_shndx = 1\<rparr>, chars ''pa_x'')]"
proof -
  have "[0..<4] = [0, 1, 2, 3]" "[0..<2] = [0, 1]" by (simp_all add: upt_rec)
  then show ?thesis
    by (simp del: One_nat_def add: reloc_entries_def walk_relocs_def demo_header demo_sections get_section_def ELF32_R_SYM_def demo_symbols demo_names collect_def bit_iff_odd)
qed


end
