(* ===== verification/Pgtable.thy ===== *)
theory Pgtable
  imports Memblock
begin

text \<open>
  Paging: the constants and entry macros of \<open>page_types.h\<close>, \<open>pgtable_types.h\<close>, \<open>pgtable.h\<close> and
  \<open>page.h\<close> under \<open>arch/x86/include/asm\<close>, with the memory types of the page attribute table of
  \<open>arch/x86/ukernel/cache.c\<close>.  An entry of a table is a 64-bit word; the one-field structures that
  keep the levels apart in C are this word.
\<close>

type_synonym pte = u64

section \<open>Addresses (page_types.h, page_types_64.h, page.h)\<close>

definition PAGE_MASK :: u64 where "PAGE_MASK = NOT (4096 - 1)"

abbreviation (input) PGD_SHIFT :: nat where "PGD_SHIFT \<equiv> 39"
abbreviation (input) PUD_SHIFT :: nat where "PUD_SHIFT \<equiv> 30"
abbreviation (input) PMD_SHIFT :: nat where "PMD_SHIFT \<equiv> 21"
abbreviation (input) PTRS_PER_PT :: nat where "PTRS_PER_PT \<equiv> 512"

definition table_index :: "nat \<Rightarrow> u64 \<Rightarrow> nat" where
  "table_index shft a = unat (drop_bit shft a AND (512 - 1))"

definition pte_index :: "u64 \<Rightarrow> nat" where "pte_index a = table_index PAGE_SHIFT a"
definition pmd_index :: "u64 \<Rightarrow> nat" where "pmd_index a = table_index PMD_SHIFT a"
definition pud_index :: "u64 \<Rightarrow> nat" where "pud_index a = table_index PUD_SHIFT a"
definition pgd_index :: "u64 \<Rightarrow> nat" where "pgd_index a = table_index PGD_SHIFT a"

definition PHYSICAL_PAGE_MASK :: u64 where "PHYSICAL_PAGE_MASK = (BIT_UL 52 - 1) AND PAGE_MASK"
definition PHYSICAL_PMD_PAGE_MASK :: u64 where "PHYSICAL_PMD_PAGE_MASK = (BIT_UL 52 - 1) AND NOT (BIT_UL PMD_SHIFT - 1)"
definition PHYSICAL_PUD_PAGE_MASK :: u64 where "PHYSICAL_PUD_PAGE_MASK = (BIT_UL 52 - 1) AND NOT (BIT_UL PUD_SHIFT - 1)"

definition PAGE_OFFSET :: u64 where "PAGE_OFFSET = 0xFFFFFF8000000000"
definition START_KERNEL_map :: u64 where "START_KERNEL_map = 0xFFFFFFFF80000000"

text \<open>\<open>phys_base\<close> is the offset the loader moved the kernel by.\<close>

definition phys_addr :: "u64 \<Rightarrow> u64 \<Rightarrow> u64" where
  "phys_addr phys_base x =
     (let y = x - START_KERNEL_map in y + (if y < x then phys_base else START_KERNEL_map - PAGE_OFFSET))"

definition va :: "u64 \<Rightarrow> u64" where "va x = x + PAGE_OFFSET"

section \<open>Entries (pgtable_types.h, pgtable.h)\<close>

abbreviation (input) PAGE_PRESENT :: u64 where "PAGE_PRESENT \<equiv> 1"
abbreviation (input) PAGE_RW :: u64 where "PAGE_RW \<equiv> 0x2"
abbreviation (input) PAGE_PWT :: u64 where "PAGE_PWT \<equiv> 0x8"
abbreviation (input) PAGE_PCD :: u64 where "PAGE_PCD \<equiv> 0x10"
abbreviation (input) PAGE_ACCESSED :: u64 where "PAGE_ACCESSED \<equiv> 0x20"
abbreviation (input) PAGE_DIRTY :: u64 where "PAGE_DIRTY \<equiv> 0x40"
abbreviation (input) PAGE_PSE :: u64 where "PAGE_PSE \<equiv> 0x80"
abbreviation (input) PAGE_PAT :: u64 where "PAGE_PAT \<equiv> 0x80"
abbreviation (input) PAGE_GLOBAL :: u64 where "PAGE_GLOBAL \<equiv> 0x100"
abbreviation (input) PAGE_XD :: u64 where "PAGE_XD \<equiv> 0x8000000000000000"

definition KERNPG_TABLE :: u64 where "KERNPG_TABLE = PAGE_PRESENT OR PAGE_RW OR PAGE_ACCESSED OR PAGE_DIRTY"
definition PAGE_KERNEL :: u64 where
  "PAGE_KERNEL = PAGE_PRESENT OR PAGE_RW OR PAGE_ACCESSED OR PAGE_XD OR PAGE_DIRTY OR PAGE_GLOBAL"
definition PAGE_KERNEL_LARGE :: u64 where
  "PAGE_KERNEL_LARGE = PAGE_PRESENT OR PAGE_RW OR PAGE_ACCESSED OR PAGE_XD OR PAGE_DIRTY OR PAGE_PSE OR PAGE_GLOBAL"

definition pte_flags :: "pte \<Rightarrow> u64" where "pte_flags x = x AND NOT PHYSICAL_PAGE_MASK"
definition pgd_flags :: "pte \<Rightarrow> u64" where "pgd_flags x = x AND NOT PHYSICAL_PAGE_MASK"

definition pud_pfn_mask :: "pte \<Rightarrow> u64" where
  "pud_pfn_mask pud = (if pud AND PAGE_PSE \<noteq> 0 then PHYSICAL_PUD_PAGE_MASK else PHYSICAL_PAGE_MASK)"
definition pud_flags :: "pte \<Rightarrow> u64" where "pud_flags pud = pud AND NOT (pud_pfn_mask pud)"
definition pmd_pfn_mask :: "pte \<Rightarrow> u64" where
  "pmd_pfn_mask pmd = (if pmd AND PAGE_PSE \<noteq> 0 then PHYSICAL_PMD_PAGE_MASK else PHYSICAL_PAGE_MASK)"
definition pmd_flags :: "pte \<Rightarrow> u64" where "pmd_flags pmd = pmd AND NOT (pmd_pfn_mask pmd)"

text \<open>\<open>supp\<close> is the global \<open>__supported_pte_mask\<close>.\<close>

definition check_pgprot :: "u64 \<Rightarrow> u64 \<Rightarrow> u64" where
  "check_pgprot supp pgprot = (if pgprot AND PAGE_PRESENT \<noteq> 0 then pgprot AND supp else pgprot)"

definition pte_set :: "nat \<Rightarrow> pte \<Rightarrow> pte list \<Rightarrow> pte list" where "pte_set i e tab = tab[i := e]"
definition pte_clear :: "nat \<Rightarrow> pte list \<Rightarrow> pte list" where "pte_clear i tab = pte_set i 0 tab"

datatype page_size = PAGE_SIZE_NONE | PAGE_SIZE_4K | PAGE_SIZE_2M | PAGE_SIZE_1G | PAGE_SIZE_NUM

section \<open>Memory types (cache.c)\<close>

datatype page_cache_mode = MODE_WB | MODE_WT | MODE_UC_MINUS | MODE_UC | MODE_WC | MODE_WP

primrec mode_index :: "page_cache_mode \<Rightarrow> nat" where
  "mode_index MODE_WB = 0"
| "mode_index MODE_WT = 1"
| "mode_index MODE_UC_MINUS = 2"
| "mode_index MODE_UC = 3"
| "mode_index MODE_WC = 4"
| "mode_index MODE_WP = 5"

definition idx_pat2pte :: "nat \<Rightarrow> u64" where
  "idx_pat2pte i = push_bit 5 (of_nat i AND 4) OR push_bit 3 (of_nat i AND 2) OR push_bit 3 (of_nat i AND 1)"

definition pte2pat :: "u64 \<Rightarrow> u64" where
  "pte2pat m = (drop_bit 5 m AND 4) OR (drop_bit 3 m AND 2) OR (drop_bit 3 m AND 1)"

text \<open>The two tables; the first has places for two modes that have no name.\<close>

record cache_state =
  cachemode_to_pte :: "u16 list"
  pat_idx_to_cachemode :: "page_cache_mode list"

definition cache_init :: cache_state where
  "cache_init = \<lparr>cachemode_to_pte = map ucast [idx_pat2pte 0, idx_pat2pte 1, idx_pat2pte 2, idx_pat2pte 3, idx_pat2pte 2, idx_pat2pte 2, 0, 0],
     pat_idx_to_cachemode = [MODE_WB, MODE_WT, MODE_UC_MINUS, MODE_UC, MODE_WB, MODE_WT, MODE_UC_MINUS, MODE_UC]\<rparr>"

definition cachemode2protval :: "cache_state \<Rightarrow> page_cache_mode \<Rightarrow> u64" where
  "cachemode2protval s pcm = (if pcm = MODE_WB then 0 else ucast (cachemode_to_pte s ! mode_index pcm))"

definition PAGE_CACHE_MASK :: u64 where "PAGE_CACHE_MASK = PAGE_PWT OR PAGE_PCD OR PAGE_PAT"

definition pgprot2cachemode :: "cache_state \<Rightarrow> u64 \<Rightarrow> page_cache_mode" where
  "pgprot2cachemode s pgprot =
     (let masked = pgprot AND PAGE_CACHE_MASK
      in if masked = 0 then MODE_WB else pat_idx_to_cachemode s ! unat (pte2pat masked))"

definition update_cache_mode_entry :: "nat \<Rightarrow> page_cache_mode \<Rightarrow> cache_state \<Rightarrow> cache_state option" where
  "update_cache_mode_entry idx cache s =
     (if idx = 0 \<and> cache \<noteq> MODE_WB then None
      else Some (s\<lparr>cachemode_to_pte := (cachemode_to_pte s)[mode_index cache := ucast (idx_pat2pte idx)],
                   pat_idx_to_cachemode := (pat_idx_to_cachemode s)[idx := cache]\<rparr>))"

abbreviation (input) X86_MEMTYPE_UC :: u64 where "X86_MEMTYPE_UC \<equiv> 0"
abbreviation (input) X86_MEMTYPE_WC :: u64 where "X86_MEMTYPE_WC \<equiv> 1"
abbreviation (input) X86_MEMTYPE_WT :: u64 where "X86_MEMTYPE_WT \<equiv> 4"
abbreviation (input) X86_MEMTYPE_WP :: u64 where "X86_MEMTYPE_WP \<equiv> 5"
abbreviation (input) X86_MEMTYPE_WB :: u64 where "X86_MEMTYPE_WB \<equiv> 6"
abbreviation (input) X86_MEMTYPE_UC_MINUS :: u64 where "X86_MEMTYPE_UC_MINUS \<equiv> 7"

definition PAT_VALUE :: "u64 \<Rightarrow> u64 \<Rightarrow> u64 \<Rightarrow> u64 \<Rightarrow> u64 \<Rightarrow> u64 \<Rightarrow> u64 \<Rightarrow> u64 \<Rightarrow> u64" where
  "PAT_VALUE p0 p1 p2 p3 p4 p5 p6 p7 =
     p0 OR push_bit 8 p1 OR push_bit 16 p2 OR push_bit 24 p3 OR push_bit 32 p4 OR push_bit 40 p5 OR
     push_bit 48 p6 OR push_bit 56 p7"

text \<open>The mode and the four characters written to the message.\<close>

definition pat_get_cache_mode :: "u64 \<Rightarrow> page_cache_mode \<times> string" where
  "pat_get_cache_mode pat_val =
     (if pat_val = X86_MEMTYPE_UC then (MODE_UC, ''UC  '')
      else if pat_val = X86_MEMTYPE_WC then (MODE_WC, ''WC  '')
      else if pat_val = X86_MEMTYPE_WT then (MODE_WT, ''WT  '')
      else if pat_val = X86_MEMTYPE_WP then (MODE_WP, ''WP  '')
      else if pat_val = X86_MEMTYPE_WB then (MODE_WB, ''WB  '')
      else if pat_val = X86_MEMTYPE_UC_MINUS then (MODE_UC_MINUS, ''UC- '')
      else (MODE_WB, ''WB  ''))"

text \<open>The loop over the slots, with the slots that are left; the message is returned.\<close>

fun init_modes_loop :: "u64 \<Rightarrow> nat list \<Rightarrow> cache_state \<times> string \<Rightarrow> (cache_state \<times> string) option" where
  "init_modes_loop pat [] s = Some s"
| "init_modes_loop pat (i # is) (s, pat_msg) =
     do {
       let (cache, cache_mode) = pat_get_cache_mode (drop_bit (i * 8) pat AND 7);
       s \<leftarrow> update_cache_mode_entry i cache s;
       init_modes_loop pat is (s, pat_msg @ cache_mode) }"

definition init_cache_modes :: "u64 \<Rightarrow> cache_state \<Rightarrow> (cache_state \<times> string) option" where
  "init_cache_modes pat s = init_modes_loop pat [0..<8] (s, '''')"

definition pat_msr_val :: u64 where
  "pat_msr_val = PAT_VALUE X86_MEMTYPE_WB X86_MEMTYPE_WC X86_MEMTYPE_UC_MINUS X86_MEMTYPE_UC
     X86_MEMTYPE_WB X86_MEMTYPE_WP X86_MEMTYPE_UC_MINUS X86_MEMTYPE_WT"

definition pat_bp_init :: "cache_state \<Rightarrow> (cache_state \<times> string) option" where
  "pat_bp_init s = init_cache_modes pat_msr_val s"

text \<open>
  The model-specific registers are written and read in order: \<open>mtrr_cpu_init\<close> turns the memory
  type ranges off, then \<open>pat_cpu_init\<close> programs the attribute table; both flush.
\<close>

datatype msr_event = Rdmsr u64 | Wrmsr u64 u64 | Wbinvd | Flush_all

definition mtrr_cpu_init :: "(u64 \<Rightarrow> u64) \<Rightarrow> msr_event list" where
  "mtrr_cpu_init rdmsrl = [Rdmsr 0x2FF, Wrmsr 0x2FF (rdmsrl 0x2FF AND NOT (0xFF OR (0x400 OR 0x800))), Wbinvd, Flush_all]"

definition pat_cpu_init :: "u64 \<Rightarrow> msr_event list" where
  "pat_cpu_init pat = [Wrmsr 0x277 pat, Flush_all]"

definition cache_bp_init :: "(u64 \<Rightarrow> u64) \<Rightarrow> cache_state \<Rightarrow> ((cache_state \<times> string) \<times> msr_event list) option" where
  "cache_bp_init rdmsrl s =
     do {
       s \<leftarrow> pat_bp_init s;
       Some (s, mtrr_cpu_init rdmsrl @ pat_cpu_init pat_msr_val) }"

section \<open>Addresses as numbers\<close>

lemma table_index_nat: "table_index k a = unat a div 2 ^ k mod 512"
proof -
  have "drop_bit k a AND (512 - 1) = take_bit 9 (drop_bit k a)"
    by (simp add: take_bit_eq_mask mask_eq_exp_minus_1)
  moreover have "unat (take_bit 9 (drop_bit k a)) = take_bit 9 (unat (drop_bit k a))"
    by (simp add: unsigned_take_bit_eq)
  moreover have "unat (drop_bit k a) = unat a div 2 ^ k"
    using unat_u64_lt [of a] by (simp add: unsigned_drop_bit_eq take_bit_nat_eq_self flip: drop_bit_eq_div)
  ultimately show ?thesis by (simp add: table_index_def take_bit_eq_mod)
qed

lemma PAGE_MASK_not: "PAGE_MASK = NOT (mask 12)" "NOT PAGE_MASK = mask 12"
  by (simp_all add: PAGE_MASK_def mask_eq_exp_minus_1)

lemma page_floor: "unat (x AND PAGE_MASK) = 4096 * (unat x div 4096)"
  using and_not_mask_unat [of x 12] by (simp add: PAGE_MASK_not)

lemma page_offset: "unat (x AND NOT PAGE_MASK) = unat x mod 4096"
proof -
  have "x AND NOT PAGE_MASK = take_bit 12 x" by (simp only: PAGE_MASK_not(2) take_bit_eq_mask)
  moreover have "unat (take_bit 12 x) = take_bit 12 (unat x)" by (simp add: unsigned_take_bit_eq)
  ultimately show ?thesis by (simp add: take_bit_eq_mod)
qed

lemma word_dvd_and_mask: "2 ^ k dvd unat (x::u64) \<Longrightarrow> x AND NOT (mask k) = x"
proof (rule word_unat_eq_iff [THEN iffD2])
  assume "2 ^ k dvd unat x"
  then show "unat (x AND NOT (mask k)) = unat x" by (simp add: and_not_mask_unat)
qed

lemma low_bits_and: "unat (x::u64) < 2 ^ k \<Longrightarrow> k \<le> 64 \<Longrightarrow> x AND mask k = x"
proof -
  assume "unat x < 2 ^ k" "k \<le> 64"
  then have "take_bit k x = x" by (intro word_unat_eq_iff [THEN iffD2]) (simp add: unsigned_take_bit_eq take_bit_nat_eq_self_iff)
  then show ?thesis by (simp add: take_bit_eq_mask)
qed

text \<open>A page frame below the supported width passes the mask of an entry unchanged.\<close>

lemma frame_and_mask:
  assumes "unat x < 2 ^ 52" "4096 dvd unat x"
  shows "x AND PHYSICAL_PAGE_MASK = x" "x AND PAGE_MASK = x"
proof -
  have "x AND mask 52 = x" by (rule low_bits_and) (use assms(1) in simp_all)
  moreover show "x AND PAGE_MASK = x" using word_dvd_and_mask [of 12 x] assms(2) by (simp add: PAGE_MASK_not)
  ultimately show "x AND PHYSICAL_PAGE_MASK = x"
    by (simp add: PHYSICAL_PAGE_MASK_def BIT_UL_def mask_eq_exp_minus_1 push_bit_eq_mult flip: and.assoc)
qed

lemma entry_parts:
  fixes x p m :: u64
  assumes "x AND m = x" "p AND m = 0"
  shows "(x OR p) AND m = x" "(x OR p) AND NOT m = p"
proof -
  show "(x OR p) AND m = x" using assms by (simp add: and.commute [of _ m] bit.conj_disj_distrib)
  have x: "bit m k" if "bit x k" for k using that assms(1) by (metis bit_and_iff)
  have p: "\<not> bit m k" if "bit p k" for k using that assms(2) by (metis bit_and_iff bit_0_eq bot_apply bot_bool_def)
  show "(x OR p) AND NOT m = p"
    by (rule bit_word_eqI) (auto simp: bit_and_iff bit_or_iff bit_not_iff dest: x p)
qed

section \<open>The table of memory types follows the register\<close>

definition pat_mode :: "u64 \<Rightarrow> nat \<Rightarrow> page_cache_mode" where
  "pat_mode pat i = fst (pat_get_cache_mode (drop_bit (i * 8) pat AND 7))"

lemma mode_index_lt [bounds]: "mode_index m < 8"
  by (cases m) simp_all

lemma mode_index_inject [simp]: "mode_index a = mode_index b \<longleftrightarrow> a = b"
  by (cases a; cases b) simp_all

text \<open>The bits of a slot, through the 16-bit table and the mask, give the slot back.\<close>

lemma pat_slot_roundtrip:
  assumes "i < 8"
  shows "unat (pte2pat (ucast (ucast (idx_pat2pte i) :: u16))) = i"
    "(ucast (ucast (idx_pat2pte i) :: u16) :: u64) AND PAGE_CACHE_MASK = ucast (ucast (idx_pat2pte i) :: u16)"
    "(ucast (ucast (idx_pat2pte i) :: u16) :: u64) = 0 \<longleftrightarrow> i = 0"
proof -
  have "\<forall>i \<in> set [0..<8]. unat (pte2pat (ucast (ucast (idx_pat2pte i) :: u16))) = i \<and>
      (ucast (ucast (idx_pat2pte i) :: u16) :: u64) AND PAGE_CACHE_MASK = ucast (ucast (idx_pat2pte i) :: u16) \<and>
      ((ucast (ucast (idx_pat2pte i) :: u16) :: u64) = 0 \<longleftrightarrow> i = 0)"
    by code_simp
  with assms show "unat (pte2pat (ucast (ucast (idx_pat2pte i) :: u16))) = i"
    "(ucast (ucast (idx_pat2pte i) :: u16) :: u64) AND PAGE_CACHE_MASK = ucast (ucast (idx_pat2pte i) :: u16)"
    "(ucast (ucast (idx_pat2pte i) :: u16) :: u64) = 0 \<longleftrightarrow> i = 0" by auto
qed

text \<open>After \<open>k\<close> slots both tables describe them.\<close>

definition modes_upto :: "u64 \<Rightarrow> nat \<Rightarrow> cache_state \<Rightarrow> bool" where
  "modes_upto pat k s \<longleftrightarrow> length (cachemode_to_pte s) = 8 \<and> length (pat_idx_to_cachemode s) = 8 \<and>
     (\<forall>i < k. pat_idx_to_cachemode s ! i = pat_mode pat i) \<and>
     (\<forall>i < k. \<exists>j < k. pat_mode pat j = pat_mode pat i \<and> i \<le> j \<and> cachemode_to_pte s ! mode_index (pat_mode pat i) = ucast (idx_pat2pte j))"

lemma update_modes_upto:
  assumes "modes_upto pat k s" "k < 8" "k = 0 \<longrightarrow> pat_mode pat 0 = MODE_WB"
  shows "\<exists>s'. update_cache_mode_entry k (pat_mode pat k) s = Some s' \<and> modes_upto pat (Suc k) s'"
proof -
  let ?s = "s\<lparr>cachemode_to_pte := (cachemode_to_pte s)[mode_index (pat_mode pat k) := ucast (idx_pat2pte k)],
     pat_idx_to_cachemode := (pat_idx_to_cachemode s)[k := pat_mode pat k]\<rparr>"
  have "\<exists>j < Suc k. pat_mode pat j = pat_mode pat i \<and> i \<le> j \<and> cachemode_to_pte ?s ! mode_index (pat_mode pat i) = ucast (idx_pat2pte j)"
    if "i < Suc k" for i
  proof (cases "pat_mode pat i = pat_mode pat k")
    case True
    then show ?thesis using assms(1) that by (intro exI [of _ k]) (simp add: modes_upto_def mode_index_lt)
  next
    case False
    then have "i < k" using that by (metis less_SucE)
    with assms(1) obtain j where "j < k" "pat_mode pat j = pat_mode pat i" "i \<le> j"
        "cachemode_to_pte s ! mode_index (pat_mode pat i) = ucast (idx_pat2pte j)"
      by (auto simp: modes_upto_def)
    with False show ?thesis by (intro exI [of _ j]) simp
  qed
  then have "modes_upto pat (Suc k) ?s"
    using assms(1,2) by (auto simp: modes_upto_def less_Suc_eq nth_list_update)
  with assms(3) show ?thesis by (cases k) (auto simp: update_cache_mode_entry_def)
qed

lemma init_modes_loop_ok:
  assumes "modes_upto pat k s" "k + d = 8" "pat_mode pat 0 = MODE_WB"
  shows "\<exists>s' msg'. init_modes_loop pat [k..<8] (s, msg) = Some (s', msg') \<and> modes_upto pat 8 s'"
  using assms
proof (induction d arbitrary: k s msg)
  case (Suc d)
  then obtain s1 where s1: "update_cache_mode_entry k (pat_mode pat k) s = Some s1" "modes_upto pat (Suc k) s1"
    using update_modes_upto [of pat k s] by auto
  obtain t where t: "pat_get_cache_mode (drop_bit (k * 8) pat AND 7) = (pat_mode pat k, t)"
    by (cases "pat_get_cache_mode (drop_bit (k * 8) pat AND 7)") (simp add: pat_mode_def)
  have "[k..<8] = k # [Suc k..<8]" using Suc.prems(2) by (simp add: upt_conv_Cons)
  with s1 t Suc.IH [of "Suc k" s1 "msg @ t"] Suc.prems show ?case by simp
qed simp

lemma init_cache_modes_ok:
  assumes "length (cachemode_to_pte s) = 8" "length (pat_idx_to_cachemode s) = 8" "pat_mode pat 0 = MODE_WB"
  shows "\<exists>s' msg. init_cache_modes pat s = Some (s', msg) \<and> modes_upto pat 8 s'"
  using init_modes_loop_ok [of pat 0 s 8 "''''"] assms by (simp add: init_cache_modes_def modes_upto_def)

lemma modes_upto_protval:
  assumes "modes_upto pat 8 s" "pat_mode pat 0 = MODE_WB" "i < 8"
  shows "pat_mode pat (unat (pte2pat (cachemode2protval s (pat_mode pat i)))) = pat_mode pat i"
    "pgprot2cachemode s (cachemode2protval s (pat_mode pat i)) = pat_mode pat i"
    "pat_mode pat i \<noteq> MODE_WB \<longrightarrow> i \<le> unat (pte2pat (cachemode2protval s (pat_mode pat i)))"
proof -
  have "pat_mode pat (unat (pte2pat (cachemode2protval s (pat_mode pat i)))) = pat_mode pat i \<and>
     (pat_mode pat i \<noteq> MODE_WB \<longrightarrow> i \<le> unat (pte2pat (cachemode2protval s (pat_mode pat i)))) \<and>
     pgprot2cachemode s (cachemode2protval s (pat_mode pat i)) = pat_mode pat i"
  proof (cases "pat_mode pat i = MODE_WB")
    case True
    have "unat (pte2pat 0) = 0" by (simp add: pte2pat_def)
    with True assms(2) show ?thesis by (simp add: cachemode2protval_def pgprot2cachemode_def)
  next
    case False
    obtain j where j: "j < 8" "pat_mode pat j = pat_mode pat i" "i \<le> j"
        "cachemode_to_pte s ! mode_index (pat_mode pat i) = ucast (idx_pat2pte j)"
      using assms(1,3) by (auto simp: modes_upto_def)
    with False assms(2) have "j \<noteq> 0" by metis
    with False j assms(1) show ?thesis
      by (simp add: cachemode2protval_def pgprot2cachemode_def pat_slot_roundtrip modes_upto_def Let_def)
  qed
  then show "pat_mode pat (unat (pte2pat (cachemode2protval s (pat_mode pat i)))) = pat_mode pat i"
    "pgprot2cachemode s (cachemode2protval s (pat_mode pat i)) = pat_mode pat i"
    "pat_mode pat i \<noteq> MODE_WB \<longrightarrow> i \<le> unat (pte2pat (cachemode2protval s (pat_mode pat i)))" by blast+
qed

text \<open>
  Whatever the attribute table is programmed with, as long as its slot 0 is write back, \<open>init_cache_modes\<close>
  returns and the protection bits \<open>cachemode2protval\<close> then gives for a mode in the table select a slot of
  the table with that mode, the last one unless it is write back, and \<open>pgprot2cachemode\<close> reads them back.
  The value \<open>pat_bp_init\<close> programs holds every mode.
\<close>

theorem init_cache_modes_correct:
  assumes "length (cachemode_to_pte s) = 8" "length (pat_idx_to_cachemode s) = 8" "pat_mode pat 0 = MODE_WB"
  shows "\<exists>s' msg. init_cache_modes pat s = Some (s', msg) \<and>
     (\<forall>i < 8. pat_mode pat (unat (pte2pat (cachemode2protval s' (pat_mode pat i)))) = pat_mode pat i \<and>
        (pat_mode pat i \<noteq> MODE_WB \<longrightarrow> i \<le> unat (pte2pat (cachemode2protval s' (pat_mode pat i)))) \<and>
        pgprot2cachemode s' (cachemode2protval s' (pat_mode pat i)) = pat_mode pat i) \<and>
     (pat = pat_msr_val \<longrightarrow> pat_mode pat ` {..<8} = UNIV)"
proof -
  have "map (pat_mode pat_msr_val) [0..<8] = [MODE_WB, MODE_WC, MODE_UC_MINUS, MODE_UC, MODE_WB, MODE_WP, MODE_UC_MINUS, MODE_WT]"
    by code_simp
  then have "pat_mode pat_msr_val ` {..<8} = {MODE_WB, MODE_WC, MODE_UC_MINUS, MODE_UC, MODE_WP, MODE_WT}"
    by (auto simp: lessThan_atLeast0 simp flip: set_upt set_map)
  moreover have "\<dots> = UNIV" using page_cache_mode.exhaust by auto
  ultimately show ?thesis using init_cache_modes_ok [OF assms] modes_upto_protval [OF _ assms(3)] by metis
qed

theorem init_cache_modes_correct_witness:
  "\<exists>s' msg. pat_bp_init cache_init = Some (s', msg) \<and> pgprot2cachemode s' (cachemode2protval s' (pat_mode pat_msr_val 5)) = MODE_WP"
proof -
  have "pat_mode pat_msr_val 0 = MODE_WB" "pat_mode pat_msr_val 5 = MODE_WP" by code_simp+
  moreover have "length (cachemode_to_pte cache_init) = 8" "length (pat_idx_to_cachemode cache_init) = 8" by (simp_all add: cache_init_def)
  ultimately obtain s' msg where "init_cache_modes pat_msr_val cache_init = Some (s', msg)"
      "\<forall>i < 8. pgprot2cachemode s' (cachemode2protval s' (pat_mode pat_msr_val i)) = pat_mode pat_msr_val i"
    using init_cache_modes_correct [of cache_init pat_msr_val] by blast
  moreover from this(2) have "pgprot2cachemode s' (cachemode2protval s' (pat_mode pat_msr_val 5)) = pat_mode pat_msr_val 5" by simp
  ultimately show ?thesis using \<open>pat_mode pat_msr_val 5 = MODE_WP\<close> by (simp add: pat_bp_init_def)
qed

end
