(* ===== verification/Ioremap.thy ===== *)
theory Ioremap
  imports Pgtable
begin

text \<open>
  The fixed mappings of \<open>arch/x86/ukernel/ioremap.c\<close> and \<open>asm/fixmap.h\<close>: permanent slots below
  \<open>FIX_BITMAP_END\<close> and, for the time of the boot, a window of 512 pages of which \<open>ioremap\<close> hands out
  consecutive ones.  The state is the array \<open>mapping\<close>, the two tables \<open>level1_fixmap_pgt\<close> and the pages
  flushed from the TLB, latest first.  A failed \<open>assert\<close>, which stops the machine, an access outside
  an array and a search that never returns are \<open>None\<close>.
\<close>

section \<open>Model\<close>

abbreviation (input) FIX_BITMAP_END :: nat where "FIX_BITMAP_END \<equiv> 512"
abbreviation (input) FIX_BITMAP_BEGIN :: nat where "FIX_BITMAP_BEGIN \<equiv> 1023"
abbreviation (input) TOTAL_FIX_BITMAPS :: nat where "TOTAL_FIX_BITMAPS \<equiv> 512"

definition FIX_TOP_ADDR :: u64 where "FIX_TOP_ADDR = - 1 - PAGE_SIZE + 1"

definition fix_to_virt :: "nat \<Rightarrow> u64" where
  "fix_to_virt x = FIX_TOP_ADDR - push_bit PAGE_SHIFT (of_nat x)"

definition virt_to_fix :: "u64 \<Rightarrow> nat" where
  "virt_to_fix x = unat (drop_bit PAGE_SHIFT (FIX_TOP_ADDR - (x AND PAGE_MASK)))"

record fixmaps =
  mapping :: "int list"
  level1_fixmap0 :: "pte list"
  level1_fixmap1 :: "pte list"
  flushed :: "u64 list"

definition fixmaps_init :: fixmaps where
  "fixmaps_init = \<lparr>mapping = replicate TOTAL_FIX_BITMAPS (- 1), level1_fixmap0 = replicate PTRS_PER_PT 0,
     level1_fixmap1 = replicate PTRS_PER_PT 0, flushed = []\<rparr>"

definition set_fixmap_entry :: "u64 \<Rightarrow> nat \<Rightarrow> u64 \<Rightarrow> u64 \<Rightarrow> pte list \<Rightarrow> pte list" where
  "set_fixmap_entry supp i phys prot tab =
     (let pgprot = prot AND supp
      in if pgprot \<noteq> 0 then pte_set i (phys AND PAGE_MASK OR pgprot) tab else pte_clear i tab)"

definition set_fixmap :: "u64 \<Rightarrow> nat \<Rightarrow> u64 \<Rightarrow> u64 \<Rightarrow> fixmaps \<Rightarrow> fixmaps option" where
  "set_fixmap supp idx phys prot s =
     (if \<not> (0 < idx \<and> idx < FIX_BITMAP_END) then None
      else let address = fix_to_virt idx
           in Some (s\<lparr>level1_fixmap1 := set_fixmap_entry supp (pte_index address) phys prot (level1_fixmap1 s),
                      flushed := address # flushed s\<rparr>))"

definition set_fixmap_tmp :: "u64 \<Rightarrow> nat \<Rightarrow> u64 \<Rightarrow> u64 \<Rightarrow> fixmaps \<Rightarrow> fixmaps option" where
  "set_fixmap_tmp supp idx phys prot s =
     (if \<not> (FIX_BITMAP_END \<le> idx \<and> idx \<le> FIX_BITMAP_BEGIN) then None
      else let address = fix_to_virt idx
           in Some (s\<lparr>level1_fixmap0 := set_fixmap_entry supp (pte_index address) phys prot (level1_fixmap0 s),
                      flushed := address # flushed s\<rparr>))"

text \<open>
  The search: \<open>Some None\<close> is the return of -1, \<open>Some (Some start)\<close> a place.  The bound of the code is
  one too large, so that the array can be read behind its end.
\<close>

partial_function (option) free_range_loop :: "int list \<Rightarrow> int \<Rightarrow> int \<Rightarrow> nat \<Rightarrow> nat \<Rightarrow> nat option option" where
  "free_range_loop mp nrpages c i start =
     (if \<not> c < nrpages then Some (Some start)
      else if TOTAL_FIX_BITMAPS < i then Some None
      else if \<not> i < length mp then None
      else if mp ! i \<noteq> - 1 then free_range_loop mp nrpages 0 (nat (int i + mp ! i)) (nat (int i + mp ! i))
      else free_range_loop mp nrpages (c + 1) (i + 1) start)"

definition find_free_range :: "int \<Rightarrow> int list \<Rightarrow> (nat option \<times> int list) option" where
  "find_free_range nrpages mp =
     (case free_range_loop mp nrpages 0 0 0 of
        None \<Rightarrow> None
      | Some None \<Rightarrow> Some (None, mp)
      | Some (Some start) \<Rightarrow> if start < length mp then Some (Some (FIX_BITMAP_BEGIN - start), mp[start := nrpages]) else None)"

text \<open>The loop that sets \<open>nrpages\<close> entries from slot \<open>i\<close> downwards, and the one that clears them.\<close>

fun map_slots :: "u64 \<Rightarrow> nat \<Rightarrow> nat \<Rightarrow> u64 \<Rightarrow> u64 \<Rightarrow> fixmaps \<Rightarrow> fixmaps option" where
  "map_slots supp 0 i phys prot s = Some s"
| "map_slots supp (Suc nrpages) i phys prot s =
     do {
       s \<leftarrow> set_fixmap_tmp supp i phys prot s;
       map_slots supp nrpages (i - 1) (phys + PAGE_SIZE) prot s }"

fun unmap_slots :: "u64 \<Rightarrow> nat \<Rightarrow> nat \<Rightarrow> fixmaps \<Rightarrow> fixmaps option" where
  "unmap_slots supp 0 i s = Some s"
| "unmap_slots supp (Suc nrpages) i s =
     do {
       s \<leftarrow> set_fixmap_tmp supp i 0 0 s;
       unmap_slots supp nrpages (i - 1) s }"

definition offset_in_page :: "u64 \<Rightarrow> u64" where "offset_in_page p = p AND NOT PAGE_MASK"
definition PAGE_ALIGN :: "u64 \<Rightarrow> u64" where "PAGE_ALIGN a = ALIGN_KERNEL a PAGE_SIZE"

text \<open>\<open>nrpages\<close> is an unsigned int.\<close>

definition ioremap_pages :: "u64 \<Rightarrow> u64 \<Rightarrow> u32" where
  "ioremap_pages phys sz = ucast (drop_bit PAGE_SHIFT (PAGE_ALIGN (phys + sz) - (phys AND PAGE_MASK)))"

definition ioremap_prot :: "u64 \<Rightarrow> u64 \<Rightarrow> u64 \<Rightarrow> u64 \<Rightarrow> fixmaps \<Rightarrow> (u64 option \<times> fixmaps) option" where
  "ioremap_prot supp phys sz prot s =
     (if sz = 0 then Some (None, s)
      else let offset = offset_in_page phys; nrpages = ioremap_pages phys sz
           in if of_nat TOTAL_FIX_BITMAPS < nrpages then Some (None, s)
              else do {
                (slot, mp) \<leftarrow> find_free_range (int (unat nrpages)) (mapping s);
                let s = s\<lparr>mapping := mp\<rparr>;
                case slot of
                  None \<Rightarrow> Some (None, s)
                | Some slot \<Rightarrow> do {
                    s \<leftarrow> map_slots supp (unat nrpages) slot (phys AND PAGE_MASK) prot s;
                    Some (Some (fix_to_virt slot + offset), s) } })"

definition ioremap :: "cache_state \<Rightarrow> u64 \<Rightarrow> u64 \<Rightarrow> u64 \<Rightarrow> fixmaps \<Rightarrow> (u64 option \<times> fixmaps) option" where
  "ioremap cs supp phys sz s = ioremap_prot supp phys sz (PAGE_KERNEL OR cachemode2protval cs MODE_UC) s"

definition memremap :: "u64 \<Rightarrow> u64 \<Rightarrow> u64 \<Rightarrow> fixmaps \<Rightarrow> (u64 option \<times> fixmaps) option" where
  "memremap supp phys sz s = ioremap_prot supp phys sz PAGE_KERNEL s"

definition iounmap :: "u64 \<Rightarrow> u64 \<Rightarrow> u64 \<Rightarrow> fixmaps \<Rightarrow> fixmaps option" where
  "iounmap supp addr sz s =
     (if addr = 0 then Some s
      else if addr < fix_to_virt FIX_BITMAP_BEGIN \<or> fix_to_virt FIX_BITMAP_END < addr then Some s
      else let slot = virt_to_fix addr;
               nrpages = (ucast (drop_bit PAGE_SHIFT (PAGE_ALIGN (offset_in_page addr + sz))) :: u32);
               start = FIX_BITMAP_BEGIN - slot
           in if \<not> (slot \<le> FIX_BITMAP_BEGIN \<and> start < length (mapping s)) then None
              else if (of_int (mapping s ! start) :: u32) \<noteq> nrpages then Some s
              else do {
                s \<leftarrow> unmap_slots supp (unat nrpages) slot s;
                Some (s\<lparr>mapping := (mapping s)[start := - 1]\<rparr>) })"

definition memunmap :: "u64 \<Rightarrow> u64 \<Rightarrow> u64 \<Rightarrow> fixmaps \<Rightarrow> fixmaps option" where
  "memunmap supp addr sz s = iounmap supp addr sz s"

section \<open>The search\<close>

declare free_range_loop.simps [code]

text \<open>Reservations do not overlap and end inside the window; a page is taken when one covers it.\<close>

definition mapping_ok :: "int list \<Rightarrow> bool" where
  "mapping_ok mp \<longleftrightarrow> length mp = 512 \<and>
     (\<forall>i < 512. mp ! i \<noteq> - 1 \<longrightarrow> 1 \<le> mp ! i \<and> int i + mp ! i \<le> 512 \<and> (\<forall>j. i < j \<and> int j < int i + mp ! i \<longrightarrow> mp ! j = - 1))"

definition taken :: "int list \<Rightarrow> nat \<Rightarrow> bool" where
  "taken mp a \<longleftrightarrow> (\<exists>i < 512. mp ! i \<noteq> - 1 \<and> i \<le> a \<and> int a < int i + mp ! i)"

definition room :: "int list \<Rightarrow> nat \<Rightarrow> nat \<Rightarrow> bool" where
  "room mp k a \<longleftrightarrow> a + k \<le> 512 \<and> (\<forall>b. a \<le> b \<and> b < a + k \<longrightarrow> \<not> taken mp b)"

lemma mapping_init_ok: "mapping_ok (replicate 512 (- 1))" "\<not> taken (replicate 512 (- 1)) a"
  by (auto simp: mapping_ok_def taken_def)

lemma mapping_okD:
  assumes "mapping_ok mp" "i < 512" "mp ! i \<noteq> - 1"
  shows "1 \<le> mp ! i" "int i + mp ! i \<le> 512" "i < j \<Longrightarrow> int j < int i + mp ! i \<Longrightarrow> mp ! j = - 1"
  using assms unfolding mapping_ok_def by metis+

lemma takenI: "i < 512 \<Longrightarrow> mp ! i \<noteq> - 1 \<Longrightarrow> i \<le> a \<Longrightarrow> int a < int i + mp ! i \<Longrightarrow> taken mp a"
  unfolding taken_def by blast

lemma takenE:
  assumes "taken mp a"
  obtains i where "i < 512" "mp ! i \<noteq> - 1" "i \<le> a" "int a < int i + mp ! i"
  using assms unfolding taken_def by blast

lemma taken_lt: "taken mp a \<Longrightarrow> mapping_ok mp \<Longrightarrow> a < 512"
  using mapping_okD(2) by (force elim!: takenE)

lemma free_range_loop_ok:
  assumes "mapping_ok mp" "0 < k" "start + c = i" "c < k" "i \<le> 512"
    and "\<forall>b. start \<le> b \<and> b < i \<longrightarrow> \<not> taken mp b"
    and "\<forall>j < i. mp ! j \<noteq> - 1 \<longrightarrow> int j + mp ! j \<le> int i"
  shows "free_range_loop mp (int k) (int c) i start =
     (if \<exists>a \<ge> start. room mp k a then Some (Some (LEAST a. start \<le> a \<and> room mp k a)) else None)"
  using assms
proof (induction "512 - i" arbitrary: i c start rule: less_induct)
  case less
  have len: "length mp = 512" using less.prems(1) by (simp add: mapping_ok_def)
  show ?case
  proof (cases "i = 512")
    case True
    have "\<not> room mp k a" if "start \<le> a" for a
      using that less.prems(3,4) True by (simp add: room_def)
    with True len less.prems(4) show ?thesis by (subst free_range_loop.simps) auto
  next
    case False
    then have i: "i < 512" using less.prems(5) by simp
    show ?thesis
    proof (cases "mp ! i = - 1")
      case True
      have free: "\<not> taken mp i"
      proof
        assume "taken mp i"
        then obtain j where j: "j < 512" "mp ! j \<noteq> - 1" "j \<le> i" "int i < int j + mp ! j" by (auto simp: taken_def)
        with True have "j < i" by (metis le_neq_implies_less)
        with less.prems(7) j show False by force
      qed
      then have upto: "\<forall>b. start \<le> b \<and> b < i + 1 \<longrightarrow> \<not> taken mp b"
        using less.prems(6) by (metis Suc_eq_plus1 less_antisym)
      have step: "free_range_loop mp (int k) (int c) i start = free_range_loop mp (int k) (int (c + 1)) (i + 1) start"
        using i len True less.prems(4) by (subst free_range_loop.simps) (simp add: add.commute)
      show ?thesis
      proof (cases "c + 1 = k")
        case full: True
        then have r: "room mp k start" using upto less.prems(3) i by (simp add: room_def)
        then have "(LEAST a. start \<le> a \<and> room mp k a) = start" by (intro Least_equality) auto
        moreover have "free_range_loop mp (int k) (int (c + 1)) (i + 1) start = Some (Some start)"
          using full by (subst free_range_loop.simps) simp
        ultimately show ?thesis using r step by auto
      next
        case False
        have "\<forall>j < i + 1. mp ! j \<noteq> - 1 \<longrightarrow> int j + mp ! j \<le> int (i + 1)"
          using less.prems(7) True by (metis Suc_eq_plus1 int_ops(4) le_add1 less_antisym of_nat_le_iff order_trans plus_1_eq_Suc)
        then show ?thesis
          using step less.hyps [of "i + 1" start "c + 1"] less.prems i upto False by simp
      qed
    next
      case False
      define i' where "i' = nat (int i + mp ! i)"
      have m: "1 \<le> mp ! i" "int i + mp ! i \<le> 512" using mapping_okD [OF less.prems(1) i False] by blast+
      then have i': "int i' = int i + mp ! i" "i < i'" "i' \<le> 512" by (simp_all add: i'_def)
      have step: "free_range_loop mp (int k) (int c) i start = free_range_loop mp (int k) (int 0) i' i'"
        using i len False less.prems(4) by (subst free_range_loop.simps) (simp add: i'_def)
      have inv: "\<forall>j < i'. mp ! j \<noteq> - 1 \<longrightarrow> int j + mp ! j \<le> int i'"
      proof (intro allI impI)
        fix j
        assume j: "j < i'" "mp ! j \<noteq> - 1"
        consider "j < i" | "j = i" | "i < j" by linarith
        then show "int j + mp ! j \<le> int i'"
        proof cases
          case 1
          with less.prems(7) j i'(2) show ?thesis by force
        next
          case 3
          with mapping_okD(3) [OF less.prems(1) i False, of j] j i'(1) have "mp ! j = - 1" by simp
          with j show ?thesis by simp
        qed (simp add: i'(1))
      qed
      have taken: "taken mp b" if "i \<le> b" "b < i'" for b
        using that i False i'(1) by (intro takenI [of i]) auto
      have skip: "i' \<le> a" if "start \<le> a" "room mp k a" for a
      proof (rule ccontr)
        assume "\<not> i' \<le> a"
        then have "max a i < i'" "a \<le> max a i" "max a i < a + k" using that i'(2) less.prems(2,3,4) by auto
        with that(2) taken [of "max a i"] show False by (simp add: room_def)
      qed
      have "start \<le> i'" using less.prems(3) i'(2) by simp
      with skip have same: "(start \<le> a \<and> room mp k a) = (i' \<le> a \<and> room mp k a)" for a by (meson order_trans)
      show ?thesis
        unfolding step same using i i'(2,3) inv less.prems(1,2) by (intro less.hyps) auto
    qed
  qed
qed

lemma find_free_range_ok:
  assumes "mapping_ok mp" "0 < k"
  shows "find_free_range (int k) mp =
     (if \<exists>a. room mp k a then let a = LEAST a. room mp k a in Some (Some (FIX_BITMAP_BEGIN - a), mp[a := int k]) else None)"
proof -
  have len: "length mp = 512" using assms(1) by (simp add: mapping_ok_def)
  have lt: "(LEAST a. room mp k a) < 512" if "\<exists>a. room mp k a"
    using LeastI_ex [OF that] assms(2) unfolding room_def by linarith
  have "free_range_loop mp (int k) (int 0) 0 0 = (if \<exists>a \<ge> 0. room mp k a then Some (Some (LEAST a. 0 \<le> a \<and> room mp k a)) else None)"
    by (rule free_range_loop_ok [OF assms]) (simp_all add: assms(2))
  then show ?thesis using lt len by (simp add: find_free_range_def Let_def)
qed

lemma reserve_ok:
  assumes "mapping_ok mp" "0 < k" "room mp k a"
  shows "mapping_ok (mp[a := int k])" "taken (mp[a := int k]) b \<longleftrightarrow> taken mp b \<or> a \<le> b \<and> b < a + k"
proof -
  have len: "length mp = 512" and a: "a < 512" "a + k \<le> 512" using assms by (auto simp: mapping_ok_def room_def)
  have none: "mp ! j = - 1" if "a \<le> j" "j < a + k" for j
  proof (rule ccontr)
    assume j: "mp ! j \<noteq> - 1"
    with that a have "1 \<le> mp ! j" using mapping_okD(1) [OF assms(1), of j] by simp
    with j have "taken mp j" using that a by (intro takenI [of j]) auto
    with assms(3) that show False by (simp add: room_def)
  qed
  have away: "int i + mp ! i \<le> int a \<or> a + k \<le> i" if "i < 512" "mp ! i \<noteq> - 1" for i
  proof (cases "i < a")
    case True
    have "\<not> taken mp a" using assms(2,3) by (simp add: room_def)
    with that True show ?thesis using takenI [of i mp a] by force
  next
    case False
    with none [of i] that show ?thesis by linarith
  qed
  show "mapping_ok (mp[a := int k])"
    unfolding mapping_ok_def
  proof (intro conjI allI impI)
    fix i
    assume i: "i < 512" "mp[a := int k] ! i \<noteq> - 1"
    show "1 \<le> mp[a := int k] ! i" "int i + mp[a := int k] ! i \<le> 512"
      using i assms(2) a len mapping_okD(1,2) [OF assms(1), of i] by (auto simp: nth_list_update split: if_splits)
    fix j
    assume j: "i < j \<and> int j < int i + mp[a := int k] ! i"
    show "mp[a := int k] ! j = - 1"
    proof (cases "i = a")
      case True
      with j a len show ?thesis by (auto intro!: none)
    next
      case False
      with i j len a have "mp ! i \<noteq> - 1" "int j < int i + mp ! i" by auto
      with away [of i] i(1) j have "j \<noteq> a" by auto
      with mapping_okD(3) [OF assms(1) i(1) \<open>mp ! i \<noteq> - 1\<close>, of j] \<open>int j < int i + mp ! i\<close> j show ?thesis by simp
    qed
  qed (simp add: len)
  show "taken (mp[a := int k]) b \<longleftrightarrow> taken mp b \<or> a \<le> b \<and> b < a + k"
  proof
    assume "taken (mp[a := int k]) b"
    then obtain i where i: "i < 512" "mp[a := int k] ! i \<noteq> - 1" "i \<le> b" "int b < int i + mp[a := int k] ! i" by (rule takenE)
    show "taken mp b \<or> a \<le> b \<and> b < a + k"
    proof (cases "i = a")
      case True
      with i a len show ?thesis by simp
    next
      case False
      with i takenI [of i mp b] show ?thesis by simp
    qed
  next
    assume "taken mp b \<or> a \<le> b \<and> b < a + k"
    then show "taken (mp[a := int k]) b"
    proof
      assume "taken mp b"
      then obtain i where i: "i < 512" "mp ! i \<noteq> - 1" "i \<le> b" "int b < int i + mp ! i" by (rule takenE)
      with none [of i] assms(2) have "i \<noteq> a" by auto
      with i show ?thesis by (intro takenI [of i]) auto
    next
      assume "a \<le> b \<and> b < a + k"
      with a len show ?thesis by (intro takenI [of a]) auto
    qed
  qed
qed

section \<open>Setting and clearing slots\<close>

definition fixmap_entry :: "u64 \<Rightarrow> u64 \<Rightarrow> u64 \<Rightarrow> pte" where
  "fixmap_entry supp phys prot = (if prot AND supp \<noteq> 0 then phys AND PAGE_MASK OR (prot AND supp) else 0)"

lemma set_fixmap_entry_eq: "set_fixmap_entry supp i phys prot tab = tab[i := fixmap_entry supp phys prot]"
  by (simp add: set_fixmap_entry_def fixmap_entry_def pte_set_def pte_clear_def Let_def)

text \<open>Page \<open>a\<close> of the window, from below.\<close>

abbreviation win :: "nat \<Rightarrow> u64" where "win a \<equiv> fix_to_virt (FIX_BITMAP_BEGIN - a)"

lemma unat_win:
  assumes "a < 512"
  shows "unat (win a) = 0xFFFFFFFFFFC00000 + 4096 * a"
proof -
  have "(0xFFFFFFFFFFC00000 :: u64) = FIX_TOP_ADDR - 1023 * 4096" unfolding FIX_TOP_ADDR_def by code_simp
  then have "win a = 0xFFFFFFFFFFC00000 + of_nat (4096 * a)"
    using assms by (simp add: fix_to_virt_def push_bit_eq_mult of_nat_diff algebra_simps)
  moreover have "unat (of_nat (4096 * a) :: u64) = 4096 * a"
    using assms by (simp add: unat_of_nat take_bit_nat_eq_self del: of_nat_mult)
  ultimately show ?thesis using assms unat_add_nowrap [of "0xFFFFFFFFFFC00000" "of_nat (4096 * a) :: u64"] by simp
qed

lemma pte_index_win:
  assumes "unat v = 0xFFFFFFFFFFC00000 + 4096 * a + d" "a < 512" "d < 4096"
  shows "pte_index v = a"
proof -
  have "unat v = 4096 * (0xFFFFFFFFFFC00 + a) + d" using assms(1) by simp
  then have "unat v div 4096 = 0xFFFFFFFFFFC00 + a" using assms(3) by simp
  with assms(2) show ?thesis by (simp add: pte_index_def table_index_nat mod_add_eq [symmetric, of "0xFFFFFFFFFFC00"])
qed

lemma virt_to_fix_win:
  assumes "unat v = 0xFFFFFFFFFFC00000 + 4096 * a + d" "a < 512" "d < 4096"
  shows "virt_to_fix v = FIX_BITMAP_BEGIN - a"
proof -
  have "unat v div 4096 = 0xFFFFFFFFFFC00 + a" using assms by simp
  then have f: "unat (v AND PAGE_MASK) = 0xFFFFFFFFFFC00000 + 4096 * a" by (simp add: page_floor)
  then have "unat (FIX_TOP_ADDR - (v AND PAGE_MASK)) = 4096 * (1023 - a)"
    using assms(2) by (subst unat_sub_nowrap) (simp_all add: FIX_TOP_ADDR_def word_le_nat_alt)
  moreover have "unat (drop_bit 12 x) = unat x div 4096" for x :: u64
    using unat_u64_lt [of x] by (simp add: unsigned_drop_bit_eq take_bit_nat_eq_self drop_bit_eq_div [where 'a=nat])
  ultimately show ?thesis by (simp add: virt_to_fix_def)
qed

lemma map_slots_ok:
  assumes "a + k \<le> 512" "length (level1_fixmap0 s) = 512"
  shows "\<exists>s'. map_slots supp k (FIX_BITMAP_BEGIN - a) phys prot s = Some s' \<and> length (level1_fixmap0 s') = 512 \<and>
     (\<forall>i < 512. level1_fixmap0 s' ! i =
        (if a \<le> i \<and> i < a + k then fixmap_entry supp (phys + of_nat (i - a) * 4096) prot else level1_fixmap0 s ! i)) \<and>
     mapping s' = mapping s \<and> level1_fixmap1 s' = level1_fixmap1 s \<and> flushed s' = rev (map win [a..<a + k]) @ flushed s"
  using assms
proof (induction k arbitrary: a phys s)
  case (Suc k)
  let ?s = "s\<lparr>level1_fixmap0 := (level1_fixmap0 s)[a := fixmap_entry supp phys prot], flushed := win a # flushed s\<rparr>"
  have "pte_index (win a) = a" using Suc.prems(1) by (intro pte_index_win [of _ a 0]) (simp_all add: unat_win)
  then have step: "set_fixmap_tmp supp (FIX_BITMAP_BEGIN - a) phys prot s = Some ?s"
    using Suc.prems(1) by (simp add: set_fixmap_tmp_def set_fixmap_entry_eq Let_def)
  obtain s' where s': "map_slots supp k (FIX_BITMAP_BEGIN - (a + 1)) (phys + 4096) prot ?s = Some s'" "length (level1_fixmap0 s') = 512"
      "\<forall>i < 512. level1_fixmap0 s' ! i =
        (if a + 1 \<le> i \<and> i < a + 1 + k then fixmap_entry supp (phys + 4096 + of_nat (i - (a + 1)) * 4096) prot else level1_fixmap0 ?s ! i)"
      "mapping s' = mapping ?s" "level1_fixmap1 s' = level1_fixmap1 ?s" "flushed s' = rev (map win [a + 1..<a + 1 + k]) @ flushed ?s"
    using Suc.IH [of "a + 1" ?s "phys + 4096"] Suc.prems by auto
  have shift: "phys + 4096 + of_nat (i - (a + 1)) * 4096 = phys + of_nat (i - a) * 4096" if "a + 1 \<le> i" for i
  proof -
    have "i - a = Suc (i - (a + 1))" using that by simp
    then show ?thesis by (simp only: of_nat_Suc) (simp add: algebra_simps)
  qed
  have "\<forall>i < 512. level1_fixmap0 s' ! i =
        (if a \<le> i \<and> i < a + Suc k then fixmap_entry supp (phys + of_nat (i - a) * 4096) prot else level1_fixmap0 s ! i)"
  proof (intro allI impI)
    fix i
    assume "i < (512 :: nat)"
    moreover consider "i < a" | "i = a" | "a + 1 \<le> i" by linarith
    ultimately show "level1_fixmap0 s' ! i =
        (if a \<le> i \<and> i < a + Suc k then fixmap_entry supp (phys + of_nat (i - a) * 4096) prot else level1_fixmap0 s ! i)"
      using s'(3) shift Suc.prems by cases (auto simp: nth_list_update)
  qed
  moreover have "[a..<a + Suc k] = a # [a + 1..<a + 1 + k]" by (simp add: upt_conv_Cons)
  moreover have "FIX_BITMAP_BEGIN - a - 1 = FIX_BITMAP_BEGIN - (a + 1)" by simp
  ultimately show ?case using step s'(1,2,4-6) by simp
qed auto

lemma unmap_slots_eq: "unmap_slots supp k i s = map_slots supp k i phys 0 s"
proof (induction k arbitrary: i phys s)
  case (Suc k)
  have "set_fixmap_tmp supp i 0 0 s = set_fixmap_tmp supp i phys 0 s"
    by (simp add: set_fixmap_tmp_def set_fixmap_entry_eq fixmap_entry_def)
  with Suc show ?case by (cases "set_fixmap_tmp supp i phys 0 s") simp_all
qed simp

section \<open>Translation\<close>

text \<open>What the processor makes of an address of the window.\<close>

definition fix_translate :: "fixmaps \<Rightarrow> u64 \<Rightarrow> u64 option" where
  "fix_translate s v =
     (let e = level1_fixmap0 s ! pte_index v
      in if 0xFFFFFFFFFFC00000 \<le> v \<and> v < 0xFFFFFFFFFFE00000 \<and> e AND PAGE_PRESENT \<noteq> 0
         then Some ((e AND PHYSICAL_PAGE_MASK) OR (v AND NOT PAGE_MASK)) else None)"

text \<open>Protection bits that map a page and say nothing about its address.\<close>

definition prot_ok :: "u64 \<Rightarrow> u64 \<Rightarrow> bool" where
  "prot_ok supp prot \<longleftrightarrow> (prot AND supp) AND PAGE_PRESENT \<noteq> 0 \<and> (prot AND supp) AND PHYSICAL_PAGE_MASK = 0"

lemma frame_plus_offset:
  assumes "4096 dvd unat p" "unat p < 2 ^ 52" "unat v mod 4096 = d"
  shows "p OR (v AND NOT PAGE_MASK) = p + of_nat d"
proof -
  have "p AND PAGE_MASK = p" by (rule frame_and_mask) (use assms in simp_all)
  then have "bit PAGE_MASK k" if "bit p k" for k using that by (metis bit_and_iff)
  then have "p AND (v AND NOT PAGE_MASK) = 0"
    by (intro bit_word_eqI) (auto simp: bit_and_iff bit_not_iff)
  then have "p OR (v AND NOT PAGE_MASK) = p + (v AND NOT PAGE_MASK)" using word_plus_and_or [of p "v AND NOT PAGE_MASK"] by simp
  moreover have "v AND NOT PAGE_MASK = of_nat d"
  proof (rule word_unat_eq_iff [THEN iffD2])
    have "d < 4096" using assms(3) by auto
    then show "unat (v AND NOT PAGE_MASK) = unat (of_nat d :: u64)"
      using page_offset [of v] assms(3) by (simp add: unat_of_nat take_bit_nat_eq_self)
  qed
  ultimately show ?thesis by simp
qed

lemma fix_translate_entry:
  assumes "level1_fixmap0 s ! i = fixmap_entry supp p prot" "prot_ok supp prot" "4096 dvd unat p" "unat p < 2 ^ 52"
    and "unat v = 0xFFFFFFFFFFC00000 + 4096 * i + d" "i < 512" "d < 4096"
  shows "fix_translate s v = Some (p + of_nat d)"
proof -
  let ?q = "prot AND supp"
  have p: "p AND PHYSICAL_PAGE_MASK = p" "p AND PAGE_MASK = p" using frame_and_mask [OF assms(4,3)] by blast+
  have "?q \<noteq> 0" using assms(2) by (auto simp: prot_ok_def)
  then have e: "level1_fixmap0 s ! pte_index v = p OR ?q"
    using assms(1) pte_index_win [OF assms(5-7)] p(2) by (simp add: fixmap_entry_def)
  have "(p OR ?q) AND PHYSICAL_PAGE_MASK = p" using entry_parts(1) [OF p(1)] assms(2) by (simp add: prot_ok_def)
  moreover have "(p OR ?q) AND 1 \<noteq> 0"
    using assms(2) by (auto simp: prot_ok_def and_one_eq mod2_eq_if even_or_iff split: if_splits)
  moreover have "unat v mod 4096 = d" using assms(5,7) by (simp add: mod_add_eq [symmetric, of "0xFFFFFFFFFFC00000 + 4096 * i"] mod_mult_self4)
  moreover have "0xFFFFFFFFFFC00000 \<le> v" "v < 0xFFFFFFFFFFE00000"
    using assms(5-7) by (simp_all add: word_le_nat_alt word_less_nat_alt)
  ultimately show ?thesis using e frame_plus_offset [OF assms(3,4)] by (simp add: fix_translate_def Let_def)
qed

lemma fix_translate_cong:
  assumes "level1_fixmap0 s' ! pte_index v = level1_fixmap0 s ! pte_index v"
  shows "fix_translate s' v = fix_translate s v"
  using assms by (simp add: fix_translate_def)

section \<open>Properties\<close>

definition span_pages :: "u64 \<Rightarrow> u64 \<Rightarrow> nat" where
  "span_pages phys sz = (unat phys mod 4096 + unat sz + 4095) div 4096"

lemma unat_page_align:
  assumes "unat x \<le> 2 ^ 53"
  shows "unat (PAGE_ALIGN x) = 4096 * ((unat x + 4095) div 4096)"
  using align_up [of 12 x] assms by (simp add: PAGE_ALIGN_def)

lemma unat_drop12: "unat (drop_bit 12 (x::u64)) = unat x div 4096"
  using unat_u64_lt [of x] by (simp add: unsigned_drop_bit_eq take_bit_nat_eq_self drop_bit_eq_div [where 'a=nat])

lemma unat_pages_u32: "unat (drop_bit 12 (x::u64)) < 2 ^ 32 \<Longrightarrow> unat (ucast (drop_bit 12 x) :: u32) = unat (drop_bit 12 x)"
  by (simp add: unsigned_ucast_eq take_bit_nat_eq_self)

lemma ioremap_pages_eq:
  assumes "unat phys + unat sz \<le> 2 ^ 52" "span_pages phys sz < 2 ^ 32"
  shows "unat (ioremap_pages phys sz) = span_pages phys sz"
proof -
  let ?P = "unat phys" and ?x = "PAGE_ALIGN (phys + sz) - (phys AND PAGE_MASK)"
  have add: "unat (phys + sz) = ?P + unat sz" by (rule unat_add_nowrap) (use assms(1) in simp)
  have up: "unat (PAGE_ALIGN (phys + sz)) = 4096 * ((?P + unat sz + 4095) div 4096)"
    using unat_page_align [of "phys + sz"] assms(1) add by simp
  have le: "4096 * (?P div 4096) \<le> 4096 * ((?P + unat sz + 4095) div 4096)" by (intro mult_le_mono2 div_le_mono) simp
  then have "unat ?x = 4096 * ((?P + unat sz + 4095) div 4096) - 4096 * (?P div 4096)"
    using up by (subst unat_sub_nowrap) (simp_all add: page_floor word_le_nat_alt)
  moreover have "?P + unat sz + 4095 = (?P mod 4096 + unat sz + 4095) + ?P div 4096 * 4096" by simp
  then have "(?P + unat sz + 4095) div 4096 = span_pages phys sz + ?P div 4096" unfolding span_pages_def by (metis div_mult_self1 add.commute zero_neq_numeral)
  ultimately have "unat (drop_bit 12 ?x) = span_pages phys sz" by (simp add: unat_drop12 diff_mult_distrib2)
  with assms(2) show ?thesis using unat_pages_u32 [of ?x] by (simp add: ioremap_pages_def)
qed

lemma ioremap_prot_eq:
  assumes "mapping_ok (mapping s)" "length (level1_fixmap0 s) = 512" "0 < unat sz"
    and "unat phys + unat sz \<le> 2 ^ 52" "k = span_pages phys sz" "k \<le> 512" "room (mapping s) k a0"
  obtains a s' where "room (mapping s) k a" "0 < k" "ioremap_prot supp phys sz prot s = Some (Some (win a + offset_in_page phys), s')"
    "mapping s' = (mapping s)[a := int k]" "length (level1_fixmap0 s') = 512"
    "\<And>i. i < 512 \<Longrightarrow> level1_fixmap0 s' ! i =
       (if a \<le> i \<and> i < a + k then fixmap_entry supp ((phys AND PAGE_MASK) + of_nat (i - a) * 4096) prot else level1_fixmap0 s ! i)"
    "a \<le> a0"
proof -
  define a where "a = (LEAST a. room (mapping s) k a)"
  have room: "room (mapping s) k a" unfolding a_def using assms(7) by (rule LeastI)
  have least: "a \<le> a0" unfolding a_def using assms(7) by (rule Least_le)
  have pages: "unat (ioremap_pages phys sz) = k" using ioremap_pages_eq [OF assms(4)] assms(5,6) by simp
  have k: "0 < k" using assms(3,5) by (simp add: span_pages_def div_greater_zero_iff)
  have "\<not> of_nat 512 < ioremap_pages phys sz" using pages assms(6) by (simp add: word_less_nat_alt)
  moreover have "sz \<noteq> 0" using assms(3) by auto
  moreover have "find_free_range (int k) (mapping s) = Some (Some (FIX_BITMAP_BEGIN - a), (mapping s)[a := int k])"
    using find_free_range_ok [OF assms(1) k] assms(7) by (auto simp: a_def Let_def)
  ultimately have "ioremap_prot supp phys sz prot s =
      do { s \<leftarrow> map_slots supp k (FIX_BITMAP_BEGIN - a) (phys AND PAGE_MASK) prot (s\<lparr>mapping := (mapping s)[a := int k]\<rparr>);
        Some (Some (win a + offset_in_page phys), s) }"
    by (simp add: ioremap_prot_def pages Let_def)
  with map_slots_ok [of a k "s\<lparr>mapping := (mapping s)[a := int k]\<rparr>" supp "phys AND PAGE_MASK" prot] room assms(2) k least that
  show thesis by (auto simp: room_def)
qed

lemma ioremap_too_large:
  assumes "unat phys + unat sz \<le> 2 ^ 52" "512 < span_pages phys sz" "span_pages phys sz < 2 ^ 32"
  shows "ioremap_prot supp phys sz prot s = Some (None, s)"
proof -
  have "of_nat 512 < ioremap_pages phys sz" using ioremap_pages_eq [OF assms(1,3)] assms(2) by (simp add: word_less_nat_alt)
  then show ?thesis by (simp add: ioremap_prot_def Let_def)
qed

lemma unat_win_offset:
  assumes "a < 512" "unat phys mod 4096 + x < 4096 * (512 - a)"
  shows "unat (win a + offset_in_page phys + of_nat x) = 0xFFFFFFFFFFC00000 + 4096 * a + (unat phys mod 4096 + x)"
proof -
  have o: "unat (offset_in_page phys) = unat phys mod 4096" by (simp add: offset_in_page_def page_offset)
  have x: "unat (of_nat x :: u64) = x" using assms(2) by (simp add: unat_of_nat take_bit_nat_eq_self)
  have 1: "unat (win a + offset_in_page phys) = 0xFFFFFFFFFFC00000 + 4096 * a + unat phys mod 4096"
    using assms by (subst unat_add_nowrap) (simp_all add: unat_win o)
  show ?thesis using assms by (subst unat_add_nowrap) (simp_all add: 1 x)
qed

lemma ioremap_translates:
  assumes "\<And>i. i < 512 \<Longrightarrow> level1_fixmap0 s' ! i =
       (if a \<le> i \<and> i < a + k then fixmap_entry supp ((phys AND PAGE_MASK) + of_nat (i - a) * 4096) prot else level1_fixmap0 s ! i)"
    and "k = span_pages phys sz" "a + k \<le> 512" "prot_ok supp prot" "unat phys + unat sz \<le> 2 ^ 52" "x < unat sz"
  shows "fix_translate s' (win a + offset_in_page phys + of_nat x) = Some (phys + of_nat x)"
proof -
  let ?off = "unat phys mod 4096 + x"
  let ?p = "(phys AND PAGE_MASK) + of_nat (?off div 4096) * 4096 :: u64"
  have o: "?off div 4096 < k" "?off < 4096 * k" using assms(2,6) by (simp_all add: span_pages_def)
  have v: "unat (win a + offset_in_page phys + of_nat x) = 0xFFFFFFFFFFC00000 + 4096 * (a + ?off div 4096) + ?off mod 4096"
    using unat_win_offset [of a phys x] o assms(3) by simp
  have j: "unat (of_nat (?off div 4096) * 4096 :: u64) = 4096 * (?off div 4096)"
  proof -
    have "of_nat (?off div 4096) * 4096 = (of_nat (4096 * (?off div 4096)) :: u64)" by simp
    then show ?thesis using o(1) assms(3) by (simp add: unat_of_nat take_bit_nat_eq_self del: of_nat_mult)
  qed
  have phys: "unat phys = 4096 * (unat phys div 4096) + unat phys mod 4096" by simp
  have "4096 * (?off div 4096) \<le> ?off" by simp
  then have le: "4096 * (unat phys div 4096) + 4096 * (?off div 4096) \<le> unat phys + x" using phys by linarith
  then have p: "unat ?p = 4096 * (unat phys div 4096 + ?off div 4096)"
    using assms(5,6) by (subst unat_add_nowrap) (simp_all add: page_floor j)
  have "fix_translate s' (win a + offset_in_page phys + of_nat x) = Some (?p + of_nat (?off mod 4096))"
  proof (rule fix_translate_entry [OF _ assms(4) _ _ v])
    show "level1_fixmap0 s' ! (a + ?off div 4096) = fixmap_entry supp ?p prot" using assms(1) [of "a + ?off div 4096"] o(1) assms(3) by simp
    show "unat ?p < 2 ^ 52" using p le assms(5,6) by simp
  qed (use p o(1) assms(3) in simp_all)
  moreover have "?p + of_nat (?off mod 4096) = phys + of_nat x"
  proof (rule word_unat_eq_iff [THEN iffD2])
    have "unat (phys + of_nat x) = unat phys + x"
      using assms(5,6) by (subst unat_add_nowrap) (simp_all add: unat_of_nat take_bit_nat_eq_self)
    moreover have "unat (of_nat (?off mod 4096) :: u64) = ?off mod 4096" by (simp add: unat_of_nat take_bit_nat_eq_self)
    then have "unat (?p + of_nat (?off mod 4096)) = 4096 * (unat phys div 4096 + ?off div 4096) + ?off mod 4096"
      using le assms(5,6) p by (subst unat_add_nowrap) simp_all
    ultimately show "unat (?p + of_nat (?off mod 4096)) = unat (phys + of_nat x)" using phys by (simp add: algebra_simps)
  qed
  ultimately show ?thesis by simp
qed

lemma ioremap_no_room:
  assumes "mapping_ok (mapping s)" "0 < unat sz" "unat phys + unat sz \<le> 2 ^ 52" "span_pages phys sz \<le> 512"
    and "\<nexists>a. room (mapping s) (span_pages phys sz) a"
  shows "ioremap_prot supp phys sz prot s = None"
proof -
  have "\<not> of_nat 512 < ioremap_pages phys sz" "sz \<noteq> 0" "0 < span_pages phys sz"
    using ioremap_pages_eq [OF assms(3)] assms(2,4) by (auto simp: word_less_nat_alt span_pages_def div_greater_zero_iff)
  then show ?thesis
    using find_free_range_ok [OF assms(1), of "span_pages phys sz"] assms(4,5) ioremap_pages_eq [OF assms(3)]
    by (simp add: ioremap_prot_def Let_def)
qed

text \<open>
  C23: When the window has room, \<open>ioremap\<close> returns an address whose bytes the processor translates to
  the bytes asked for, the reservations stay disjoint, and pages that were taken keep their translation.
  When there is no room the search reads behind the array: the code has no regular way to fail there.
\<close>

theorem ioremap_correct:
  assumes "mapping_ok (mapping s)" "length (level1_fixmap0 s) = 512" "prot_ok supp prot" "0 < unat sz"
    and "unat phys + unat sz \<le> 2 ^ 52" "span_pages phys sz \<le> 512"
  shows "(if \<exists>a. room (mapping s) (span_pages phys sz) a
     then \<exists>v s'. ioremap_prot supp phys sz prot s = Some (Some v, s') \<and> mapping_ok (mapping s') \<and> length (level1_fixmap0 s') = 512 \<and>
       (\<forall>x < unat sz. fix_translate s' (v + of_nat x) = Some (phys + of_nat x)) \<and>
       (\<forall>w. taken (mapping s) (pte_index w) \<longrightarrow> taken (mapping s') (pte_index w) \<and> fix_translate s' w = fix_translate s w)
     else ioremap_prot supp phys sz prot s = None)"
proof (cases "\<exists>a. room (mapping s) (span_pages phys sz) a")
  case True
  then obtain a0 where a0: "room (mapping s) (span_pages phys sz) a0" by blast
  define k where "k = span_pages phys sz"
  obtain a s' where r: "room (mapping s) k a" "0 < k" "ioremap_prot supp phys sz prot s = Some (Some (win a + offset_in_page phys), s')"
      "mapping s' = (mapping s)[a := int k]" "length (level1_fixmap0 s') = 512"
      "\<And>i. i < 512 \<Longrightarrow> level1_fixmap0 s' ! i =
       (if a \<le> i \<and> i < a + k then fixmap_entry supp ((phys AND PAGE_MASK) + of_nat (i - a) * 4096) prot else level1_fixmap0 s ! i)"
    using ioremap_prot_eq [OF assms(1,2,4,5) k_def, of a0] a0 assms(6) unfolding k_def by blast
  have "a + k \<le> 512" using r(1) by (simp add: room_def)
  then have tr: "fix_translate s' (win a + offset_in_page phys + of_nat x) = Some (phys + of_nat x)" if "x < unat sz" for x
    using ioremap_translates [OF r(6) k_def _ assms(3,5)] that by simp
  have keep: "taken (mapping s') (pte_index w) \<and> fix_translate s' w = fix_translate s w" if w: "taken (mapping s) (pte_index w)" for w
  proof
    have "pte_index w < 512" by (simp add: pte_index_def table_index_nat)
    moreover have "\<not> (a \<le> pte_index w \<and> pte_index w < a + k)" using w r(1) by (auto simp: room_def)
    ultimately show "fix_translate s' w = fix_translate s w" using r(6) by (intro fix_translate_cong) auto
    show "taken (mapping s') (pte_index w)" using reserve_ok(2) [OF assms(1) r(2,1)] w r(4) by simp
  qed
  have "mapping_ok (mapping s')" using reserve_ok(1) [OF assms(1) r(2,1)] r(4) by simp
  with True r(3,5) tr keep show ?thesis by simp
next
  case False
  then have "ioremap_prot supp phys sz prot s = None" using ioremap_no_room [OF assms(1,4-6)] by blast
  with False show ?thesis by simp
qed

theorem ioremap_correct_witness:
  "\<exists>v s'. ioremap_prot (- 1) 0xFEC00010 0x1000 PAGE_KERNEL fixmaps_init = Some (Some v, s') \<and> fix_translate s' (v + 0xFFF) = Some 0xFEC0100F"
proof -
  have ok: "mapping_ok (mapping fixmaps_init)" "length (level1_fixmap0 fixmaps_init) = 512"
    using mapping_init_ok(1) by (simp_all add: fixmaps_init_def)
  have "prot_ok (- 1) PAGE_KERNEL" unfolding prot_ok_def by code_simp
  moreover have "room (mapping fixmaps_init) (span_pages 0xFEC00010 0x1000) 0"
    using mapping_init_ok(2) by (auto simp: room_def fixmaps_init_def span_pages_def)
  ultimately have "\<exists>v s'. ioremap_prot (- 1) 0xFEC00010 0x1000 PAGE_KERNEL fixmaps_init = Some (Some v, s') \<and>
      (\<forall>x < unat (0x1000 :: u64). fix_translate s' (v + of_nat x) = Some (0xFEC00010 + of_nat x))"
    using ioremap_correct [OF ok, of "- 1" PAGE_KERNEL "0x1000" "0xFEC00010"]
    by (simp only: if_P [OF exI [of "room (mapping fixmaps_init) (span_pages 0xFEC00010 0x1000)" 0]]) (auto simp: span_pages_def)
  then obtain v s' where "ioremap_prot (- 1) 0xFEC00010 0x1000 PAGE_KERNEL fixmaps_init = Some (Some v, s')"
      and x: "\<forall>x < unat (0x1000 :: u64). fix_translate s' (v + of_nat x) = Some (0xFEC00010 + of_nat x)" by blast
  moreover from x [rule_format, of "0xFFF"] have "fix_translate s' (v + of_nat 0xFFF) = Some (0xFEC00010 + of_nat 0xFFF)" by simp
  ultimately show ?thesis by auto
qed

text \<open>The guards of \<open>iounmap\<close> at an address of page \<open>a\<close> of the window.\<close>

lemma iounmap_eq:
  assumes "unat v = 0xFFFFFFFFFFC00000 + 4096 * a + d" "a < 512" "d < 4096" "length (mapping s) = 512" "mapping s ! a = int k"
    and "k = (d + unat sz + 4095) div 4096" "k \<le> 512" "unat sz \<le> 2 ^ 52"
  shows "iounmap supp v sz s =
     (if v \<le> fix_to_virt FIX_BITMAP_END
      then do { s \<leftarrow> unmap_slots supp k (FIX_BITMAP_BEGIN - a) s; Some (s\<lparr>mapping := (mapping s)[a := - 1]\<rparr>) }
      else Some s)"
proof (cases "v \<le> fix_to_virt FIX_BITMAP_END")
  case False
  then show ?thesis using assms(1) by (auto simp: iounmap_def)
next
  case True
  have lo: "\<not> v < fix_to_virt FIX_BITMAP_BEGIN" "v \<noteq> 0"
    using unat_win [of 0] assms(1) by (auto simp: word_less_nat_alt)
  have "unat v = 4096 * (0xFFFFFFFFFFC00 + a) + d" using assms(1) by simp
  then have "unat v mod 4096 = d" using assms(3) by (simp only: mod_mult_self4 mod_less)
  then have "unat (offset_in_page v + sz) = d + unat sz"
    using assms(3,8) by (subst unat_add_nowrap) (simp_all add: offset_in_page_def page_offset)
  then have "unat (PAGE_ALIGN (offset_in_page v + sz)) = 4096 * k"
    using unat_page_align [of "offset_in_page v + sz"] assms(3,6,8) by simp
  then have "unat (drop_bit 12 (PAGE_ALIGN (offset_in_page v + sz))) = k" by (simp add: unat_drop12)
  then have k: "unat (ucast (drop_bit 12 (PAGE_ALIGN (offset_in_page v + sz))) :: u32) = k"
    using unat_pages_u32 [of "PAGE_ALIGN (offset_in_page v + sz)"] assms(7) by simp
  then have "(of_int (int k) :: u32) = ucast (drop_bit 12 (PAGE_ALIGN (offset_in_page v + sz)))"
    using assms(7) by (intro word_unat_eq_iff [THEN iffD2]) (simp add: unat_of_nat take_bit_nat_eq_self)
  then show ?thesis
    using lo k virt_to_fix_win [OF assms(1-3)] assms(2,4,5) leD [OF True] True by (simp add: iounmap_def Let_def)
qed

text \<open>
  C25: \<open>iounmap\<close> with the address and size of an \<open>ioremap\<close> undoes it: the reservations are those from
  before, the pages translate no more and pages that were taken keep their translation.  This fails
  for an address behind the start of the last page of the window, for which it does nothing.
\<close>

theorem iounmap_roundtrip:
  assumes "mapping_ok (mapping s)" "length (level1_fixmap0 s) = 512" "0 < unat sz"
    and "unat phys + unat sz \<le> 2 ^ 52" "span_pages phys sz \<le> 512" "ioremap_prot supp phys sz prot s = Some (Some v, s1)"
  shows "(if v \<le> fix_to_virt FIX_BITMAP_END
     then \<exists>s2. iounmap supp v sz s1 = Some s2 \<and> mapping s2 = mapping s \<and>
       (\<forall>x < unat sz. fix_translate s2 (v + of_nat x) = None) \<and>
       (\<forall>w. taken (mapping s) (pte_index w) \<longrightarrow> fix_translate s2 w = fix_translate s w)
     else iounmap supp v sz s1 = Some s1)"
proof -
  define k where "k = span_pages phys sz"
  obtain a0 where "room (mapping s) k a0" using ioremap_no_room [OF assms(1,3-5)] assms(6) unfolding k_def by fastforce
  moreover have "k \<le> 512" using assms(5) by (simp add: k_def)
  ultimately obtain a s' where r0: "room (mapping s) k a" "0 < k" "ioremap_prot supp phys sz prot s = Some (Some (win a + offset_in_page phys), s')"
      "mapping s' = (mapping s)[a := int k]" "length (level1_fixmap0 s') = 512"
      "\<And>i. i < 512 \<Longrightarrow> level1_fixmap0 s' ! i =
       (if a \<le> i \<and> i < a + k then fixmap_entry supp ((phys AND PAGE_MASK) + of_nat (i - a) * 4096) prot else level1_fixmap0 s ! i)"
    using ioremap_prot_eq [OF assms(1-4) k_def, where prot = prot and supp = supp] by blast
  then have "v = win a + offset_in_page phys" "s' = s1" using assms(6) by simp_all
  note r = r0(1,2) this(1) r0(4-6) [unfolded this(2)]
  have a: "a < 512" "a + k \<le> 512" using r(1,2) by (simp_all add: room_def)
  have len: "length (mapping s) = 512" using assms(1) by (simp add: mapping_ok_def)
  have "mapping s ! a = - 1"
  proof (rule ccontr)
    assume n: "mapping s ! a \<noteq> - 1"
    then have "taken (mapping s) a" using mapping_okD(1) [OF assms(1) a(1) n] a by (intro takenI [of a]) auto
    with r(1,2) show False by (simp add: room_def)
  qed
  then have undo: "(mapping s1)[a := - 1] = mapping s" using r(4) by (metis list_update_id list_update_overwrite)
  have page: "unat (v + of_nat x) = 0xFFFFFFFFFFC00000 + 4096 * (a + (unat phys mod 4096 + x) div 4096) + (unat phys mod 4096 + x) mod 4096"
    if "unat phys mod 4096 + x < 4096 * k" for x
    using unat_win_offset [of a phys x] r(3) that a by simp
  have un: "iounmap supp v sz s1 = (if v \<le> fix_to_virt FIX_BITMAP_END
      then do { s \<leftarrow> unmap_slots supp k (FIX_BITMAP_BEGIN - a) s1; Some (s\<lparr>mapping := (mapping s)[a := - 1]\<rparr>) } else Some s1)"
    using page [of 0] r(2,4) a assms(4,5) len by (intro iounmap_eq) (simp_all add: k_def span_pages_def)
  obtain s' where s': "unmap_slots supp k (FIX_BITMAP_BEGIN - a) s1 = Some s'" "mapping s' = mapping s1"
      "\<forall>i < 512. level1_fixmap0 s' ! i = (if a \<le> i \<and> i < a + k then 0 else level1_fixmap0 s1 ! i)"
    using map_slots_ok [OF a(2) r(5), of supp 0 0] by (auto simp: unmap_slots_eq [of supp _ _ _ 0] fixmap_entry_def)
  let ?s = "s'\<lparr>mapping := mapping s\<rparr>"
  have gone: "fix_translate ?s (v + of_nat x) = None" if "x < unat sz" for x
  proof -
    have x: "unat phys mod 4096 + x < 4096 * k" "(unat phys mod 4096 + x) div 4096 < k"
      using that by (simp_all add: k_def span_pages_def)
    with pte_index_win [OF page] a(2) have "pte_index (v + of_nat x) = a + (unat phys mod 4096 + x) div 4096" by simp
    with s'(3) x(2) a(2) show ?thesis by (simp add: fix_translate_def)
  qed
  have keep: "fix_translate ?s w = fix_translate s w" if "taken (mapping s) (pte_index w)" for w
  proof -
    have "pte_index w < 512" by (simp add: pte_index_def table_index_nat)
    moreover have "\<not> (a \<le> pte_index w \<and> pte_index w < a + k)" using that r(1) by (auto simp: room_def)
    ultimately show ?thesis using r(6) s'(3) by (intro fix_translate_cong) auto
  qed
  show ?thesis
  proof (cases "v \<le> fix_to_virt FIX_BITMAP_END")
    case True
    then have "iounmap supp v sz s1 = Some ?s" using un s'(1,2) undo by simp
    with True gone keep show ?thesis by auto
  qed (use un in simp)
qed

theorem iounmap_roundtrip_witness:
  "\<exists>v s1 s2. ioremap_prot (- 1) 0xFEC00010 0x1000 PAGE_KERNEL fixmaps_init = Some (Some v, s1) \<and>
     iounmap (- 1) v 0x1000 s1 = Some s2 \<and> mapping s2 = mapping fixmaps_init"
proof -
  have ok: "mapping_ok (mapping fixmaps_init)" "length (level1_fixmap0 fixmaps_init) = 512"
    using mapping_init_ok(1) by (simp_all add: fixmaps_init_def)
  have "room (mapping fixmaps_init) (span_pages 0xFEC00010 0x1000) 0"
    using mapping_init_ok(2) by (auto simp: room_def fixmaps_init_def span_pages_def)
  moreover have b: "0 < unat (0x1000 :: u64)" "unat (0xFEC00010 :: u64) + unat (0x1000 :: u64) \<le> 2 ^ 52" "span_pages 0xFEC00010 0x1000 \<le> 512"
    by (simp_all add: span_pages_def)
  ultimately obtain a s1 where v: "ioremap_prot (- 1) 0xFEC00010 0x1000 PAGE_KERNEL fixmaps_init = Some (Some (win a + offset_in_page 0xFEC00010), s1)" "a \<le> 0"
    using ioremap_prot_eq [OF ok, of "0x1000" "0xFEC00010" "span_pages 0xFEC00010 0x1000" 0 "- 1" PAGE_KERNEL] by blast
  have "win a + offset_in_page 0xFEC00010 \<le> fix_to_virt FIX_BITMAP_END"
    using unat_win_offset [of a "0xFEC00010" 0] unat_win [of 511] v(2) by (simp add: word_le_nat_alt)
  with iounmap_roundtrip [OF ok b v(1)] v(1) show ?thesis by auto
qed

end
