(* ===== verification/Acpi.thy ===== *)
theory Acpi
  imports Ioremap CString
begin

text \<open>
  The ACPI tables: \<open>drivers/acpi/acpi.c\<close> finds, checks and walks them, \<open>arch/x86/ukernel/acpi/boot.c\<close>
  reads the MADT, and \<open>apic/apic.c\<close> and \<open>apic/io_apic.c\<close> keep what it says of processors and interrupt
  controllers.  A mapped table is the list of the bytes that were asked for; mapping is the argument
  \<open>mmap\<close> of the operations, of which the locale \<open>table_memory\<close> states what \<open>memremap\<close> promises.  A read
  behind the bytes asked for, a walk that does not end and a stopped machine are \<open>None\<close>.
  Messages are left out.
\<close>

section \<open>Tables (drivers/acpi/acpi.c)\<close>

type_synonym mmap = "u64 \<Rightarrow> u64 \<Rightarrow> bytes option"

definition rd8 :: "bytes \<Rightarrow> nat \<Rightarrow> u8 option" where
  "rd8 tab p = (if p < length tab then Some (tab ! p) else None)"

definition rd32 :: "bytes \<Rightarrow> nat \<Rightarrow> u32 option" where
  "rd32 tab p = map_option of_nat (get_unaligned_le 4 (drop p tab))"

definition rd64 :: "bytes \<Rightarrow> nat \<Rightarrow> u64 option" where
  "rd64 tab p = map_option of_nat (get_unaligned_le 8 (drop p tab))"

text \<open>The fields of \<open>struct acpi_table_header\<close>, of 36 bytes.\<close>

definition hdr_length :: "bytes \<Rightarrow> u32 option" where "hdr_length tab = rd32 tab 4"
definition hdr_signature :: "bytes \<Rightarrow> bytes option" where
  "hdr_signature tab = (if 4 \<le> length tab then Some (take 4 tab) else None)"

abbreviation (input) HEADER_SIZE :: nat where "HEADER_SIZE \<equiv> 36"
abbreviation (input) RSDP_SIZE :: u64 where "RSDP_SIZE \<equiv> 40"

fun checksum_loop :: "bytes \<Rightarrow> nat \<Rightarrow> u8 \<Rightarrow> u8 option" where
  "checksum_loop mem 0 s = Some s"
| "checksum_loop [] (Suc k) s = None"
| "checksum_loop (b # mem) (Suc k) s = checksum_loop mem k (s + b)"

definition acpi_calc_checksum :: "bytes \<Rightarrow> nat \<Rightarrow> u8 option" where
  "acpi_calc_checksum mem k = checksum_loop mem k 0"

definition acpi_validate :: "bytes \<Rightarrow> (errno + unit) option" where
  "acpi_validate tab = do {
     len \<leftarrow> hdr_length tab;
     c \<leftarrow> acpi_calc_checksum tab (unat len);
     Some (if c \<noteq> 0 then Inl EINVAL else Inr ()) }"

text \<open>\<open>Some None\<close> is the null pointer.\<close>

definition acpi_acquire_table :: "mmap \<Rightarrow> u64 \<Rightarrow> bytes option option" where
  "acpi_acquire_table mmap paddr =
     (case mmap paddr (of_nat HEADER_SIZE) of
        None \<Rightarrow> Some None
      | Some hdr \<Rightarrow> do {
          len \<leftarrow> hdr_length hdr;
          case mmap paddr (ucast len) of
            None \<Rightarrow> Some None
          | Some tab \<Rightarrow> do {
              v \<leftarrow> acpi_validate tab;
              Some (case v of Inl _ \<Rightarrow> None | Inr _ \<Rightarrow> Some tab) } })"

record acpi_table_desc =
  d_address :: u64
  d_length :: u32
  d_signature :: bytes

text \<open>The array holds as many entries as \<open>acpi_tables_count\<close> says.\<close>

type_synonym acpi_tables = "acpi_table_desc list"

abbreviation (input) ACPI_MAX_INIT_TABLES :: nat where "ACPI_MAX_INIT_TABLES \<equiv> 32"

definition acpi_add_table :: "mmap \<Rightarrow> u64 \<Rightarrow> acpi_tables \<Rightarrow> (acpi_tables \<times> (errno + unit)) option" where
  "acpi_add_table mmap paddr tabs = do {
     t \<leftarrow> acpi_acquire_table mmap paddr;
     case t of
       None \<Rightarrow> Some (tabs, Inr ())
     | Some tab \<Rightarrow>
         if length tabs = ACPI_MAX_INIT_TABLES then Some (tabs, Inl ENOSPC)
         else do {
           len \<leftarrow> hdr_length tab;
           sig \<leftarrow> hdr_signature tab;
           Some (tabs @ [\<lparr>d_address = paddr, d_length = len, d_signature = sig\<rparr>], Inr ()) } }"

text \<open>The entries of the XSDT from \<open>i\<close> on, with the number of entries that are left.\<close>

fun xsdt_loop :: "mmap \<Rightarrow> bytes \<Rightarrow> nat \<Rightarrow> nat \<Rightarrow> acpi_tables \<Rightarrow> acpi_tables option" where
  "xsdt_loop mmap xsdt 0 i tabs = Some tabs"
| "xsdt_loop mmap xsdt (Suc k) i tabs = do {
     paddr \<leftarrow> rd64 xsdt (HEADER_SIZE + 8 * i);
     tabs \<leftarrow> (if paddr = 0 then Some tabs else map_option fst (acpi_add_table mmap paddr tabs));
     xsdt_loop mmap xsdt k (i + 1) tabs }"

definition acpi_parse_root_table :: "mmap \<Rightarrow> u64 \<Rightarrow> acpi_tables \<Rightarrow> (acpi_tables \<times> (errno + unit)) option" where
  "acpi_parse_root_table mmap rsdp_paddr tabs =
     (case mmap rsdp_paddr RSDP_SIZE of
        None \<Rightarrow> Some (tabs, Inl ENOMEM)
      | Some rsdp \<Rightarrow> do {
          revision \<leftarrow> rd8 rsdp 15;
          if revision \<noteq> 2 then Some (tabs, Inl EINVAL)
          else do {
            paddr \<leftarrow> rd64 rsdp 24;
            t \<leftarrow> acpi_acquire_table mmap paddr;
            case t of
              None \<Rightarrow> Some (tabs, Inl ENOMEM)
            | Some xsdt \<Rightarrow> do {
                len \<leftarrow> hdr_length xsdt;
                tabs \<leftarrow> xsdt_loop mmap xsdt (size_sub (unat len) HEADER_SIZE div 8) 0 tabs;
                Some (tabs, Inr ()) } } })"

text \<open>\<open>rsdp\<close> is \<open>boot_params.acpi_rsdp_addr\<close>.\<close>

definition acpi_table_init :: "mmap \<Rightarrow> u64 \<Rightarrow> acpi_tables \<Rightarrow> (acpi_tables \<times> (errno + unit)) option" where
  "acpi_table_init mmap rsdp tabs =
     (if rsdp = 0 then Some (tabs, Inl ENODEV) else acpi_parse_root_table mmap rsdp tabs)"

definition acpi_compare_sig :: "bytes \<Rightarrow> bytes \<Rightarrow> bool option" where
  "acpi_compare_sig a sig = map_option (\<lambda>r. r = 0) (strncmp a sig 4)"

fun get_table_loop :: "mmap \<Rightarrow> bytes \<Rightarrow> int \<Rightarrow> acpi_tables \<Rightarrow> int \<Rightarrow> (errno + bytes) option" where
  "get_table_loop mmap sig instance_nr [] cnt = Some (Inl EINVAL)"
| "get_table_loop mmap sig instance_nr (t # ts) cnt = do {
     eq \<leftarrow> acpi_compare_sig (d_signature t) sig;
     if \<not> eq then get_table_loop mmap sig instance_nr ts cnt
     else if cnt + 1 < instance_nr then get_table_loop mmap sig instance_nr ts (cnt + 1)
     else Some (case mmap (d_address t) (ucast (d_length t)) of None \<Rightarrow> Inl ENOMEM | Some tab \<Rightarrow> Inr tab) }"

text \<open>The signature may be the null pointer; the callers pass the address of a variable for the result.\<close>

definition acpi_get_table :: "mmap \<Rightarrow> bytes option \<Rightarrow> int \<Rightarrow> acpi_tables \<Rightarrow> (errno + bytes) option" where
  "acpi_get_table mmap signature instance_nr tabs =
     (case signature of None \<Rightarrow> Some (Inl EINVAL) | Some sig \<Rightarrow> get_table_loop mmap sig instance_nr tabs 0)"

text \<open>A handler gets the bytes from its pointer on and changes the state; what it returns is ignored here.\<close>

type_synonym 's handler = "bytes \<Rightarrow> 's \<Rightarrow> (int \<times> 's) option"

definition acpi_table_parse :: "mmap \<Rightarrow> bytes option \<Rightarrow> acpi_tables \<Rightarrow> 's handler \<Rightarrow> 's \<Rightarrow> (('s \<times> (errno + unit))) option" where
  "acpi_table_parse mmap signature tabs handler s = do {
     t \<leftarrow> acpi_get_table mmap signature 1 tabs;
     case t of
       Inl _ \<Rightarrow> Some (s, Inl ENODEV)
     | Inr tab \<Rightarrow> do { (_, s) \<leftarrow> handler tab s; Some (s, Inr ()) } }"

text \<open>
  The walk over subtables: \<open>p\<close> is the offset of \<open>subtable\<close>, \<open>err\<close> the variable of that name, which has
  no initial value.
\<close>

partial_function (option) subtable_loop ::
    "bytes \<Rightarrow> u8 \<Rightarrow> 's handler \<Rightarrow> nat \<Rightarrow> int \<Rightarrow> nat \<Rightarrow> 's \<Rightarrow> (int \<times> nat \<times> 's) option" where
  "subtable_loop tab ty handler p err count s = do {
     len \<leftarrow> hdr_length tab;
     if \<not> p + 2 < unat len then Some (err, count, s)
     else do {
       t \<leftarrow> rd8 tab p;
       sublen \<leftarrow> rd8 tab (p + 1);
       if t = ty then do {
         (err, s) \<leftarrow> handler (drop p tab) s;
         if err \<noteq> 0 then Some (err, count, s)
         else subtable_loop tab ty handler (p + unat sublen) err (count + 1) s }
       else subtable_loop tab ty handler (p + unat sublen) err count s } }"

definition acpi_subtable_parse :: "bytes \<Rightarrow> nat \<Rightarrow> u8 \<Rightarrow> 's handler \<Rightarrow> int \<Rightarrow> 's \<Rightarrow> ((errno + nat) \<times> 's) option" where
  "acpi_subtable_parse tab table_size ty handler uninit s = do {
     (err, count, s) \<leftarrow> subtable_loop tab ty handler table_size uninit 0 s;
     Some (if err \<noteq> 0 then Inl EINVAL else Inr count, s) }"

section \<open>Interrupt controllers (apic/apic.c, apic/io_apic.c)\<close>

abbreviation (input) NR_CPUS :: nat where "NR_CPUS \<equiv> 16"
abbreviation (input) NR_IOAPIC :: nat where "NR_IOAPIC \<equiv> 16"
abbreviation (input) FIX_APIC_BASE :: nat where "FIX_APIC_BASE \<equiv> 2"
abbreviation (input) FIX_IO_APIC_BASE_0 :: nat where "FIX_IO_APIC_BASE_0 \<equiv> 3"

record ioapic =
  nr_registers :: int
  io_id :: u8
  io_phys_addr :: u64
  gsi_base :: u32
  gsi_end :: u32

definition ioapic_zero :: ioapic where
  "ioapic_zero = \<lparr>nr_registers = 0, io_id = 0, io_phys_addr = 0, gsi_base = 0, gsi_end = 0\<rparr>"

datatype apic_driver = Apic_flat | Apic_x2apic

record apic_state =
  x2apic_mode :: bool
  apic :: apic_driver
  boot_cpu_apic_id :: u32
  lapic_phys_addr :: u64
  lapic_addr :: u64
  nr_assigned_cpus :: nat
  early_cpuid_to_apic_id :: "u32 list"
  early_cpuid_to_acpi_id :: "u32 list"
  nr_ioapics :: nat
  ioapics :: "ioapic list"
  fixmap :: fixmaps
  acpi_lapic :: bool
  acpi_ioapic :: bool
  acpi_lapic_addr :: u64

definition apic_init :: "bool \<Rightarrow> fixmaps \<Rightarrow> apic_state" where
  "apic_init x2 fx = \<lparr>x2apic_mode = x2, apic = Apic_flat, boot_cpu_apic_id = 0, lapic_phys_addr = 0, lapic_addr = 0,
     nr_assigned_cpus = 1, early_cpuid_to_apic_id = replicate NR_CPUS 0, early_cpuid_to_acpi_id = replicate NR_CPUS 0,
     nr_ioapics = 0, ioapics = replicate NR_IOAPIC ioapic_zero, fixmap = fx, acpi_lapic = False, acpi_ioapic = False,
     acpi_lapic_addr = 0xFEE00000\<rparr>"

text \<open>
  The hardware: the local APIC's registers, in memory at a physical address or behind model-specific
  registers, and the data register of an I/O APIC at a physical address after its index was written.
\<close>

record apic_hw =
  lapic_mem :: "u64 \<Rightarrow> u32"
  lapic_msr :: "u32 \<Rightarrow> u32"
  ioapic_data :: "u64 \<Rightarrow> u8 \<Rightarrow> u64 \<Rightarrow> u32"

text \<open>What the processor makes of an address of a permanent slot.\<close>

definition fix1_translate :: "fixmaps \<Rightarrow> u64 \<Rightarrow> u64 option" where
  "fix1_translate s v =
     (let e = level1_fixmap1 s ! pte_index v
      in if 0xFFFFFFFFFFE00000 \<le> v \<and> e AND PAGE_PRESENT \<noteq> 0
         then Some ((e AND PHYSICAL_PAGE_MASK) OR (v AND NOT PAGE_MASK)) else None)"

definition apic_read :: "apic_hw \<Rightarrow> apic_state \<Rightarrow> u32 \<Rightarrow> u32 option" where
  "apic_read hw s reg =
     (case apic s of
        Apic_flat \<Rightarrow> map_option (lapic_mem hw) (fix1_translate (fixmap s) (fix_to_virt FIX_APIC_BASE + ucast reg))
      | Apic_x2apic \<Rightarrow> Some (lapic_msr hw (0x800 + drop_bit 4 reg)))"

definition read_apic_id :: "apic_hw \<Rightarrow> apic_state \<Rightarrow> u32 option" where
  "read_apic_id hw s =
     (case apic s of
        Apic_flat \<Rightarrow> map_option (\<lambda>r. drop_bit 24 r AND 0xFF) (apic_read hw s 0x20)
      | Apic_x2apic \<Rightarrow> apic_read hw s 0x20)"

text \<open>\<open>prot\<close> is \<open>PAGE_KERNEL_IO_NOCACHE\<close>.\<close>

definition set_fixmap_nocache :: "cache_state \<Rightarrow> u64 \<Rightarrow> nat \<Rightarrow> u64 \<Rightarrow> fixmaps \<Rightarrow> fixmaps option" where
  "set_fixmap_nocache cs supp idx phys s = set_fixmap supp idx phys (PAGE_KERNEL OR cachemode2protval cs MODE_UC) s"

definition register_apic_id :: "u32 \<Rightarrow> u32 \<Rightarrow> apic_state \<Rightarrow> apic_state" where
  "register_apic_id apic_id acpi_id s =
     (let cpu = (if apic_id = boot_cpu_apic_id s then 0 else nr_assigned_cpus s)
      in if cpu < NR_CPUS
         then s\<lparr>early_cpuid_to_apic_id := (early_cpuid_to_apic_id s)[cpu := apic_id],
                early_cpuid_to_acpi_id := (early_cpuid_to_acpi_id s)[cpu := acpi_id],
                nr_assigned_cpus := nr_assigned_cpus s + 1\<rparr>
         else s)"

definition register_lapic_address :: "apic_hw \<Rightarrow> cache_state \<Rightarrow> u64 \<Rightarrow> u64 \<Rightarrow> apic_state \<Rightarrow> apic_state option" where
  "register_lapic_address hw cs supp address s = do {
     let s = s\<lparr>lapic_phys_addr := address\<rparr>;
     s \<leftarrow> (if x2apic_mode s then Some s
          else do {
            fx \<leftarrow> set_fixmap_nocache cs supp FIX_APIC_BASE (lapic_phys_addr s) (fixmap s);
            Some (s\<lparr>fixmap := fx, lapic_addr := fix_to_virt FIX_APIC_BASE\<rparr>) });
     i \<leftarrow> read_apic_id hw s;
     Some (s\<lparr>boot_cpu_apic_id := i\<rparr>) }"

definition io_apic_base :: "apic_state \<Rightarrow> nat \<Rightarrow> u64" where
  "io_apic_base s i = fix_to_virt (FIX_IO_APIC_BASE_0 + i) + (io_phys_addr (ioapics s ! i) AND NOT PAGE_MASK)"

definition io_apic_read :: "apic_hw \<Rightarrow> apic_state \<Rightarrow> nat \<Rightarrow> u8 \<Rightarrow> u32 option" where
  "io_apic_read hw s i reg = do {
     let base = io_apic_base s i;
     p \<leftarrow> fix1_translate (fixmap s) base;
     q \<leftarrow> fix1_translate (fixmap s) (base + 16);
     Some (ioapic_data hw p reg q) }"

definition io_apic_get_redir_entries :: "apic_hw \<Rightarrow> apic_state \<Rightarrow> nat \<Rightarrow> int option" where
  "io_apic_get_redir_entries hw s i = do {
     raw \<leftarrow> io_apic_read hw s i 1;
     Some (uint (drop_bit 16 raw AND 0xFF) + 1) }"

definition mp_register_ioapic :: "apic_hw \<Rightarrow> cache_state \<Rightarrow> u64 \<Rightarrow> u8 \<Rightarrow> u32 \<Rightarrow> u32 \<Rightarrow> apic_state \<Rightarrow> (apic_state \<times> (errno + unit)) option" where
  "mp_register_ioapic hw cs supp ident address gsi s =
     (if nr_ioapics s = NR_IOAPIC then Some (s, Inl ENOSPC)
      else do {
        fx \<leftarrow> set_fixmap_nocache cs supp (FIX_IO_APIC_BASE_0 + nr_ioapics s) (ucast address) (fixmap s);
        let s = s\<lparr>fixmap := fx\<rparr>;
        entries \<leftarrow> io_apic_get_redir_entries hw s (nr_ioapics s);
        Some (s\<lparr>ioapics := (ioapics s)[nr_ioapics s := \<lparr>nr_registers = entries, io_id = ident, io_phys_addr = ucast address,
                     gsi_base = gsi, gsi_end = gsi + of_int entries - 1\<rparr>],
                 nr_ioapics := nr_ioapics s + 1\<rparr>, Inr ()) })"

section \<open>The MADT (acpi/boot.c)\<close>

text \<open>\<open>env\<close> is what does not change: hardware, memory types, supported entry bits, the uninitialised variable.\<close>

record madt_env =
  env_hw :: apic_hw
  env_cache :: cache_state
  env_supp :: u64
  env_uninit :: int

abbreviation (input) MADT_SIZE :: nat where "MADT_SIZE \<equiv> 44"

definition acpi_parse_lapic :: "apic_state handler" where
  "acpi_parse_lapic sub s = do {
     ident \<leftarrow> rd8 sub 3;
     if ident = 0xFF then Some (0, s)
     else do {
       fl \<leftarrow> rd32 sub 4;
       if fl AND 1 \<noteq> 0 then do { uid \<leftarrow> rd8 sub 2; Some (0, register_apic_id (ucast ident) (ucast uid) s) }
       else Some (0, s) } }"

definition acpi_parse_x2apic :: "apic_state handler" where
  "acpi_parse_x2apic sub s = do {
     ident \<leftarrow> rd32 sub 4;
     if ident = 0xFFFFFFFF then Some (0, s)
     else do {
       fl \<leftarrow> rd32 sub 8;
       if fl AND 1 \<noteq> 0 then do { uid \<leftarrow> rd32 sub 12; Some (0, register_apic_id ident uid s) }
       else Some (0, s) } }"

text \<open>The handlers that are still empty in the code: both NMI handlers, the override and the NMI source.\<close>

definition acpi_parse_nothing :: "apic_state handler" where
  "acpi_parse_nothing sub s = Some (0, s)"

definition acpi_parse_madt_lapic_entries :: "madt_env \<Rightarrow> bytes \<Rightarrow> apic_state \<Rightarrow> ((errno + unit) \<times> apic_state) option" where
  "acpi_parse_madt_lapic_entries env tab s = do {
     (count, s) \<leftarrow> acpi_subtable_parse tab MADT_SIZE 0 acpi_parse_lapic (env_uninit env) s;
     (x2count, s) \<leftarrow> acpi_subtable_parse tab MADT_SIZE 9 acpi_parse_x2apic (env_uninit env) s;
     if count = Inr 0 \<and> x2count = Inr 0 then Some (Inl ENODEV, s)
     else if isl count \<or> isl x2count then Some (Inl ENODEV, s)
     else do {
       (count, s) \<leftarrow> acpi_subtable_parse tab MADT_SIZE 4 acpi_parse_nothing (env_uninit env) s;
       (x2count, s) \<leftarrow> acpi_subtable_parse tab MADT_SIZE 10 acpi_parse_nothing (env_uninit env) s;
       if isl count \<or> isl x2count then Some (Inl ENODEV, s) else Some (Inr (), s) } }"

text \<open>The result of \<open>mp_register_ioapic\<close> is dropped.\<close>

definition acpi_parse_ioapic :: "madt_env \<Rightarrow> apic_state handler" where
  "acpi_parse_ioapic env sub s = do {
     ident \<leftarrow> rd8 sub 2; address \<leftarrow> rd32 sub 4; gsi \<leftarrow> rd32 sub 8;
     (s, _) \<leftarrow> mp_register_ioapic (env_hw env) (env_cache env) (env_supp env) ident address gsi s;
     Some (0, s) }"

definition acpi_parse_madt_ioapic_entries :: "madt_env \<Rightarrow> bytes \<Rightarrow> apic_state \<Rightarrow> ((errno + unit) \<times> apic_state) option" where
  "acpi_parse_madt_ioapic_entries env tab s = do {
     (count, s) \<leftarrow> acpi_subtable_parse tab MADT_SIZE 1 (acpi_parse_ioapic env) (env_uninit env) s;
     if count = Inr 0 then Some (Inl ENODEV, s)
     else if isl count then Some (Inl ENODEV, s)
     else do {
       (count, s) \<leftarrow> acpi_subtable_parse tab MADT_SIZE 2 acpi_parse_nothing (env_uninit env) s;
       if isl count then Some (Inl ENODEV, s)
       else do {
         (count, s) \<leftarrow> acpi_subtable_parse tab MADT_SIZE 3 acpi_parse_nothing (env_uninit env) s;
         if isl count then Some (Inl ENODEV, s) else Some (Inr (), s) } } }"

text \<open>The C structure pads \<open>address\<close> to offset 8.\<close>

definition acpi_parse_lapic_address_override :: "apic_state handler" where
  "acpi_parse_lapic_address_override sub s = do {
     address \<leftarrow> rd64 sub 8;
     Some (0, s\<lparr>acpi_lapic_addr := address\<rparr>) }"

definition acpi_parse_madt :: "madt_env \<Rightarrow> apic_state handler" where
  "acpi_parse_madt env tab s = do {
     address \<leftarrow> rd32 tab 36;
     let s = (if address \<noteq> 0 then s\<lparr>acpi_lapic_addr := ucast address\<rparr> else s);
     (_, s) \<leftarrow> acpi_subtable_parse tab MADT_SIZE 5 acpi_parse_lapic_address_override (env_uninit env) s;
     s \<leftarrow> register_lapic_address (env_hw env) (env_cache env) (env_supp env) (acpi_lapic_addr s) s;
     (err, s) \<leftarrow> acpi_parse_madt_lapic_entries env tab s;
     if isl err then Some (0, s)
     else do {
       let s = s\<lparr>acpi_lapic := True\<rparr>;
       (err, s) \<leftarrow> acpi_parse_madt_ioapic_entries env tab s;
       Some (0, if isl err then s else s\<lparr>acpi_ioapic := True\<rparr>) } }"

definition acpi_boot_init :: "madt_env \<Rightarrow> mmap \<Rightarrow> acpi_tables \<Rightarrow> apic_state \<Rightarrow> apic_state option" where
  "acpi_boot_init env mmap tabs s =
     map_option fst (acpi_table_parse mmap (Some [0x41, 0x50, 0x49, 0x43, 0]) tabs (acpi_parse_madt env) s)"

text \<open>The failed \<open>assert\<close> stops the machine.\<close>

definition acpi_boot_table_init :: "mmap \<Rightarrow> u64 \<Rightarrow> acpi_tables \<Rightarrow> acpi_tables option" where
  "acpi_boot_table_init mmap rsdp tabs = do {
     (tabs, r) \<leftarrow> acpi_table_init mmap rsdp tabs;
     case r of Inl _ \<Rightarrow> None | Inr _ \<Rightarrow> Some tabs }"

section \<open>The walk over subtables\<close>

type_synonym subtable = "u8 \<times> bytes"

fun sub_bytes :: "subtable \<Rightarrow> bytes" where
  "sub_bytes (ty, body) = ty # of_nat (length body + 2) # body"

definition body_bytes :: "subtable list \<Rightarrow> bytes" where
  "body_bytes subs = concat (map sub_bytes subs)"

fun sub_ok :: "subtable \<Rightarrow> bool" where
  "sub_ok (ty, body) \<longleftrightarrow> body \<noteq> [] \<and> length body + 2 < 256"

lemma body_bytes_simps [simp]:
  "body_bytes [] = []" "body_bytes (x # xs) = sub_bytes x @ body_bytes xs"
  by (simp_all add: body_bytes_def)

text \<open>The same walk over the list: a handler sees its subtable and everything behind it.\<close>

fun run_subs :: "u8 \<Rightarrow> 's handler \<Rightarrow> int \<Rightarrow> nat \<Rightarrow> subtable list \<Rightarrow> 's \<Rightarrow> (int \<times> nat \<times> 's) option" where
  "run_subs ty handler err count [] s = Some (err, count, s)"
| "run_subs ty handler err count (x # xs) s =
     (if fst x = ty then do {
        (err, s) \<leftarrow> handler (body_bytes (x # xs)) s;
        if err \<noteq> 0 then Some (err, count, s) else run_subs ty handler err (count + 1) xs s }
      else run_subs ty handler err count xs s)"

definition madt_like :: "bytes \<Rightarrow> bytes \<Rightarrow> subtable list \<Rightarrow> bool" where
  "madt_like tab hdr subs \<longleftrightarrow> tab = hdr @ body_bytes subs \<and> hdr_length tab = Some (of_nat (length tab)) \<and>
     length tab < 2 ^ 32 \<and> (\<forall>x \<in> set subs. sub_ok x)"

lemma subtable_loop_eq:
  assumes "hdr_length (pre @ body_bytes subs) = Some (of_nat (length (pre @ body_bytes subs)))"
    and "length (pre @ body_bytes subs) < 2 ^ 32" "\<forall>x \<in> set subs. sub_ok x"
  shows "subtable_loop (pre @ body_bytes subs) ty handler (length pre) err count s = run_subs ty handler err count subs s"
  using assms
proof (induction subs arbitrary: pre err count s)
  case Nil
  then show ?case by (subst subtable_loop.simps) (simp add: unat_of_nat take_bit_nat_eq_self)
next
  case (Cons x xs)
  obtain t body where x: "x = (t, body)" by (cases x)
  let ?tab = "pre @ body_bytes (x # xs)"
  have ok: "body \<noteq> []" "length body + 2 < 256" using Cons.prems(3) x by simp_all
  then have b: "0 < length body" by simp
  obtain w where w: "hdr_length ?tab = Some w" "unat w = length ?tab"
    using Cons.prems(1,2) by (simp add: unat_of_nat take_bit_nat_eq_self del: of_nat_add length_append body_bytes_simps)
  have rds: "rd8 ?tab (length pre) = Some t" "rd8 ?tab (length pre + 1) = Some (of_nat (length body + 2))"
    by (simp_all add: rd8_def x nth_append)
  have sub: "unat (of_nat (length body + 2) :: u8) = length body + 2"
  proof -
    have "unat (of_nat k :: u8) = k" if "k < 256" for k using that by (simp add: unat_of_nat take_bit_nat_eq_self)
    from this [OF ok(2)] show ?thesis .
  qed
  have next_at: "length pre + (length body + 2) = length (pre @ sub_bytes x)" "?tab = (pre @ sub_bytes x) @ body_bytes xs"
    by (simp_all add: x)
  have IH: "subtable_loop ?tab ty handler (length pre + (length body + 2)) err count s = run_subs ty handler err count xs s" for err count s
    unfolding next_at using Cons.IH [of "pre @ sub_bytes x" err count s] Cons.prems by simp
  have more: "length pre + 2 < length ?tab" using b by (simp add: x)
  define tab where "tab = ?tab"
  have d: "drop (length pre) tab = body_bytes (x # xs)" "fst x = t" by (simp_all add: tab_def x)
  note facts = w rds IH more [folded w(2)]
  show ?case
    using facts [folded tab_def] d sub
    unfolding tab_def [symmetric]
    by (subst subtable_loop.simps) (simp del: of_nat_add body_bytes_simps cong: if_cong)
qed

text \<open>The handlers of the program never fail: they change the state and return zero.\<close>

fun suffixes_of :: "u8 \<Rightarrow> subtable list \<Rightarrow> bytes list" where
  "suffixes_of ty [] = []"
| "suffixes_of ty (x # xs) = (if fst x = ty then [body_bytes (x # xs)] else []) @ suffixes_of ty xs"

lemma run_subs_total:
  assumes "\<And>sub s. sub \<in> set (suffixes_of ty subs) \<Longrightarrow> handler sub s = Some (0, f sub s)"
  shows "run_subs ty handler err count subs s =
     Some (if suffixes_of ty subs = [] then err else 0, count + length (suffixes_of ty subs), fold f (suffixes_of ty subs) s)"
  using assms by (induction subs arbitrary: err count s) auto

lemma subtable_parse_total:
  assumes "madt_like tab hdr subs" "\<And>sub s. sub \<in> set (suffixes_of ty subs) \<Longrightarrow> handler sub s = Some (0, f sub s)"
  shows "acpi_subtable_parse tab (length hdr) ty handler uninit s =
     Some (if suffixes_of ty subs = [] \<and> uninit \<noteq> 0 then Inl EINVAL else Inr (length (suffixes_of ty subs)), fold f (suffixes_of ty subs) s)"
proof -
  have "subtable_loop tab ty handler (length hdr) uninit 0 s = run_subs ty handler uninit 0 subs s"
    using assms(1) subtable_loop_eq [of hdr subs ty handler uninit 0 s] by (auto simp: madt_like_def)
  moreover have "run_subs ty handler uninit 0 subs s =
      Some (if suffixes_of ty subs = [] then uninit else 0, length (suffixes_of ty subs), fold f (suffixes_of ty subs) s)"
    using run_subs_total [where handler = handler and f = f] assms(2) by fastforce
  ultimately show ?thesis by (simp add: acpi_subtable_parse_def)
qed

text \<open>The walk as a whole ends when no length byte is zero, and never does at one that is.\<close>

lemma subtable_loop_ends:
  assumes "hdr_length tab = Some len" "unat len \<le> length tab" "\<forall>q. p \<le> q \<and> q + 2 < unat len \<longrightarrow> tab ! (q + 1) \<noteq> 0"
    and "\<And>sub s. handler sub s \<noteq> None"
  shows "\<exists>r. subtable_loop tab ty handler p err count s = Some r"
  using assms(3)
proof (induction "unat len - p" arbitrary: p err count s rule: less_induct)
  case less
  show ?case
  proof (cases "p + 2 < unat len")
    case False
    then show ?thesis by (subst subtable_loop.simps) (simp add: assms(1))
  next
    case True
    then have rds: "rd8 tab p = Some (tab ! p)" "rd8 tab (p + 1) = Some (tab ! (p + 1))"
      using assms(2) by (simp_all add: rd8_def)
    have "tab ! (p + 1) \<noteq> 0" using less.prems True by blast
    then have pos: "0 < unat (tab ! (p + 1))" by (simp add: unat_gt_0)
    have IH: "\<exists>r. subtable_loop tab ty handler (p + unat (tab ! (p + 1))) err count s = Some r" for err count s
      using less.prems pos True by (intro less.hyps) auto
    obtain e s' where h: "handler (drop p tab) s = Some (e, s')" using assms(4) [of "drop p tab" s] by auto
    show ?thesis
      using IH [of err count s] IH [of 0 "count + 1" s'] h True
      by (subst subtable_loop.simps) (auto simp: assms(1) rds simp del: One_nat_def)
  qed
qed

lemma subtable_loop_stuck:
  assumes "hdr_length tab = Some len" "p + 2 < unat len" "rd8 tab p = Some t" "t \<noteq> ty" "rd8 tab (p + 1) = Some 0"
  shows "subtable_loop tab ty handler p err count s = None"
proof -
  have "\<not> (tab' = tab \<and> ty' = ty \<and> handler' = handler \<and> p' = p)"
    if "subtable_loop tab' ty' handler' p' err' count' s' = Some r" for tab' ty' handler' p' err' count' s' r
    using _ that
    by (rule subtable_loop.raw_induct [of "\<lambda>tab' ty' handler' p' err' count' s' r. \<not> (tab' = tab \<and> ty' = ty \<and> handler' = handler \<and> p' = p)"])
      (use assms in \<open>fastforce simp: bind_eq_Some_conv split: if_splits\<close>)
  then show ?thesis by (metis not_Some_eq)
qed

section \<open>Registering processors\<close>

definition register_all :: "(u32 \<times> u32) list \<Rightarrow> apic_state \<Rightarrow> apic_state" where
  "register_all regs s = fold (\<lambda>(i, u). register_apic_id i u) regs s"

text \<open>The k-th registration writes slot k whatever the others were, unless it is the boot processor's.\<close>

lemma register_all_slots:
  assumes "0 < nr_assigned_cpus s" "nr_assigned_cpus s + length regs \<le> 16" "length (early_cpuid_to_apic_id s) = 16"
  shows "nr_assigned_cpus (register_all regs s) = nr_assigned_cpus s + length regs \<and>
     length (early_cpuid_to_apic_id (register_all regs s)) = 16 \<and> boot_cpu_apic_id (register_all regs s) = boot_cpu_apic_id s \<and>
     (\<forall>j < 16. early_cpuid_to_apic_id (register_all regs s) ! j =
        (if j = 0 then (if boot_cpu_apic_id s \<in> fst ` set regs then boot_cpu_apic_id s else early_cpuid_to_apic_id s ! 0)
         else if nr_assigned_cpus s \<le> j \<and> j < nr_assigned_cpus s + length regs \<and> fst (regs ! (j - nr_assigned_cpus s)) \<noteq> boot_cpu_apic_id s
         then fst (regs ! (j - nr_assigned_cpus s)) else early_cpuid_to_apic_id s ! j))"
  using assms
proof (induction regs arbitrary: s)
  case Nil
  then show ?case by (auto simp: register_all_def)
next
  case (Cons r regs)
  obtain i u where r: "r = (i, u)" by (cases r)
  define t where "t = register_apic_id i u s"
  let ?s = t and ?k = "nr_assigned_cpus s" and ?b = "boot_cpu_apic_id s"
  have cpu: "(if i = ?b then 0 else ?k) < 16" using Cons.prems(1,2) by auto
  have st: "nr_assigned_cpus ?s = ?k + 1" "boot_cpu_apic_id ?s = ?b"
      "early_cpuid_to_apic_id ?s = (early_cpuid_to_apic_id s)[(if i = ?b then 0 else ?k) := i]"
    using cpu by (simp_all add: t_def register_apic_id_def Let_def)
  have all: "register_all (r # regs) s = register_all regs ?s" by (simp add: register_all_def r t_def)
  have IH: "nr_assigned_cpus (register_all regs ?s) = ?k + 1 + length regs"
      "length (early_cpuid_to_apic_id (register_all regs ?s)) = 16" "boot_cpu_apic_id (register_all regs ?s) = ?b"
      "\<And>j. j < 16 \<Longrightarrow> early_cpuid_to_apic_id (register_all regs ?s) ! j =
        (if j = 0 then (if ?b \<in> fst ` set regs then ?b else early_cpuid_to_apic_id ?s ! 0)
         else if ?k + 1 \<le> j \<and> j < ?k + 1 + length regs \<and> fst (regs ! (j - (?k + 1))) \<noteq> ?b
         then fst (regs ! (j - (?k + 1))) else early_cpuid_to_apic_id ?s ! j)"
    using Cons.IH [of ?s] Cons.prems st by auto
  have "early_cpuid_to_apic_id (register_all regs ?s) ! j =
        (if j = 0 then (if ?b \<in> fst ` set (r # regs) then ?b else early_cpuid_to_apic_id s ! 0)
         else if ?k \<le> j \<and> j < ?k + length (r # regs) \<and> fst ((r # regs) ! (j - ?k)) \<noteq> ?b
         then fst ((r # regs) ! (j - ?k)) else early_cpuid_to_apic_id s ! j)" if j: "j < 16" for j
  proof -
    consider "j = 0" | "0 < j" "j < ?k" | "j = ?k" "0 < j" | "?k + 1 \<le> j" by linarith
    then show ?thesis
    proof cases
      case 4
      then have "j - ?k = Suc (j - (?k + 1))" by simp
      with 4 show ?thesis using IH(4) [OF j] Cons.prems(1) by (auto simp: st r nth_list_update)
    qed (use IH(4) [OF j] Cons.prems cpu in \<open>auto simp: st r nth_list_update\<close>)
  qed
  with IH(1-3) show ?case by (simp add: all)
qed

section \<open>The local APIC entries of the MADT\<close>

fun lapic_reg :: "subtable \<Rightarrow> (u32 \<times> u32) list" where
  "lapic_reg (ty, body) =
     (if ty = 0 \<and> body ! 1 \<noteq> 0xFF \<and> (of_nat (le_value (take 4 (drop 2 body))) :: u32) AND 1 \<noteq> 0
      then [(ucast (body ! 1), ucast (body ! 0))] else [])"

fun x2apic_reg :: "subtable \<Rightarrow> (u32 \<times> u32) list" where
  "x2apic_reg (ty, body) =
     (let ident = of_nat (le_value (take 4 (drop 2 body)))
      in if ty = 9 \<and> ident \<noteq> 0xFFFFFFFF \<and> (of_nat (le_value (take 4 (drop 6 body))) :: u32) AND 1 \<noteq> 0
         then [(ident, of_nat (le_value (take 4 (drop 10 body))))] else [])"

text \<open>The subtables are long enough for the fields of their kind.\<close>

definition lapics_ok :: "subtable list \<Rightarrow> bool" where
  "lapics_ok subs \<longleftrightarrow> (\<forall>(ty, body) \<in> set subs. (ty = 0 \<longrightarrow> 6 \<le> length body) \<and> (ty = 9 \<longrightarrow> 14 \<le> length body))"

lemma rd32_body:
  assumes "4 + k \<le> length body"
  shows "rd32 (ty # l # body @ rest) (k + 2) = Some (of_nat (le_value (take 4 (drop k body))))"
  using assms by (simp add: rd32_def get_unaligned_le_def)

lemma parse_lapic_sub:
  assumes "6 \<le> length body"
  shows "acpi_parse_lapic (sub_bytes (0, body) @ rest) s = Some (0, register_all (lapic_reg (0, body)) s)"
proof -
  have "rd8 (sub_bytes (0, body) @ rest) 3 = Some (body ! 1)" "rd8 (sub_bytes (0, body) @ rest) 2 = Some (body ! 0)"
    using assms by (auto simp: rd8_def nth_append numeral_3_eq_3 numeral_2_eq_2)
  moreover have "rd32 (sub_bytes (0, body) @ rest) 4 = Some (of_nat (le_value (take 4 (drop 2 body))))"
    using rd32_body [of 2 body 0 "of_nat (length body + 2)" rest] assms by simp
  ultimately show ?thesis by (simp add: acpi_parse_lapic_def register_all_def)
qed

lemma parse_x2apic_sub:
  assumes "14 \<le> length body"
  shows "acpi_parse_x2apic (sub_bytes (9, body) @ rest) s = Some (0, register_all (x2apic_reg (9, body)) s)"
proof -
  note r = rd32_body [of _ body 9 "of_nat (length body + 2)" rest]
  have "rd32 (sub_bytes (9, body) @ rest) 4 = Some (of_nat (le_value (take 4 (drop 2 body))))"
      "rd32 (sub_bytes (9, body) @ rest) 8 = Some (of_nat (le_value (take 4 (drop 6 body))))"
      "rd32 (sub_bytes (9, body) @ rest) 12 = Some (of_nat (le_value (take 4 (drop 10 body))))"
    using r [of 2] r [of 6] r [of 10] assms by simp_all
  then show ?thesis by (simp add: acpi_parse_x2apic_def register_all_def Let_def)
qed

lemma register_all_append: "register_all (xs @ ys) s = register_all ys (register_all xs s)"
  by (simp add: register_all_def)

text \<open>The walks of the two kinds, as registrations of a list.\<close>

lemma walk_registers:
  assumes "madt_like tab hdr subs"
    and "\<And>body rest s. (ty, body) \<in> set subs \<Longrightarrow> handler (sub_bytes (ty, body) @ rest) s = Some (0, register_all (reg (ty, body)) s)"
    and "\<And>x. fst x \<noteq> ty \<Longrightarrow> reg x = []"
  shows "acpi_subtable_parse tab (length hdr) ty handler uninit s =
     Some (if ty \<notin> fst ` set subs \<and> uninit \<noteq> 0 then Inl EINVAL else Inr (length (filter (\<lambda>x. fst x = ty) subs)),
           register_all (concat (map reg subs)) s)"
proof -
  have run: "run_subs ty handler err count xs s =
      Some (if ty \<notin> fst ` set xs then err else 0, count + length (filter (\<lambda>x. fst x = ty) xs), register_all (concat (map reg xs)) s)"
    if "set xs \<subseteq> set subs" for err count xs s
    using that
  proof (induction xs arbitrary: err count s)
    case (Cons x xs)
    show ?case
    proof (cases "fst x = ty")
      case True
      then obtain body where x: "x = (ty, body)" by (cases x) auto
      with Cons.prems have h: "handler (sub_bytes x @ body_bytes xs) s = Some (0, register_all (reg x) s)" using assms(2) by simp
      have "run_subs ty handler err count (x # xs) s = run_subs ty handler 0 (count + 1) xs (register_all (reg x) s)"
        using h True by simp
      with Cons.IH [of 0 "count + 1"] Cons.prems True show ?thesis by (simp add: register_all_append)
    next
      case False
      with Cons assms(3) [of x] show ?thesis by (simp add: register_all_append)
    qed
  qed (simp add: register_all_def)
  have "subtable_loop tab ty handler (length hdr) uninit 0 s = run_subs ty handler uninit 0 subs s"
    using assms(1) subtable_loop_eq [of hdr subs ty handler uninit 0 s] by (auto simp: madt_like_def)
  then show ?thesis using run [of subs uninit 0 s] by (simp add: acpi_subtable_parse_def)
qed

lemma parse_lapics:
  assumes "madt_like tab hdr subs" "lapics_ok subs"
  shows "acpi_subtable_parse tab (length hdr) 0 acpi_parse_lapic uninit s =
      Some (if 0 \<notin> fst ` set subs \<and> uninit \<noteq> 0 then Inl EINVAL else Inr (length (filter (\<lambda>x. fst x = 0) subs)),
            register_all (concat (map lapic_reg subs)) s)"
    "acpi_subtable_parse tab (length hdr) 9 acpi_parse_x2apic uninit s =
      Some (if 9 \<notin> fst ` set subs \<and> uninit \<noteq> 0 then Inl EINVAL else Inr (length (filter (\<lambda>x. fst x = 9) subs)),
            register_all (concat (map x2apic_reg subs)) s)"
    "acpi_subtable_parse tab (length hdr) ty acpi_parse_nothing uninit s =
      Some (if ty \<notin> fst ` set subs \<and> uninit \<noteq> 0 then Inl EINVAL else Inr (length (filter (\<lambda>x. fst x = ty) subs)), s)"
proof -
  have l: "6 \<le> length body" if "(0, body) \<in> set subs" for body using assms(2) that by (auto simp: lapics_ok_def)
  have x: "14 \<le> length body" if "(9, body) \<in> set subs" for body using assms(2) that by (auto simp: lapics_ok_def)
  show "acpi_subtable_parse tab (length hdr) 0 acpi_parse_lapic uninit s =
      Some (if 0 \<notin> fst ` set subs \<and> uninit \<noteq> 0 then Inl EINVAL else Inr (length (filter (\<lambda>x. fst x = 0) subs)),
            register_all (concat (map lapic_reg subs)) s)"
    by (rule walk_registers [OF assms(1)]) (auto intro: parse_lapic_sub l simp del: sub_bytes.simps lapic_reg.simps, auto)
  show "acpi_subtable_parse tab (length hdr) 9 acpi_parse_x2apic uninit s =
      Some (if 9 \<notin> fst ` set subs \<and> uninit \<noteq> 0 then Inl EINVAL else Inr (length (filter (\<lambda>x. fst x = 9) subs)),
            register_all (concat (map x2apic_reg subs)) s)"
    by (rule walk_registers [OF assms(1)]) (auto intro: parse_x2apic_sub x simp del: sub_bytes.simps x2apic_reg.simps, auto simp: Let_def)
  have "register_all (concat (map (\<lambda>x. []) subs)) s = s" by (induction subs) (simp_all add: register_all_def)
  then show "acpi_subtable_parse tab (length hdr) ty acpi_parse_nothing uninit s =
      Some (if ty \<notin> fst ` set subs \<and> uninit \<noteq> 0 then Inl EINVAL else Inr (length (filter (\<lambda>x. fst x = ty) subs)), s)"
    using walk_registers [OF assms(1), of ty acpi_parse_nothing "\<lambda>x. []" uninit s]
    by (simp add: acpi_parse_nothing_def register_all_def)
qed

section \<open>What mapping promises\<close>

text \<open>
  The contract of \<open>memremap\<close> with the tables: nothing is shown as nothing, and the bytes shown are
  those of physical memory.  The window of slots is not threaded through: every table is mapped
  into the empty window, and running out of slots is a failure of the machine here.
\<close>

locale table_memory =
  fixes mmap :: mmap and mem :: "u64 \<Rightarrow> u8"
  assumes mmap_zero: "mmap p 0 = None"
    and mmap_bytes: "mmap p k = Some bs \<Longrightarrow> unat k < 2 ^ 32 \<Longrightarrow> unat p + unat k \<le> 2 ^ 52 \<Longrightarrow>
      bs = map (\<lambda>i. mem (p + of_nat i)) [0..<unat k]"
begin

lemma checksum_loop_sum:
  "checksum_loop bs k s = (if k \<le> length bs then Some (s + sum_list (take k bs)) else None)"
  by (induction bs k s rule: checksum_loop.induct) (auto simp: add.assoc)

text \<open>A table that was acquired is the bytes of memory its header says, and they add up to zero.\<close>

lemma acquired_table:
  assumes "acpi_acquire_table mmap p = Some (Some tab)" "unat p + 2 ^ 32 \<le> 2 ^ 52"
  obtains len where "hdr_length tab = Some len" "tab = map (\<lambda>i. mem (p + of_nat i)) [0..<unat len]" "sum_list tab = 0"
proof -
  from assms(1) obtain hdr len where h: "mmap p 36 = Some hdr" "hdr_length hdr = Some len" "mmap p (ucast len) = Some tab"
      "acpi_validate tab = Some (Inr ())"
    by (auto simp: acpi_acquire_table_def bind_eq_Some_conv split: option.splits sum.splits) (metis old.unit.exhaust sumE)
  have lt: "unat len < 2 ^ 32" using unsigned_less [of len] by simp
  then have l: "unat (ucast len :: u64) = unat len" "unat len < 2 ^ 32"
    by (simp_all add: unsigned_ucast_eq take_bit_nat_eq_self)
  from h(4) obtain len' where v: "hdr_length tab = Some len'" "acpi_calc_checksum tab (unat len') = Some 0"
    by (auto simp: acpi_validate_def bind_eq_Some_conv split: if_splits)
  have tab: "tab = map (\<lambda>i. mem (p + of_nat i)) [0..<unat len]"
    using mmap_bytes [OF h(3)] l assms(2) by simp
  have hdr: "hdr = map (\<lambda>i. mem (p + of_nat i)) [0..<36]"
    using mmap_bytes [OF h(1)] assms(2) by simp
  have "8 \<le> length tab" using v(1) by (auto simp: hdr_length_def rd32_def get_unaligned_le_def split: if_splits)
  then have "take 8 tab = take 8 hdr" unfolding tab hdr by (simp add: take_map)
  moreover have "take 4 (drop 4 xs) = drop 4 (take 8 xs)" for xs :: bytes by (simp add: take_drop)
  ultimately have "len' = len"
    using v(1) h(2) by (simp add: hdr_length_def rd32_def get_unaligned_le_def split: if_splits)
  moreover have "sum_list tab = 0"
    using v(2) tab \<open>len' = len\<close> by (auto simp: acpi_calc_checksum_def checksum_loop_sum split: if_splits)
  ultimately show thesis using that v(1) tab by blast
qed

end

text \<open>The provider: what the processor shows of the pages \<open>memremap\<close> maps.\<close>

definition window_bytes :: "(u64 \<Rightarrow> u8) \<Rightarrow> mmap" where
  "window_bytes mem p k =
     (case memremap (- 1) p k fixmaps_init of
        Some (Some v, s) \<Rightarrow>
          Some (map (\<lambda>i. case fix_translate s (v + of_nat i) of Some q \<Rightarrow> mem q | None \<Rightarrow> 0) [0..<unat k])
      | _ \<Rightarrow> None)"

lemma window_bytes_eq:
  assumes "unat p + unat k \<le> 2 ^ 52" "unat k < 2 ^ 32"
  shows "window_bytes mem p k =
     (if 0 < unat k \<and> span_pages p k \<le> 512 then Some (map (\<lambda>i. mem (p + of_nat i)) [0..<unat k]) else None)"
proof -
  have init: "mapping_ok (mapping fixmaps_init)" "length (level1_fixmap0 fixmaps_init) = 512"
    using mapping_init_ok(1) by (simp_all add: fixmaps_init_def)
  consider "k = 0" | "0 < unat k" "512 < span_pages p k" | "0 < unat k" "span_pages p k \<le> 512"
    using unat_gt_0 [of k] by linarith
  then show ?thesis
  proof cases
    case 1
    then show ?thesis by (simp add: window_bytes_def memremap_def ioremap_prot_def)
  next
    case 2
    have "span_pages p k < 2 ^ 32" using assms(2) by (simp add: span_pages_def)
    with 2 show ?thesis using ioremap_too_large [OF assms(1), of "- 1" PAGE_KERNEL fixmaps_init]
      by (simp add: window_bytes_def memremap_def)
  next
    case 3
    have room: "room (mapping fixmaps_init) (span_pages p k) 0"
      using 3(2) mapping_init_ok(2) by (auto simp: room_def fixmaps_init_def)
    have prot: "prot_ok (- 1) PAGE_KERNEL" unfolding prot_ok_def by code_simp
    obtain a s' where r: "room (mapping fixmaps_init) (span_pages p k) a"
        "ioremap_prot (- 1) p k PAGE_KERNEL fixmaps_init = Some (Some (win a + offset_in_page p), s')"
        "\<And>i. i < 512 \<Longrightarrow> level1_fixmap0 s' ! i =
           (if a \<le> i \<and> i < a + span_pages p k then fixmap_entry (- 1) ((p AND PAGE_MASK) + of_nat (i - a) * 4096) PAGE_KERNEL
            else level1_fixmap0 fixmaps_init ! i)"
      using ioremap_prot_eq [OF init 3(1) assms(1) refl 3(2) room, of "- 1" PAGE_KERNEL] by blast
    have "a + span_pages p k \<le> 512" using r(1) by (simp add: room_def)
    then have "fix_translate s' (win a + offset_in_page p + of_nat i) = Some (p + of_nat i)" if "i < unat k" for i
      using ioremap_translates [OF r(3) refl _ prot assms(1) that] by simp
    with 3 r(2) show ?thesis by (simp add: window_bytes_def memremap_def)
  qed
qed

interpretation window: table_memory "window_bytes mem" mem for mem
proof
  fix p show "window_bytes mem p 0 = None" by (simp add: window_bytes_def memremap_def ioremap_prot_def)
next
  fix p k bs
  assume "window_bytes mem p k = Some bs" "unat k < 2 ^ 32" "unat p + unat k \<le> 2 ^ 52"
  then show "bs = map (\<lambda>i. mem (p + of_nat i)) [0..<unat k]" by (simp add: window_bytes_eq split: if_splits)
qed

section \<open>The tables of the XSDT\<close>

definition xsdt_entries :: "bytes \<Rightarrow> nat \<Rightarrow> nat \<Rightarrow> u64 list" where
  "xsdt_entries xsdt i k = map (\<lambda>j. of_nat (le_value (take 8 (drop (36 + 8 * j) xsdt)))) [i..<i + k]"

definition valid_table :: "mmap \<Rightarrow> u64 \<Rightarrow> bool" where
  "valid_table mmap p \<longleftrightarrow> p \<noteq> 0 \<and> (\<exists>tab. acpi_acquire_table mmap p = Some (Some tab))"

definition table_desc :: "mmap \<Rightarrow> u64 \<Rightarrow> acpi_table_desc" where
  "table_desc mmap p =
     (let tab = the (the (acpi_acquire_table mmap p))
      in \<lparr>d_address = p, d_length = the (hdr_length tab), d_signature = take 4 tab\<rparr>)"

lemma acquired_header: "acpi_acquire_table mmap p = Some (Some tab) \<Longrightarrow> hdr_length tab \<noteq> None \<and> 8 \<le> length tab"
  by (auto simp: acpi_acquire_table_def bind_eq_Some_conv acpi_validate_def hdr_length_def rd32_def get_unaligned_le_def
      split: option.splits sum.splits if_splits)

lemma add_table_eq:
  assumes "acpi_acquire_table mmap p \<noteq> None" "length tabs \<le> 32" "p \<noteq> 0"
  shows "map_option fst (acpi_add_table mmap p tabs) = Some (take 32 (tabs @ (if valid_table mmap p then [table_desc mmap p] else [])))"
proof -
  obtain t where t: "acpi_acquire_table mmap p = Some t" using assms(1) by auto
  show ?thesis
  proof (cases t)
    case None
    with t assms(2) show ?thesis by (simp add: acpi_add_table_def valid_table_def)
  next
    case (Some tab)
    with t obtain len where "hdr_length tab = Some len" "8 \<le> length tab" using acquired_header by blast
    with t Some assms(2,3) show ?thesis
      by (cases "length tabs = 32") (auto simp: acpi_add_table_def valid_table_def table_desc_def hdr_signature_def)
  qed
qed

lemma xsdt_loop_eq:
  assumes "36 + 8 * (i + k) \<le> length xsdt" "\<forall>p \<in> set (xsdt_entries xsdt i k). p = 0 \<or> acpi_acquire_table mmap p \<noteq> None" "length tabs \<le> 32"
  shows "xsdt_loop mmap xsdt k i tabs = Some (take 32 (tabs @ map (table_desc mmap) (filter (valid_table mmap) (xsdt_entries xsdt i k))))"
  using assms
proof (induction k arbitrary: i tabs)
  case 0
  then show ?case by (simp add: xsdt_entries_def)
next
  case (Suc k)
  let ?p = "of_nat (le_value (take 8 (drop (36 + 8 * i) xsdt))) :: u64"
  have es: "xsdt_entries xsdt i (Suc k) = ?p # xsdt_entries xsdt (i + 1) k"
    by (simp add: xsdt_entries_def upt_conv_Cons del: upt_Suc)
  have rd: "rd64 xsdt (36 + 8 * i) = Some ?p" using Suc.prems(1) by (simp add: rd64_def get_unaligned_le_def)
  define tabs' where "tabs' = (if ?p = 0 then tabs else take 32 (tabs @ (if valid_table mmap ?p then [table_desc mmap ?p] else [])))"
  have "(if ?p = 0 then Some tabs else map_option fst (acpi_add_table mmap ?p tabs)) = Some tabs'"
    using add_table_eq [of mmap ?p tabs] Suc.prems(2,3) by (cases "?p = 0") (simp_all add: es tabs'_def)
  then have "xsdt_loop mmap xsdt (Suc k) i tabs = xsdt_loop mmap xsdt k (i + 1) tabs'" by (simp add: rd)
  also have "\<dots> = Some (take 32 (tabs' @ map (table_desc mmap) (filter (valid_table mmap) (xsdt_entries xsdt (i + 1) k))))"
    using Suc.prems by (intro Suc.IH) (auto simp: es tabs'_def)
  also have "take 32 (tabs' @ ys) = take 32 (tabs @ (if valid_table mmap ?p then [table_desc mmap ?p] else []) @ ys)" for ys
    using Suc.prems(3) by (cases "length tabs = 32") (auto simp: tabs'_def valid_table_def min_def)
  finally have r: "xsdt_loop mmap xsdt (Suc k) i tabs = Some (take 32 (tabs @ (if valid_table mmap ?p then [table_desc mmap ?p] else []) @
      map (table_desc mmap) (filter (valid_table mmap) (xsdt_entries xsdt (i + 1) k))))" .
  show ?case unfolding r es by (simp del: take_append)
qed

section \<open>Properties\<close>

text \<open>
  C31: The walk over subtables calls the handler once for every subtable of the type, in the order of the
  table, and returns their number; but when there is none, the result depends on the uninitialised
  variable \<open>err\<close>.
\<close>

theorem acpi_subtable_parse_correct:
  assumes "madt_like tab hdr subs" "\<And>sub s. sub \<in> set (suffixes_of ty subs) \<Longrightarrow> handler sub s = Some (0, f sub s)"
  shows "acpi_subtable_parse tab (length hdr) ty handler uninit s =
     Some (if suffixes_of ty subs = [] \<and> uninit \<noteq> 0 then Inl EINVAL else Inr (length (suffixes_of ty subs)), fold f (suffixes_of ty subs) s)"
  using assms by (rule subtable_parse_total)

definition demo_hdr :: bytes where "demo_hdr = [0x41, 0x50, 0x49, 0x43, 60, 0, 0, 0] @ replicate 36 0"
definition demo_subs :: "subtable list" where "demo_subs = [(0, [1, 7, 1, 0, 0, 0]), (0, [2, 8, 1, 0, 0, 0])]"

lemma demo_madt: "madt_like (demo_hdr @ body_bytes demo_subs) demo_hdr demo_subs"
proof -
  have "hdr_length (demo_hdr @ body_bytes demo_subs) = Some 60" "length (demo_hdr @ body_bytes demo_subs) = 60"
    by (simp_all add: hdr_length_def rd32_def get_unaligned_le_def demo_hdr_def demo_subs_def)
  then show ?thesis by (simp add: madt_like_def) (simp add: demo_subs_def)
qed

theorem acpi_subtable_parse_correct_witness:
  "acpi_subtable_parse (demo_hdr @ body_bytes demo_subs) (length demo_hdr) 9 acpi_parse_nothing 1 (apic_init False fixmaps_init) = Some (Inl EINVAL, apic_init False fixmaps_init) \<and>
   acpi_subtable_parse (demo_hdr @ body_bytes demo_subs) (length demo_hdr) 0 acpi_parse_nothing 1 (apic_init False fixmaps_init) = Some (Inr 2, apic_init False fixmaps_init)"
  using acpi_subtable_parse_correct [OF demo_madt, of 9 acpi_parse_nothing "\<lambda>_ s. s" 1 "apic_init False fixmaps_init"]
    acpi_subtable_parse_correct [OF demo_madt, of 0 acpi_parse_nothing "\<lambda>_ s. s" 1 "apic_init False fixmaps_init"]
  by (simp add: acpi_parse_nothing_def demo_subs_def)






text \<open>A memory with an RSDP at 0x1000, an XSDT of one entry at 0x2000 and a table at 0x3000.\<close>

definition demo_rsdp :: bytes where "demo_rsdp = replicate 15 0 @ [2] @ replicate 8 0 @ [0, 0x20, 0, 0, 0, 0, 0, 0] @ replicate 8 0"
definition demo_xsdt :: bytes where "demo_xsdt = [0x58, 0x53, 0x44, 0x54, 44, 0, 0, 0, 0x61] @ replicate 27 0 @ [0, 0x30, 0, 0, 0, 0, 0, 0]"
definition demo_table :: bytes where "demo_table = [0x41, 0x50, 0x49, 0x43, 36, 0, 0, 0, 0xBF] @ replicate 27 0"

definition demo_mem :: "u64 \<Rightarrow> u8" where
  "demo_mem a = (let i = unat (a AND 0xFFF); h = unat (a div 0x1000)
     in if h = 1 \<and> i < 40 then demo_rsdp ! i else if h = 2 \<and> i < 44 then demo_xsdt ! i else if h = 3 \<and> i < 36 then demo_table ! i else 0)"

lemma demo_pages:
  "window_bytes demo_mem 0x1000 40 = Some demo_rsdp" "window_bytes demo_mem 0x2000 36 = Some (take 36 demo_xsdt)"
  "window_bytes demo_mem 0x2000 44 = Some demo_xsdt" "window_bytes demo_mem 0x3000 36 = Some demo_table"
proof -
  have m: "map (\<lambda>i. demo_mem (0x1000 + of_nat i)) [0..<40] = demo_rsdp" "map (\<lambda>i. demo_mem (0x2000 + of_nat i)) [0..<44] = demo_xsdt"
      "map (\<lambda>i. demo_mem (0x3000 + of_nat i)) [0..<36] = demo_table"
    by code_simp+
  have t: "[0..<36] = take 36 [0..<44]" by simp
  have "map (\<lambda>i. demo_mem (0x2000 + of_nat i)) [0..<36] = take 36 demo_xsdt" unfolding t by (simp only: take_map [symmetric] m)
  with m show "window_bytes demo_mem 0x1000 40 = Some demo_rsdp" "window_bytes demo_mem 0x2000 36 = Some (take 36 demo_xsdt)"
      "window_bytes demo_mem 0x2000 44 = Some demo_xsdt" "window_bytes demo_mem 0x3000 36 = Some demo_table"
    by (simp_all add: window_bytes_eq span_pages_def)
qed

lemma demo_acquired:
  "acpi_acquire_table (window_bytes demo_mem) 0x2000 = Some (Some demo_xsdt)" "hdr_length demo_xsdt = Some 44" "length demo_xsdt = 44"
  "acpi_acquire_table (window_bytes demo_mem) 0x3000 = Some (Some demo_table)" "hdr_length demo_table = Some 36"
proof -
  have l: "hdr_length (take 36 demo_xsdt) = Some 44" "hdr_length demo_xsdt = Some 44" "hdr_length demo_table = Some 36"
      "length demo_xsdt = 44"
    by (simp_all add: hdr_length_def rd32_def get_unaligned_le_def demo_xsdt_def demo_table_def)
  have c: "acpi_calc_checksum demo_xsdt 44 = Some 0" "acpi_calc_checksum demo_table 36 = Some 0" by code_simp+
  with l show "acpi_acquire_table (window_bytes demo_mem) 0x2000 = Some (Some demo_xsdt)" "hdr_length demo_xsdt = Some 44" "length demo_xsdt = 44"
      "acpi_acquire_table (window_bytes demo_mem) 0x3000 = Some (Some demo_table)" "hdr_length demo_table = Some 36"
    by (simp_all add: acpi_acquire_table_def acpi_validate_def demo_pages)
qed


section \<open>Permanent slots\<close>

lemma unat_perm:
  assumes "0 < idx" "idx < 512" "d < 4096"
  shows "unat (fix_to_virt idx + of_nat d) = 0xFFFFFFFFFFFFF000 - 4096 * idx + d"
proof -
  have c: "FIX_TOP_ADDR = 0xFFFFFFFFFFFFF000" unfolding FIX_TOP_ADDR_def by code_simp
  have s: "unat (push_bit 12 (of_nat idx) :: u64) = 4096 * idx"
  proof -
    have "push_bit 12 (of_nat idx) = (of_nat (4096 * idx) :: u64)" by (simp add: push_bit_eq_mult)
    then show ?thesis using assms(2) by (simp add: unat_of_nat take_bit_nat_eq_self del: of_nat_mult)
  qed
  have f: "unat (fix_to_virt idx) = 0xFFFFFFFFFFFFF000 - 4096 * idx"
    unfolding fix_to_virt_def c using assms(2) s by (subst unat_sub_nowrap) (simp_all add: word_le_nat_alt)
  have d: "unat (of_nat d :: u64) = d" using assms(3) by (simp add: unat_of_nat take_bit_nat_eq_self)
  show ?thesis using assms f d by (subst unat_add_nowrap) simp_all
qed

lemma perm_page_arith: "v + 4096 * i = 0xFFFFFFFFFFFFF000 + d \<Longrightarrow> i + m = 511 \<Longrightarrow> v = 18446744073707454464 + 4096 * m + (d::nat)"
  by simp

lemma pte_index_perm:
  assumes "0 < idx" "idx < 512" "d < 4096"
  shows "pte_index (fix_to_virt idx + of_nat d) = 511 - idx"
proof -
  obtain m where m: "idx + m = 511" using assms(2) le_Suc_ex [of idx 511] by auto
  have "unat (fix_to_virt idx + of_nat d) + 4096 * idx = 0xFFFFFFFFFFFFF000 + d" using unat_perm [OF assms] assms(2) by linarith
  then have "unat (fix_to_virt idx + of_nat d) = 18446744073707454464 + 4096 * m + d" using m by (rule perm_page_arith)
  then have "unat (fix_to_virt idx + of_nat d) = 4096 * (512 * 0x7FFFFFFFFFF + m) + d" by simp
  then have "unat (fix_to_virt idx + of_nat d) div 4096 = 512 * 0x7FFFFFFFFFF + m" using assms(3) by simp
  moreover have "(512 * 0x7FFFFFFFFFF + m) mod 512 = m" using m assms(1) by (simp only: mod_mult_self4 mod_less)
  moreover have "511 - idx = m" using m by simp
  ultimately show ?thesis by (simp only: pte_index_def table_index_nat) simp
qed

lemma set_fixmap_maps:
  assumes "0 < idx" "idx < 512" "prot_ok supp prot" "length (level1_fixmap1 s) = 512" "unat phys < 2 ^ 52" "set_fixmap supp idx phys prot s = Some s'"
    and "d < 4096"
  shows "fix1_translate s' (fix_to_virt idx + of_nat d) = Some ((phys AND PAGE_MASK) + of_nat d)"
proof -
  let ?v = "fix_to_virt idx + of_nat d" and ?p = "phys AND PAGE_MASK" and ?q = "prot AND supp"
  have "pte_index (fix_to_virt idx) = 511 - idx" using pte_index_perm [OF assms(1,2), of 0] by simp
  then have "level1_fixmap1 s' = (level1_fixmap1 s)[511 - idx := fixmap_entry supp phys prot]"
    using assms(1,2,6) by (auto simp: set_fixmap_def Let_def set_fixmap_entry_eq)
  moreover have "?q \<noteq> 0" using assms(3) by (auto simp: prot_ok_def)
  ultimately have e: "level1_fixmap1 s' ! pte_index ?v = ?p OR ?q"
    using assms(1,2,4) pte_index_perm [OF assms(1,2,7)] by (simp add: fixmap_entry_def)
  have "4096 * (unat phys div 4096) \<le> unat phys" by simp
  then have lt: "unat ?p < 2 ^ 52" "4096 dvd unat ?p" using assms(5) unfolding page_floor by (linarith, simp)
  note p = frame_and_mask [OF lt]
  have "(?p OR ?q) AND PHYSICAL_PAGE_MASK = ?p" using entry_parts(1) [OF p(1)] assms(3) by (simp add: prot_ok_def)
  moreover have "(?p OR ?q) AND 1 \<noteq> 0"
    using assms(3) by (auto simp: prot_ok_def and_one_eq mod2_eq_if even_or_iff split: if_splits)
  moreover have "unat ?v = 4096 * (0xFFFFFFFFFFFFF - idx) + d" using unat_perm [OF assms(1,2,7)] assms(2) by simp
  then have "unat ?v mod 4096 = d" using assms(7) by simp
  moreover have "0xFFFFFFFFFFE00000 \<le> ?v" using unat_perm [OF assms(1,2,7)] assms(2) by (simp add: word_le_nat_alt)
  ultimately show ?thesis using e frame_plus_offset [OF lt(2,1)] by (simp add: fix1_translate_def Let_def)
qed

text \<open>
  An I/O APIC is recorded with the range of interrupts its version register gives; the register is
  read at the start of the page of its address, which is where it is only for an address that is a
  multiple of the page size, because the offset is taken from the entry that is not yet written.
\<close>

theorem mp_register_ioapic_records:
  assumes "nr_ioapics s < 16" "length (ioapics s) = 16" "io_phys_addr (ioapics s ! nr_ioapics s) = 0" "length (level1_fixmap1 (fixmap s)) = 512"
    and "prot_ok supp (PAGE_KERNEL OR cachemode2protval cs MODE_UC)"
    and "page = (ucast address :: u64) AND PAGE_MASK" "entries = drop_bit 16 (ioapic_data hw page 1 (page + 16)) AND 0xFF"
  shows "\<exists>s'. mp_register_ioapic hw cs supp ident address gsi s = Some (s', Inr ()) \<and> nr_ioapics s' = nr_ioapics s + 1 \<and>
     ioapics s' ! nr_ioapics s = \<lparr>nr_registers = uint entries + 1, io_id = ident, io_phys_addr = ucast address,
        gsi_base = gsi, gsi_end = gsi + entries\<rparr> \<and>
     (unat address mod 4096 < 4080 \<longrightarrow>
        io_apic_read hw s' (nr_ioapics s) reg = Some (ioapic_data hw (ucast address) reg (ucast address + 16)))"
proof -
  let ?k = "nr_ioapics s" and ?a = "ucast address :: u64" and ?prot = "PAGE_KERNEL OR cachemode2protval cs MODE_UC"
  have lt: "unat address < 2 ^ 32" using unsigned_less [of address] by simp
  then have a: "unat ?a < 2 ^ 52" "unat ?a = unat address"
    by (simp_all add: unsigned_ucast_eq take_bit_nat_eq_self)
  obtain fx where fx: "set_fixmap supp (3 + ?k) ?a ?prot (fixmap s) = Some fx"
    using assms(1) by (auto simp: set_fixmap_def Let_def)
  have tr: "fix1_translate fx (fix_to_virt (3 + ?k) + of_nat d) = Some (page + of_nat d)" if "d < 4096" for d
    using set_fixmap_maps [OF _ _ assms(5,4) a(1) fx that] assms(1,6) by simp
  have base: "io_apic_base (s\<lparr>fixmap := fx\<rparr>) ?k = fix_to_virt (3 + ?k)" using assms(3) by (simp add: io_apic_base_def)
  have "io_apic_read hw (s\<lparr>fixmap := fx\<rparr>) ?k 1 = Some (ioapic_data hw page 1 (page + 16))"
    using tr [of 0] tr [of 16] by (simp add: io_apic_read_def base)
  then have redir: "io_apic_get_redir_entries hw (s\<lparr>fixmap := fx\<rparr>) ?k = Some (uint entries + 1)"
    by (simp add: io_apic_get_redir_entries_def assms(7))
  let ?s = "s\<lparr>fixmap := fx, ioapics := (ioapics s)[?k := \<lparr>nr_registers = uint entries + 1, io_id = ident, io_phys_addr = ?a,
     gsi_base = gsi, gsi_end = gsi + entries\<rparr>], nr_ioapics := ?k + 1\<rparr>"
  have reg: "mp_register_ioapic hw cs supp ident address gsi s = Some (?s, Inr ())"
    using assms(1) fx redir by (simp add: mp_register_ioapic_def set_fixmap_nocache_def)
  define t where "t = ?s"
  have later: "io_apic_read hw t ?k reg = Some (ioapic_data hw ?a reg (?a + 16))" if "unat address mod 4096 < 4080"
  proof -
    let ?o = "unat address mod 4096"
    have off: "?a AND NOT PAGE_MASK = of_nat ?o"
      by (rule word_unat_eq_iff [THEN iffD2]) (simp add: page_offset a(2) unat_of_nat take_bit_nat_eq_self)
    have "page + (?a AND NOT PAGE_MASK) = ?a"
      unfolding assms(6) by (rule word_unat_eq_iff [THEN iffD2], subst unat_add_nowrap) (use a(1) in \<open>simp_all add: page_floor page_offset\<close>)
    then have split: "page + of_nat ?o = ?a" unfolding off .
    have b: "io_apic_base t ?k = fix_to_virt (3 + ?k) + of_nat ?o" "fixmap t = fx" using assms(1,2) off by (simp_all add: t_def io_apic_base_def)
    have "of_nat (?o + 16) = (of_nat ?o + 16 :: u64)" by simp
    with tr [of ?o] tr [of "?o + 16"] that split show ?thesis
      by (simp add: io_apic_read_def b add.assoc [symmetric])
  qed
  have "nr_ioapics t = ?k + 1" "ioapics t ! ?k = \<lparr>nr_registers = uint entries + 1, io_id = ident, io_phys_addr = ?a,
     gsi_base = gsi, gsi_end = gsi + entries\<rparr>" using assms(1,2) by (simp_all add: t_def)
  with reg [folded t_def] later show ?thesis by blast
qed

definition demo_hw :: apic_hw where
  "demo_hw = \<lparr>lapic_mem = (\<lambda>_. 0), lapic_msr = (\<lambda>_. 0), ioapic_data = (\<lambda>p _ _. if p = 0xFEC00000 then 0x170020 else 0)\<rparr>"

theorem mp_register_ioapic_records_witness:
  "\<exists>s'. mp_register_ioapic demo_hw cache_init (- 1) 2 0xFEC00000 0 (apic_init False fixmaps_init) = Some (s', Inr ()) \<and>
     gsi_end (ioapics s' ! 0) = 23"
proof -
  let ?s = "apic_init False fixmaps_init"
  have s: "nr_ioapics ?s < 16" "length (ioapics ?s) = 16" "io_phys_addr (ioapics ?s ! nr_ioapics ?s) = 0"
      "length (level1_fixmap1 (fixmap ?s)) = 512" and n: "nr_ioapics ?s = 0"
    by (simp_all add: apic_init_def fixmaps_init_def ioapic_zero_def)
  have prot: "prot_ok (- 1) (PAGE_KERNEL OR cachemode2protval cache_init MODE_UC)" unfolding prot_ok_def by code_simp
  have page: "0xFEC00000 = (ucast (0xFEC00000 :: u32) :: u64) AND PAGE_MASK" by code_simp
  have entries: "23 = drop_bit 16 (ioapic_data demo_hw 0xFEC00000 1 (0xFEC00000 + 16)) AND 0xFF" by code_simp
  from mp_register_ioapic_records [OF s prot page entries, of 2 0 0] show ?thesis by (auto simp: n)
qed

end
