(* ===== verification/Mm.thy ===== *)
theory Mm
  imports Pgtable
begin

text \<open>
  The direct mapping of physical memory, \<open>arch/x86/ukernel/mm.c\<close>.  A page table is named by its
  physical address; \<open>tables\<close> gives the 512 entries of every table in memory.  The addresses of the
  linked tables, of the area \<open>__brk_base\<close> that new tables are taken from, and the values fixed by
  the configuration are in a record of constants.  A failed \<open>assert\<close>, which stops the machine, is
  \<open>None\<close>.
\<close>

section \<open>Model\<close>

record mm_const =
  phys_base :: u64
  supported_pte_mask :: u64
  brk_base :: u64
  BRK_ALLOC_PAGES :: u32
  init_top_pgt :: u64
  level3_kernel_pgt :: u64
  level2_kernel_pgt :: u64
  level2_fixmap_pgt :: u64

record mm =
  tables :: "u64 \<Rightarrow> nat \<Rightarrow> pte"
  next_page :: u32
  max_low_pfn_mapped :: u64
  max_pfn_mapped :: u64

definition set_entry :: "u64 \<Rightarrow> nat \<Rightarrow> pte \<Rightarrow> mm \<Rightarrow> mm" where
  "set_entry a i e s = s\<lparr>tables := (tables s)(a := (tables s a)(i := e))\<rparr>"

fun zero_pages :: "nat \<Rightarrow> u64 \<Rightarrow> (u64 \<Rightarrow> nat \<Rightarrow> pte) \<Rightarrow> u64 \<Rightarrow> nat \<Rightarrow> pte" where
  "zero_pages 0 a t = t"
| "zero_pages (Suc k) a t = zero_pages k (a + PAGE_SIZE) (t(a := (\<lambda>i. 0)))"

definition alloc_pages :: "mm_const \<Rightarrow> u32 \<Rightarrow> mm \<Rightarrow> (u64 \<times> mm) option" where
  "alloc_pages c num s =
     (if \<not> next_page s + num < BRK_ALLOC_PAGES c then None
      else let page = brk_base c + PAGE_SIZE * ucast (next_page s)
           in Some (page, s\<lparr>next_page := next_page s + num, tables := zero_pages (unat num) page (tables s)\<rparr>))"

definition PMD_SIZE :: u64 where "PMD_SIZE = BIT_UL PMD_SHIFT"
definition PMD_MASK :: u64 where "PMD_MASK = NOT (PMD_SIZE - 1)"
definition PUD_SIZE :: u64 where "PUD_SIZE = BIT_UL PUD_SHIFT"
definition PUD_MASK :: u64 where "PUD_MASK = NOT (PUD_SIZE - 1)"
definition PGD_SIZE :: u64 where "PGD_SIZE = BIT_UL PGD_SHIFT"
definition PGD_MASK :: u64 where "PGD_MASK = NOT (PGD_SIZE - 1)"

text \<open>
  The loop that the four functions below share: index and virtual address advance together, the
  address to the next multiple of what an entry of the table spans.
\<close>

function for_entries ::
  "u64 \<Rightarrow> u64 \<Rightarrow> (nat \<Rightarrow> u64 \<Rightarrow> mm \<Rightarrow> mm option) \<Rightarrow> u64 \<Rightarrow> nat \<Rightarrow> u64 \<Rightarrow> mm \<Rightarrow> mm option" where
  "for_entries msk sz body vaddr_end i vaddr s =
     (if i < PTRS_PER_PT \<and> vaddr < vaddr_end
      then case body i vaddr s of
             None \<Rightarrow> None
           | Some s \<Rightarrow> for_entries msk sz body vaddr_end (i + 1) ((vaddr AND msk) + sz) s
      else Some s)"
  by pat_completeness auto
termination by (relation "measure (\<lambda>(msk, sz, body, vaddr_end, i, vaddr, s). PTRS_PER_PT - i)") auto

declare for_entries.simps [simp del]

abbreviation (input) pa :: "mm_const \<Rightarrow> u64 \<Rightarrow> u64" where "pa c x \<equiv> phys_addr (phys_base c) x"

definition pt_body :: "mm_const \<Rightarrow> u64 \<Rightarrow> nat \<Rightarrow> u64 \<Rightarrow> mm \<Rightarrow> mm option" where
  "pt_body c pt i vaddr s =
     (if pte_flags (tables s pt i) AND PAGE_PRESENT \<noteq> 0 then None
      else Some (set_entry pt i (pa c vaddr OR check_pgprot (supported_pte_mask c) PAGE_KERNEL) s))"

definition physical_pt_init :: "mm_const \<Rightarrow> u64 \<Rightarrow> u64 \<Rightarrow> u64 \<Rightarrow> page_size \<Rightarrow> mm \<Rightarrow> mm option" where
  "physical_pt_init c pt start e ps s =
     for_entries PAGE_MASK PAGE_SIZE (pt_body c pt) (va e) (pte_index (va start)) (va start) s"

definition pmd_body :: "mm_const \<Rightarrow> u64 \<Rightarrow> u64 \<Rightarrow> page_size \<Rightarrow> nat \<Rightarrow> u64 \<Rightarrow> mm \<Rightarrow> mm option" where
  "pmd_body c pmd vaddr_end ps i vaddr s =
     (let ent = tables s pmd i in
      if pmd_flags ent AND PAGE_PRESENT \<noteq> 0 then
        if ps = PAGE_SIZE_2M then None
        else if pmd_flags ent AND PAGE_PSE \<noteq> 0 then None
        else physical_pt_init c (ent AND pmd_pfn_mask ent) (pa c vaddr) (pa c vaddr_end) ps s
      else if ps = PAGE_SIZE_2M then
        Some (set_entry pmd i (pa c vaddr OR check_pgprot (supported_pte_mask c) PAGE_KERNEL_LARGE) s)
      else do {
        (pt, s) \<leftarrow> alloc_pages c 1 s;
        s \<leftarrow> physical_pt_init c pt (pa c vaddr) (pa c vaddr_end) ps s;
        Some (set_entry pmd i (pt OR KERNPG_TABLE) s) })"

definition physical_pmd_init :: "mm_const \<Rightarrow> u64 \<Rightarrow> u64 \<Rightarrow> u64 \<Rightarrow> page_size \<Rightarrow> mm \<Rightarrow> mm option" where
  "physical_pmd_init c pmd start e ps s =
     for_entries PMD_MASK PMD_SIZE (pmd_body c pmd (va e) ps) (va e) (pmd_index (va start)) (va start) s"

definition pud_body :: "mm_const \<Rightarrow> u64 \<Rightarrow> u64 \<Rightarrow> page_size \<Rightarrow> nat \<Rightarrow> u64 \<Rightarrow> mm \<Rightarrow> mm option" where
  "pud_body c pud vaddr_end ps i vaddr s =
     (let ent = tables s pud i in
      if pud_flags ent AND PAGE_PRESENT \<noteq> 0 then
        if ps = PAGE_SIZE_1G then None
        else if pud_flags ent AND PAGE_PSE \<noteq> 0 then None
        else physical_pmd_init c (ent AND pud_pfn_mask ent) (pa c vaddr) (pa c vaddr_end) ps s
      else if ps = PAGE_SIZE_1G then
        Some (set_entry pud i (pa c vaddr OR check_pgprot (supported_pte_mask c) PAGE_KERNEL_LARGE) s)
      else do {
        (pmd, s) \<leftarrow> alloc_pages c 1 s;
        s \<leftarrow> physical_pmd_init c pmd (pa c vaddr) (pa c vaddr_end) ps s;
        Some (set_entry pud i (pmd OR KERNPG_TABLE) s) })"

definition physical_pud_init :: "mm_const \<Rightarrow> u64 \<Rightarrow> u64 \<Rightarrow> u64 \<Rightarrow> page_size \<Rightarrow> mm \<Rightarrow> mm option" where
  "physical_pud_init c pud start e ps s =
     for_entries PUD_MASK PUD_SIZE (pud_body c pud (va e) ps) (va e) (pud_index (va start)) (va start) s"

definition pgd_body :: "mm_const \<Rightarrow> u64 \<Rightarrow> u64 \<Rightarrow> page_size \<Rightarrow> nat \<Rightarrow> u64 \<Rightarrow> mm \<Rightarrow> mm option" where
  "pgd_body c pgd vaddr_end ps i vaddr s =
     (let ent = tables s pgd i in
      if pgd_flags ent AND PAGE_PRESENT \<noteq> 0 then
        physical_pud_init c (ent AND PHYSICAL_PAGE_MASK) (pa c vaddr) (pa c vaddr_end) ps s
      else do {
        (pud, s) \<leftarrow> alloc_pages c 1 s;
        s \<leftarrow> physical_pud_init c pud (pa c vaddr) (pa c vaddr_end) ps s;
        Some (set_entry pgd i (pud OR KERNPG_TABLE) s) })"

definition physical_mapping_init :: "mm_const \<Rightarrow> u64 \<Rightarrow> u64 \<Rightarrow> page_size \<Rightarrow> mm \<Rightarrow> mm option" where
  "physical_mapping_init c start e ps s =
     (if \<not> va e < START_KERNEL_map then None
      else for_entries PGD_MASK PGD_SIZE (pgd_body c (init_top_pgt c) (va e) ps) (va e) (pgd_index (va start)) (va start) s)"

definition add_range_mapped :: "u64 \<Rightarrow> u64 \<Rightarrow> mm \<Rightarrow> mm" where
  "add_range_mapped start_pfn end_pfn s =
     (let s = s\<lparr>max_pfn_mapped := c_max (max_pfn_mapped s) end_pfn\<rparr>
      in if start_pfn < BIT_UL (32 - PAGE_SHIFT)
         then s\<lparr>max_low_pfn_mapped := c_max (max_low_pfn_mapped s) (c_min end_pfn (BIT_UL (32 - PAGE_SHIFT)))\<rparr>
         else s)"

definition PFN_PHYS :: "u64 \<Rightarrow> u64" where "PFN_PHYS x = push_bit PAGE_SHIFT x"

text \<open>The piece \<open>[start_pfn .. end_pfn)\<close> with pages of one size, unless it is empty; \<open>pfn\<close> moves behind it.\<close>

definition map_piece :: "mm_const \<Rightarrow> u64 \<Rightarrow> u64 \<Rightarrow> page_size \<Rightarrow> u64 \<times> mm \<Rightarrow> (u64 \<times> mm) option" where
  "map_piece c start_pfn end_pfn ps p =
     (if start_pfn < end_pfn
      then case physical_mapping_init c (PFN_PHYS start_pfn) (PFN_PHYS end_pfn) ps (snd p) of
             None \<Rightarrow> None
           | Some s \<Rightarrow> Some (end_pfn, s)
      else Some p)"

definition map_region :: "mm_const \<Rightarrow> u64 \<Rightarrow> u64 \<Rightarrow> mm \<Rightarrow> mm option" where
  "map_region c start e s =
     (let limit_pfn = PFN_DOWN e; pfn = PFN_DOWN start in
      do {
        (pfn, s) \<leftarrow> map_piece c pfn (c_min (ROUND_UP pfn (PFN_DOWN PMD_SIZE)) limit_pfn) PAGE_SIZE_4K (pfn, s);
        (pfn, s) \<leftarrow> map_piece c (ROUND_UP pfn (PFN_DOWN PMD_SIZE))
          (c_min (ROUND_UP pfn (PFN_DOWN PUD_SIZE)) (ROUND_DOWN limit_pfn (PFN_DOWN PMD_SIZE))) PAGE_SIZE_2M (pfn, s);
        (pfn, s) \<leftarrow> map_piece c (ROUND_UP pfn (PFN_DOWN PUD_SIZE)) (ROUND_DOWN limit_pfn (PFN_DOWN PUD_SIZE)) PAGE_SIZE_1G (pfn, s);
        (pfn, s) \<leftarrow> map_piece c (ROUND_UP pfn (PFN_DOWN PMD_SIZE)) (ROUND_DOWN limit_pfn (PFN_DOWN PMD_SIZE)) PAGE_SIZE_2M (pfn, s);
        (pfn, s) \<leftarrow> map_piece c pfn limit_pfn PAGE_SIZE_4K (pfn, s);
        Some (add_range_mapped (drop_bit PAGE_SHIFT start) (drop_bit PAGE_SHIFT e) s) })"

text \<open>The loop over the ranges of whole pages in the memory map, behind index \<open>i\<close>.\<close>

lemma next_mem_loop_Some: "next_mem_loop m i nd = Some r \<Longrightarrow> i \<le> fst r \<and> fst r < n m"
proof (induction m i nd rule: next_mem_loop.induct)
  case (1 m i nd)
  show ?case
  proof (cases "i < n m")
    case True
    let ?reg = "regions m ! i"
    consider "PFN_DOWN (base ?reg + size ?reg) \<le> PFN_UP (base ?reg)"
      | "\<not> PFN_DOWN (base ?reg + size ?reg) \<le> PFN_UP (base ?reg)" "nd = - 1 \<or> nd = nid ?reg"
      | "\<not> PFN_DOWN (base ?reg + size ?reg) \<le> PFN_UP (base ?reg)" "\<not> (nd = - 1 \<or> nd = nid ?reg)" by blast
    then show ?thesis
    proof cases
      case 1
      then show ?thesis using "1.IH"(1) [OF True refl] "1.prems" True next_mem_loop.simps [of m i nd] by (simp add: Let_def)
    next
      case 2
      then show ?thesis using "1.prems" True next_mem_loop.simps [of m i nd] by (auto simp: Let_def)
    next
      case 3
      then show ?thesis using "1.IH"(2) [OF True refl] "1.prems" True next_mem_loop.simps [of m i nd] by (simp add: Let_def)
    qed
  next
    case False
    with "1.prems" next_mem_loop.simps [of m i nd] show ?thesis by simp
  qed
qed

function mapping_loop :: "mm_const \<Rightarrow> u64 \<Rightarrow> u64 \<Rightarrow> memblock \<Rightarrow> nat \<Rightarrow> mm \<Rightarrow> mm option" where
  "mapping_loop c range_start range_end m i s =
     (case next_mem_loop m i (- 1) of
        None \<Rightarrow> Some s
      | Some (j, start_pfn, end_pfn, nd) \<Rightarrow>
          (let start = clamp (PFN_PHYS start_pfn) range_start range_end;
               e = clamp (PFN_PHYS end_pfn) range_start range_end
           in if e \<le> start then mapping_loop c range_start range_end m (j + 1) s
              else case map_region c start e s of
                     None \<Rightarrow> None
                   | Some s \<Rightarrow> mapping_loop c range_start range_end m (j + 1) s))"
  by pat_completeness auto
termination
  by (relation "measure (\<lambda>(c, rs, re, m, i, s). n m - i)") (auto dest!: next_mem_loop_Some)

declare mapping_loop.simps [simp del]

definition init_range_memory_mapping :: "mm_const \<Rightarrow> u64 \<Rightarrow> u64 \<Rightarrow> memblock \<Rightarrow> mm \<Rightarrow> mm option" where
  "init_range_memory_mapping c range_start range_end m s = mapping_loop c range_start range_end m 0 s"

definition init_init_top_pgt :: "mm_const \<Rightarrow> mm \<Rightarrow> mm" where
  "init_init_top_pgt c s =
     (let pgd = init_top_pgt c; pud = level3_kernel_pgt c;
          s = set_entry pgd (pgd_index START_KERNEL_map) (pud OR KERNPG_TABLE) s;
          s = set_entry pud (pud_index START_KERNEL_map) (level2_kernel_pgt c OR KERNPG_TABLE) s
      in set_entry pud (pud_index START_KERNEL_map + 1) (level2_fixmap_pgt c OR KERNPG_TABLE) s)"

text \<open>The accesses to the processor, in order.\<close>

datatype cpu_event = Cr4_set_bits u64 | Write_cr3 u64 | Flush_tlb_all | Idt_setup_pf

definition init_mem_mapping :: "mm_const \<Rightarrow> memblock \<Rightarrow> mm \<Rightarrow> (memblock \<times> mm \<times> cpu_event list) option" where
  "init_mem_mapping c m s =
     do {
       let s = init_init_top_pgt c s;
       s \<leftarrow> init_range_memory_mapping c 0 (- 1) m s;
       (m, r) \<leftarrow> memblock_reserve m (brk_base c) (PAGE_SIZE * ucast (next_page s));
       Some (m, s, [Cr4_set_bits (BIT_UL 17), Write_cr3 (init_top_pgt c), Flush_tlb_all, Idt_setup_pf]) }"

section \<open>What the processor makes of the tables\<close>

text \<open>The walk of a virtual address through the four levels; a set PSE bit ends it early.\<close>

abbreviation present :: "pte \<Rightarrow> bool" where "present e \<equiv> e AND PAGE_PRESENT \<noteq> 0"

definition walk_pt :: "(u64 \<Rightarrow> nat \<Rightarrow> pte) \<Rightarrow> u64 \<Rightarrow> u64 \<Rightarrow> u64 option" where
  "walk_pt t a v = (let e = t a (pte_index v) in
     if present e then Some ((e AND PHYSICAL_PAGE_MASK) + (v AND NOT PAGE_MASK)) else None)"

definition walk_pmd :: "(u64 \<Rightarrow> nat \<Rightarrow> pte) \<Rightarrow> u64 \<Rightarrow> u64 \<Rightarrow> u64 option" where
  "walk_pmd t a v = (let e = t a (pmd_index v) in
     if \<not> present e then None
     else if e AND PAGE_PSE \<noteq> 0 then Some ((e AND PHYSICAL_PMD_PAGE_MASK) + (v AND NOT PMD_MASK))
     else walk_pt t (e AND PHYSICAL_PAGE_MASK) v)"

definition walk_pud :: "(u64 \<Rightarrow> nat \<Rightarrow> pte) \<Rightarrow> u64 \<Rightarrow> u64 \<Rightarrow> u64 option" where
  "walk_pud t a v = (let e = t a (pud_index v) in
     if \<not> present e then None
     else if e AND PAGE_PSE \<noteq> 0 then Some ((e AND PHYSICAL_PUD_PAGE_MASK) + (v AND NOT PUD_MASK))
     else walk_pmd t (e AND PHYSICAL_PAGE_MASK) v)"

definition translate :: "(u64 \<Rightarrow> nat \<Rightarrow> pte) \<Rightarrow> u64 \<Rightarrow> u64 \<Rightarrow> u64 option" where
  "translate t pgd v = (let e = t pgd (pgd_index v) in
     if present e then walk_pud t (e AND PHYSICAL_PAGE_MASK) v else None)"

text \<open>Entries that are present stay as they are.\<close>

definition grows :: "(u64 \<Rightarrow> nat \<Rightarrow> pte) \<Rightarrow> (u64 \<Rightarrow> nat \<Rightarrow> pte) \<Rightarrow> bool" where
  "grows t t' \<longleftrightarrow> (\<forall>a i. present (t a i) \<longrightarrow> t' a i = t a i)"

lemma grows_refl [simp]: "grows t t"
  by (simp add: grows_def)

lemma grows_trans: "grows t t' \<Longrightarrow> grows t' t'' \<Longrightarrow> grows t t''"
  by (simp add: grows_def)

lemma walk_pt_grows: "grows t t' \<Longrightarrow> walk_pt t a v = Some p \<Longrightarrow> walk_pt t' a v = Some p"
  by (auto simp: grows_def walk_pt_def Let_def split: if_splits)

lemma walk_pmd_grows: "grows t t' \<Longrightarrow> walk_pmd t a v = Some p \<Longrightarrow> walk_pmd t' a v = Some p"
  using walk_pt_grows by (auto simp: grows_def walk_pmd_def Let_def split: if_splits)

lemma walk_pud_grows: "grows t t' \<Longrightarrow> walk_pud t a v = Some p \<Longrightarrow> walk_pud t' a v = Some p"
  using walk_pmd_grows by (auto simp: grows_def walk_pud_def Let_def split: if_splits)

lemma translate_grows: "grows t t' \<Longrightarrow> translate t a v = Some p \<Longrightarrow> translate t' a v = Some p"
  using walk_pud_grows by (auto simp: grows_def translate_def Let_def split: if_splits)

section \<open>Addresses and entries\<close>

text \<open>The part of the address space the direct mapping has: up to the kernel image.\<close>

definition direct :: "u64 \<Rightarrow> bool" where
  "direct v \<longleftrightarrow> PAGE_OFFSET \<le> v \<and> v < START_KERNEL_map"

lemma unat_PAGE_OFFSET: "unat PAGE_OFFSET = 2 ^ 64 - 2 ^ 39"
  by (simp add: PAGE_OFFSET_def)

lemma unat_START_KERNEL_map: "unat START_KERNEL_map = 2 ^ 64 - 2 ^ 31"
  by (simp add: START_KERNEL_map_def)

lemma direct_unat: "direct v \<longleftrightarrow> 2 ^ 64 - 2 ^ 39 \<le> unat v \<and> unat v < 2 ^ 64 - 2 ^ 31"
  by (simp only: direct_def word_le_nat_alt word_less_nat_alt unat_PAGE_OFFSET unat_START_KERNEL_map)

lemma direct_phys:
  assumes "direct v"
  shows "phys_addr pb v = v - PAGE_OFFSET" "va (phys_addr pb v) = v" "unat (v - PAGE_OFFSET) = unat v - (2 ^ 64 - 2 ^ 39)"
proof -
  have "unat v + unat (0x80000000 :: u64) < 2 ^ 64" using assms by (simp add: direct_unat)
  then have "unat (v + 0x80000000) = unat v + 2 ^ 31" by (subst unat_add_nowrap) simp_all
  moreover have e: "v - START_KERNEL_map = v + 0x80000000" by (simp add: START_KERNEL_map_def)
  ultimately have "\<not> v - START_KERNEL_map < v" unfolding e word_less_nat_alt by simp
  then show p: "phys_addr pb v = v - PAGE_OFFSET" by (simp add: phys_addr_def Let_def)
  show "va (phys_addr pb v) = v" by (simp add: p va_def)
  show "unat (v - PAGE_OFFSET) = unat v - (2 ^ 64 - 2 ^ 39)"
    using assms unat_sub_nowrap [of PAGE_OFFSET v] by (simp add: direct_def unat_PAGE_OFFSET)
qed

text \<open>The step to the next entry of a table whose entries span \<open>2 ^ k\<close> bytes.\<close>

lemma next_entry_nat:
  fixes V k :: nat
  assumes "k + 9 \<le> 64" "V < 2 ^ 64" "V div 2 ^ k mod 512 < 511"
  defines "N \<equiv> 2 ^ k * (V div 2 ^ k) + 2 ^ k"
  shows "N < 2 ^ 64" "N div 2 ^ k = V div 2 ^ k + 1" "N div 2 ^ k mod 512 = V div 2 ^ k mod 512 + 1"
    "N div 2 ^ (k + 9) = V div 2 ^ (k + 9)" "V < N"
proof -
  have N: "N = 2 ^ k * (V div 2 ^ k + 1)" by (simp add: N_def)
  show d: "N div 2 ^ k = V div 2 ^ k + 1" unfolding N by (rule nonzero_mult_div_cancel_left) simp
  show m: "N div 2 ^ k mod 512 = V div 2 ^ k mod 512 + 1"
    unfolding d using assms(3) by (simp add: mod_Suc)
  have "(V div 2 ^ k + 1) div 512 = V div 2 ^ k div 512"
    using assms(3) mod_Suc [of "V div 2 ^ k" 512] by (simp add: div_Suc)
  moreover have "x div 2 ^ (k + 9) = x div 2 ^ k div 512" for x :: nat by (simp add: div_mult2_eq power_add)
  ultimately show e: "N div 2 ^ (k + 9) = V div 2 ^ (k + 9)" using d by simp
  show "V < N" using dividend_less_times_div [of "2 ^ k" V] by (simp add: N_def)
  obtain j where j: "64 = k + 9 + j" using assms(1) le_Suc_ex by blast
  then have P: "(2::nat) ^ 64 = 2 ^ (k + 9) * 2 ^ j" by (metis power_add)
  have "V div 2 ^ (k + 9) < 2 ^ j" using assms(2) unfolding P by (simp add: less_mult_imp_div_less mult.commute)
  then have "N div 2 ^ (k + 9) < 2 ^ j" by (simp only: e)
  then show "N < 2 ^ 64" unfolding P by (simp add: div_less_iff_less_mult mult.commute)
qed

lemma next_entry:
  assumes "k \<le> 39" "table_index k v < 511"
  defines "nx \<equiv> (v AND NOT (mask k)) + (2 ^ k :: u64)"
  shows "table_index k nx = table_index k v + 1" "unat nx div 2 ^ (k + 9) = unat v div 2 ^ (k + 9)" "v < nx"
    "unat nx div 2 ^ k = unat v div 2 ^ k + 1" "2 ^ k dvd unat nx"
proof -
  let ?N = "2 ^ k * (unat v div 2 ^ k) + 2 ^ k :: nat"
  have k: "k + 9 \<le> 64" "k < 64" using assms(1) by simp_all
  note facts = next_entry_nat [OF k(1) unat_u64_lt [of v]]
  have i: "unat v div 2 ^ k mod 512 < 511" using assms(2) by (simp add: table_index_nat)
  have "unat (v AND NOT (mask k)) + unat (2 ^ k :: u64) = ?N" by (simp add: and_not_mask_unat unat_pow2_u64 k(2))
  then have nx: "unat nx = ?N" using facts(1) [OF i] unfolding nx_def by (subst unat_add_nowrap) simp_all
  show "table_index k nx = table_index k v + 1" "unat nx div 2 ^ (k + 9) = unat v div 2 ^ (k + 9)" "v < nx"
    "unat nx div 2 ^ k = unat v div 2 ^ k + 1"
    unfolding table_index_nat word_less_nat_alt nx using facts [OF i] by simp_all
  show "2 ^ k dvd unat nx" unfolding nx by simp
qed

lemma and_mask_unat: "unat ((w::u64) AND mask k) = unat w mod 2 ^ k"
proof -
  have "unat (take_bit k w) = take_bit k (unat w)" by (simp add: unsigned_take_bit_eq)
  then show ?thesis by (simp only: take_bit_eq_mask [of k w] take_bit_eq_mod [of k "unat w"])
qed

text \<open>An address in the span of an entry that starts at \<open>v\<close>.\<close>

lemma span_offset:
  assumes "direct v" "2 ^ k dvd unat v" "k < 64" "unat w div 2 ^ k = unat v div 2 ^ k"
  shows "(v - PAGE_OFFSET) + (w AND mask k) = w - PAGE_OFFSET"
proof -
  note and_mask_unat [of w k]
  moreover have "unat v = 2 ^ k * (unat w div 2 ^ k)" using assms(2,4) by simp
  ultimately have "unat v + unat (w AND mask k) = unat w" by simp
  then have "unat (v + (w AND mask k)) = unat w" using unat_u64_lt [of w] by (subst unat_add_nowrap) simp_all
  then have "v + (w AND mask k) = w" by (rule word_unat_eq_iff [THEN iffD2])
  then show ?thesis by (metis add.commute add_diff_eq)
qed

lemma level_masks:
  "PAGE_MASK = NOT (mask PAGE_SHIFT)" "PAGE_SIZE = 2 ^ PAGE_SHIFT"
  "PMD_MASK = NOT (mask PMD_SHIFT)" "PMD_SIZE = 2 ^ PMD_SHIFT"
  "PUD_MASK = NOT (mask PUD_SHIFT)" "PUD_SIZE = 2 ^ PUD_SHIFT"
  "PGD_MASK = NOT (mask PGD_SHIFT)" "PGD_SIZE = 2 ^ PGD_SHIFT"
  by (simp_all add: PAGE_MASK_def PMD_MASK_def PMD_SIZE_def PUD_MASK_def PUD_SIZE_def PGD_MASK_def PGD_SIZE_def
      BIT_UL_def mask_eq_exp_minus_1 push_bit_eq_mult)

text \<open>The flag bits of an entry do not meet the frame, and the other way round.\<close>

lemma flags_low:
  "pte_flags e AND PAGE_PRESENT = e AND PAGE_PRESENT" "pgd_flags e AND PAGE_PRESENT = e AND PAGE_PRESENT"
  "pmd_flags e AND PAGE_PRESENT = e AND PAGE_PRESENT" "pud_flags e AND PAGE_PRESENT = e AND PAGE_PRESENT"
  "pmd_flags e AND PAGE_PSE = e AND PAGE_PSE" "pud_flags e AND PAGE_PSE = e AND PAGE_PSE"
proof -
  have m: "NOT PHYSICAL_PAGE_MASK AND 1 = 1" "NOT PHYSICAL_PMD_PAGE_MASK AND 1 = 1" "NOT PHYSICAL_PUD_PAGE_MASK AND 1 = 1"
    "NOT PHYSICAL_PAGE_MASK AND 0x80 = 0x80" "NOT PHYSICAL_PMD_PAGE_MASK AND 0x80 = 0x80" "NOT PHYSICAL_PUD_PAGE_MASK AND 0x80 = 0x80"
    by (simp_all add: PHYSICAL_PAGE_MASK_def PHYSICAL_PMD_PAGE_MASK_def PHYSICAL_PUD_PAGE_MASK_def BIT_UL_def PAGE_MASK_def)
  show "pte_flags e AND PAGE_PRESENT = e AND PAGE_PRESENT" "pgd_flags e AND PAGE_PRESENT = e AND PAGE_PRESENT"
    "pmd_flags e AND PAGE_PRESENT = e AND PAGE_PRESENT" "pud_flags e AND PAGE_PRESENT = e AND PAGE_PRESENT"
    "pmd_flags e AND PAGE_PSE = e AND PAGE_PSE" "pud_flags e AND PAGE_PSE = e AND PAGE_PSE"
    by (simp_all only: pte_flags_def pgd_flags_def pmd_flags_def pud_flags_def pmd_pfn_mask_def pud_pfn_mask_def and.assoc m split: if_split) simp_all
qed

lemma pfn_mask_small:
  "e AND PAGE_PSE = 0 \<Longrightarrow> pmd_pfn_mask e = PHYSICAL_PAGE_MASK" "e AND PAGE_PSE = 0 \<Longrightarrow> pud_pfn_mask e = PHYSICAL_PAGE_MASK"
  by (simp_all add: pmd_pfn_mask_def pud_pfn_mask_def)

section \<open>Entries the code writes\<close>

text \<open>A frame that is a multiple of its size passes the mask of the level, the flags do not.\<close>

lemma frame_mask:
  assumes "unat (x::u64) < 2 ^ 52" "2 ^ k dvd unat x"
  shows "x AND ((BIT_UL 52 - 1) AND NOT (mask k)) = x"
proof -
  have "x AND mask 52 = x" by (rule low_bits_and) (use assms(1) in simp_all)
  moreover have "x AND NOT (mask k) = x" using assms(2) by (rule word_dvd_and_mask)
  ultimately show ?thesis by (simp add: BIT_UL_def mask_eq_exp_minus_1 push_bit_eq_mult flip: and.assoc)
qed

lemma frame_masks:
  "PHYSICAL_PAGE_MASK = (BIT_UL 52 - 1) AND NOT (mask PAGE_SHIFT)"
  "PHYSICAL_PMD_PAGE_MASK = (BIT_UL 52 - 1) AND NOT (mask PMD_SHIFT)"
  "PHYSICAL_PUD_PAGE_MASK = (BIT_UL 52 - 1) AND NOT (mask PUD_SHIFT)"
  by (simp_all add: PHYSICAL_PAGE_MASK_def PHYSICAL_PMD_PAGE_MASK_def PHYSICAL_PUD_PAGE_MASK_def PAGE_MASK_not
      BIT_UL_def mask_eq_exp_minus_1 push_bit_eq_mult)

lemma flag_bits:
  "check_pgprot supp PAGE_KERNEL = PAGE_KERNEL AND supp" "check_pgprot supp PAGE_KERNEL_LARGE = PAGE_KERNEL_LARGE AND supp"
  "PAGE_KERNEL AND PHYSICAL_PAGE_MASK = 0" "PAGE_KERNEL_LARGE AND PHYSICAL_PMD_PAGE_MASK = 0"
  "PAGE_KERNEL_LARGE AND PHYSICAL_PUD_PAGE_MASK = 0" "KERNPG_TABLE AND PHYSICAL_PAGE_MASK = 0"
  "PAGE_KERNEL AND PAGE_PRESENT = PAGE_PRESENT" "PAGE_KERNEL_LARGE AND PAGE_PRESENT = PAGE_PRESENT"
  "PAGE_KERNEL_LARGE AND PAGE_PSE = PAGE_PSE" "KERNPG_TABLE AND PAGE_PRESENT = PAGE_PRESENT" "KERNPG_TABLE AND PAGE_PSE = 0"
  by (simp_all add: check_pgprot_def PAGE_KERNEL_def PAGE_KERNEL_LARGE_def KERNPG_TABLE_def PHYSICAL_PAGE_MASK_def
      PHYSICAL_PMD_PAGE_MASK_def PHYSICAL_PUD_PAGE_MASK_def BIT_UL_def PAGE_MASK_def)

text \<open>The mask of supported bits has the two that the walk looks at.\<close>

definition supp_ok :: "mm_const \<Rightarrow> bool" where
  "supp_ok c \<longleftrightarrow> supported_pte_mask c AND PAGE_PRESENT = PAGE_PRESENT \<and> supported_pte_mask c AND PAGE_PSE = PAGE_PSE"

lemma low_bit_frame: "4096 dvd unat x \<Longrightarrow> b AND PAGE_MASK = 0 \<Longrightarrow> (x OR f) AND b = f AND (b::u64)"
proof -
  assume "4096 dvd unat x" "b AND PAGE_MASK = 0"
  then have "x AND PAGE_MASK = x" using word_dvd_and_mask [of 12 x] by (simp add: PAGE_MASK_not)
  then have "x AND b = x AND (PAGE_MASK AND b)" by (metis and.assoc)
  then have "x AND b = 0" using \<open>b AND PAGE_MASK = 0\<close> by (simp add: and.commute)
  then show ?thesis by (simp add: and.commute [of _ b] bit.conj_disj_distrib)
qed

lemma low_bits: "PAGE_PRESENT AND PAGE_MASK = 0" "PAGE_PSE AND PAGE_MASK = 0"
  by (simp_all add: PAGE_MASK_def)

lemma table_entry:
  assumes "4096 dvd unat x" "unat x < 2 ^ 52"
  shows "present (x OR KERNPG_TABLE)" "(x OR KERNPG_TABLE) AND PAGE_PSE = 0" "(x OR KERNPG_TABLE) AND PHYSICAL_PAGE_MASK = x"
  using low_bit_frame [OF assms(1) low_bits(1), of KERNPG_TABLE] low_bit_frame [OF assms(1) low_bits(2), of KERNPG_TABLE]
    entry_parts(1) [OF frame_and_mask(1) [OF assms(2,1)], of KERNPG_TABLE]
  by (simp_all only: flag_bits) simp_all

lemma leaf_entry:
  assumes "supp_ok c" "4096 dvd unat x" "unat x < 2 ^ 52"
  shows "present (x OR check_pgprot (supported_pte_mask c) PAGE_KERNEL)"
    "(x OR check_pgprot (supported_pte_mask c) PAGE_KERNEL) AND PHYSICAL_PAGE_MASK = x"
    "present (x OR check_pgprot (supported_pte_mask c) PAGE_KERNEL_LARGE)"
    "(x OR check_pgprot (supported_pte_mask c) PAGE_KERNEL_LARGE) AND PAGE_PSE \<noteq> 0"
    "2 ^ PMD_SHIFT dvd unat x \<Longrightarrow> (x OR check_pgprot (supported_pte_mask c) PAGE_KERNEL_LARGE) AND PHYSICAL_PMD_PAGE_MASK = x"
    "2 ^ PUD_SHIFT dvd unat x \<Longrightarrow> (x OR check_pgprot (supported_pte_mask c) PAGE_KERNEL_LARGE) AND PHYSICAL_PUD_PAGE_MASK = x"
proof -
  let ?s = "supported_pte_mask c"
  have s: "?s AND PAGE_PRESENT = PAGE_PRESENT" "?s AND PAGE_PSE = PAGE_PSE" using assms(1) by (simp_all add: supp_ok_def)
  have low: "(x OR f AND ?s) AND PAGE_PRESENT = f AND PAGE_PRESENT" "(x OR f AND ?s) AND PAGE_PSE = f AND PAGE_PSE" for f
    using low_bit_frame [OF assms(2) low_bits(1), of "f AND ?s"] low_bit_frame [OF assms(2) low_bits(2), of "f AND ?s"] s
    by (simp_all only: and.assoc)
  show "present (x OR check_pgprot ?s PAGE_KERNEL)" "present (x OR check_pgprot ?s PAGE_KERNEL_LARGE)"
    "(x OR check_pgprot ?s PAGE_KERNEL_LARGE) AND PAGE_PSE \<noteq> 0"
    unfolding flag_bits(1,2) low unfolding flag_bits by simp_all
  have z: "f AND m = 0 \<Longrightarrow> (f AND ?s) AND m = 0" for f m :: u64
    by (simp only: and.assoc and.commute [of ?s m]) (simp only: and_zero_eq zero_and_eq flip: and.assoc)
  show "(x OR check_pgprot ?s PAGE_KERNEL) AND PHYSICAL_PAGE_MASK = x"
    unfolding flag_bits(1) by (rule entry_parts(1) [OF frame_and_mask(1) [OF assms(3,2)] z]) (rule flag_bits)
  show "(x OR check_pgprot ?s PAGE_KERNEL_LARGE) AND PHYSICAL_PMD_PAGE_MASK = x" if "2 ^ PMD_SHIFT dvd unat x"
    using frame_mask [OF assms(3) that] unfolding flag_bits(2) by (intro entry_parts(1) z flag_bits) (simp only: frame_masks)
  show "(x OR check_pgprot ?s PAGE_KERNEL_LARGE) AND PHYSICAL_PUD_PAGE_MASK = x" if "2 ^ PUD_SHIFT dvd unat x"
    using frame_mask [OF assms(3) that] unfolding flag_bits(2) by (intro entry_parts(1) z flag_bits) (simp only: frame_masks)
qed

section \<open>Tables by level\<close>

text \<open>
  A table that is in use has a level, from 1 for the tables of pages to 4 for the root.  \<open>typed\<close>: the
  pages that are still to be handed out have no level and no present entry, and a present entry
  that is not a page leads to a table one level below.
\<close>

definition fresh :: "mm_const \<Rightarrow> mm \<Rightarrow> u64 set" where
  "fresh c s = {brk_base c + PAGE_SIZE * of_nat k | k. unat (next_page s) \<le> k \<and> k < unat (BRK_ALLOC_PAGES c)}"

definition brk_ok :: "mm_const \<Rightarrow> bool" where
  "brk_ok c \<longleftrightarrow> 4096 dvd unat (brk_base c) \<and> unat (brk_base c) + 4096 * unat (BRK_ALLOC_PAGES c) \<le> 2 ^ 52"

definition typed :: "mm_const \<Rightarrow> (u64 \<Rightarrow> nat option) \<Rightarrow> mm \<Rightarrow> bool" where
  "typed c ty s \<longleftrightarrow> next_page s < BRK_ALLOC_PAGES c \<and>
     (\<forall>a \<in> fresh c s. ty a = None \<and> (\<forall>i. \<not> present (tables s a i))) \<and>
     (\<forall>a l i. ty a = Some l \<and> 2 \<le> l \<and> i < 512 \<and> present (tables s a i) \<and> (l = 4 \<or> tables s a i AND PAGE_PSE = 0) \<longrightarrow>
        ty (tables s a i AND PHYSICAL_PAGE_MASK) = Some (l - 1))"

lemma typedD:
  assumes "typed c ty s"
  shows "next_page s < BRK_ALLOC_PAGES c" "a \<in> fresh c s \<Longrightarrow> ty a = None" "a \<in> fresh c s \<Longrightarrow> \<not> present (tables s a i)"
    "ty b = Some l \<Longrightarrow> 2 \<le> l \<Longrightarrow> i < 512 \<Longrightarrow> present (tables s b i) \<Longrightarrow> l = 4 \<or> tables s b i AND PAGE_PSE = 0 \<Longrightarrow>
       ty (tables s b i AND PHYSICAL_PAGE_MASK) = Some (l - 1)"
  using assms unfolding typed_def by blast+

text \<open>
  What the work on table \<open>a\<close> of level \<open>l\<close> leaves: levels are only added, present entries stay, and
  other tables of this level or above are not touched.
\<close>

definition post :: "mm_const \<Rightarrow> nat \<Rightarrow> u64 \<Rightarrow> (u64 \<Rightarrow> nat option) \<Rightarrow> mm \<Rightarrow> (u64 \<Rightarrow> nat option) \<Rightarrow> mm \<Rightarrow> bool" where
  "post c l a ty s ty' s' \<longleftrightarrow> ty \<subseteq>\<^sub>m ty' \<and> typed c ty' s' \<and> grows (tables s) (tables s') \<and>
     (\<forall>b m. ty b = Some m \<and> l \<le> m \<and> b \<noteq> a \<longrightarrow> tables s' b = tables s b)"

lemma postD:
  assumes "post c l a ty s ty' s'"
  shows "ty b = Some m \<Longrightarrow> ty' b = Some m" "typed c ty' s'" "grows (tables s) (tables s')"
    "ty b = Some m \<Longrightarrow> l \<le> m \<Longrightarrow> b \<noteq> a \<Longrightarrow> tables s' b = tables s b"
  using assms unfolding post_def by (force simp: map_le_def)+

lemma post_refl: "typed c ty s \<Longrightarrow> post c l a ty s ty s"
  by (simp add: post_def)

lemma post_trans:
  assumes "post c l a ty s ty' s'" "post c l a ty' s' ty'' s''"
  shows "post c l a ty s ty'' s''"
  unfolding post_def
proof (intro conjI allI impI)
  show "ty \<subseteq>\<^sub>m ty''" using assms unfolding post_def by (meson map_le_trans)
  show "grows (tables s) (tables s'')" using postD(3) assms by (meson grows_trans)
  fix b m
  assume b: "ty b = Some m \<and> l \<le> m \<and> b \<noteq> a"
  then show "tables s'' b = tables s b" using postD(1,4) [OF assms(1)] postD(4) [OF assms(2)] by metis
qed (rule postD(2) [OF assms(2)])

text \<open>Work on a table of a lower level is work on this one.\<close>

lemma post_level: "post c l b ty s ty' s' \<Longrightarrow> ty b = Some l \<Longrightarrow> l < m \<Longrightarrow> post c m a ty s ty' s'"
  unfolding post_def by fastforce

lemma fresh_set_entry [simp]: "fresh c (set_entry a i e s) = fresh c s" "next_page (set_entry a i e s) = next_page s"
  by (simp_all add: fresh_def set_entry_def)

lemma tables_set_entry: "tables (set_entry a i e s) b j = (if b = a \<and> j = i then e else tables s b j)"
  by (simp add: set_entry_def)

lemma post_set_entry:
  assumes "typed c ty s" "ty a = Some l" "\<not> present (tables s a i)"
    and "2 \<le> l \<Longrightarrow> l = 4 \<or> e AND PAGE_PSE = 0 \<Longrightarrow> ty (e AND PHYSICAL_PAGE_MASK) = Some (l - 1)"
  shows "post c l a ty s ty (set_entry a i e s)"
proof -
  have "b \<noteq> a" if "b \<in> fresh c s" for b using typedD(2) [OF assms(1) that] assms(2) by auto
  then have "typed c ty (set_entry a i e s)"
    using assms unfolding typed_def by (simp add: tables_set_entry)
  moreover have "grows (tables s) (tables (set_entry a i e s))" using assms(3) by (simp add: grows_def tables_set_entry)
  moreover have "tables (set_entry a i e s) b = tables s b" if "b \<noteq> a" for b using that by (simp add: set_entry_def)
  ultimately show ?thesis by (simp add: post_def)
qed

text \<open>A new page becomes a table of a level of choice.\<close>

lemma brk_page:
  assumes "brk_ok c" "k < unat (BRK_ALLOC_PAGES c)"
  shows "unat (brk_base c + PAGE_SIZE * of_nat k) = unat (brk_base c) + 4096 * k"
    "unat (brk_base c) + 4096 * k < 2 ^ 52"
proof -
  have k: "unat (brk_base c) + 4096 * k + 4096 \<le> 2 ^ 52"
    using assms unfolding brk_ok_def by linarith
  then show "unat (brk_base c) + 4096 * k < 2 ^ 52" by simp
  have "unat (PAGE_SIZE * of_nat k) = 4096 * k"
    using k by (simp add: unat_word_ariths unat_of_nat take_bit_nat_def)
  then show "unat (brk_base c + PAGE_SIZE * of_nat k) = unat (brk_base c) + 4096 * k"
    using k by (subst unat_add_nowrap) simp_all
qed

lemma alloc_page_ok:
  assumes "brk_ok c" "typed c ty s" "alloc_pages c 1 s = Some (p, s')"
  shows "4096 dvd unat p" "unat p < 2 ^ 52" "ty p = None" "post c l a ty s (ty(p \<mapsto> m)) s'"
    "tables s' p = (\<lambda>i. 0)" "b \<noteq> p \<Longrightarrow> tables s' b = tables s b"
proof -
  let ?k = "unat (next_page s)"
  have lt: "next_page s < BRK_ALLOC_PAGES c" using typedD(1) [OF assms(2)] .
  have s': "p = brk_base c + PAGE_SIZE * of_nat ?k" "next_page s' = next_page s + 1" "tables s' = (tables s)(p := (\<lambda>i. 0))"
      "next_page s + 1 < BRK_ALLOC_PAGES c"
    using assms(3) by (simp_all add: alloc_pages_def Let_def split: if_splits) auto
  have kl: "?k < unat (BRK_ALLOC_PAGES c)" using lt by (simp add: word_less_nat_alt)
  have nx: "unat (next_page s') = ?k + 1"
    using kl unsigned_less [of "BRK_ALLOC_PAGES c", where 'a = nat] unfolding s'(2) by (subst unat_add_nowrap) simp_all
  have up: "unat p = unat (brk_base c) + 4096 * ?k" unfolding s'(1) by (rule brk_page [OF assms(1) kl])
  have "4096 dvd unat (brk_base c)" using assms(1) by (simp add: brk_ok_def)
  then show "4096 dvd unat p" unfolding up by simp
  show "unat p < 2 ^ 52" unfolding up by (rule brk_page [OF assms(1) kl])
  have fr: "p \<in> fresh c s" unfolding fresh_def using s'(1) kl by blast
  show none: "ty p = None" by (rule typedD(2) [OF assms(2) fr])
  have sub: "b \<in> fresh c s \<and> b \<noteq> p" if m: "b \<in> fresh c s'" for b
  proof -
    obtain k where k: "b = brk_base c + PAGE_SIZE * of_nat k" "?k + 1 \<le> k" "k < unat (BRK_ALLOC_PAGES c)"
      using m unfolding fresh_def nx by blast
    then have "unat b \<noteq> unat p" using up brk_page(1) [OF assms(1) k(3)] by simp
    moreover have "b \<in> fresh c s" using k unfolding fresh_def by auto
    ultimately show ?thesis by auto
  qed
  show t: "tables s' p = (\<lambda>i. 0)" "b \<noteq> p \<Longrightarrow> tables s' b = tables s b" for b by (simp_all add: s'(3))
  have "typed c (ty(p \<mapsto> m)) s'"
    unfolding typed_def
  proof (intro conjI ballI allI impI)
    show "next_page s' < BRK_ALLOC_PAGES c" using s'(2,4) by simp
    fix b
    assume "b \<in> fresh c s'"
    with sub have b: "b \<in> fresh c s" "b \<noteq> p" by blast+
    then show "(ty(p \<mapsto> m)) b = None" using typedD(2) [OF assms(2)] by simp
    show "\<not> present (tables s' b i)" for i using typedD(3) [OF assms(2) b(1)] t(2) [OF b(2)] by simp
  next
    fix b l i
    assume A: "(ty(p \<mapsto> m)) b = Some l \<and> 2 \<le> l \<and> i < 512 \<and> present (tables s' b i) \<and> (l = 4 \<or> tables s' b i AND PAGE_PSE = 0)"
    have "b \<noteq> p" using A t(1) by auto
    with A t(2) have "ty (tables s b i AND PHYSICAL_PAGE_MASK) = Some (l - 1)" by (intro typedD(4) [OF assms(2)]) auto
    moreover from this none have "tables s b i AND PHYSICAL_PAGE_MASK \<noteq> p" by auto
    ultimately show "(ty(p \<mapsto> m)) (tables s' b i AND PHYSICAL_PAGE_MASK) = Some (l - 1)" using t(2) [OF \<open>b \<noteq> p\<close>] by simp
  qed
  moreover have "grows (tables s) (tables s')"
    using typedD(3) [OF assms(2) fr] by (auto simp: grows_def s'(3))
  moreover have "tables s' b = tables s b" if "ty b = Some j" for b j using that none t(2) by (metis option.distinct(1))
  ultimately show "post c l a ty s (ty(p \<mapsto> m)) s'" using none by (auto simp: post_def map_le_def)
qed

section \<open>The loop over the entries of a table\<close>

text \<open>
  From the first address on, the loop reaches every entry up to the end of the range or of the
  table; what the body makes hold of the addresses of an entry then holds of the whole span.
\<close>

lemma for_entries_rule:
  fixes W :: "(u64 \<Rightarrow> nat \<Rightarrow> pte) \<Rightarrow> u64 \<Rightarrow> bool"
  assumes step: "\<And>v s s1 ty. typed c ty s \<Longrightarrow> ty a = Some l \<Longrightarrow> direct v \<Longrightarrow> v < ve \<Longrightarrow> 2 ^ al dvd unat v \<Longrightarrow>
      body (table_index k v) v s = Some s1 \<Longrightarrow>
      \<exists>ty'. post c l a ty s ty' s1 \<and> (\<forall>w. v \<le> w \<and> w < ve \<and> unat w div 2 ^ k = unat v div 2 ^ k \<longrightarrow> W (tables s1) w)"
    and W: "\<And>t t' w. grows t t' \<Longrightarrow> W t w \<Longrightarrow> W t' w"
    and ve: "ve \<le> START_KERNEL_map" and k: "al \<le> k" "k \<le> 39"
  shows "for_entries (NOT (mask k)) (2 ^ k) body ve (table_index k v) v s = Some s' \<Longrightarrow> PAGE_OFFSET \<le> v \<Longrightarrow>
     2 ^ al dvd unat v \<Longrightarrow> typed c ty s \<Longrightarrow> ty a = Some l \<Longrightarrow>
     \<exists>ty'. post c l a ty s ty' s' \<and> (\<forall>w. v \<le> w \<and> w < ve \<and> unat w div 2 ^ (k + 9) = unat v div 2 ^ (k + 9) \<longrightarrow> W (tables s') w)"
proof (induction "512 - table_index k v" arbitrary: v s ty rule: less_induct)
  case less
  let ?i = "table_index k v"
  have i: "?i < 512" by (simp add: table_index_nat)
  show ?case
  proof (cases "v < ve")
    case False
    then have "s' = s" using less.prems(1) by (subst (asm) for_entries.simps) simp
    then show ?thesis using post_refl [OF less.prems(4)] False by (intro exI [of _ ty]) auto
  next
    case True
    let ?n = "(v AND NOT (mask k)) + 2 ^ k"
    obtain s1 where s1: "body ?i v s = Some s1" and rest: "for_entries (NOT (mask k)) (2 ^ k) body ve (?i + 1) ?n s1 = Some s'"
      using less.prems(1) i True by (subst (asm) for_entries.simps) (auto split: option.splits)
    have d: "direct v" using True ve less.prems(2) by (simp add: direct_def)
    obtain ty1 where ty1: "post c l a ty s ty1 s1"
        "\<And>w. v \<le> w \<Longrightarrow> w < ve \<Longrightarrow> unat w div 2 ^ k = unat v div 2 ^ k \<Longrightarrow> W (tables s1) w"
      using step [OF less.prems(4,5) d True less.prems(3) s1] by blast
    show ?thesis
    proof (cases "?i = 511")
      case last: True
      then have s': "s' = s1" using rest by (subst (asm) for_entries.simps) simp
      have "unat w div 2 ^ k = unat v div 2 ^ k" if "v \<le> w" "unat w div 2 ^ (k + 9) = unat v div 2 ^ (k + 9)" for w
      proof -
        have "unat w div 2 ^ k div 512 = unat v div 2 ^ k div 512" using that(2) by (simp add: power_add div_mult2_eq)
        moreover have "unat v div 2 ^ k mod 512 = 511" using last by (simp add: table_index_nat)
        moreover have "unat v div 2 ^ k \<le> unat w div 2 ^ k" using that(1) by (simp add: word_le_nat_alt div_le_mono)
        ultimately show ?thesis using div_mult_mod_eq [of "unat v div 2 ^ k" 512] div_mult_mod_eq [of "unat w div 2 ^ k" 512]
            mod_less_divisor [of 512 "unat w div 2 ^ k"] by linarith
      qed
      then show ?thesis using ty1 s' by (intro exI [of _ ty1]) blast
    next
      case False
      with i have lt: "?i < 511" by simp
      note nx = next_entry [OF k(2) lt]
      have al: "2 ^ al dvd unat ?n" using nx(5) k(1) by (meson dvd_trans le_imp_power_dvd)
      have n: "PAGE_OFFSET \<le> ?n" using less.prems(2) nx(3) by (meson order.strict_implies_order order_trans)
      have "\<exists>ty2. post c l a ty1 s1 ty2 s' \<and>
          (\<forall>w. ?n \<le> w \<and> w < ve \<and> unat w div 2 ^ (k + 9) = unat ?n div 2 ^ (k + 9) \<longrightarrow> W (tables s') w)"
        by (rule less.hyps) (use rest nx(1) lt n al postD(1,2) [OF ty1(1)] less.prems(5) in simp_all)
      then obtain ty2 where ty2: "post c l a ty1 s1 ty2 s'"
          "\<And>w. ?n \<le> w \<Longrightarrow> w < ve \<Longrightarrow> unat w div 2 ^ (k + 9) = unat ?n div 2 ^ (k + 9) \<Longrightarrow> W (tables s') w" by blast
      have "W (tables s') w" if w: "v \<le> w" "w < ve" "unat w div 2 ^ (k + 9) = unat v div 2 ^ (k + 9)" for w
      proof (cases "?n \<le> w")
        case True
        then show ?thesis using ty2(2) w nx(2) by simp
      next
        case False
        have "unat ?n = 2 ^ k * (unat v div 2 ^ k + 1)" using nx(4,5) by (metis dvd_mult_div_cancel)
        with False have "unat w < (unat v div 2 ^ k + 1) * 2 ^ k" by (simp add: word_le_nat_alt mult.commute)
        then have "unat w div 2 ^ k < unat v div 2 ^ k + 1" by (rule less_mult_imp_div_less)
        moreover have "unat v div 2 ^ k \<le> unat w div 2 ^ k" using w(1) by (simp add: word_le_nat_alt div_le_mono)
        ultimately show ?thesis using ty1(2) [OF w(1,2)] W [OF postD(3) [OF ty2(1)]] by simp
      qed
      then show ?thesis using post_trans [OF ty1(1) ty2(1)] by blast
    qed
  qed
qed

section \<open>The four levels\<close>

abbreviation (input) at_pa :: "u64 \<Rightarrow> u64 option" where "at_pa w \<equiv> Some (w - PAGE_OFFSET)"

text \<open>The alignment that the entries of a page size need.\<close>

primrec ps_shift :: "page_size \<Rightarrow> nat" where
  "ps_shift PAGE_SIZE_NONE = PAGE_SHIFT"
| "ps_shift PAGE_SIZE_4K = PAGE_SHIFT"
| "ps_shift PAGE_SIZE_2M = PMD_SHIFT"
| "ps_shift PAGE_SIZE_1G = PUD_SHIFT"
| "ps_shift PAGE_SIZE_NUM = PAGE_SHIFT"

lemma direct_frame:
  assumes "direct v" "2 ^ k dvd unat v" "k \<le> 30" "12 \<le> k"
  shows "2 ^ k dvd unat (v - PAGE_OFFSET)" "unat (v - PAGE_OFFSET) < 2 ^ 52" "4096 dvd unat (v - PAGE_OFFSET)"
proof -
  have u: "unat (v - PAGE_OFFSET) = unat v - (2 ^ 64 - 2 ^ 39)" by (rule direct_phys(3) [OF assms(1)])
  have "2 ^ k dvd (2::nat) ^ 64" "2 ^ k dvd (2::nat) ^ 39" using assms(3) by (intro le_imp_power_dvd; simp)+
  then show d: "2 ^ k dvd unat (v - PAGE_OFFSET)" unfolding u using assms(2) by (intro dvd_diff_nat)
  show "unat (v - PAGE_OFFSET) < 2 ^ 52" unfolding u using unat_u64_lt [of v] by simp
  have "(4096::nat) dvd 2 ^ k" using le_imp_power_dvd [OF assms(4), of "2::nat"] by simp
  then show "4096 dvd unat (v - PAGE_OFFSET)" using d by (rule dvd_trans)
qed

lemma pt_init_ok:
  assumes "supp_ok c" "typed c ty s" "ty a = Some 1" "direct v" "ve \<le> START_KERNEL_map" "4096 dvd unat v"
    and run: "for_entries PAGE_MASK PAGE_SIZE (pt_body c a) ve (pte_index v) v s = Some s'"
  shows "\<exists>ty'. post c 1 a ty s ty' s' \<and>
     (\<forall>w. v \<le> w \<and> w < ve \<and> unat w div 2 ^ PMD_SHIFT = unat v div 2 ^ PMD_SHIFT \<longrightarrow> walk_pt (tables s') a w = at_pa w)"
proof -
  have step: "\<exists>ty'. post c 1 a ty s ty' s1 \<and> (\<forall>w. v \<le> w \<and> w < ve \<and> unat w div 2 ^ 12 = unat v div 2 ^ 12 \<longrightarrow>
        walk_pt (tables s1) a w = at_pa w)"
    if t: "typed c ty s" "ty a = Some 1" "direct v" "2 ^ 12 dvd unat v" "pt_body c a (table_index 12 v) v s = Some s1" for v s s1 ty
  proof -
    let ?e = "(v - PAGE_OFFSET) OR check_pgprot (supported_pte_mask c) PAGE_KERNEL"
    have np: "\<not> present (tables s a (table_index 12 v))" and s1: "s1 = set_entry a (table_index 12 v) ?e s"
      using t(5) by (auto simp: pt_body_def flags_low direct_phys(1) [OF t(3)] split: if_splits)
    note fr = direct_frame [OF t(3,4)]
    note e = leaf_entry(1,2) [OF assms(1) fr(3,2)]
    have "post c 1 a ty s ty s1" unfolding s1 by (rule post_set_entry [OF t(1,2) np]) simp
    moreover have "walk_pt (tables s1) a w = at_pa w" if "unat w div 2 ^ 12 = unat v div 2 ^ 12" for w
    proof -
      have "pte_index w = table_index 12 v" using that by (simp add: pte_index_def table_index_nat)
      then show ?thesis using e span_offset [OF t(3,4) _ that]
        by (simp add: walk_pt_def s1 tables_set_entry PAGE_MASK_not)
    qed
    ultimately show ?thesis by blast
  qed
  have "PAGE_OFFSET \<le> v" using assms(4) by (simp add: direct_def)
  then have "\<exists>ty'. post c 1 a ty s ty' s' \<and>
     (\<forall>w. v \<le> w \<and> w < ve \<and> unat w div 2 ^ (12 + 9) = unat v div 2 ^ (12 + 9) \<longrightarrow> walk_pt (tables s') a w = at_pa w)"
    by (intro for_entries_rule [where al = 12 and k = 12 and W = "\<lambda>t w. walk_pt t a w = at_pa w" and body = "pt_body c a" and v = v and s = s])
      (use step walk_pt_grows assms(2,3,5,6) run in \<open>simp_all add: pte_index_def flip: level_masks(1)\<close>)
  then show ?thesis by simp
qed

text \<open>
  The step from a table to the one below, which the entry has or which is allocated: \<open>f\<close> is the
  work on the lower table, \<open>A\<close> the addresses it maps.
\<close>

definition descend :: "mm_const \<Rightarrow> (u64 \<Rightarrow> mm \<Rightarrow> mm option) \<Rightarrow> u64 \<Rightarrow> nat \<Rightarrow> mm \<Rightarrow> mm option" where
  "descend c f a i s =
     (let ent = tables s a i in
      if present ent then f (ent AND PHYSICAL_PAGE_MASK) s
      else do {
        (p, s) \<leftarrow> alloc_pages c 1 s;
        s \<leftarrow> f p s;
        Some (set_entry a i (p OR KERNPG_TABLE) s) })"

lemma descend_ok:
  assumes lower: "\<And>b ty s s'. typed c ty s \<Longrightarrow> ty b = Some l \<Longrightarrow> f b s = Some s' \<Longrightarrow>
      \<exists>ty'. post c l b ty s ty' s' \<and> (\<forall>w \<in> A. W (tables s') b w)"
    and W: "\<And>t t' b w. grows t t' \<Longrightarrow> W t b w \<Longrightarrow> W t' b w"
    and l: "0 < l" and brk: "brk_ok c" and t: "typed c ty s" "ty a = Some (l + 1)" "i < 512"
    and pse: "present (tables s a i) \<Longrightarrow> l = 3 \<or> tables s a i AND PAGE_PSE = 0"
    and run: "descend c f a i s = Some s'"
  shows "\<exists>ty'. post c (l + 1) a ty s ty' s' \<and> present (tables s' a i) \<and> (l = 3 \<or> tables s' a i AND PAGE_PSE = 0) \<and>
     (\<forall>w \<in> A. W (tables s') (tables s' a i AND PHYSICAL_PAGE_MASK) w)"
proof (cases "present (tables s a i)")
  case True
  let ?b = "tables s a i AND PHYSICAL_PAGE_MASK"
  have b: "ty ?b = Some l" using typedD(4) [OF t(1,2) _ t(3) True] pse [OF True] l by auto
  obtain ty' where ty': "post c l ?b ty s ty' s'" "\<forall>w \<in> A. W (tables s') ?b w"
    using lower [OF t(1) b] run True by (auto simp: descend_def)
  have "tables s' a i = tables s a i" using postD(3) [OF ty'(1)] True by (simp add: grows_def)
  then show ?thesis using post_level [OF ty'(1) b, of "l + 1" a] ty'(2) True pse [OF True] by auto
next
  case False
  obtain p s1 s2 where p: "alloc_pages c 1 s = Some (p, s1)" and s2: "f p s1 = Some s2"
      and s': "s' = set_entry a i (p OR KERNPG_TABLE) s2"
    using run False by (auto simp: descend_def Option.bind_eq_Some_conv)
  note al = alloc_page_ok [OF brk t(1) p]
  let ?ty1 = "ty(p \<mapsto> l)"
  have ap: "a \<noteq> p" using al(3) t(2) by auto
  have P1: "post c (l + 1) a ty s ?ty1 s1" by (rule al(4))
  obtain ty2 where ty2: "post c l p ?ty1 s1 ty2 s2" "\<forall>w \<in> A. W (tables s2) p w"
    using lower [OF postD(2) [OF P1] _ s2] by auto
  have P2: "post c (l + 1) a ?ty1 s1 ty2 s2" by (rule post_level [OF ty2(1)]) simp_all
  have "tables s2 a = tables s a" using postD(4) [OF ty2(1), of a "l + 1"] ap t(2) al(6) [OF ap] by simp
  with False have np: "\<not> present (tables s2 a i)" by simp
  note e = table_entry [OF al(1,2)]
  have a2: "ty2 a = Some (l + 1)" using postD(1) [OF P2] ap t(2) by simp
  have p2: "ty2 p = Some l" using postD(1) [OF P2] by simp
  have P3: "post c (l + 1) a ty2 s2 ty2 s'"
    unfolding s' by (rule post_set_entry [OF postD(2) [OF P2] a2 np]) (simp only: e p2 add_diff_cancel_right')
  have "W (tables s') p w" if "w \<in> A" for w using W [OF postD(3) [OF P3]] ty2(2) that by blast
  moreover have "tables s' a i = p OR KERNPG_TABLE" by (simp add: s' tables_set_entry)
  ultimately show ?thesis using post_trans [OF post_trans [OF P1 P2] P3] e by (intro exI [of _ ty2]) simp
qed

lemma pmd_init_ok:
  assumes c: "supp_ok c" "brk_ok c" and t: "typed c ty s" "ty a = Some 2"
    and v: "direct v" "direct ve" "4096 dvd unat v" "2 ^ ps_shift ps dvd unat v" "ps \<noteq> PAGE_SIZE_1G"
    and run: "for_entries PMD_MASK PMD_SIZE (pmd_body c a ve ps) ve (pmd_index v) v s = Some s'"
  shows "\<exists>ty'. post c 2 a ty s ty' s' \<and>
     (\<forall>w. v \<le> w \<and> w < ve \<and> unat w div 2 ^ PUD_SHIFT = unat v div 2 ^ PUD_SHIFT \<longrightarrow> walk_pmd (tables s') a w = at_pa w)"
proof -
  have ve: "ve \<le> START_KERNEL_map" using v(2) by (auto simp: direct_def)
  have step: "\<exists>ty'. post c 2 a ty s ty' s1 \<and> (\<forall>w. v \<le> w \<and> w < ve \<and> unat w div 2 ^ 21 = unat v div 2 ^ 21 \<longrightarrow>
        walk_pmd (tables s1) a w = at_pa w)"
    if t: "typed c ty s" "ty a = Some 2" "direct v" "2 ^ ps_shift ps dvd unat v" "pmd_body c a ve ps (table_index 21 v) v s = Some s1"
    for v s s1 ty
  proof -
    let ?i = "table_index 21 v"
    have i: "?i < 512" by (simp add: table_index_nat)
    have iw: "pmd_index w = ?i" if "unat w div 2 ^ 21 = unat v div 2 ^ 21" for w
      using that by (simp add: pmd_index_def table_index_nat)
    show ?thesis
    proof (cases "ps = PAGE_SIZE_2M")
      case True
      let ?e = "(v - PAGE_OFFSET) OR check_pgprot (supported_pte_mask c) PAGE_KERNEL_LARGE"
      have np: "\<not> present (tables s a ?i)" and s1: "s1 = set_entry a ?i ?e s"
        using t(5) True by (auto simp: pmd_body_def Let_def flags_low direct_phys(1) [OF t(3)] split: if_splits)
      have al: "2 ^ 21 dvd unat v" using t(4) True by simp
      note fr = direct_frame [OF t(3) al]
      note e = leaf_entry(3,4,5) [OF c(1) fr(3,2)]
      have "post c 2 a ty s ty s1" unfolding s1 by (rule post_set_entry [OF t(1,2) np]) (use e in simp)
      moreover have "walk_pmd (tables s1) a w = at_pa w" if w: "unat w div 2 ^ 21 = unat v div 2 ^ 21" for w
        using e fr(1) span_offset [OF t(3) al _ w]
        by (simp add: walk_pmd_def iw [OF w] s1 tables_set_entry level_masks)
      ultimately show ?thesis by blast
    next
      case False
      let ?A = "{w. v \<le> w \<and> w < ve \<and> unat w div 2 ^ 21 = unat v div 2 ^ 21}"
      let ?f = "\<lambda>pt. physical_pt_init c pt (pa c v) (pa c ve) ps"
      have run: "descend c ?f a ?i s = Some s1" and pse: "present (tables s a ?i) \<Longrightarrow> tables s a ?i AND PAGE_PSE = 0"
        using t(5) False by (auto simp: pmd_body_def descend_def Let_def flags_low pfn_mask_small split: if_splits)
      have "4096 dvd unat v" using t(4) False v(5) by (cases ps) simp_all
      then have "\<exists>ty'. post c 1 b ty s ty' s' \<and> (\<forall>w \<in> ?A. walk_pt (tables s') b w = at_pa w)"
        if "typed c ty s" "ty b = Some 1" "?f b s = Some s'" for b ty s s'
        using pt_init_ok [OF c(1) that(1,2) t(3) ve, of s'] that(3)
        by (simp add: physical_pt_init_def direct_phys(2) [OF t(3)] direct_phys(2) [OF v(2)])
      then have "\<exists>ty'. post c (1 + 1) a ty s ty' s1 \<and> present (tables s1 a ?i) \<and> (1 = (3::nat) \<or> tables s1 a ?i AND PAGE_PSE = 0) \<and>
          (\<forall>w \<in> ?A. walk_pt (tables s1) (tables s1 a ?i AND PHYSICAL_PAGE_MASK) w = at_pa w)"
        by (rule descend_ok) (use walk_pt_grows c(2) t i pse run in simp_all)
      then show ?thesis by (fastforce simp: walk_pmd_def iw numeral_2_eq_2)
    qed
  qed
  have "PAGE_OFFSET \<le> v" using v(1) by (simp add: direct_def)
  moreover have "ps_shift ps \<le> 21" using v(5) by (cases ps) simp_all
  ultimately have "\<exists>ty'. post c 2 a ty s ty' s' \<and>
     (\<forall>w. v \<le> w \<and> w < ve \<and> unat w div 2 ^ (21 + 9) = unat v div 2 ^ (21 + 9) \<longrightarrow> walk_pmd (tables s') a w = at_pa w)"
    by (intro for_entries_rule [where al = "ps_shift ps" and k = 21 and W = "\<lambda>t w. walk_pmd t a w = at_pa w" and
          body = "pmd_body c a ve ps" and v = v and s = s])
      (use step walk_pmd_grows t v(4) ve run in \<open>simp_all add: pmd_index_def level_masks\<close>)
  then show ?thesis by simp
qed

lemma pud_init_ok:
  assumes c: "supp_ok c" "brk_ok c" and t: "typed c ty s" "ty a = Some 3"
    and v: "direct v" "direct ve" "2 ^ ps_shift ps dvd unat v"
    and run: "for_entries PUD_MASK PUD_SIZE (pud_body c a ve ps) ve (pud_index v) v s = Some s'"
  shows "\<exists>ty'. post c 3 a ty s ty' s' \<and>
     (\<forall>w. v \<le> w \<and> w < ve \<and> unat w div 2 ^ PGD_SHIFT = unat v div 2 ^ PGD_SHIFT \<longrightarrow> walk_pud (tables s') a w = at_pa w)"
proof -
  have ve: "ve \<le> START_KERNEL_map" using v(2) by (auto simp: direct_def)
  have step: "\<exists>ty'. post c 3 a ty s ty' s1 \<and> (\<forall>w. v \<le> w \<and> w < ve \<and> unat w div 2 ^ 30 = unat v div 2 ^ 30 \<longrightarrow>
        walk_pud (tables s1) a w = at_pa w)"
    if t: "typed c ty s" "ty a = Some 3" "direct v" "2 ^ ps_shift ps dvd unat v" "pud_body c a ve ps (table_index 30 v) v s = Some s1"
    for v s s1 ty
  proof -
    let ?i = "table_index 30 v"
    have i: "?i < 512" by (simp add: table_index_nat)
    have iw: "pud_index w = ?i" if "unat w div 2 ^ 30 = unat v div 2 ^ 30" for w
      using that by (simp add: pud_index_def table_index_nat)
    show ?thesis
    proof (cases "ps = PAGE_SIZE_1G")
      case True
      let ?e = "(v - PAGE_OFFSET) OR check_pgprot (supported_pte_mask c) PAGE_KERNEL_LARGE"
      have np: "\<not> present (tables s a ?i)" and s1: "s1 = set_entry a ?i ?e s"
        using t(5) True by (auto simp: pud_body_def Let_def flags_low direct_phys(1) [OF t(3)] split: if_splits)
      have al: "2 ^ 30 dvd unat v" using t(4) True by simp
      note fr = direct_frame [OF t(3) al]
      note e = leaf_entry(3,4,6) [OF c(1) fr(3,2)]
      have "post c 3 a ty s ty s1" unfolding s1 by (rule post_set_entry [OF t(1,2) np]) (use e in simp)
      moreover have "walk_pud (tables s1) a w = at_pa w" if w: "unat w div 2 ^ 30 = unat v div 2 ^ 30" for w
        using e fr(1) span_offset [OF t(3) al _ w]
        by (simp add: walk_pud_def iw [OF w] s1 tables_set_entry level_masks)
      ultimately show ?thesis by blast
    next
      case False
      let ?A = "{w. v \<le> w \<and> w < ve \<and> unat w div 2 ^ 30 = unat v div 2 ^ 30}"
      let ?f = "\<lambda>pmd. physical_pmd_init c pmd (pa c v) (pa c ve) ps"
      have run: "descend c ?f a ?i s = Some s1" and pse: "present (tables s a ?i) \<Longrightarrow> tables s a ?i AND PAGE_PSE = 0"
        using t(5) False by (auto simp: pud_body_def descend_def Let_def flags_low pfn_mask_small split: if_splits)
      have "(4096::nat) dvd 2 ^ ps_shift ps" by (cases ps) simp_all
      then have al: "4096 dvd unat v" using t(4) by (rule dvd_trans)
      have "\<exists>ty'. post c 2 b ty s ty' s' \<and> (\<forall>w \<in> ?A. walk_pmd (tables s') b w = at_pa w)"
        if "typed c ty s" "ty b = Some 2" "?f b s = Some s'" for b ty s s'
        using pmd_init_ok [OF c that(1,2) t(3) v(2) al t(4) False, of s'] that(3)
        by (simp add: physical_pmd_init_def direct_phys(2) [OF t(3)] direct_phys(2) [OF v(2)])
      then have "\<exists>ty'. post c (2 + 1) a ty s ty' s1 \<and> present (tables s1 a ?i) \<and> (2 = (3::nat) \<or> tables s1 a ?i AND PAGE_PSE = 0) \<and>
          (\<forall>w \<in> ?A. walk_pmd (tables s1) (tables s1 a ?i AND PHYSICAL_PAGE_MASK) w = at_pa w)"
        by (rule descend_ok) (use walk_pmd_grows c(2) t i pse run in simp_all)
      then show ?thesis by (fastforce simp: walk_pud_def iw)
    qed
  qed
  have "PAGE_OFFSET \<le> v" using v(1) by (simp add: direct_def)
  moreover have "ps_shift ps \<le> 30" by (cases ps) simp_all
  ultimately have "\<exists>ty'. post c 3 a ty s ty' s' \<and>
     (\<forall>w. v \<le> w \<and> w < ve \<and> unat w div 2 ^ (30 + 9) = unat v div 2 ^ (30 + 9) \<longrightarrow> walk_pud (tables s') a w = at_pa w)"
    by (intro for_entries_rule [where al = "ps_shift ps" and k = 30 and W = "\<lambda>t w. walk_pud t a w = at_pa w" and
          body = "pud_body c a ve ps" and v = v and s = s])
      (use step walk_pud_grows t v(3) ve run in \<open>simp_all add: pud_index_def level_masks\<close>)
  then show ?thesis by simp
qed

text \<open>The whole range, from the root.\<close>

lemma physical_mapping_init_ok:
  assumes c: "supp_ok c" "brk_ok c" and t: "typed c ty s" "ty (init_top_pgt c) = Some 4"
    and r: "2 ^ ps_shift ps dvd unat start" "start < e" "unat e < 2 ^ 39"
    and run: "physical_mapping_init c start e ps s = Some s'"
  shows "\<exists>ty'. post c 4 (init_top_pgt c) ty s ty' s' \<and>
     (\<forall>p. start \<le> p \<and> p < e \<longrightarrow> translate (tables s') (init_top_pgt c) (va p) = Some p)"
proof -
  let ?a = "init_top_pgt c" and ?v = "va start" and ?ve = "va e"
  have uva: "unat (va p) = unat p + (2 ^ 64 - 2 ^ 39)" if "p \<le> e" for p
  proof -
    have "unat p + unat PAGE_OFFSET < 2 ^ 64" using that r(3) by (simp add: word_le_nat_alt unat_PAGE_OFFSET)
    then show ?thesis by (simp add: va_def unat_add_nowrap unat_PAGE_OFFSET)
  qed
  have lt: "?ve < START_KERNEL_map" using run by (auto simp: physical_mapping_init_def split: if_splits)
  have uve: "unat ?ve < 2 ^ 64 - 2 ^ 31" using lt by (simp only: word_less_nat_alt unat_START_KERNEL_map)
  have dir: "direct (va p)" if "p \<le> e" for p
    using uva [OF that] uva [of e] uve that unfolding direct_unat word_le_nat_alt by simp
  have ve: "direct ?ve" "?ve \<le> START_KERNEL_map" using dir [of e] lt by simp_all
  have step: "\<exists>ty'. post c 4 ?a ty s ty' s1 \<and> (\<forall>w. v \<le> w \<and> w < ?ve \<and> unat w div 2 ^ 39 = unat v div 2 ^ 39 \<longrightarrow>
        translate (tables s1) ?a w = at_pa w)"
    if t: "typed c ty s" "ty ?a = Some 4" "direct v" "2 ^ ps_shift ps dvd unat v" "pgd_body c ?a ?ve ps (table_index 39 v) v s = Some s1"
    for v s s1 ty
  proof -
    let ?i = "table_index 39 v"
    have i: "?i < 512" by (simp add: table_index_nat)
    have iw: "pgd_index w = ?i" if "unat w div 2 ^ 39 = unat v div 2 ^ 39" for w
      using that by (simp add: pgd_index_def table_index_nat)
    let ?A = "{w. v \<le> w \<and> w < ?ve \<and> unat w div 2 ^ 39 = unat v div 2 ^ 39}"
    let ?f = "\<lambda>pud. physical_pud_init c pud (pa c v) (pa c ?ve) ps"
    have run: "descend c ?f ?a ?i s = Some s1"
      using t(5) by (simp add: pgd_body_def descend_def Let_def flags_low)
    have "\<exists>ty'. post c 3 b ty s ty' s' \<and> (\<forall>w \<in> ?A. walk_pud (tables s') b w = at_pa w)"
      if "typed c ty s" "ty b = Some 3" "?f b s = Some s'" for b ty s s'
      using pud_init_ok [OF c that(1,2) t(3) ve(1) t(4), of s'] that(3)
      by (simp add: physical_pud_init_def direct_phys(2) [OF t(3)] direct_phys(2) [OF ve(1)])
    then have "\<exists>ty'. post c (3 + 1) ?a ty s ty' s1 \<and> present (tables s1 ?a ?i) \<and> (3 = (3::nat) \<or> tables s1 ?a ?i AND PAGE_PSE = 0) \<and>
        (\<forall>w \<in> ?A. walk_pud (tables s1) (tables s1 ?a ?i AND PHYSICAL_PAGE_MASK) w = at_pa w)"
      by (rule descend_ok) (use walk_pud_grows c(2) t i run in simp_all)
    then show ?thesis by (fastforce simp: translate_def iw)
  qed
  have "2 ^ ps_shift ps dvd (2::nat) ^ 64 - 2 ^ 39" by (cases ps) simp_all
  then have al: "2 ^ ps_shift ps dvd unat ?v" unfolding uva [OF less_imp_le [OF r(2)]] using r(1) by (rule dvd_add [rotated])
  have "PAGE_OFFSET \<le> ?v" using dir [of start] r(2) by (simp add: direct_def)
  moreover have "ps_shift ps \<le> 39" by (cases ps) simp_all
  ultimately have "\<exists>ty'. post c 4 ?a ty s ty' s' \<and>
     (\<forall>w. ?v \<le> w \<and> w < ?ve \<and> unat w div 2 ^ (39 + 9) = unat ?v div 2 ^ (39 + 9) \<longrightarrow> translate (tables s') ?a w = at_pa w)"
    by (intro for_entries_rule [where al = "ps_shift ps" and k = 39 and W = "\<lambda>t w. translate t ?a w = at_pa w" and
          body = "pgd_body c ?a ?ve ps" and v = ?v and s = s])
      (use step translate_grows t al ve run in \<open>simp_all add: physical_mapping_init_def pgd_index_def level_masks split: if_splits\<close>)
  then obtain ty' where ty': "post c 4 ?a ty s ty' s'" and
    W: "\<And>w. ?v \<le> w \<Longrightarrow> w < ?ve \<Longrightarrow> unat w div 2 ^ 48 = unat ?v div 2 ^ 48 \<Longrightarrow> translate (tables s') ?a w = at_pa w" by auto
  have "translate (tables s') ?a (va p) = Some p" if p: "start \<le> p" "p < e" for p
  proof -
    have u: "unat (va q) = unat q + (2 ^ 64 - 2 ^ 39)" "unat (va q) div 2 ^ 48 = 65535" if "q \<le> e" for q
      using uva [OF that] unat_u64_lt [of "va q"] by simp_all
    have "translate (tables s') ?a (va p) = at_pa (va p)"
      by (rule W) (use p r(2) u [of p] u [of start] uva [of e] in \<open>simp_all add: word_le_nat_alt word_less_nat_alt\<close>)
    then show ?thesis by (simp add: va_def)
  qed
  with ty' show ?thesis by blast
qed

section \<open>The pieces of a region\<close>

definition up :: "nat \<Rightarrow> nat \<Rightarrow> nat" where "up k x = k * ((x + (k - 1)) div k)"
definition dn :: "nat \<Rightarrow> nat \<Rightarrow> nat" where "dn k x = k * (x div k)"

lemma up_facts: "0 < k \<Longrightarrow> x \<le> up k x" "k dvd up k x" "0 < k \<Longrightarrow> k dvd x \<Longrightarrow> up k x = x"
  using div_up_bounds(1) [of k x] div_up_bounds(2) [of k x x] by (auto simp: up_def intro: antisym)

lemma dn_facts: "dn k x \<le> x" "k dvd dn k x" "k dvd d \<Longrightarrow> d \<le> x \<Longrightarrow> d \<le> dn k x"
proof -
  show "dn k x \<le> x" "k dvd dn k x" by (simp_all add: dn_def)
  assume "k dvd d" "d \<le> x"
  then show "d \<le> dn k x" by (metis dn_def div_le_mono dvd_mult_div_cancel mult_le_mono2)
qed

lemma unat_ROUND_DOWN: "unat (ROUND_DOWN x (2 ^ k)) = dn (2 ^ k) (unat x)"
  by (simp add: ROUND_DOWN_def ALIGN_KERNEL_def ALIGN_KERNEL_MASK_def pow2_minus_1 and_not_mask_unat dn_def)

lemma unat_ROUND_UP: "k \<le> 18 \<Longrightarrow> unat x < 2 ^ 28 \<Longrightarrow> unat (ROUND_UP x (2 ^ k)) = up (2 ^ k) (unat x)"
proof -
  assume k: "k \<le> 18" "unat x < 2 ^ 28"
  then have "(2::nat) ^ k \<le> 2 ^ 18" by (intro power_increasing) simp_all
  with k have "unat x + 2 ^ k \<le> 2 ^ 64" by simp
  then show ?thesis using k(1) by (simp add: ROUND_UP_def align_up up_def)
qed

lemma unat_shift: "unat (drop_bit k (x::u64)) = unat x div 2 ^ k"
  using unat_u64_lt [of x] by (simp add: unsigned_drop_bit_eq take_bit_nat_eq_self flip: drop_bit_eq_div)

lemma unat_shift_page: "unat (drop_bit PAGE_SHIFT (x::u64)) = unat x div 4096"
  using unat_shift [of 12 x] by simp

lemma unat_PFN_DOWN: "unat (PFN_DOWN x) = unat x div 4096"
  using unat_ROUND_DOWN [of x 12] by (simp add: PFN_DOWN_def unat_shift_page dn_def)

lemma unat_PFN_PHYS: "unat x < 2 ^ 52 \<Longrightarrow> unat (PFN_PHYS x) = 4096 * unat x"
  by (simp add: PFN_PHYS_def push_bit_eq_mult unat_word_ariths)

lemma pfn_sizes: "PFN_DOWN PMD_SIZE = 2 ^ 9" "PFN_DOWN PUD_SIZE = 2 ^ 18"
  by (simp_all add: PFN_DOWN_def ROUND_DOWN_def ALIGN_KERNEL_def ALIGN_KERNEL_MASK_def PMD_SIZE_def PUD_SIZE_def BIT_UL_def)

text \<open>All addresses of page \<open>x\<close> are in the direct mapping.\<close>

definition page_mapped :: "mm_const \<Rightarrow> mm \<Rightarrow> nat \<Rightarrow> bool" where
  "page_mapped c s x \<longleftrightarrow> (\<forall>p. unat p div 4096 = x \<longrightarrow> translate (tables s) (init_top_pgt c) (va p) = Some p)"

lemma page_mapped_grows: "grows (tables s) (tables s') \<Longrightarrow> page_mapped c s x \<Longrightarrow> page_mapped c s' x"
  unfolding page_mapped_def using translate_grows by blast

text \<open>The pages from \<open>P\<close> to \<open>q\<close> are done, with pages of the right level.\<close>

definition done_upto :: "mm_const \<Rightarrow> (u64 \<Rightarrow> nat option) \<Rightarrow> mm \<Rightarrow> nat \<Rightarrow> nat \<Rightarrow> u64 \<times> mm \<Rightarrow> bool" where
  "done_upto c ty0 s0 P L r \<longleftrightarrow> (\<exists>ty. post c 4 (init_top_pgt c) ty0 s0 ty (snd r)) \<and> unat (fst r) \<le> L \<and>
     (\<forall>x. P \<le> x \<and> x < unat (fst r) \<longrightarrow> page_mapped c (snd r) x)"

lemma map_piece_ok:
  assumes c: "supp_ok c" "brk_ok c" "ty0 (init_top_pgt c) = Some 4"
    and d: "done_upto c ty0 s0 P L (q, s)" and L: "L < 2 ^ 27"
    and p: "2 ^ (ps_shift ps - 12) dvd unat lo" "lo < hi \<Longrightarrow> lo = q \<and> unat hi \<le> L"
    and run: "map_piece c lo hi ps (q, s) = Some r"
  shows "fst r = (if lo < hi then hi else q)" "done_upto c ty0 s0 P L r"
proof -
  have "fst r = (if lo < hi then hi else q) \<and> done_upto c ty0 s0 P L r"
  proof (cases "lo < hi")
    case False
    then have "r = (q, s)" using run by (simp add: map_piece_def)
    with False d show ?thesis by simp
  next
    case True
    obtain s' where s': "physical_mapping_init c (PFN_PHYS lo) (PFN_PHYS hi) ps s = Some s'" and r: "r = (hi, s')"
      using run True by (auto simp: map_piece_def split: option.splits)
    have hi: "unat hi \<le> L" "lo = q" "unat lo < unat hi" using p(2) True by (simp_all add: word_less_nat_alt)
    have u: "unat (PFN_PHYS lo) = 4096 * unat lo" "unat (PFN_PHYS hi) = 4096 * unat hi"
      using hi L by (simp_all add: unat_PFN_PHYS)
    have "(2::nat) ^ ps_shift ps = 4096 * 2 ^ (ps_shift ps - 12)" by (cases ps) simp_all
    then have al: "2 ^ ps_shift ps dvd unat (PFN_PHYS lo)" unfolding u using p(1) by simp
    obtain ty where ty: "post c 4 (init_top_pgt c) ty0 s0 ty s" using d by (auto simp: done_upto_def)
    have "\<exists>ty'. post c 4 (init_top_pgt c) ty s ty' s' \<and>
        (\<forall>p. PFN_PHYS lo \<le> p \<and> p < PFN_PHYS hi \<longrightarrow> translate (tables s') (init_top_pgt c) (va p) = Some p)"
      using hi(1,3) L by (intro physical_mapping_init_ok [OF c(1,2) postD(2) [OF ty] postD(1) [OF ty c(3)] al _ _ s'])
        (simp_all only: u word_less_nat_alt, simp_all)
    then obtain ty' where ty': "post c 4 (init_top_pgt c) ty s ty' s'"
      and T: "\<And>p. PFN_PHYS lo \<le> p \<Longrightarrow> p < PFN_PHYS hi \<Longrightarrow> translate (tables s') (init_top_pgt c) (va p) = Some p" by blast
    have "page_mapped c s' x" if x: "P \<le> x" "x < unat hi" for x
    proof (cases "x < unat q")
      case True
      then show ?thesis using d x page_mapped_grows [OF postD(3) [OF ty']] by (simp add: done_upto_def)
    next
      case False
      show ?thesis unfolding page_mapped_def
      proof (intro allI impI)
        fix p :: u64
        assume "unat p div 4096 = x"
        then have "4096 * unat lo \<le> unat p" "unat p < 4096 * unat hi" using False x(2) hi(2) by simp_all
        then show "translate (tables s') (init_top_pgt c) (va p) = Some p"
          by (intro T) (simp_all add: word_le_nat_alt word_less_nat_alt u)
      qed
    qed
    with True r hi post_trans [OF ty ty'] show ?thesis by (auto simp: done_upto_def)
  qed
  then show "fst r = (if lo < hi then hi else q)" "done_upto c ty0 s0 P L r" by blast+
qed

lemma map_piece_nat:
  assumes c: "supp_ok c" "brk_ok c" "ty0 (init_top_pgt c) = Some 4" and L: "L < 2 ^ 27"
    and d: "done_upto c ty0 s0 P L (q, s)" and run: "map_piece c lo hi ps (q, s) = Some (q', s')"
    and p: "unat lo = a" "unat hi = b" "2 ^ (ps_shift ps - 12) dvd a" "a < b \<Longrightarrow> a = unat q \<and> b \<le> L"
  shows "unat q' = (if a < b then b else unat q) \<and> done_upto c ty0 s0 P L (q', s')"
proof -
  have lt: "lo < hi \<longleftrightarrow> a < b" by (simp add: word_less_nat_alt p)
  have "lo < hi \<Longrightarrow> lo = q \<and> unat hi \<le> L" using p lt word_unat_eq_iff [of lo q] by simp
  from map_piece_ok [OF c d L _ this run] p(1-3) lt show ?thesis by auto
qed

text \<open>
  The five pieces.  Between two pieces the page reached is a multiple of 2 MiB or the end of the
  region; a piece that is not empty starts there.
\<close>

lemma pieces_meet:
  fixes q L :: nat
  assumes q: "q \<le> L" "512 dvd q \<or> q = L"
  shows "up 512 q < dn 512 L \<Longrightarrow> up 512 q = q"
    "up 512 q < min (up 262144 q) (dn 512 L) \<Longrightarrow> up 512 q = q"
    "q' = (if up 512 q < min (up 262144 q) (dn 512 L) then min (up 262144 q) (dn 512 L) else q) \<Longrightarrow>
       q' \<le> L \<and> (512 dvd q' \<or> q' = L) \<and> (262144 dvd q' \<or> dn 262144 L \<le> q')"
    "262144 dvd q \<or> dn 262144 L \<le> q \<Longrightarrow> up 262144 q < dn 262144 L \<Longrightarrow> up 262144 q = q"
proof -
  have d: "(512::nat) dvd 262144" by simp
  have small: "up 512 q = q" if "up 512 q < dn 512 L"
    using that q(2) up_facts(1,3) [of 512 q] dn_facts(1) [of 512 L] by auto
  then show "up 512 q < dn 512 L \<Longrightarrow> up 512 q = q" "up 512 q < min (up 262144 q) (dn 512 L) \<Longrightarrow> up 512 q = q" by simp_all
  show "262144 dvd q \<or> dn 262144 L \<le> q \<Longrightarrow> up 262144 q < dn 262144 L \<Longrightarrow> up 262144 q = q"
    using up_facts(1,3) [of 262144 q] by auto
  have le: "dn 262144 L \<le> dn 512 L"
    using dn_facts(1) [of 262144 L] dvd_trans [OF d dn_facts(2)] by (intro dn_facts(3)) auto
  assume q': "q' = (if up 512 q < min (up 262144 q) (dn 512 L) then min (up 262144 q) (dn 512 L) else q)"
  show "q' \<le> L \<and> (512 dvd q' \<or> q' = L) \<and> (262144 dvd q' \<or> dn 262144 L \<le> q')"
  proof (cases "up 512 q < min (up 262144 q) (dn 512 L)")
    case True
    have "512 dvd min (up 262144 q) (dn 512 L)"
      using dvd_trans [OF d up_facts(2)] dn_facts(2) [of 512 L] by (simp add: min_def)
    then show ?thesis using True q' le dn_facts(1) [of 512 L] up_facts(2) [of 262144 q] by (auto simp: min_def)
  next
    case False
    have "262144 dvd q \<or> dn 262144 L \<le> q"
    proof (cases "up 512 q = q")
      case True
      with False up_facts(2) [of 262144 q] up_facts(1) [of 262144 q] le show ?thesis by (auto simp: min_def split: if_splits)
    next
      case False
      with q(2) up_facts(3) [of 512 q] have "q = L" by auto
      then show ?thesis using dn_facts(1) [of 262144 L] by simp
    qed
    moreover have "q' = q" unfolding q' by (rule if_not_P [OF False])
    ultimately show ?thesis using q by simp
  qed
qed

lemma first_piece:
  fixes P L :: nat
  assumes "P \<le> L" "q = (if P < min (up 512 P) L then min (up 512 P) L else P)"
  shows "q \<le> L \<and> (512 dvd q \<or> q = L)"
  using assms up_facts(1,2) [of 512 P] by (auto simp: min_def split: if_splits)

lemma third_piece:
  fixes q L :: nat
  assumes "q \<le> L" "512 dvd q \<or> q = L" "q' = (if up 262144 q < dn 262144 L then dn 262144 L else q)"
  shows "q' \<le> L \<and> (512 dvd q' \<or> q' = L)"
proof -
  have "512 dvd dn 262144 L" using dvd_trans [of 512 262144, OF _ dn_facts(2)] by simp
  then show ?thesis using assms dn_facts(1) [of 262144 L] by auto
qed

lemma fourth_piece:
  fixes q L :: nat
  assumes "q \<le> L" "q' = (if up 512 q < dn 512 L then dn 512 L else q)"
  shows "q' \<le> L"
  using assms dn_facts(1) [of 512 L] by auto

lemma min_unat: "unat (min a b) = min (unat a) (unat (b::u64))"
  by (simp add: min_def word_le_nat_alt)

lemma post_add_range:
  assumes "post c l a ty s ty' s'"
  shows "post c l a ty s ty' (add_range_mapped x y s')"
proof -
  have "tables (add_range_mapped x y s') = tables s'" "next_page (add_range_mapped x y s') = next_page s'"
    by (simp_all add: add_range_mapped_def Let_def)
  with assms show ?thesis by (simp add: post_def typed_def fresh_def)
qed

lemma map_region_ok:
  assumes c: "supp_ok c" "brk_ok c" and t: "typed c ty s" "ty (init_top_pgt c) = Some 4"
    and r: "start \<le> e" "unat e < 2 ^ 39"
    and run: "map_region c start e s = Some s'"
  shows "\<exists>ty'. post c 4 (init_top_pgt c) ty s ty' s' \<and>
     (\<forall>x. unat start div 4096 \<le> x \<and> x < unat e div 4096 \<longrightarrow> page_mapped c s' x)"
proof -
  let ?P = "unat start div 4096" and ?L = "unat e div 4096"
  let ?D = "done_upto c ty s ?P ?L"
  have PL: "?P \<le> ?L" using r(1) by (simp add: word_le_nat_alt div_le_mono)
  have L: "?L < 2 ^ 27" using r(2) by simp
  note piece = map_piece_nat [where ?ty0.0 = ty and ?s0.0 = s and P = ?P, OF c t(2) L]
  have up: "unat (ROUND_UP x 512) = up 512 (unat x)" "unat (ROUND_UP x 262144) = up 262144 (unat x)" if "unat x \<le> ?L" for x
    using unat_ROUND_UP [of 9 x] unat_ROUND_UP [of 18 x] that L by simp_all
  have dn: "unat (ROUND_DOWN x 512) = dn 512 (unat x)" "unat (ROUND_DOWN x 262144) = dn 262144 (unat x)" for x
    using unat_ROUND_DOWN [of x 9] unat_ROUND_DOWN [of x 18] by simp_all
  obtain q1 s1 q2 s2 q3 s3 q4 s4 q5 s5 where
    m: "map_piece c (PFN_DOWN start) (c_min (ROUND_UP (PFN_DOWN start) (2 ^ 9)) (PFN_DOWN e)) PAGE_SIZE_4K (PFN_DOWN start, s) = Some (q1, s1)"
      "map_piece c (ROUND_UP q1 (2 ^ 9)) (c_min (ROUND_UP q1 (2 ^ 18)) (ROUND_DOWN (PFN_DOWN e) (2 ^ 9))) PAGE_SIZE_2M (q1, s1) = Some (q2, s2)"
      "map_piece c (ROUND_UP q2 (2 ^ 18)) (ROUND_DOWN (PFN_DOWN e) (2 ^ 18)) PAGE_SIZE_1G (q2, s2) = Some (q3, s3)"
      "map_piece c (ROUND_UP q3 (2 ^ 9)) (ROUND_DOWN (PFN_DOWN e) (2 ^ 9)) PAGE_SIZE_2M (q3, s3) = Some (q4, s4)"
      "map_piece c q4 (PFN_DOWN e) PAGE_SIZE_4K (q4, s4) = Some (q5, s5)"
    and s': "s' = add_range_mapped (drop_bit PAGE_SHIFT start) (drop_bit PAGE_SHIFT e) s5"
    using run unfolding map_region_def pfn_sizes Let_def by (auto simp: Option.bind_eq_Some_conv split: prod.splits)
  have D0: "?D (PFN_DOWN start, s)" using PL post_refl [OF t(1)] by (auto simp: done_upto_def unat_PFN_DOWN)
  note num = up dn unat_PFN_DOWN min_unat
  have q1: "unat q1 = (if ?P < min (up 512 ?P) ?L then min (up 512 ?P) ?L else ?P) \<and> ?D (q1, s1)"
    by (rule piece [OF D0 m(1), unfolded unat_PFN_DOWN]) (use PL in \<open>simp_all add: num\<close>)
  note i1 = first_piece [OF PL conjunct1 [OF q1]]
  have q2: "unat q2 = (if up 512 (unat q1) < min (up 262144 (unat q1)) (dn 512 ?L) then min (up 262144 (unat q1)) (dn 512 ?L) else unat q1)
      \<and> ?D (q2, s2)"
    by (rule piece [OF conjunct2 [OF q1] m(2)])
      (use i1 pieces_meet(2) [of "unat q1" ?L] up_facts(2) [of 512] dn_facts(1) [of 512 ?L] in \<open>simp_all add: num\<close>)
  have i2: "unat q2 \<le> ?L" "512 dvd unat q2 \<or> unat q2 = ?L" "262144 dvd unat q2 \<or> dn 262144 ?L \<le> unat q2"
    using pieces_meet(3) [OF _ _ conjunct1 [OF q2]] i1 by blast+
  have q3: "unat q3 = (if up 262144 (unat q2) < dn 262144 ?L then dn 262144 ?L else unat q2) \<and> ?D (q3, s3)"
    by (rule piece [OF conjunct2 [OF q2] m(3)])
      (use i2 pieces_meet(4) [OF i2(1,2,3)] up_facts(2) [of 262144] dn_facts(1) [of 262144 ?L] in \<open>simp_all add: num\<close>)
  note i3 = third_piece [OF i2(1,2) conjunct1 [OF q3]]
  have q4: "unat q4 = (if up 512 (unat q3) < dn 512 ?L then dn 512 ?L else unat q3) \<and> ?D (q4, s4)"
    by (rule piece [OF conjunct2 [OF q3] m(4)])
      (use i3 pieces_meet(1) [of "unat q3" ?L] up_facts(2) [of 512] dn_facts(1) [of 512 ?L] in \<open>simp_all add: num\<close>)
  note i4 = fourth_piece [OF conjunct1 [OF i3] conjunct1 [OF q4]]
  have q5: "unat q5 = (if unat q4 < ?L then ?L else unat q4) \<and> ?D (q5, s5)"
    by (rule piece [OF conjunct2 [OF q4] m(5)]) (simp_all add: num)
  then obtain ty' where ty': "post c 4 (init_top_pgt c) ty s ty' s5" by (auto simp: done_upto_def)
  have "page_mapped c s5 x" if "?P \<le> x" "x < ?L" for x
    using q5 i4 that by (simp add: done_upto_def split: if_splits)
  moreover have "page_mapped c s' x = page_mapped c s5 x" for x
    by (simp add: page_mapped_def s' add_range_mapped_def Let_def)
  ultimately show ?thesis using post_add_range [OF ty'] s' by blast
qed

section \<open>All of memory\<close>

lemma next_mem_loop_spec:
  "(case next_mem_loop m i (- 1) of
      None \<Rightarrow> \<forall>k. i \<le> k \<and> k < n m \<longrightarrow> PFN_DOWN (rend (regions m ! k)) \<le> PFN_UP (base (regions m ! k))
    | Some (j, a, b, nd) \<Rightarrow> i \<le> j \<and> j < n m \<and> a = PFN_UP (base (regions m ! j)) \<and> b = PFN_DOWN (rend (regions m ! j)) \<and> a < b \<and>
        (\<forall>k. i \<le> k \<and> k < j \<longrightarrow> PFN_DOWN (rend (regions m ! k)) \<le> PFN_UP (base (regions m ! k))))"
proof (induction "n m - i" arbitrary: i rule: less_induct)
  case less
  let ?r = "regions m ! i"
  have eq: "i \<le> k \<longleftrightarrow> k = i \<or> Suc i \<le> k" for k by auto
  show ?case
  proof (cases "i < n m")
    case True
    show ?thesis
    proof (cases "PFN_DOWN (rend ?r) \<le> PFN_UP (base ?r)")
      case skip: True
      have "next_mem_loop m i (- 1) = next_mem_loop m (Suc i) (- 1)"
        using True skip by (subst next_mem_loop.simps) (simp add: rend_def Let_def)
      moreover have "n m - Suc i < n m - i" using True by simp
      ultimately show ?thesis
        using less.hyps [of "Suc i"] skip by (auto simp: eq split: option.splits prod.splits)
    next
      case False
      then have "next_mem_loop m i (- 1) = Some (i, PFN_UP (base ?r), PFN_DOWN (rend ?r), nid ?r)"
        using True by (subst next_mem_loop.simps) (simp add: rend_def Let_def)
      with True False show ?thesis by auto
    qed
  next
    case False
    then show ?thesis by (subst next_mem_loop.simps) auto
  qed
qed

text \<open>The page numbers that lie in region \<open>j\<close> with the whole page; the region ends below 512 GiB.\<close>

definition region_pages :: "memblock \<Rightarrow> nat \<Rightarrow> nat set" where
  "region_pages m j = {unat (PFN_UP (base (regions m ! j)))..<unat (PFN_DOWN (rend (regions m ! j)))}"

definition regions_low :: "memblock \<Rightarrow> bool" where
  "regions_low m \<longleftrightarrow> (\<forall>j < n m. unat (rend (regions m ! j)) < 2 ^ 39)"

lemma clamp_all: "clamp x 0 (- 1) = (x::u64)"
  by (simp add: clamp_def min_def)

lemma mapping_loop_ok:
  assumes c: "supp_ok c" "brk_ok c" and low: "regions_low m"
  shows "mapping_loop c 0 (- 1) m i s = Some s' \<Longrightarrow> typed c ty s \<Longrightarrow> ty (init_top_pgt c) = Some 4 \<Longrightarrow>
     \<exists>ty'. post c 4 (init_top_pgt c) ty s ty' s' \<and>
       (\<forall>j x. i \<le> j \<and> j < n m \<and> x \<in> region_pages m j \<longrightarrow> page_mapped c s' x)"
proof (induction "n m - i" arbitrary: i s ty rule: less_induct)
  case less
  note run = less.prems(1) [unfolded mapping_loop.simps [of c 0 "- 1" m i s]]
  have none: "region_pages m k = {}" if "PFN_DOWN (rend (regions m ! k)) \<le> PFN_UP (base (regions m ! k))" for k
    using that by (simp add: region_pages_def word_le_nat_alt)
  show ?case
  proof (cases "next_mem_loop m i (- 1)")
    case None
    then have "region_pages m j = {}" if "i \<le> j" "j < n m" for j
      using next_mem_loop_spec [where m = m and i = i] that none by simp
    then show ?thesis using None run post_refl [OF less.prems(2)] by fastforce
  next
    case (Some r)
    obtain j a b nd where r: "r = (j, a, b, nd)" by (cases r) auto
    note spec = next_mem_loop_spec [where m = m and i = i, unfolded Some r, simplified]
    have b: "unat b < 2 ^ 27" using spec low by (auto simp: regions_low_def unat_PFN_DOWN)
    have ab: "unat a < unat b" using spec by (auto simp: word_less_nat_alt)
    have u: "unat (PFN_PHYS a) = 4096 * unat a" "unat (PFN_PHYS b) = 4096 * unat b"
      using ab b by (simp_all add: unat_PFN_PHYS)
    have "\<not> PFN_PHYS b \<le> PFN_PHYS a" using ab by (simp add: word_le_nat_alt u)
    then obtain s1 where s1: "map_region c (PFN_PHYS a) (PFN_PHYS b) s = Some s1"
        and rest: "mapping_loop c 0 (- 1) m (j + 1) s1 = Some s'"
      using run by (auto simp: Some r clamp_all Let_def split: option.splits)
    have "\<exists>ty'. post c 4 (init_top_pgt c) ty s ty' s1 \<and>
        (\<forall>x. unat (PFN_PHYS a) div 4096 \<le> x \<and> x < unat (PFN_PHYS b) div 4096 \<longrightarrow> page_mapped c s1 x)"
      using ab b by (intro map_region_ok [OF c less.prems(2,3) _ _ s1]) (simp_all add: word_le_nat_alt u)
    then obtain ty1 where ty1: "post c 4 (init_top_pgt c) ty s ty1 s1" "\<And>x. unat a \<le> x \<Longrightarrow> x < unat b \<Longrightarrow> page_mapped c s1 x"
      unfolding u by auto
    have reg: "page_mapped c s1 x" if "x \<in> region_pages m j" for x
      using ty1(2) that spec by (simp add: region_pages_def)
    have "i \<le> j" "j < n m" using spec by auto
    then have "n m - (j + 1) < n m - i" by simp
    from less.hyps [OF this rest postD(2) [OF ty1(1)] postD(1) [OF ty1(1) less.prems(3)]]
    obtain ty2 where ty2: "post c 4 (init_top_pgt c) ty1 s1 ty2 s'"
        "\<And>k x. j + 1 \<le> k \<Longrightarrow> k < n m \<Longrightarrow> x \<in> region_pages m k \<Longrightarrow> page_mapped c s' x" by blast
    have "page_mapped c s' x" if "i \<le> k" "k < n m" "x \<in> region_pages m k" for k x
    proof -
      consider "k < j" | "k = j" | "j + 1 \<le> k" by linarith
      then show ?thesis
        using that spec none [of k] ty2(2) page_mapped_grows [OF postD(3) [OF ty2(1)] reg] by cases auto
    qed
    then show ?thesis using post_trans [OF ty1(1) ty2(1)] by blast
  qed
qed

text \<open>The entries of the root for the kernel image; levels are as the linker script has the tables.\<close>

definition kernel_tables :: "mm_const \<Rightarrow> (u64 \<Rightarrow> nat option) \<Rightarrow> bool" where
  "kernel_tables c ty \<longleftrightarrow> ty (init_top_pgt c) = Some 4 \<and> ty (level3_kernel_pgt c) = Some 3 \<and>
     ty (level2_kernel_pgt c) = Some 2 \<and> ty (level2_fixmap_pgt c) = Some 2 \<and>
     (\<forall>a \<in> {level3_kernel_pgt c, level2_kernel_pgt c, level2_fixmap_pgt c}. 4096 dvd unat a \<and> unat a < 2 ^ 52)"

lemma typed_set_entry:
  assumes "typed c ty s" "ty a = Some l"
    and "2 \<le> l \<Longrightarrow> l = 4 \<or> e AND PAGE_PSE = 0 \<Longrightarrow> ty (e AND PHYSICAL_PAGE_MASK) = Some (l - 1)"
  shows "typed c ty (set_entry a i e s)"
proof -
  have "b \<noteq> a" if "b \<in> fresh c s" for b using typedD(2) [OF assms(1) that] assms(2) by auto
  then show ?thesis using assms unfolding typed_def by (simp add: tables_set_entry)
qed

lemma kernel_indices: "pgd_index START_KERNEL_map = 511" "pud_index START_KERNEL_map = 510"
  by (simp_all add: pgd_index_def pud_index_def table_index_nat unat_START_KERNEL_map)

lemma init_top_ok:
  assumes "typed c ty s" "kernel_tables c ty"
  shows "typed c ty (init_init_top_pgt c s)"
    "pgd_index v = 511 \<Longrightarrow> pud_index v = 510 \<Longrightarrow> walk_pmd (tables s) (level2_kernel_pgt c) v = Some q \<Longrightarrow>
       translate (tables (init_init_top_pgt c s)) (init_top_pgt c) v = Some q"
proof -
  let ?s = "init_init_top_pgt c s"
  note k = assms(2) [unfolded kernel_tables_def]
  have e: "present (x OR KERNPG_TABLE)" "(x OR KERNPG_TABLE) AND PAGE_PSE = 0" "(x OR KERNPG_TABLE) AND PHYSICAL_PAGE_MASK = x"
    if "x \<in> {level3_kernel_pgt c, level2_kernel_pgt c, level2_fixmap_pgt c}" for x
    using table_entry [of x] k that by blast+
  show "typed c ty ?s"
    unfolding init_init_top_pgt_def Let_def
    by (intro typed_set_entry [where l = 3] typed_set_entry [where l = 4] assms(1)) (simp_all add: k e(3))
  have ne: "init_top_pgt c \<noteq> level3_kernel_pgt c" "level2_kernel_pgt c \<noteq> level3_kernel_pgt c" "level2_kernel_pgt c \<noteq> init_top_pgt c"
    "level2_fixmap_pgt c \<noteq> level3_kernel_pgt c" "level2_fixmap_pgt c \<noteq> init_top_pgt c"
    using k by auto
  have t: "tables ?s (init_top_pgt c) 511 = level3_kernel_pgt c OR KERNPG_TABLE"
    "tables ?s (level3_kernel_pgt c) 510 = level2_kernel_pgt c OR KERNPG_TABLE"
    using ne by (simp_all add: init_init_top_pgt_def Let_def tables_set_entry kernel_indices)
  have t': "tables ?s a j = tables s a j" if "a \<noteq> init_top_pgt c" "a \<noteq> level3_kernel_pgt c" for a j
    using that by (simp add: init_init_top_pgt_def Let_def tables_set_entry)
  show "translate (tables ?s) (init_top_pgt c) v = Some q"
    if v: "pgd_index v = 511" "pud_index v = 510" "walk_pmd (tables s) (level2_kernel_pgt c) v = Some q"
  proof -
    let ?a = "level2_kernel_pgt c"
    let ?e = "tables s ?a (pmd_index v)"
    have a: "tables ?s ?a (pmd_index v) = ?e" using ne by (intro t') auto
    have "ty (?e AND PHYSICAL_PAGE_MASK) = Some 1" if "present ?e" "?e AND PAGE_PSE = 0"
    proof -
      have "pmd_index v < 512" by (simp add: pmd_index_def table_index_nat)
      then show ?thesis using typedD(4) [OF assms(1), of ?a 2 "pmd_index v"] that k by simp
    qed
    then have "walk_pt (tables ?s) (?e AND PHYSICAL_PAGE_MASK) v = walk_pt (tables s) (?e AND PHYSICAL_PAGE_MASK) v"
      if "present ?e" "?e AND PAGE_PSE = 0"
      using t' [of "?e AND PHYSICAL_PAGE_MASK"] that k by (fastforce simp: walk_pt_def)
    then have "walk_pmd (tables ?s) ?a v = Some q"
      using v(3) by (auto simp: walk_pmd_def a Let_def split: if_splits)
    then show ?thesis using v(1,2) t e by (simp add: translate_def walk_pud_def)
  qed
qed

lemma init_mem_mapping_parts:
  assumes "init_mem_mapping c m s = Some (m', s', ev)"
  shows "mapping_loop c 0 (- 1) m 0 (init_init_top_pgt c s) = Some s'"
  using assms by (auto simp: init_mem_mapping_def init_range_memory_mapping_def Option.bind_eq_Some_conv)

text \<open>
  C16: When \<open>init_mem_mapping\<close> returns, every address of a page that lies in a region of the memory map
  is translated by the new root, at its place in the direct mapping, to itself, whatever sizes of
  pages were chosen for the head, the middle and the tail of the region; and the kernel image is still
  where the loader put it.  The regions end below 512 GiB, behind which the direct mapping
  wraps.
\<close>

theorem direct_mapping_complete:
  assumes "supp_ok c" "brk_ok c" "typed c ty s" "kernel_tables c ty" "regions_low m"
    and "init_mem_mapping c m s = Some (m', s', ev)"
    and "j < n m" "unat p div 4096 \<in> region_pages m j"
    and "pgd_index v = 511" "pud_index v = 510" "walk_pmd (tables s) (level2_kernel_pgt c) v = Some q"
  shows "translate (tables s') (init_top_pgt c) (va p) = Some p \<and> translate (tables s') (init_top_pgt c) v = Some q"
proof -
  note ini = init_top_ok [OF assms(3,4)]
  have root: "ty (init_top_pgt c) = Some 4" using assms(4) by (simp add: kernel_tables_def)
  obtain ty' where "post c 4 (init_top_pgt c) ty (init_init_top_pgt c s) ty' s'"
      "\<And>j x. j < n m \<Longrightarrow> x \<in> region_pages m j \<Longrightarrow> page_mapped c s' x"
    using mapping_loop_ok [OF assms(1,2,5) init_mem_mapping_parts [OF assms(6)] ini(1) root] by blast
  then show ?thesis
    using assms(7,8) translate_grows [OF postD(3) ini(2) [OF assms(9-11)]] by (auto simp: page_mapped_def)
qed

text \<open>Two pages of memory around 2 MiB, and a kernel image at 16 MiB.\<close>

definition small_mm :: mm_const where
  "small_mm = \<lparr>phys_base = 0x1000000, supported_pte_mask = - 1, brk_base = 0x1800000, BRK_ALLOC_PAGES = 8,
     init_top_pgt = 0x1400000, level3_kernel_pgt = 0x1401000, level2_kernel_pgt = 0x1402000, level2_fixmap_pgt = 0x1403000\<rparr>"

definition small_start :: mm where
  "small_start = \<lparr>tables = (\<lambda>a i. if a = 0x1402000 \<and> i = 0 then 0x10001E3 else 0), next_page = 0, max_low_pfn_mapped = 0, max_pfn_mapped = 0\<rparr>"

definition small_memory :: memblock where
  "small_memory = \<lparr>n = 1, max_n = 4, msize = 0x2000, regions = mk_region 0x1FF000 0x2000 0 0 # replicate 3 zero_region\<rparr>"

definition small_levels :: "u64 \<Rightarrow> nat option" where
  "small_levels = [0x1400000 \<mapsto> 4, 0x1401000 \<mapsto> 3, 0x1402000 \<mapsto> 2, 0x1403000 \<mapsto> 2]"

theorem direct_mapping_complete_witness:
  "\<exists>m' s' ev. init_mem_mapping small_mm small_memory small_start = Some (m', s', ev) \<and>
     translate (tables s') 0x1400000 (va 0x200123) = Some 0x200123 \<and>
     translate (tables s') 0x1400000 0xFFFFFFFF80000123 = Some 0x1000123"
proof -
  have c: "supp_ok small_mm" "brk_ok small_mm" "kernel_tables small_mm small_levels" "regions_low small_memory"
    by (simp_all add: supp_ok_def brk_ok_def kernel_tables_def regions_low_def small_mm_def small_levels_def small_memory_def
        rend_def mk_region_def)
  have t: "typed small_mm small_levels small_start"
  proof -
    have "0x1800000 \<le> unat a" if a: "a \<in> fresh small_mm small_start" for a
    proof -
      obtain k where "a = brk_base small_mm + PAGE_SIZE * of_nat k" "k < unat (BRK_ALLOC_PAGES small_mm)"
        using a unfolding fresh_def by blast
      then have "unat a = unat (brk_base small_mm) + 4096 * k" using brk_page(1) [OF c(2)] by simp
      then show ?thesis by (simp add: small_mm_def)
    qed
    then have "a \<notin> {0x1400000, 0x1401000, 0x1402000, 0x1403000}" if "a \<in> fresh small_mm small_start" for a
      using that by fastforce
    then show ?thesis
      by (auto simp: typed_def small_start_def small_levels_def small_mm_def)
  qed
  have "map_option next_page (init_range_memory_mapping small_mm 0 (- 1) small_memory (init_init_top_pgt small_mm small_start)) = Some 3"
    by code_simp
  then obtain s' where s': "init_range_memory_mapping small_mm 0 (- 1) small_memory (init_init_top_pgt small_mm small_start) = Some s'"
      "next_page s' = 3" by auto
  have "memblock_reserve small_memory 0x1800000 0x3000 \<noteq> None" by code_simp
  then obtain m' r where r: "memblock_reserve small_memory 0x1800000 0x3000 = Some (m', r)" by auto
  have "brk_base small_mm = 0x1800000" "PAGE_SIZE * ucast (next_page s') = 0x3000" by (simp_all add: small_mm_def s'(2))
  note run = init_mem_mapping_def [of small_mm small_memory small_start, unfolded Let_def s'(1) Option.bind.bind_lunit this r prod.case]
  have "unat (PFN_UP (base (regions small_memory ! 0))) = 511" "unat (PFN_DOWN (rend (regions small_memory ! 0))) = 513" by code_simp+
  then have "unat (0x200123 :: u64) div 4096 \<in> region_pages small_memory 0" by (simp add: region_pages_def)
  moreover have "pgd_index 0xFFFFFFFF80000123 = 511" "pud_index 0xFFFFFFFF80000123 = 510"
    "walk_pmd (tables small_start) (level2_kernel_pgt small_mm) 0xFFFFFFFF80000123 = Some 0x1000123" by code_simp+
  moreover have "0 < n small_memory" by (simp add: small_memory_def)
  moreover have "init_top_pgt small_mm = 0x1400000" by (simp add: small_mm_def)
  ultimately show ?thesis using direct_mapping_complete [OF c(1,2) t c(3,4) run] run by metis
qed

text \<open>
  The assertion against an overlap with the kernel image does not see a range that starts below 512 GiB
  and ends at or behind it: the virtual end wraps around, the assertion holds and
  \<open>physical_mapping_init\<close> returns without mapping any page.
\<close>

theorem mapping_wraps_at_512g:
  assumes "unat start < 2 ^ 39" "2 ^ 39 \<le> unat e"
  shows "physical_mapping_init c start e ps s = Some s"
proof -
  have start: "unat (va start) = unat start + (2 ^ 64 - 2 ^ 39)"
    using assms(1) by (simp add: va_def unat_add_nowrap unat_PAGE_OFFSET)
  have eq: "va e = e - 0x8000000000" by (simp add: va_def PAGE_OFFSET_def)
  have "0x8000000000 \<le> e" using assms(2) by (simp add: word_le_nat_alt)
  then have e: "unat (va e) = unat e - 2 ^ 39" unfolding eq by (subst unat_sub_nowrap) simp_all
  have "va e < START_KERNEL_map" "\<not> va start < va e"
    unfolding word_less_nat_alt unat_START_KERNEL_map start e using unat_u64_lt [of e] assms by simp_all
  then show ?thesis by (simp add: physical_mapping_init_def for_entries.simps [of PGD_MASK])
qed

theorem mapping_wraps_at_512g_witness:
  "physical_mapping_init small_mm 0x100000000 0x8040000000 PAGE_SIZE_1G small_start = Some small_start \<and>
   translate (tables small_start) (init_top_pgt small_mm) (va 0x100000000) = None"
  using mapping_wraps_at_512g [of "0x100000000" "0x8040000000" small_mm PAGE_SIZE_1G small_start]
  by (simp add: translate_def small_start_def small_mm_def)

end
