(* ===== verification/Head.thy ===== *)
theory Head
  imports Mm
begin

text \<open>
  The first page tables, \<open>arch/x86/__head_64.c\<close>: the ones that \<open>__startup_64\<close> builds while the
  processor still runs at physical addresses, and their growth by the page faults of the boot.  The
  addresses the linker gives are in a record of constants; memory is again a function from the physical
  address of a table to its entries.  A \<open>halt\<close>, a failed \<open>assert\<close> and an access outside an
  array are \<open>None\<close>.
\<close>

section \<open>Model\<close>

record image =
  sym_text :: u64
  sym_end :: u64
  sym_early_top_pgt :: u64
  sym_early_pages :: u64
  sym_level2_kernel_pgt :: u64
  sym_level2_fixmap_pgt :: u64
  sym_level1_fixmap_pgt :: u64

record early =
  early_tables :: "u64 \<Rightarrow> nat \<Rightarrow> pte"
  early_next :: u32
  early_phys_base :: u64

abbreviation (input) EARLY_FREE_PAGES :: u32 where "EARLY_FREE_PAGES \<equiv> 64"

definition PAGE_KERNEL_LARGE_EXEC :: u64 where
  "PAGE_KERNEL_LARGE_EXEC = PAGE_PRESENT OR PAGE_RW OR PAGE_ACCESSED OR PAGE_DIRTY OR PAGE_PSE OR PAGE_GLOBAL"
definition PAGE_KERNEL_LARGE_EXEC_NO_GLOBAL :: u64 where
  "PAGE_KERNEL_LARGE_EXEC_NO_GLOBAL = PAGE_KERNEL_LARGE_EXEC AND NOT PAGE_GLOBAL"
definition PAGE_KERNEL_LARGE_NO_GLOBAL :: u64 where
  "PAGE_KERNEL_LARGE_NO_GLOBAL = PAGE_KERNEL_LARGE AND NOT PAGE_GLOBAL"

definition put_entry :: "u64 \<Rightarrow> nat \<Rightarrow> pte \<Rightarrow> early \<Rightarrow> early" where
  "put_entry a i e s = s\<lparr>early_tables := (early_tables s)(a := (early_tables s a)(i := e))\<rparr>"

text \<open>Where a symbol is before the switch to virtual addresses.\<close>

definition rip_rel_ptr :: "image \<Rightarrow> u64 \<Rightarrow> u64 \<Rightarrow> u64" where
  "rip_rel_ptr img load_addr x = x - sym_text img + load_addr"

definition head_get_free_page :: "image \<Rightarrow> u64 \<Rightarrow> early \<Rightarrow> (u64 \<times> early) option" where
  "head_get_free_page img load_addr s =
     (if \<not> early_next s < EARLY_FREE_PAGES then None
      else Some (rip_rel_ptr img load_addr (sym_early_pages img) + PAGE_SIZE * ucast (early_next s),
                 s\<lparr>early_next := early_next s + 1\<rparr>))"

text \<open>The table behind an entry, taken from the free pages when there is none.\<close>

definition head_table :: "image \<Rightarrow> u64 \<Rightarrow> u64 \<Rightarrow> nat \<Rightarrow> early \<Rightarrow> (u64 \<times> early) option" where
  "head_table img load_addr a i s =
     (let ent = early_tables s a i in
      if ent \<noteq> 0 then Some (ent AND PHYSICAL_PAGE_MASK, s)
      else do {
        (p, s) \<leftarrow> head_get_free_page img load_addr s;
        Some (p, put_entry a i (p OR KERNPG_TABLE) s) })"

definition ident_map :: "image \<Rightarrow> u64 \<Rightarrow> u64 \<Rightarrow> u64 \<Rightarrow> early \<Rightarrow> early option" where
  "ident_map img load_addr pgd address s =
     do {
       (pud, s) \<leftarrow> head_table img load_addr pgd (pgd_index address) s;
       (pmd, s) \<leftarrow> head_table img load_addr pud (pud_index address) s;
       Some (put_entry pmd (pmd_index address) (address OR PAGE_KERNEL_LARGE_EXEC_NO_GLOBAL) s) }"

fun map_text :: "image \<Rightarrow> u64 \<Rightarrow> u64 \<Rightarrow> nat list \<Rightarrow> early \<Rightarrow> early option" where
  "map_text img load_addr pmd [] s = Some s"
| "map_text img load_addr pmd (i # is) s =
     (if \<not> i + pmd_index (sym_text img) < PTRS_PER_PT then None
      else map_text img load_addr pmd is
             (put_entry pmd (i + pmd_index (sym_text img)) ((load_addr + of_nat i * PMD_SIZE) OR PAGE_KERNEL_LARGE_EXEC) s))"

fun map_ident :: "image \<Rightarrow> u64 \<Rightarrow> u64 \<Rightarrow> nat list \<Rightarrow> early \<Rightarrow> early option" where
  "map_ident img load_addr pgd [] s = Some s"
| "map_ident img load_addr pgd (i # is) s =
     do {
       s \<leftarrow> ident_map img load_addr pgd (load_addr + of_nat i * PMD_SIZE) s;
       map_ident img load_addr pgd is s }"

definition image_pages :: "image \<Rightarrow> nat" where
  "image_pages img = unat (DIV_ROUND_UP (sym_end img - sym_text img) PMD_SIZE)"

definition startup_64 :: "image \<Rightarrow> u64 \<Rightarrow> early \<Rightarrow> early option" where
  "startup_64 img load_addr s =
     (let pgd = rip_rel_ptr img load_addr (sym_early_top_pgt img) in
      do {
        (pud, s) \<leftarrow> head_get_free_page img load_addr s;
        let pmd = rip_rel_ptr img load_addr (sym_level2_kernel_pgt img);
        let pmd_fixmap = rip_rel_ptr img load_addr (sym_level2_fixmap_pgt img);
        let pt_fixmap_1 = rip_rel_ptr img load_addr (sym_level1_fixmap_pgt img);
        let pt_fixmap_2 = rip_rel_ptr img load_addr (sym_level1_fixmap_pgt img + PAGE_SIZE);
        let load_delta = load_addr - (sym_text img - START_KERNEL_map);
        let s = s\<lparr>early_phys_base := load_delta\<rparr>;
        if \<not> IS_ALIGNED load_delta (of_nat PMD_SHIFT) then None
        else do {
          let s = put_entry pgd (pgd_index START_KERNEL_map) (pud OR KERNPG_TABLE) s;
          let s = put_entry pud (pud_index START_KERNEL_map) (pmd OR KERNPG_TABLE) s;
          let s = put_entry pud (pud_index START_KERNEL_map + 1) (pmd_fixmap OR KERNPG_TABLE) s;
          s \<leftarrow> map_text img load_addr pmd [0..<image_pages img] s;
          let s = put_entry pmd_fixmap 511 (pt_fixmap_2 OR KERNPG_TABLE) s;
          let s = put_entry pmd_fixmap 510 (pt_fixmap_1 OR KERNPG_TABLE) s;
          map_ident img load_addr pgd [0..<image_pages img] s } })"

text \<open>
  The same pages after the switch: \<open>purge_ident_mapping\<close> drops the entries below the last of the
  root and starts anew behind page 0, which has the last.  From then on a table is reached through the
  kernel image, at \<open>__pa_symbol\<close>.
\<close>

definition pa_symbol :: "early \<Rightarrow> u64 \<Rightarrow> u64" where
  "pa_symbol s x = x - START_KERNEL_map + early_phys_base s"

definition purge_ident_mapping :: "image \<Rightarrow> early \<Rightarrow> early" where
  "purge_ident_mapping img s =
     (let pgd = pa_symbol s (sym_early_top_pgt img)
      in s\<lparr>early_tables := (early_tables s)(pgd := (\<lambda>i. if i < PTRS_PER_PT - 1 then 0 else early_tables s pgd i)), early_next := 1\<rparr>)"

definition get_free_zero_page :: "image \<Rightarrow> early \<Rightarrow> u64 option \<times> early" where
  "get_free_zero_page img s =
     (if early_next s < EARLY_FREE_PAGES
      then let page = pa_symbol s (sym_early_pages img + PAGE_SIZE * ucast (early_next s))
           in (Some page, s\<lparr>early_next := early_next s + 1, early_tables := (early_tables s)(page := (\<lambda>i. 0))\<rparr>)
      else (None, s))"

text \<open>The result is what the C function returns; \<open>None\<close> is the failed assertion.\<close>

definition do_early_map :: "image \<Rightarrow> u64 \<Rightarrow> early \<Rightarrow> (bool \<times> early) option" where
  "do_early_map img address s =
     (let phys_addr = address - PAGE_OFFSET; pgd = pa_symbol s (sym_early_top_pgt img); i = pgd_index address in
      if early_tables s pgd i = 0 then None
      else let pud = early_tables s pgd i AND PHYSICAL_PAGE_MASK; i = pud_index address;
               (pmd, s) = (if early_tables s pud i \<noteq> 0 then (Some (early_tables s pud i AND PHYSICAL_PAGE_MASK), s)
                           else case get_free_zero_page img s of
                                  (None, s) \<Rightarrow> (None, s)
                                | (Some pmd, s) \<Rightarrow> (Some pmd, put_entry pud i (pmd OR KERNPG_TABLE) s))
           in case pmd of
                None \<Rightarrow> Some (False, s)
              | Some pmd \<Rightarrow>
                  Some (True, put_entry pmd (pmd_index address) ((phys_addr AND PMD_MASK) OR PAGE_KERNEL_LARGE_NO_GLOBAL) s))"

text \<open>An exception of the boot; \<open>cr2\<close> is the faulting address, and \<open>None\<close> is the \<open>halt\<close>.\<close>

abbreviation (input) EXCEPTION_PF :: int where "EXCEPTION_PF \<equiv> 14"

definition do_boot_exception :: "image \<Rightarrow> u64 \<Rightarrow> int \<Rightarrow> early \<Rightarrow> early option" where
  "do_boot_exception img cr2 ex s =
     (if ex = EXCEPTION_PF
      then case do_early_map img cr2 s of
             None \<Rightarrow> None
           | Some (ok, s) \<Rightarrow> if ok then Some s else None
      else None)"

text \<open>
  Copying the parameters out of memory; \<open>None\<close> is a copy that reads behind the string of the
  configuration.
\<close>

definition phys_bytes :: "(u64 \<Rightarrow> u8) \<Rightarrow> u64 \<Rightarrow> nat \<Rightarrow> bytes" where
  "phys_bytes mem a k = map (\<lambda>i. mem (a + of_nat i)) [0..<k]"

definition boot_field :: "nat \<Rightarrow> bytes \<Rightarrow> u64" where
  "boot_field off bp = of_nat (le_value (take 8 (drop off bp)))"

abbreviation (input) BOOT_PARAMS_SIZE :: nat where "BOOT_PARAMS_SIZE \<equiv> 0x1000"
abbreviation (input) COMMAND_LINE_SIZE :: nat where "COMMAND_LINE_SIZE \<equiv> 2048"

definition copy_boot_data :: "(u64 \<Rightarrow> u8) \<Rightarrow> bytes \<Rightarrow> u64 \<Rightarrow> (bytes \<times> bytes) option" where
  "copy_boot_data mem config_cmd_line bp =
     (let boot_params = phys_bytes mem bp BOOT_PARAMS_SIZE; cmd_line_ptr = boot_field 0x10 boot_params in
      if cmd_line_ptr \<noteq> 0 then Some (boot_params, phys_bytes mem cmd_line_ptr COMMAND_LINE_SIZE)
      else if length config_cmd_line < COMMAND_LINE_SIZE then None
      else Some (boot_params, take COMMAND_LINE_SIZE config_cmd_line))"

section \<open>The loaded image\<close>

definition early_page :: "image \<Rightarrow> u64 \<Rightarrow> nat \<Rightarrow> u64" where
  "early_page img la k = rip_rel_ptr img la (sym_early_pages img) + PAGE_SIZE * of_nat k"

definition root_table :: "image \<Rightarrow> u64 \<Rightarrow> u64" where "root_table img la = rip_rel_ptr img la (sym_early_top_pgt img)"

text \<open>The tables of the image do not overlap, and the image fits where it is linked and loaded.\<close>

definition image_tables :: "image \<Rightarrow> u64 \<Rightarrow> u64 list" where
  "image_tables img la = map (early_page img la) [0..<64] @ map (rip_rel_ptr img la)
     [sym_early_top_pgt img, sym_level2_kernel_pgt img, sym_level2_fixmap_pgt img, sym_level1_fixmap_pgt img,
      sym_level1_fixmap_pgt img + PAGE_SIZE]"

definition image_ok :: "image \<Rightarrow> u64 \<Rightarrow> bool" where
  "image_ok img la \<longleftrightarrow> distinct (image_tables img la) \<and> (\<forall>a \<in> set (image_tables img la). 4096 dvd unat a \<and> unat a < 2 ^ 52) \<and>
     2 ^ 64 - 2 ^ 31 \<le> unat (sym_text img) \<and> unat (sym_text img) + 2 ^ 21 * image_pages img \<le> 2 ^ 64 - 2 ^ 30 \<and>
     2 ^ 21 dvd unat (sym_text img) \<and> 2 ^ 21 dvd unat la \<and> unat la + 2 ^ 21 * image_pages img \<le> 2 ^ 47"

lemma early_page_props:
  assumes "image_ok img la" "k < 64"
  shows "4096 dvd unat (early_page img la k)" "unat (early_page img la k) < 2 ^ 52"
    "early_page img la k \<noteq> root_table img la" "early_page img la k \<noteq> rip_rel_ptr img la (sym_level2_kernel_pgt img)"
    "early_page img la k \<noteq> rip_rel_ptr img la (sym_level2_fixmap_pgt img)"
    "j < 64 \<Longrightarrow> early_page img la k = early_page img la j \<longleftrightarrow> k = j"
proof -
  have d: "distinct (image_tables img la)" "\<forall>a \<in> set (image_tables img la). 4096 dvd unat a \<and> unat a < 2 ^ 52"
    using assms(1) by (simp_all add: image_ok_def)
  have "early_page img la k \<in> set (image_tables img la)" using assms(2) by (simp add: image_tables_def)
  with d(2) show "4096 dvd unat (early_page img la k)" "unat (early_page img la k) < 2 ^ 52" by blast+
  have "early_page img la k \<in> early_page img la ` {0..<64}" using assms(2) by simp
  then show "early_page img la k \<noteq> root_table img la" "early_page img la k \<noteq> rip_rel_ptr img la (sym_level2_kernel_pgt img)"
    "early_page img la k \<noteq> rip_rel_ptr img la (sym_level2_fixmap_pgt img)"
    using d(1) by (auto simp: image_tables_def root_table_def)
  have "inj_on (early_page img la) {0..<64}" using d(1) by (simp add: image_tables_def distinct_map)
  then show "early_page img la k = early_page img la j \<longleftrightarrow> k = j" if "j < 64"
    using assms(2) that by (simp add: inj_on_eq_iff)
qed

lemma image_table_props:
  assumes "image_ok img la"
    and "a \<in> {root_table img la, rip_rel_ptr img la (sym_level2_kernel_pgt img), rip_rel_ptr img la (sym_level2_fixmap_pgt img)}"
  shows "4096 dvd unat a" "unat a < 2 ^ 52"
  using assms by (auto simp: image_ok_def image_tables_def root_table_def)

lemma image_tables_differ:
  assumes "image_ok img la"
  shows "root_table img la \<noteq> rip_rel_ptr img la (sym_level2_kernel_pgt img)"
    "root_table img la \<noteq> rip_rel_ptr img la (sym_level2_fixmap_pgt img)"
    "rip_rel_ptr img la (sym_level2_kernel_pgt img) \<noteq> rip_rel_ptr img la (sym_level2_fixmap_pgt img)"
  using assms by (auto simp: image_ok_def image_tables_def root_table_def)

lemma early_put: "early_tables (put_entry a i e s) b j = (if b = a \<and> j = i then e else early_tables s b j)"
  "early_next (put_entry a i e s) = early_next s"
  by (simp_all add: put_entry_def)

section \<open>The identity mapping\<close>

text \<open>
  Every page taken has an owner: the 512 GiB or the 1 GiB whose table it is.  Where a table goes into the
  tree is determined by the owner.
\<close>

datatype block = PudB nat | PmdB nat

definition slot :: "image \<Rightarrow> u64 \<Rightarrow> (nat \<Rightarrow> block) \<Rightarrow> nat \<Rightarrow> u64 \<Rightarrow> nat \<Rightarrow> block \<Rightarrow> bool" where
  "slot img la own N a i b \<longleftrightarrow> (i < 256 \<and> a = root_table img la \<and> b = PudB i) \<or>
     (\<exists>k g. 1 \<le> k \<and> k < N \<and> own k = PudB g \<and> a = early_page img la k \<and> i < 512 \<and> b = PmdB (g * 512 + i))"

definition ident_entry :: "nat \<Rightarrow> pte" where
  "ident_entry x = of_nat (2 ^ 21 * x) OR PAGE_KERNEL_LARGE_EXEC_NO_GLOBAL"

definition boot_inv :: "image \<Rightarrow> u64 \<Rightarrow> block set \<Rightarrow> (nat \<Rightarrow> block) \<Rightarrow> early \<Rightarrow> bool" where
  "boot_inv img la B own s \<longleftrightarrow> (let N = unat (early_next s); t = early_tables s in
     1 \<le> N \<and> inj_on own {1..<N} \<and> own ` {1..<N} \<subseteq> B \<and>
     (\<forall>k q. 1 \<le> k \<and> k < N \<and> own k = PmdB q \<longrightarrow> (\<exists>j. 1 \<le> j \<and> j < N \<and> own j = PudB (q div 512))) \<and>
     (\<forall>a i b. slot img la own N a i b \<longrightarrow>
        (\<forall>k. 1 \<le> k \<and> k < N \<and> own k = b \<longrightarrow> t a i = early_page img la k OR KERNPG_TABLE) \<and>
        (b \<notin> own ` {1..<N} \<longrightarrow> t a i = 0)) \<and>
     (\<forall>k q i. 1 \<le> k \<and> k < N \<and> own k = PmdB q \<and> i < 512 \<longrightarrow> t (early_page img la k) i \<in> {0, ident_entry (q * 512 + i)}) \<and>
     (\<forall>k i. N \<le> k \<and> k < 64 \<longrightarrow> t (early_page img la k) i = 0) \<and>
     (\<forall>i < 510. t (early_page img la 0) i = 0))"

lemma boot_invD:
  assumes "boot_inv img la B own s"
  defines "N \<equiv> unat (early_next s)"
  shows "1 \<le> N" "inj_on own {1..<N}" "own ` {1..<N} \<subseteq> B"
    "1 \<le> k \<Longrightarrow> k < N \<Longrightarrow> own k = PmdB q \<Longrightarrow> \<exists>j. 1 \<le> j \<and> j < N \<and> own j = PudB (q div 512)"
    "slot img la own N a i b \<Longrightarrow> 1 \<le> k \<Longrightarrow> k < N \<Longrightarrow> own k = b \<Longrightarrow> early_tables s a i = early_page img la k OR KERNPG_TABLE"
    "slot img la own N a i b \<Longrightarrow> b \<notin> own ` {1..<N} \<Longrightarrow> early_tables s a i = 0"
    "1 \<le> k \<Longrightarrow> k < N \<Longrightarrow> own k = PmdB q \<Longrightarrow> i < 512 \<Longrightarrow> early_tables s (early_page img la k) i \<in> {0, ident_entry (q * 512 + i)}"
    "N \<le> k \<Longrightarrow> k < 64 \<Longrightarrow> early_tables s (early_page img la k) i = 0"
    "i < 510 \<Longrightarrow> early_tables s (early_page img la 0) i = 0"
  using assms unfolding boot_inv_def Let_def by blast+

lemma slot_owner:
  assumes ok: "image_ok img la" and N: "N \<le> 64"
    and s: "slot img la own N a i b" "slot img la own N a' i' b'"
  shows "inj_on own {1..<N} \<Longrightarrow> b = b' \<Longrightarrow> a = a' \<and> i = i'" "a = a' \<Longrightarrow> i = i' \<Longrightarrow> b = b'"
proof -
  have "(g * 512 + i) div 512 = g" "(g * 512 + i) mod 512 = i" if "i < 512" for g i :: nat using that by simp_all
  then have split: "g * 512 + i = g' * 512 + i' \<Longrightarrow> i < 512 \<Longrightarrow> i' < 512 \<Longrightarrow> g = g' \<and> i = i'" for g i g' i' :: nat
    by metis
  assume inj: "inj_on own {1..<N}" and b: "b = b'"
  then have un: "own k = own k' \<Longrightarrow> 1 \<le> k \<Longrightarrow> k < N \<Longrightarrow> 1 \<le> k' \<Longrightarrow> k' < N \<Longrightarrow> k = k'" for k k'
    by (auto dest: inj_onD)
  show "a = a' \<and> i = i'"
  proof (cases b)
    case (PudB g)
    with s b show ?thesis by (auto simp: slot_def)
  next
    case (PmdB q)
    from s b PmdB obtain k g k' g' where k: "1 \<le> k" "k < N" "own k = PudB g" "a = early_page img la k" "i < 512" "q = g * 512 + i"
      "1 \<le> k'" "k' < N" "own k' = PudB g'" "a' = early_page img la k'" "i' < 512" "q = g' * 512 + i'"
      by (auto simp: slot_def)
    from split [of g i g' i'] k(5,6,11,12) have gi: "g = g'" "i = i'" by simp_all
    have "k = k'" by (rule un) (simp_all only: k gi)
    with k(4,10) gi show ?thesis by simp
  qed
next
  assume ai: "a = a'" "i = i'"
  have ne: "early_page img la k \<noteq> root_table img la" if "k < N" for k using early_page_props(3) [OF ok] that N by simp
  have inj: "early_page img la k = early_page img la k' \<longleftrightarrow> k = k'" if "k < N" "k' < N" for k k'
    using early_page_props(6) [OF ok] that N by simp
  show "b = b'" using s ai ne ne [symmetric] inj unfolding slot_def by auto
qed

lemma boot_inv_room:
  assumes "boot_inv img la B own s" "finite B" "card B < 60"
  shows "unat (early_next s) \<le> card B + 1" "b \<in> B \<Longrightarrow> b \<notin> own ` {1..<unat (early_next s)} \<Longrightarrow> unat (early_next s) \<le> card B"
proof -
  let ?O = "own ` {1..<unat (early_next s)}"
  have c: "card ?O = unat (early_next s) - 1" using boot_invD(2) [OF assms(1)] by (simp add: card_image)
  have sub: "?O \<subseteq> B" by (rule boot_invD(3) [OF assms(1)])
  with c card_mono [OF assms(2) sub] show "unat (early_next s) \<le> card B + 1" by simp
  assume "b \<in> B" "b \<notin> ?O"
  with sub have "?O \<subset> B" by blast
  from psubset_card_mono [OF assms(2) this] c show "unat (early_next s) \<le> card B" by simp
qed

lemma free_page_ok:
  assumes "unat (early_next s) < 64"
  shows "head_get_free_page img la s = Some (early_page img la (unat (early_next s)), s\<lparr>early_next := early_next s + 1\<rparr>)"
    "unat (early_next s + 1) = unat (early_next s) + 1"
proof -
  show "head_get_free_page img la s = Some (early_page img la (unat (early_next s)), s\<lparr>early_next := early_next s + 1\<rparr>)"
    using assms by (simp add: head_get_free_page_def early_page_def word_less_nat_alt)
  show "unat (early_next s + 1) = unat (early_next s) + 1" using assms by (subst unat_add_nowrap) simp_all
qed

lemma slot_more:
  assumes "\<And>j. j < N \<Longrightarrow> own' j = own j"
  shows "slot img la own' (Suc N) a i b \<longleftrightarrow> slot img la own N a i b \<or>
     (\<exists>g. 1 \<le> N \<and> own' N = PudB g \<and> a = early_page img la N \<and> i < 512 \<and> b = PmdB (g * 512 + i))"
  using assms unfolding slot_def less_Suc_eq by (auto; metis)

lemma slot_other_page:
  assumes "image_ok img la" "N \<le> 64" "slot img la own N a i b" "j < 64" "N \<le> j \<or> j = 0 \<or> (\<exists>q. own j = PmdB q)"
  shows "a \<noteq> early_page img la j"
proof (cases "a = root_table img la")
  case True
  then show ?thesis using early_page_props(3) [OF assms(1,4)] by metis
next
  case False
  then obtain m g where m: "1 \<le> m" "m < N" "own m = PudB g" "a = early_page img la m" using assms(3) by (auto simp: slot_def)
  then have "m < 64" "m \<noteq> j" using assms(2,5) by auto
  then show ?thesis using early_page_props(6) [OF assms(1) _ assms(4), of m] m(4) by simp
qed

text \<open>The invariant after a page has been taken for the empty entry \<open>i\<close> of table \<open>a\<close>.\<close>

lemma boot_inv_new_page:
  assumes ok: "image_ok img la" and inv: "boot_inv img la B own s" and N: "unat (early_next s) < 64" "b \<in> B"
    and sl: "slot img la own (unat (early_next s)) a i b" and new: "b \<notin> own ` {1..<unat (early_next s)}"
  defines "k \<equiv> unat (early_next s)"
  shows "boot_inv img la B (own(k := b)) (put_entry a i (early_page img la k OR KERNPG_TABLE) (s\<lparr>early_next := early_next s + 1\<rparr>))"
    (is "boot_inv _ _ _ ?own ?s")
proof -
  let ?t = "early_tables s" and ?t' = "early_tables ?s"
  have nx: "unat (early_next ?s) = Suc k" using free_page_ok(2) [OF N(1)] by (simp add: early_put k_def)
  note I = boot_invD [OF inv, folded k_def]
  note sl' = sl [folded k_def] and new' = new [folded k_def] and N' = N(1) [folded k_def]
  have same: "?own j = own j" if "j < k" for j using that by simp
  have t: "?t' c j = (if c = a \<and> j = i then early_page img la k OR KERNPG_TABLE else ?t c j)" for c j
    by (simp add: early_put) 
  have range: "?own ` {1..<Suc k} = insert b (own ` {1..<k})" using I(1) by (auto simp: less_Suc_eq image_iff)
  note other = slot_other_page [OF ok less_imp_le [OF N'] sl']
  have fresh: "a \<noteq> early_page img la j" if "k \<le> j" "j < 64" for j using other that by blast
  have parent: "\<exists>j. 1 \<le> j \<and> j < Suc k \<and> ?own j = PudB (q div 512)" if "1 \<le> j" "j < Suc k" "?own j = PmdB q" for j q
  proof -
    have "\<exists>j. 1 \<le> j \<and> j < k \<and> own j = PudB (q div 512)"
    proof (cases "j = k")
      case True
      with that sl' show ?thesis by (auto simp: slot_def)
    next
      case False
      with that I(4) show ?thesis by simp
    qed
    then show ?thesis by (metis less_SucI same)
  qed
  have entry: "(\<forall>j. 1 \<le> j \<and> j < Suc k \<and> ?own j = b' \<longrightarrow> ?t' c x = early_page img la j OR KERNPG_TABLE) \<and>
      (b' \<notin> ?own ` {1..<Suc k} \<longrightarrow> ?t' c x = 0)" if s': "slot img la ?own (Suc k) c x b'" for c x b'
  proof (cases "slot img la own k c x b'")
    case slotk: True
    have eq: "c = a \<and> x = i \<longleftrightarrow> b' = b"
      using slot_owner [OF ok less_imp_le [OF N'] slotk sl'] I(2) by blast
    show ?thesis
    proof (cases "b' = b")
      case True
      with eq have e: "?t' c x = early_page img la k OR KERNPG_TABLE" by (simp add: t)
      show ?thesis
      proof (intro conjI allI impI)
        fix j
        assume j: "1 \<le> j \<and> j < Suc k \<and> ?own j = b'"
        have "j = k"
        proof (rule ccontr)
          assume "j \<noteq> k"
          with j True have "j \<in> {1..<k}" "own j = b" by auto
          with new' show False by blast
        qed
        with e show "?t' c x = early_page img la j OR KERNPG_TABLE" by simp
      qed (simp only: range True, simp)
    next
      case False
      with eq have "\<not> (c = a \<and> x = i)" by blast
      then have e: "?t' c x = ?t c x" unfolding t by (rule if_not_P)
      show ?thesis
      proof (intro conjI allI impI)
        fix j
        assume j: "1 \<le> j \<and> j < Suc k \<and> ?own j = b'"
        with False have "j \<noteq> k" by auto
        with j have "1 \<le> j" "j < k" "own j = b'" by auto
        from I(5) [OF slotk this] e show "?t' c x = early_page img la j OR KERNPG_TABLE" by simp
      next
        assume "b' \<notin> ?own ` {1..<Suc k}"
        then have "b' \<notin> own ` {1..<k}" unfolding range by simp
        from I(6) [OF slotk this] e show "?t' c x = 0" by simp
      qed
    qed
  next
    case False
    with s' same obtain g where g: "b = PudB g" "c = early_page img la k" "x < 512" "b' = PmdB (g * 512 + x)"
      by (auto simp: slot_more)
    have "b' \<notin> own ` {1..<k}"
    proof
      assume "b' \<in> own ` {1..<k}"
      then obtain j where "1 \<le> j" "j < k" "own j = PmdB (g * 512 + x)" using g(4) by auto
      from I(4) [OF this] obtain j' where j': "1 \<le> j'" "j' < k" "own j' = PudB ((g * 512 + x) div 512)" by blast
      moreover have "(g * 512 + x) div 512 = g" using g(3) by simp
      ultimately have "j' \<in> {1..<k}" "own j' = b" using g(1) by simp_all
      with new' show False by blast
    qed
    moreover have "?t' c x = 0" using fresh [of k] N' g(2) I(8) [of k x] by (auto simp: t)
    moreover have "\<not> (1 \<le> j \<and> j < Suc k \<and> ?own j = b')" for j
    proof
      assume j: "1 \<le> j \<and> j < Suc k \<and> ?own j = b'"
      with g(1,4) have "j \<noteq> k" by auto
      with j have "j \<in> {1..<k}" "own j = b'" by auto
      with \<open>b' \<notin> own ` {1..<k}\<close> show False by blast
    qed
    ultimately show ?thesis by blast
  qed
  have leaf: "?t' (early_page img la j) x \<in> {0, ident_entry (q * 512 + x)}"
    if j: "1 \<le> j" "j < Suc k" "?own j = PmdB q" "x < 512" for j q x
  proof (cases "j = k")
    case True
    then show ?thesis using fresh [of k] N' I(8) [of k x] by (auto simp: t)
  next
    case False
    then have "a \<noteq> early_page img la j" using other [of j] j N' by auto
    with False j I(7) [of j q x] show ?thesis by (auto simp: t)
  qed
  have first: "?t' (early_page img la 0) x = 0" if "x < 510" for x using other [of 0] I(9) [OF that] by (simp add: t)
  have zero: "?t' (early_page img la j) x = 0" if "Suc k \<le> j" "j < 64" for j x using fresh [of j] I(8) [of j x] that by (auto simp: t)
  have inj: "inj_on ?own {1..<Suc k}"
    using I(2) new' by (auto simp: inj_on_def less_Suc_eq image_iff)
  have sub: "?own ` {1..<Suc k} \<subseteq> B" unfolding range using I(3) N(2) by blast
  show ?thesis
    unfolding boot_inv_def Let_def nx
    by (intro conjI) (simp, rule inj, rule sub, use parent in blast, use entry in blast, use leaf in blast, use zero in blast, use first in blast)
qed

lemma table_entry_nonzero: "4096 dvd unat x \<Longrightarrow> unat x < 2 ^ 52 \<Longrightarrow> x OR KERNPG_TABLE \<noteq> 0"
  using table_entry(1) by fastforce

lemma head_table_ok:
  assumes ok: "image_ok img la" and inv: "boot_inv img la B own s" and B: "finite B" "card B < 60" "b \<in> B"
    and sl: "slot img la own (unat (early_next s)) a i b"
  shows "\<exists>k s' own'. head_table img la a i s = Some (early_page img la k, s') \<and> boot_inv img la B own' s' \<and>
     1 \<le> k \<and> k < unat (early_next s') \<and> own' k = b \<and> unat (early_next s) \<le> unat (early_next s') \<and>
     (\<forall>j < unat (early_next s). own' j = own j) \<and> early_tables s' a i = early_page img la k OR KERNPG_TABLE \<and>
     grows (early_tables s) (early_tables s')"
proof (cases "b \<in> own ` {1..<unat (early_next s)}")
  case True
  then obtain k where k: "1 \<le> k" "k < unat (early_next s)" "own k = b" by auto
  have "k < 64" using k(2) boot_inv_room(1) [OF inv B(1,2)] B(2) by simp
  note p = early_page_props(1,2) [OF ok this]
  have e: "early_tables s a i = early_page img la k OR KERNPG_TABLE" by (rule boot_invD(5) [OF inv sl k])
  then have "head_table img la a i s = Some (early_page img la k, s)"
    using table_entry(3) [OF p] table_entry_nonzero [OF p] by (simp add: head_table_def)
  then show ?thesis using inv k e grows_refl by blast
next
  case False
  let ?k = "unat (early_next s)"
  let ?s = "put_entry a i (early_page img la ?k OR KERNPG_TABLE) (s\<lparr>early_next := early_next s + 1\<rparr>)"
  have k: "?k < 64" using boot_inv_room(2) [OF inv B(1,2,3) False] B(2) by simp
  have e: "early_tables s a i = 0" by (rule boot_invD(6) [OF inv sl False])
  then have "head_table img la a i s = Some (early_page img la ?k, ?s)"
    by (simp add: head_table_def free_page_ok(1) [OF k])
  moreover have "boot_inv img la B (own(?k := b)) ?s" by (rule boot_inv_new_page [OF ok inv k B(3) sl False])
  moreover have "unat (early_next ?s) = ?k + 1" using free_page_ok(2) [OF k] by (simp add: early_put)
  moreover have "grows (early_tables s) (early_tables ?s)" using e by (simp add: grows_def early_put)
  moreover have "early_tables ?s a i = early_page img la ?k OR KERNPG_TABLE" by (simp add: early_put)
  ultimately show ?thesis
    using boot_invD(1) [OF inv] by (intro exI [of _ ?k] exI [of _ ?s] exI [of _ "own(?k := b)"]) simp
qed

text \<open>One page of 2 MiB.\<close>

lemma ident_entry_props:
  assumes "x < 2 ^ 26"
  shows "unat (of_nat (2 ^ 21 * x) :: u64) = 2 ^ 21 * x" "present (ident_entry x)" "ident_entry x AND PAGE_PSE \<noteq> 0"
    "ident_entry x AND PHYSICAL_PMD_PAGE_MASK = of_nat (2 ^ 21 * x)"
proof -
  let ?f = PAGE_KERNEL_LARGE_EXEC_NO_GLOBAL and ?x = "of_nat (2 ^ 21 * x) :: u64"
  have f: "?f AND PAGE_PRESENT = PAGE_PRESENT" "?f AND PAGE_PSE = PAGE_PSE" "?f AND PHYSICAL_PMD_PAGE_MASK = 0"
    by (simp_all add: PAGE_KERNEL_LARGE_EXEC_NO_GLOBAL_def PAGE_KERNEL_LARGE_EXEC_def PHYSICAL_PMD_PAGE_MASK_def BIT_UL_def)
  show u: "unat ?x = 2 ^ 21 * x" using assms by (simp add: unat_word_ariths unat_of_nat take_bit_nat_def)
  have d: "4096 dvd unat ?x" "2 ^ 21 dvd unat ?x" "unat ?x < 2 ^ 52" unfolding u using assms by (simp_all add: dvd_mult2)
  show "present (ident_entry x)" "ident_entry x AND PAGE_PSE \<noteq> 0"
    using low_bit_frame [OF d(1) low_bits(1), of ?f] low_bit_frame [OF d(1) low_bits(2), of ?f]
    by (simp_all only: ident_entry_def f) simp_all
  show "ident_entry x AND PHYSICAL_PMD_PAGE_MASK = ?x"
    using frame_mask [OF d(3,2)] f(3) unfolding ident_entry_def by (intro entry_parts(1)) (simp_all only: frame_masks)
qed

lemma boot_inv_put_leaf:
  assumes ok: "image_ok img la" and inv: "boot_inv img la B own s" and N: "unat (early_next s) \<le> 64"
    and k: "1 \<le> k" "k < unat (early_next s)" "own k = PmdB q" "i < 512"
  shows "boot_inv img la B own (put_entry (early_page img la k) i (ident_entry (q * 512 + i)) s)" (is "boot_inv _ _ _ _ ?s")
proof -
  let ?N = "unat (early_next s)"
  have nx: "early_next ?s = early_next s" by (simp add: early_put)
  have other: "early_tables ?s a j = early_tables s a j" if "a \<noteq> early_page img la k" for a j using that by (simp add: early_put)
  have page: "early_page img la k \<noteq> early_page img la j" if "j \<noteq> k" "j < 64" for j
    using early_page_props(6) [OF ok that(2), of k] that k(2) N by simp
  note I = boot_invD [OF inv]
  have slots: "early_tables ?s a j = early_tables s a j" if "slot img la own ?N a j b" for a j b
    using slot_other_page [OF ok N that, of k] k N by (intro other) auto
  have leaf: "early_tables ?s (early_page img la j) x \<in> {0, ident_entry (q' * 512 + x)}"
    if j: "1 \<le> j" "j < ?N" "own j = PmdB q'" "x < 512" for j q' x
  proof (cases "j = k")
    case True
    with j k have "q' = q" by simp
    with True I(7) [OF j] show ?thesis by (simp add: early_put)
  next
    case False
    then have "early_tables ?s (early_page img la j) x = early_tables s (early_page img la j) x"
      using page [of j] j(2) N by (intro other) auto
    with I(7) [OF j] show ?thesis by simp
  qed
  have first: "early_tables ?s (early_page img la 0) x = 0" if "x < 510" for x
    using page [of 0] k(1) I(9) [OF that] by (subst other) auto
  have zero: "early_tables ?s (early_page img la j) x = 0" if "?N \<le> j" "j < 64" for j x
    using page [of j] that k(2) I(8) [OF that] by (subst other) auto
  show ?thesis
    unfolding boot_inv_def Let_def nx
    by (intro conjI) (rule I(1), rule I(2), rule I(3), use I(4) in blast, use I(5,6) slots in metis, use leaf in blast, use zero in blast, use first in blast)
qed

lemma ident_indices:
  assumes "unat a div 2 ^ 21 = x" "x < 2 ^ 26"
  shows "pgd_index a = x div 2 ^ 18" "pud_index a = x div 512 mod 512" "pmd_index a = x mod 512" "x div 2 ^ 18 < 256"
    "x div 2 ^ 18 * 512 + x div 512 mod 512 = x div 512"
proof -
  have d: "unat a div 2 ^ 30 = x div 512" "unat a div 2 ^ 39 = x div 2 ^ 18" using assms(1) by (simp_all flip: div_mult2_eq)
  have g: "x div 2 ^ 18 < 256" using assms(2) by simp
  then show "pgd_index a = x div 2 ^ 18" using d(2) by (simp add: pgd_index_def table_index_nat)
  show "x div 2 ^ 18 < 256" by (rule g)
  show "pud_index a = x div 512 mod 512" "pmd_index a = x mod 512"
    using d(1) assms(1) by (simp_all add: pud_index_def pmd_index_def table_index_nat)
  have "x div 2 ^ 18 = x div 512 div 512" by (simp flip: div_mult2_eq)
  then show "x div 2 ^ 18 * 512 + x div 512 mod 512 = x div 512" by (simp only: div_mult_mod_eq)
qed

lemma ident_translate:
  assumes ok: "image_ok img la" and k: "k1 < 64" "k2 < 64" and x: "x < 2 ^ 26" "unat p div 2 ^ 21 = x"
    and t: "t (root_table img la) (x div 2 ^ 18) = early_page img la k1 OR KERNPG_TABLE"
      "t (early_page img la k1) (x div 512 mod 512) = early_page img la k2 OR KERNPG_TABLE"
      "t (early_page img la k2) (x mod 512) = ident_entry x"
  shows "translate t (root_table img la) p = Some p"
proof -
  note p1 = table_entry [OF early_page_props(1,2) [OF ok k(1)]] and p2 = table_entry [OF early_page_props(1,2) [OF ok k(2)]]
  have off: "unat (p AND NOT PMD_MASK) = unat p mod 2 ^ 21" using and_mask_unat [of p 21] by (simp add: level_masks)
  have "2 ^ 21 * x + unat p mod 2 ^ 21 = unat p" using x(2) by (metis mult_div_mod_eq)
  then have "unat (of_nat (2 ^ 21 * x) + (p AND NOT PMD_MASK)) = unat p"
    using ident_entry_props(1) [OF x(1)] off unat_u64_lt [of p] by (subst unat_add_nowrap) simp_all
  then have "of_nat (2 ^ 21 * x) + (p AND NOT PMD_MASK) = p" by (rule word_unat_eq_iff [THEN iffD2])
  then show ?thesis
    using t p1 p2 ident_entry_props(2-4) [OF x(1)]
    by (simp add: translate_def walk_pud_def walk_pmd_def ident_indices [OF x(2,1)])
qed

lemma ident_map_ok:
  assumes ok: "image_ok img la" and inv: "boot_inv img la B own s" and B: "finite B" "card B < 60"
    and x: "x < 2 ^ 26" "PudB (x div 2 ^ 18) \<in> B" "PmdB (x div 512) \<in> B"
  shows "\<exists>s' own'. ident_map img la (root_table img la) (of_nat (2 ^ 21 * x)) s = Some s' \<and> boot_inv img la B own' s' \<and>
     grows (early_tables s) (early_tables s') \<and>
     (\<forall>p. unat p div 2 ^ 21 = x \<longrightarrow> translate (early_tables s') (root_table img la) p = Some p)"
proof -
  let ?a = "of_nat (2 ^ 21 * x) :: u64" and ?g = "x div 2 ^ 18" and ?u = "x div 512 mod 512"
  have "unat ?a div 2 ^ 21 = x" using ident_entry_props(1) [OF x(1)] by simp
  note idx = ident_indices [OF this x(1)]
  have "slot img la own (unat (early_next s)) (root_table img la) ?g (PudB ?g)" using idx(4) by (simp add: slot_def)
  from head_table_ok [OF ok inv B x(2) this] obtain k1 s1 own1 where
    h1: "head_table img la (root_table img la) ?g s = Some (early_page img la k1, s1)" "boot_inv img la B own1 s1"
      "1 \<le> k1" "k1 < unat (early_next s1)" "own1 k1 = PudB ?g"
      "early_tables s1 (root_table img la) ?g = early_page img la k1 OR KERNPG_TABLE" "grows (early_tables s) (early_tables s1)" by blast
  have "slot img la own1 (unat (early_next s1)) (early_page img la k1) ?u (PmdB (?g * 512 + ?u))"
    using h1(3,4,5) unfolding slot_def by auto
  then have "slot img la own1 (unat (early_next s1)) (early_page img la k1) ?u (PmdB (x div 512))" by (simp only: idx(5))
  from head_table_ok [OF ok h1(2) B x(3) this] obtain k2 s2 own2 where
    h2: "head_table img la (early_page img la k1) ?u s1 = Some (early_page img la k2, s2)" "boot_inv img la B own2 s2"
      "1 \<le> k2" "k2 < unat (early_next s2)" "own2 k2 = PmdB (x div 512)" "unat (early_next s1) \<le> unat (early_next s2)"
      "early_tables s2 (early_page img la k1) ?u = early_page img la k2 OR KERNPG_TABLE" "grows (early_tables s1) (early_tables s2)" by blast
  let ?s = "put_entry (early_page img la k2) (x mod 512) (ident_entry x) s2"
  have N: "unat (early_next s2) \<le> 64" using boot_inv_room(1) [OF h2(2) B] B(2) by simp
  have run: "ident_map img la (root_table img la) ?a s = Some ?s"
    by (simp only: ident_map_def idx h1(1) h2(1) Option.bind.bind_lunit prod.case ident_entry_def)
  have i: "x mod 512 < 512" by simp
  have inv': "boot_inv img la B own2 ?s"
    using boot_inv_put_leaf [OF ok h2(2) N h2(3,4,5) i] by (simp only: div_mult_mod_eq)
  have "early_tables s2 (early_page img la k2) (x mod 512) \<in> {0, ident_entry x}"
    using boot_invD(7) [OF h2(2-5) i] by (simp only: div_mult_mod_eq)
  then have g: "grows (early_tables s2) (early_tables ?s)" by (auto simp: grows_def early_put)
  have k: "k1 < 64" "k2 < 64" using h1(4) h2(4,6) N by simp_all
  have keep: "early_tables ?s a i = early_page img la j OR KERNPG_TABLE"
    if "early_tables s' a i = early_page img la j OR KERNPG_TABLE" "grows (early_tables s') (early_tables ?s)" "j < 64" for a i j s'
    using that table_entry(1) [OF early_page_props(1,2) [OF ok that(3)]] unfolding grows_def by metis
  have t: "early_tables ?s (root_table img la) ?g = early_page img la k1 OR KERNPG_TABLE"
    "early_tables ?s (early_page img la k1) ?u = early_page img la k2 OR KERNPG_TABLE"
    "early_tables ?s (early_page img la k2) (x mod 512) = ident_entry x"
    using keep [OF h1(6) grows_trans [OF h2(8) g] k(1)] keep [OF h2(7) g k(2)] by (simp_all add: early_put)
  have "translate (early_tables ?s) (root_table img la) p = Some p" if "unat p div 2 ^ 21 = x" for p
    by (rule ident_translate [OF ok k x(1) that t])
  with run inv' grows_trans [OF grows_trans [OF h1(7) h2(8)] g] show ?thesis by blast
qed

lemma map_ident_ok:
  assumes ok: "image_ok img la" and B: "finite B" "card B < 60" and la: "unat la = 2 ^ 21 * L"
  shows "boot_inv img la B own s \<Longrightarrow>
     (\<forall>i \<in> set is. L + i < 2 ^ 26 \<and> PudB ((L + i) div 2 ^ 18) \<in> B \<and> PmdB ((L + i) div 512) \<in> B) \<Longrightarrow>
     \<exists>s' own'. map_ident img la (root_table img la) is s = Some s' \<and> boot_inv img la B own' s' \<and>
       grows (early_tables s) (early_tables s') \<and>
       (\<forall>i p. i \<in> set is \<and> unat p div 2 ^ 21 = L + i \<longrightarrow> translate (early_tables s') (root_table img la) p = Some p)"
proof (induction "is" arbitrary: s own)
  case Nil
  then show ?case by auto
next
  case (Cons i js)
  have l: "la = of_nat (2 ^ 21 * L)" using la by (metis of_nat_unat ucast_id)
  have a: "la + of_nat i * PMD_SIZE = of_nat (2 ^ 21 * (L + i))"
    by (simp add: l level_masks(4) distrib_left mult.commute)
  obtain s1 own1 where s1: "ident_map img la (root_table img la) (of_nat (2 ^ 21 * (L + i))) s = Some s1" "boot_inv img la B own1 s1"
      "grows (early_tables s) (early_tables s1)"
      "\<And>p. unat p div 2 ^ 21 = L + i \<Longrightarrow> translate (early_tables s1) (root_table img la) p = Some p"
    using ident_map_ok [OF ok Cons.prems(1) B, of "L + i"] Cons.prems(2) by auto
  obtain s2 own2 where s2: "map_ident img la (root_table img la) js s1 = Some s2" "boot_inv img la B own2 s2"
      "grows (early_tables s1) (early_tables s2)"
      "\<And>i p. i \<in> set js \<Longrightarrow> unat p div 2 ^ 21 = L + i \<Longrightarrow> translate (early_tables s2) (root_table img la) p = Some p"
    using Cons.IH [OF s1(2)] Cons.prems(2) by auto
  have "map_ident img la (root_table img la) (i # js) s = Some s2" using s1(1) s2(1) by (simp add: a del: of_nat_mult of_nat_add)
  moreover have "translate (early_tables s2) (root_table img la) p = Some p"
    if "j \<in> set (i # js)" "unat p div 2 ^ 21 = L + j" for j p
    using that s2(4) translate_grows [OF s2(3) s1(4)] by auto
  ultimately show ?case using s2(2) grows_trans [OF s1(3) s2(3)] by blast
qed

section \<open>The switch to virtual addresses\<close>

definition text_entry :: "u64 \<Rightarrow> nat \<Rightarrow> pte" where
  "text_entry la i = (la + of_nat i * PMD_SIZE) OR PAGE_KERNEL_LARGE_EXEC"

lemma map_text_ok:
  assumes "\<forall>i \<in> set is. i + pmd_index (sym_text img) < 512" "distinct is"
  shows "\<exists>s'. map_text img la pmd is s = Some s' \<and> early_next s' = early_next s \<and> early_phys_base s' = early_phys_base s \<and>
     (\<forall>a j. early_tables s' a j = (if a = pmd \<and> (\<exists>i \<in> set is. j = i + pmd_index (sym_text img))
        then text_entry la (j - pmd_index (sym_text img)) else early_tables s a j))"
  using assms
proof (induction "is" arbitrary: s)
  case Nil
  then show ?case by simp
next
  case (Cons i js)
  let ?k = "pmd_index (sym_text img)"
  let ?s = "put_entry pmd (i + ?k) ((la + of_nat i * PMD_SIZE) OR PAGE_KERNEL_LARGE_EXEC) s"
  have "\<forall>i \<in> set js. i + ?k < 512" "distinct js" using Cons.prems by simp_all
  from Cons.IH [OF this, of ?s] obtain s' where s': "map_text img la pmd js ?s = Some s'" "early_next s' = early_next ?s" "early_phys_base s' = early_phys_base ?s"
      "\<forall>a j. early_tables s' a j = (if a = pmd \<and> (\<exists>i \<in> set js. j = i + ?k) then text_entry la (j - ?k) else early_tables ?s a j)"
    by blast
  have lt: "i + ?k < 512" using Cons.prems(1) by simp
  show ?case
    using s' lt by (intro exI [of _ s']) (auto simp: early_put text_entry_def put_entry_def)
qed

lemma text_bounds:
  assumes "image_ok img la"
  shows "image_pages img \<le> 512" "i < image_pages img \<Longrightarrow> i + pmd_index (sym_text img) < 512"
    "sym_text img \<le> v \<Longrightarrow> unat v < unat (sym_text img) + 2 ^ 21 * image_pages img \<Longrightarrow>
       pgd_index v = 511 \<and> pud_index v = 510 \<and>
       pmd_index v = (unat v - unat (sym_text img)) div 2 ^ 21 + pmd_index (sym_text img) \<and>
       unat v mod 2 ^ 21 = (unat v - unat (sym_text img)) mod 2 ^ 21"
proof -
  obtain T where T: "unat (sym_text img) = 2 ^ 21 * T" using assms unfolding image_ok_def by (auto elim: dvdE)
  have b: "2 ^ 43 - 2 ^ 10 \<le> T" "T + image_pages img \<le> 2 ^ 43 - 2 ^ 9"
    using assms unfolding image_ok_def T by simp_all
  then show "image_pages img \<le> 512" by simp
  have p: "pmd_index (sym_text img) = T mod 512" by (simp add: pmd_index_def table_index_nat T)
  have m: "(2 ^ 43 - 2 ^ 10 + x) mod 512 = x" "(2 ^ 43 - 2 ^ 10 + x) div 512 = 2 ^ 34 - 2" if "x < 512" for x :: nat
  proof -
    have k: "2 ^ 43 - 2 ^ 10 = 512 * (2 ^ 34 - 2 :: nat)" by simp
    have "(512 * K + x) mod 512 = x" "(512 * K + x) div 512 = K" for K :: nat using that by simp_all
    then show "(2 ^ 43 - 2 ^ 10 + x) mod 512 = x" "(2 ^ 43 - 2 ^ 10 + x) div 512 = 2 ^ 34 - 2" unfolding k by blast+
  qed
  obtain x where x: "T = 2 ^ 43 - 2 ^ 10 + x" using b(1) le_Suc_ex by blast
  with b have x5: "x + image_pages img \<le> 512" by simp
  show lt: "i + pmd_index (sym_text img) < 512" if "i < image_pages img" for i
    using that x5 m(1) [of x] by (simp only: p x)
  show "pgd_index v = 511 \<and> pud_index v = 510 \<and>
       pmd_index v = (unat v - unat (sym_text img)) div 2 ^ 21 + pmd_index (sym_text img) \<and>
       unat v mod 2 ^ 21 = (unat v - unat (sym_text img)) mod 2 ^ 21"
    if v: "sym_text img \<le> v" "unat v < unat (sym_text img) + 2 ^ 21 * image_pages img"
  proof -
    obtain d where d: "unat v = 2 ^ 21 * T + d" using v(1) T unfolding word_le_nat_alt by (metis le_Suc_ex)
    have dl: "d < 2 ^ 21 * image_pages img" using v(2) unfolding T d by simp
    then have di: "d div 2 ^ 21 < image_pages img" by (simp add: less_mult_imp_div_less mult.commute)
    have q: "unat v div 2 ^ 21 = 2 ^ 43 - 2 ^ 10 + (x + d div 2 ^ 21)" by (simp add: d x)
    have xd: "x + d div 2 ^ 21 < 512" "x < 512" using di x5 by simp_all
    have "unat v div 2 ^ 30 = unat v div 2 ^ 21 div 512" "unat v div 2 ^ 39 = unat v div 2 ^ 21 div 512 div 512"
      by (simp_all flip: div_mult2_eq)
    then have h: "unat v div 2 ^ 30 = 2 ^ 34 - 2" "unat v div 2 ^ 39 = (2 ^ 34 - 2) div 512" unfolding q m(2) [OF xd(1)] by blast+
    have "pmd_index v = x + d div 2 ^ 21" by (simp only: pmd_index_def table_index_nat q m(1) [OF xd(1)])
    moreover have "pmd_index (sym_text img) = x" unfolding p x by (rule m(1) [OF xd(2)])
    moreover have "pgd_index v = 511" "pud_index v = 510" by (simp_all add: pgd_index_def pud_index_def table_index_nat h [simplified])
    ultimately show ?thesis by (simp add: T d)
  qed
qed

lemma text_entry_props:
  assumes "image_ok img la" "i < image_pages img"
  shows "unat (la + of_nat i * PMD_SIZE) = unat la + 2 ^ 21 * i" "present (text_entry la i)" "text_entry la i AND PAGE_PSE \<noteq> 0"
    "text_entry la i AND PHYSICAL_PMD_PAGE_MASK = la + of_nat i * PMD_SIZE"
proof -
  let ?f = PAGE_KERNEL_LARGE_EXEC and ?x = "la + of_nat i * PMD_SIZE"
  have f: "?f AND PAGE_PRESENT = PAGE_PRESENT" "?f AND PAGE_PSE = PAGE_PSE" "?f AND PHYSICAL_PMD_PAGE_MASK = 0"
    by (simp_all add: PAGE_KERNEL_LARGE_EXEC_def PHYSICAL_PMD_PAGE_MASK_def BIT_UL_def)
  have la: "2 ^ 21 dvd unat la" "unat la + 2 ^ 21 * image_pages img \<le> 2 ^ 47" using assms(1) by (simp_all add: image_ok_def)
  have i: "unat la + 2 ^ 21 * i < 2 ^ 47" by (rule less_le_trans [OF _ la(2)]) (simp add: assms(2))
  have "unat (of_nat i * PMD_SIZE :: u64) = 2 ^ 21 * i"
    using i by (simp add: level_masks unat_word_ariths unat_of_nat take_bit_nat_def)
  then show u: "unat ?x = unat la + 2 ^ 21 * i" using i by (subst unat_add_nowrap) simp_all
  have "2 ^ 21 dvd unat ?x" unfolding u using la(1) by (rule dvd_add) simp
  moreover have "unat ?x < 2 ^ 52" unfolding u using i by simp
  moreover from calculation have "4096 dvd unat ?x" using dvd_trans [of "4096 :: nat" "2 ^ 21"] by simp
  ultimately have d: "2 ^ 21 dvd unat ?x" "unat ?x < 2 ^ 52" "4096 dvd unat ?x" by blast+
  show "present (text_entry la i)" "text_entry la i AND PAGE_PSE \<noteq> 0"
    using low_bit_frame [OF d(3) low_bits(1), of ?f] low_bit_frame [OF d(3) low_bits(2), of ?f]
    by (simp_all only: text_entry_def f) simp_all
  show "text_entry la i AND PHYSICAL_PMD_PAGE_MASK = ?x"
    using frame_mask [OF d(2,1)] f(3) unfolding text_entry_def by (intro entry_parts(1)) (simp_all only: frame_masks)
qed

text \<open>The way from the root to the entries of the kernel image.\<close>

lemma text_translate:
  assumes ok: "image_ok img la"
    and t: "t (root_table img la) 511 = early_page img la 0 OR KERNPG_TABLE"
      "t (early_page img la 0) 510 = rip_rel_ptr img la (sym_level2_kernel_pgt img) OR KERNPG_TABLE"
      "\<And>i. i < image_pages img \<Longrightarrow> t (rip_rel_ptr img la (sym_level2_kernel_pgt img)) (i + pmd_index (sym_text img)) = text_entry la i"
    and v: "sym_text img \<le> v" "unat v < unat (sym_text img) + 2 ^ 21 * image_pages img"
  shows "translate t (root_table img la) v = Some (v - sym_text img + la)"
proof -
  let ?l2 = "rip_rel_ptr img la (sym_level2_kernel_pgt img)"
  let ?d = "unat v - unat (sym_text img)"
  let ?i = "?d div 2 ^ 21"
  have i: "?i < image_pages img"
    using v by (intro less_mult_imp_div_less) (simp add: word_le_nat_alt mult.commute less_diff_conv2)
  note idx = text_bounds(3) [OF ok v]
  note p0 = table_entry [OF early_page_props(1,2) [OF ok, of 0]] and p2 = table_entry [OF image_table_props [OF ok, of ?l2]]
  note e = text_entry_props [OF ok i]
  have off: "unat (v AND NOT PMD_MASK) = ?d mod 2 ^ 21" using and_mask_unat [of v 21] idx by (simp add: level_masks)
  have d: "unat (v - sym_text img) = ?d" by (rule unat_sub_nowrap [OF v(1)])
  have "unat la + 2 ^ 21 * image_pages img \<le> 2 ^ 47" using ok by (simp add: image_ok_def)
  then have small: "unat la + ?d < 2 ^ 47" using v by (simp add: word_le_nat_alt)
  have "unat (la + of_nat ?i * PMD_SIZE) + unat (v AND NOT PMD_MASK) = unat la + ?d"
    unfolding e(1) off by (simp only: add.assoc mult_div_mod_eq)
  then have "unat ((la + of_nat ?i * PMD_SIZE) + (v AND NOT PMD_MASK)) = unat la + ?d"
    using small by (subst unat_add_nowrap) simp_all
  also have "\<dots> = unat (v - sym_text img + la)" using d small by (subst unat_add_nowrap) simp_all
  finally have "(la + of_nat ?i * PMD_SIZE) + (v AND NOT PMD_MASK) = v - sym_text img + la" by (rule word_unat_eq_iff [THEN iffD2])
  then show ?thesis
    using idx t(1,2) t(3) [OF i] p0 p2 e(2-4) by (simp add: translate_def walk_pud_def walk_pmd_def)
qed

text \<open>The blocks that the identity mapping of the image needs: at most two of each size.\<close>

definition image_blocks :: "nat \<Rightarrow> nat \<Rightarrow> block set" where
  "image_blocks L N = PudB ` {L div 2 ^ 18..(L + N) div 2 ^ 18} \<union> PmdB ` {L div 512..(L + N) div 512}"

lemma image_blocks_card:
  assumes "N \<le> 512"
  shows "card (image_blocks L N) \<le> 4"
proof -
  have "(L + N) div 2 ^ 18 \<le> (L + 2 ^ 18) div 2 ^ 18" "(L + N) div 512 \<le> (L + 512) div 512"
    using assms by (intro div_le_mono; simp)+
  then have "(L + N) div 2 ^ 18 \<le> L div 2 ^ 18 + 1" "(L + N) div 512 \<le> L div 512 + 1" by simp_all
  then have "card {L div 2 ^ 18..(L + N) div 2 ^ 18} \<le> 2" "card {L div 512..(L + N) div 512} \<le> 2" by (simp_all del: One_nat_def)
  moreover have "card (PudB ` A) \<le> card A" "card (PmdB ` A) \<le> card A" if "finite A" for A using that by (simp_all add: card_image_le)
  ultimately have "card (image_blocks L N) \<le> 2 + 2"
    unfolding image_blocks_def by (intro order_trans [OF card_Un_le] add_mono) (meson finite_atLeastAtMost order_trans)+
  then show ?thesis by simp
qed

lemma image_blocks_props:
  assumes "N \<le> 512"
  shows "finite (image_blocks L N)" "card (image_blocks L N) < 60"
    "i < N \<Longrightarrow> PudB ((L + i) div 2 ^ 18) \<in> image_blocks L N" "i < N \<Longrightarrow> PmdB ((L + i) div 512) \<in> image_blocks L N"
proof -
  show "finite (image_blocks L N)" by (simp add: image_blocks_def)
  show "card (image_blocks L N) < 60" using image_blocks_card [OF assms, of L] by simp
  show "i < N \<Longrightarrow> PudB ((L + i) div 2 ^ 18) \<in> image_blocks L N" "i < N \<Longrightarrow> PmdB ((L + i) div 512) \<in> image_blocks L N"
    unfolding image_blocks_def by (intro UnI1 imageI; simp add: div_le_mono) (intro UnI2 imageI; simp add: div_le_mono)
qed

lemma load_delta_aligned:
  assumes "image_ok img la"
  shows "IS_ALIGNED (la - (sym_text img - START_KERNEL_map)) (of_nat PMD_SHIFT)"
proof -
  let ?x = "la - (sym_text img - START_KERNEL_map)"
  have ok: "2 ^ 21 dvd unat la" "2 ^ 21 dvd unat (sym_text img)" using assms by (simp_all add: image_ok_def)
  have sk: "2 ^ 21 dvd unat START_KERNEL_map" by (simp add: unat_START_KERNEL_map)
  have d: "2 ^ 21 dvd unat (a - b)" if "2 ^ 21 dvd unat a" "2 ^ 21 dvd unat b" for a b :: u64
  proof -
    have "unat a = (unat (a - b) + unat b) mod 2 ^ 64" using unat_word_ariths(1) [of "a - b" b] by simp
    with that(1) have "2 ^ 21 dvd (unat (a - b) + unat b) mod 2 ^ 64" by metis
    then have "2 ^ 21 dvd unat (a - b) + unat b" by (simp add: dvd_mod_iff)
    with that(2) show ?thesis by (simp add: dvd_add_left_iff)
  qed
  have "2 ^ 21 dvd unat ?x" by (rule d [OF ok(1) d [OF ok(2) sk]])
  then have "?x AND mask 21 = 0" using and_mask_unat [of ?x 21] by (simp add: unat_eq_zero)
  moreover have "?x AND 20 = (?x AND mask 21) AND 20" by (simp add: mask_eq_exp_minus_1 and.assoc)
  ultimately show ?thesis by (simp add: IS_ALIGNED_def)
qed

text \<open>The tables before the identity mapping is made: all the free pages behind the first are still empty.\<close>

definition kernel_part :: "image \<Rightarrow> u64 \<Rightarrow> early \<Rightarrow> bool" where
  "kernel_part img la s \<longleftrightarrow> early_tables s (root_table img la) 511 = early_page img la 0 OR KERNPG_TABLE \<and>
     early_tables s (early_page img la 0) 510 = rip_rel_ptr img la (sym_level2_kernel_pgt img) OR KERNPG_TABLE \<and>
     (\<forall>i < image_pages img. early_tables s (rip_rel_ptr img la (sym_level2_kernel_pgt img)) (i + pmd_index (sym_text img)) = text_entry la i)"

lemma startup_kernel_part:
  assumes ok: "image_ok img la" and nx: "early_next s = 0"
    and zero: "\<forall>i < 256. early_tables s (root_table img la) i = 0" "\<forall>k < 64. \<forall>i. early_tables s (early_page img la k) i = 0"
  shows "\<exists>s1. startup_64 img la s = map_ident img la (root_table img la) [0..<image_pages img] s1 \<and>
     kernel_part img la s1 \<and> boot_inv img la B (\<lambda>k. PudB 0) s1"
proof -
  let ?r = "root_table img la" and ?l2 = "rip_rel_ptr img la (sym_level2_kernel_pgt img)"
    and ?fx = "rip_rel_ptr img la (sym_level2_fixmap_pgt img)" and ?p0 = "early_page img la 0"
  let ?k = "pmd_index (sym_text img)"
  have p: "?p0 \<noteq> ?r" "?p0 \<noteq> ?l2" "?p0 \<noteq> ?fx" using early_page_props(3-5) [OF ok, of 0] by simp_all
  have pk: "early_page img la k \<noteq> ?r" "early_page img la k \<noteq> ?l2" "early_page img la k \<noteq> ?fx" "early_page img la k \<noteq> ?p0"
    if "1 \<le> k" "k < 64" for k
    using early_page_props(3-5) [OF ok that(2)] early_page_props(6) [OF ok that(2), of 0] that by simp_all
  note df = image_tables_differ [OF ok]
  define s0 where "s0 = s\<lparr>early_next := 1, early_phys_base := la - (sym_text img - START_KERNEL_map)\<rparr>"
  define sA where "sA = put_entry ?p0 511 (?fx OR KERNPG_TABLE) (put_entry ?p0 510 (?l2 OR KERNPG_TABLE)
     (put_entry ?r 511 (?p0 OR KERNPG_TABLE) s0))"
  have "\<forall>i \<in> set [0..<image_pages img]. i + ?k < 512" using text_bounds(2) [OF ok] by simp
  from map_text_ok [OF this distinct_upt, of la ?l2 sA] obtain sB where
    sB: "map_text img la ?l2 [0..<image_pages img] sA = Some sB" "early_next sB = early_next sA"
      "\<And>a j. early_tables sB a j = (if a = ?l2 \<and> (\<exists>i \<in> set [0..<image_pages img]. j = i + ?k) then text_entry la (j - ?k)
          else early_tables sA a j)" by blast
  define s1 where "s1 = put_entry ?fx 510 (rip_rel_ptr img la (sym_level1_fixmap_pgt img) OR KERNPG_TABLE)
     (put_entry ?fx 511 (rip_rel_ptr img la (sym_level1_fixmap_pgt img + PAGE_SIZE) OR KERNPG_TABLE) sB)"
  have idx: "pud_index START_KERNEL_map + 1 = 511" by (simp add: kernel_indices)
  have "head_get_free_page img la s = Some (?p0, s\<lparr>early_next := 1\<rparr>)" using free_page_ok(1) [of s img la] nx by simp
  then have "startup_64 img la s = map_ident img la ?r [0..<image_pages img] s1"
    using sB(1) by (simp add: startup_64_def Let_def load_delta_aligned [OF ok, simplified] kernel_indices idx s1_def sA_def s0_def root_table_def [symmetric])
  moreover have "kernel_part img la s1"
    using p df by (simp add: kernel_part_def s1_def early_put sB(3) sA_def)
  moreover have "boot_inv img la B (\<lambda>k. PudB 0) s1"
  proof -
    have n1: "unat (early_next s1) = 1" by (simp add: s1_def early_put sB(2) sA_def s0_def)
    have "early_tables s1 ?r i = 0" if "i < 256" for i
      using that p df zero(1) by (simp add: s1_def early_put sB(3) sA_def s0_def)
    moreover have "early_tables s1 (early_page img la k) i = 0" if "1 \<le> k" "k < 64" for k i
      using pk [OF that] zero(2) that by (simp add: s1_def early_put sB(3) sA_def s0_def)
    moreover have "early_tables s1 ?p0 i = 0" if "i < 510" for i
      using that p zero(2) by (simp add: s1_def early_put sB(3) sA_def s0_def)
    ultimately show ?thesis by (auto simp: boot_inv_def Let_def n1 slot_def)
  qed
  ultimately show ?thesis by blast
qed

lemma kernel_part_grows:
  assumes "image_ok img la" "kernel_part img la s" "grows (early_tables s) (early_tables s')"
  shows "kernel_part img la s'"
proof -
  have "rip_rel_ptr img la (sym_level2_kernel_pgt img)
      \<in> {root_table img la, rip_rel_ptr img la (sym_level2_kernel_pgt img), rip_rel_ptr img la (sym_level2_fixmap_pgt img)}" by simp
  note p2 = table_entry(1) [OF image_table_props [OF assms(1) this]]
  have "(0::nat) < 64" by simp
  note p0 = table_entry(1) [OF early_page_props(1,2) [OF assms(1) this]]
  show ?thesis using assms(2,3) p0 p2 text_entry_props(2) [OF assms(1)] unfolding kernel_part_def grows_def by metis
qed

section \<open>Page faults of the boot\<close>

definition direct_entry :: "nat \<Rightarrow> pte" where
  "direct_entry x = of_nat (2 ^ 21 * x) OR PAGE_KERNEL_LARGE_NO_GLOBAL"

text \<open>Page \<open>k\<close> has the table of the 1 GiB that \<open>own k\<close> gives, counted from \<open>PAGE_OFFSET\<close>.\<close>

definition fault_inv :: "image \<Rightarrow> u64 \<Rightarrow> (nat \<Rightarrow> nat) \<Rightarrow> early \<Rightarrow> bool" where
  "fault_inv img la own s \<longleftrightarrow> (let N = unat (early_next s); t = early_tables s in
     early_phys_base s = la - (sym_text img - START_KERNEL_map) \<and> kernel_part img la s \<and>
     1 \<le> N \<and> N \<le> 64 \<and> inj_on own {1..<N} \<and>
     (\<forall>u < 510. (\<forall>k. 1 \<le> k \<and> k < N \<and> own k = u \<longrightarrow> t (early_page img la 0) u = early_page img la k OR KERNPG_TABLE) \<and>
        (u \<notin> own ` {1..<N} \<longrightarrow> t (early_page img la 0) u = 0)) \<and>
     (\<forall>k i. 1 \<le> k \<and> k < N \<and> i < 512 \<longrightarrow> t (early_page img la k) i \<in> {0, direct_entry (own k * 512 + i)}))"

lemma fault_invD:
  assumes "fault_inv img la own s"
  shows "early_phys_base s = la - (sym_text img - START_KERNEL_map)" "kernel_part img la s"
    "1 \<le> unat (early_next s)" "unat (early_next s) \<le> 64" "inj_on own {1..<unat (early_next s)}"
    "u < 510 \<Longrightarrow> 1 \<le> k \<Longrightarrow> k < unat (early_next s) \<Longrightarrow> own k = u \<Longrightarrow>
       early_tables s (early_page img la 0) u = early_page img la k OR KERNPG_TABLE"
    "u < 510 \<Longrightarrow> u \<notin> own ` {1..<unat (early_next s)} \<Longrightarrow> early_tables s (early_page img la 0) u = 0"
    "1 \<le> k \<Longrightarrow> k < unat (early_next s) \<Longrightarrow> i < 512 \<Longrightarrow> early_tables s (early_page img la k) i \<in> {0, direct_entry (own k * 512 + i)}"
  using assms unfolding fault_inv_def Let_def by blast+

lemma pa_symbol_rip_rel:
  assumes "early_phys_base s = la - (sym_text img - START_KERNEL_map)"
  shows "pa_symbol s x = rip_rel_ptr img la x"
  by (simp add: pa_symbol_def rip_rel_ptr_def assms)

lemma direct_indices:
  assumes "direct v"
  defines "D \<equiv> unat (v - PAGE_OFFSET)"
  shows "pgd_index v = 511" "pud_index v = D div 2 ^ 30" "pmd_index v = D div 2 ^ 21 mod 512" "D div 2 ^ 30 < 510"
    "unat (v AND NOT PMD_MASK) = D mod 2 ^ 21" "(v - PAGE_OFFSET) AND PMD_MASK = of_nat (2 ^ 21 * (D div 2 ^ 21))"
proof -
  have b: "2 ^ 64 - 2 ^ 39 \<le> unat v" "unat v < 2 ^ 64 - 2 ^ 31" using assms(1) by (simp_all add: direct_unat)
  have D: "D = unat v - (2 ^ 64 - 2 ^ 39)" unfolding D_def by (rule direct_phys(3) [OF assms(1)])
  then have v: "unat v = 2 ^ 30 * (512 * (2 ^ 25 - 1)) + D" and lt: "D < 2 ^ 30 * 510" using b by simp_all
  show g: "D div 2 ^ 30 < 510" using lt by (simp add: less_mult_imp_div_less)
  have q: "unat v div 2 ^ 30 = 512 * (2 ^ 25 - 1) + D div 2 ^ 30" unfolding v by simp
  have "unat v div 2 ^ 39 = unat v div 2 ^ 30 div 512" by (simp flip: div_mult2_eq)
  also have "\<dots> = 2 ^ 25 - 1" unfolding q using g by simp
  finally show "pgd_index v = 511" by (simp add: pgd_index_def table_index_nat)
  have "(512 * K + x) mod 512 = x" if "x < 512" for K x :: nat using that by simp
  from this [of "D div 2 ^ 30" "2 ^ 25 - 1"] g show "pud_index v = D div 2 ^ 30" by (simp only: pud_index_def table_index_nat q)
  have v': "unat v = 2 ^ 21 * (512 * (512 * (2 ^ 25 - 1))) + D" using v by simp
  have q': "unat v div 2 ^ 21 = 512 * (512 * (2 ^ 25 - 1)) + D div 2 ^ 21" unfolding v' by simp
  have "(512 * K + x) mod 512 = x mod 512" for K x :: nat by simp
  then show "pmd_index v = D div 2 ^ 21 mod 512" by (simp only: pmd_index_def table_index_nat q')
  have "(2 ^ 21 * K + x) mod 2 ^ 21 = x mod 2 ^ 21" for K x :: nat by simp
  then show "unat (v AND NOT PMD_MASK) = D mod 2 ^ 21" using and_mask_unat [of v 21] by (simp only: level_masks bit.double_compl v')
  have "unat ((v - PAGE_OFFSET) AND PMD_MASK) = 2 ^ 21 * (D div 2 ^ 21)" by (simp only: level_masks and_not_mask_unat D_def)
  then show "(v - PAGE_OFFSET) AND PMD_MASK = of_nat (2 ^ 21 * (D div 2 ^ 21))" by (metis of_nat_unat ucast_id)
qed

lemma direct_entry_props:
  assumes "x < 2 ^ 26"
  shows "unat (of_nat (2 ^ 21 * x) :: u64) = 2 ^ 21 * x" "present (direct_entry x)" "direct_entry x AND PAGE_PSE \<noteq> 0"
    "direct_entry x AND PHYSICAL_PMD_PAGE_MASK = of_nat (2 ^ 21 * x)" "direct_entry x \<noteq> 0"
proof -
  let ?f = PAGE_KERNEL_LARGE_NO_GLOBAL and ?x = "of_nat (2 ^ 21 * x) :: u64"
  have f: "?f AND PAGE_PRESENT = PAGE_PRESENT" "?f AND PAGE_PSE = PAGE_PSE" "?f AND PHYSICAL_PMD_PAGE_MASK = 0"
    by (simp_all add: PAGE_KERNEL_LARGE_NO_GLOBAL_def PAGE_KERNEL_LARGE_def PHYSICAL_PMD_PAGE_MASK_def BIT_UL_def)
  show u: "unat ?x = 2 ^ 21 * x" by (rule ident_entry_props(1) [OF assms])
  have d: "4096 dvd unat ?x" "2 ^ 21 dvd unat ?x" "unat ?x < 2 ^ 52" unfolding u using assms by (simp_all add: dvd_mult2)
  show p: "present (direct_entry x)" "direct_entry x AND PAGE_PSE \<noteq> 0"
    using low_bit_frame [OF d(1) low_bits(1), of ?f] low_bit_frame [OF d(1) low_bits(2), of ?f]
    by (simp_all only: direct_entry_def f) simp_all
  then show "direct_entry x \<noteq> 0" by auto
  show "direct_entry x AND PHYSICAL_PMD_PAGE_MASK = ?x"
    using frame_mask [OF d(3,2)] f(3) unfolding direct_entry_def by (intro entry_parts(1)) (simp_all only: frame_masks)
qed

text \<open>What the tables make of an address of the direct mapping.\<close>

definition block_mapped :: "image \<Rightarrow> u64 \<Rightarrow> (nat \<Rightarrow> nat) \<Rightarrow> early \<Rightarrow> nat \<Rightarrow> bool" where
  "block_mapped img la own s x \<longleftrightarrow>
     (\<exists>k. 1 \<le> k \<and> k < unat (early_next s) \<and> own k = x div 512 \<and> early_tables s (early_page img la k) (x mod 512) \<noteq> 0)"

lemma fault_translate:
  assumes ok: "image_ok img la" and inv: "fault_inv img la own s" and v: "direct v"
  shows "translate (early_tables s) (root_table img la) v =
     (if block_mapped img la own s (unat (v - PAGE_OFFSET) div 2 ^ 21) then Some (v - PAGE_OFFSET) else None)"
proof -
  let ?t = "early_tables s" and ?D = "unat (v - PAGE_OFFSET)"
  let ?x = "?D div 2 ^ 21"
  note idx = direct_indices [OF v] and I = fault_invD [OF inv]
  have x: "?x div 512 = ?D div 2 ^ 30" by (simp flip: div_mult2_eq)
  have x26: "?x < 2 ^ 26" using idx(4) by (simp flip: x)
  have root: "?t (root_table img la) 511 = early_page img la 0 OR KERNPG_TABLE" using I(2) by (simp add: kernel_part_def)
  note p0 = table_entry [OF early_page_props(1,2) [OF ok, of 0]]
  have walk: "translate ?t (root_table img la) v = walk_pud ?t (early_page img la 0) v"
    using root p0 idx(1) by (simp add: translate_def)
  show ?thesis
  proof (cases "?x div 512 \<in> own ` {1..<unat (early_next s)}")
    case False
    then have "\<not> block_mapped img la own s ?x" unfolding block_mapped_def by (metis atLeastLessThan_iff image_eqI)
    with I(7) [OF idx(4)] False x show ?thesis by (simp add: walk walk_pud_def idx(2))
  next
    case True
    then obtain k where k: "1 \<le> k" "k < unat (early_next s)" "own k = ?x div 512" by auto
    have k64: "k < 64" using k(2) I(4) by simp
    note pk = table_entry [OF early_page_props(1,2) [OF ok k64]]
    let ?e = "?t (early_page img la k) (?x mod 512)"
    have uniq: "j = k" if "1 \<le> j" "j < unat (early_next s)" "own j = ?x div 512" for j
      using inj_onD [OF I(5), of j k] that k by simp
    have bm: "block_mapped img la own s ?x \<longleftrightarrow> ?e \<noteq> 0" unfolding block_mapped_def using k uniq by blast
    have e: "?e \<in> {0, direct_entry ?x}" using I(8) [OF k(1,2), of "?x mod 512"] k(3) by (simp only: div_mult_mod_eq)
    have off: "of_nat (2 ^ 21 * ?x) + (v AND NOT PMD_MASK) = v - PAGE_OFFSET"
    proof (rule word_unat_eq_iff [THEN iffD2])
      have "2 ^ 21 * ?x + ?D mod 2 ^ 21 = ?D" by (rule mult_div_mod_eq)
      then show "unat (of_nat (2 ^ 21 * ?x) + (v AND NOT PMD_MASK)) = ?D"
        using direct_entry_props(1) [OF x26] idx(5) unat_u64_lt [of "v - PAGE_OFFSET"] by (subst unat_add_nowrap) simp_all
    qed
    have "walk_pud ?t (early_page img la 0) v = walk_pmd ?t (early_page img la k) v"
      using I(6) [OF idx(4) k(1,2)] k(3) x pk by (simp add: walk_pud_def idx(2))
    moreover have "walk_pmd ?t (early_page img la k) v = (if ?e = 0 then None else Some (v - PAGE_OFFSET))"
      using e direct_entry_props [OF x26] off by (auto simp: walk_pmd_def Let_def idx(3))
    ultimately show ?thesis using walk bm by simp
  qed
qed

text \<open>The two ways a fault changes the tables: it fills an entry, or takes a page first.\<close>

lemma fault_inv_put:
  assumes ok: "image_ok img la" and inv: "fault_inv img la own s"
    and k: "1 \<le> k" "k < unat (early_next s)" "own k = x div 512"
  defines "s' \<equiv> put_entry (early_page img la k) (x mod 512) (direct_entry x) s"
  shows "fault_inv img la own s'" "x < 2 ^ 26 \<Longrightarrow> block_mapped img la own s' y \<longleftrightarrow> y = x \<or> block_mapped img la own s y"
proof -
  let ?N = "unat (early_next s)"
  note I = fault_invD [OF inv]
  have k64: "k < 64" using k(2) I(4) by simp
  have nx: "early_next s' = early_next s" "early_phys_base s' = early_phys_base s" by (simp_all add: s'_def put_entry_def)
  have t: "early_tables s' a i = (if a = early_page img la k \<and> i = x mod 512 then direct_entry x else early_tables s a i)" for a i
    by (simp add: s'_def early_put)
  have p0: "early_page img la 0 \<noteq> early_page img la k" using early_page_props(6) [OF ok k64, of 0] k(1) by auto
  have other: "early_page img la k \<noteq> root_table img la" "early_page img la k \<noteq> rip_rel_ptr img la (sym_level2_kernel_pgt img)"
    using early_page_props(3,4) [OF ok k64] by simp_all
  have kp: "kernel_part img la s'" using I(2) p0 other by (auto simp: kernel_part_def t)
  have pg: "early_page img la j = early_page img la k \<longleftrightarrow> j = k" if "j < ?N" for j
    using early_page_props(6) [OF ok _ k64, of j] that I(4) by auto
  have leaf: "early_tables s' (early_page img la j) i \<in> {0, direct_entry (own j * 512 + i)}" if j: "1 \<le> j" "j < ?N" "i < 512" for j i
  proof (cases "j = k \<and> i = x mod 512")
    case True
    then have "own j * 512 + i = x" using k(3) by (simp only: div_mult_mod_eq)
    with True show ?thesis by (simp add: t)
  next
    case False
    with I(8) [OF j] pg [OF j(2)] show ?thesis by (auto simp: t)
  qed
  have top: "early_tables s' (early_page img la 0) u = early_tables s (early_page img la 0) u" for u using p0 by (simp add: t)
  show "fault_inv img la own s'"
    unfolding fault_inv_def Let_def nx top
    by (intro conjI) (rule I(1), rule kp, rule I(3), rule I(4), rule I(5), use I(6,7) in blast, use leaf in blast)
  show "block_mapped img la own s' y \<longleftrightarrow> y = x \<or> block_mapped img la own s y" if x: "x < 2 ^ 26"
  proof
    assume "block_mapped img la own s' y"
    then obtain j where j: "1 \<le> j" "j < ?N" "own j = y div 512" "early_tables s' (early_page img la j) (y mod 512) \<noteq> 0"
      by (auto simp: block_mapped_def nx)
    show "y = x \<or> block_mapped img la own s y"
    proof (cases "j = k \<and> y mod 512 = x mod 512")
      case True
      with j(3) k(3) show ?thesis by (metis div_mult_mod_eq)
    next
      case False
      then have "early_tables s (early_page img la j) (y mod 512) \<noteq> 0" using j(4) pg [OF j(2)] by (simp add: t split: if_splits)
      with j show ?thesis unfolding block_mapped_def by blast
    qed
  next
    assume "y = x \<or> block_mapped img la own s y"
    moreover have "block_mapped img la own s' x"
      unfolding block_mapped_def nx using k direct_entry_props(5) [OF x] by (intro exI [of _ k]) (simp add: t)
    moreover have "block_mapped img la own s' y" if "block_mapped img la own s y"
      using that direct_entry_props(5) [OF x] unfolding block_mapped_def nx t by (metis (full_types))
    ultimately show "block_mapped img la own s' y" by blast
  qed
qed

definition new_pmd :: "image \<Rightarrow> u64 \<Rightarrow> nat \<Rightarrow> early \<Rightarrow> early" where
  "new_pmd img la u s = (let p = early_page img la (unat (early_next s))
     in put_entry (early_page img la 0) u (p OR KERNPG_TABLE) (s\<lparr>early_next := early_next s + 1, early_tables := (early_tables s)(p := (\<lambda>i. 0))\<rparr>))"

lemma fault_inv_new:
  assumes ok: "image_ok img la" and inv: "fault_inv img la own s"
    and N: "unat (early_next s) < 64" and u: "u < 510" "u \<notin> own ` {1..<unat (early_next s)}"
  defines "k \<equiv> unat (early_next s)"
  shows "fault_inv img la (own(k := u)) (new_pmd img la u s)" "unat (early_next (new_pmd img la u s)) = k + 1"
    "block_mapped img la (own(k := u)) (new_pmd img la u s) y \<longleftrightarrow> block_mapped img la own s y"
proof -
  let ?own = "own(k := u)" and ?s = "new_pmd img la u s"
  note I = fault_invD [OF inv, folded k_def]
  have k64: "k < 64" "1 \<le> k" using N I(3) by (simp_all add: k_def)
  show nx: "unat (early_next ?s) = k + 1"
    using free_page_ok(2) [OF N] by (simp add: new_pmd_def Let_def early_put k_def)
  have pb: "early_phys_base ?s = early_phys_base s" by (simp add: new_pmd_def Let_def put_entry_def)
  have p0: "early_page img la 0 \<noteq> early_page img la k" using early_page_props(6) [OF ok k64(1), of 0] k64(2) by auto
  have t: "early_tables ?s a i = (if a = early_page img la 0 \<and> i = u then early_page img la k OR KERNPG_TABLE
      else if a = early_page img la k then 0 else early_tables s a i)" for a i
    by (simp add: new_pmd_def Let_def early_put k_def)
  have other: "early_page img la j \<noteq> root_table img la" "early_page img la j \<noteq> rip_rel_ptr img la (sym_level2_kernel_pgt img)"
    if "j < 64" for j using early_page_props(3,4) [OF ok that] by simp_all
  have kp: "kernel_part img la ?s"
    using I(2) p0 other [of 0] other [OF k64(1)] u(1) by (auto simp: kernel_part_def t)
  have pg: "early_page img la j \<noteq> early_page img la 0" "early_page img la j = early_page img la k \<longleftrightarrow> j = k" if "1 \<le> j" "j < k + 1" for j
    using early_page_props(6) [OF ok _ k64(1), of j] early_page_props(6) [OF ok, of 0 j] that k64 by auto
  have range: "?own ` {1..<k + 1} = insert u (own ` {1..<k})" using k64(2) by (auto simp: less_Suc_eq image_iff)
  have new: "own j \<noteq> u" if "1 \<le> j" "j < k" for j using u(2) that by (auto simp: k_def)
  have top: "(\<forall>j. 1 \<le> j \<and> j < k + 1 \<and> ?own j = w \<longrightarrow> early_tables ?s (early_page img la 0) w = early_page img la j OR KERNPG_TABLE) \<and>
      (w \<notin> ?own ` {1..<k + 1} \<longrightarrow> early_tables ?s (early_page img la 0) w = 0)" if w: "w < 510" for w
  proof (cases "w = u")
    case True
    have "j = k" if "1 \<le> j" "j < k + 1" "?own j = u" for j using that new [of j] by (auto simp: less_Suc_eq split: if_splits)
    then show ?thesis unfolding range using True by (auto simp: t)
  next
    case False
    have "j < k \<and> own j = w" if "j < k + 1" "?own j = w" for j using that False by (auto simp: less_Suc_eq split: if_splits)
    then show ?thesis unfolding range using I(6,7) [OF w] False p0 by (auto simp: t)
  qed
  have leaf: "early_tables ?s (early_page img la j) i \<in> {0, direct_entry (?own j * 512 + i)}"
    if j: "1 \<le> j" "j < k + 1" "i < 512" for j i
    using I(8) [OF j(1) _ j(3)] pg [OF j(1,2)] j(2) by (cases "j = k") (auto simp: t)
  have inj: "inj_on ?own {1..<k + 1}"
  proof (rule inj_onI)
    fix x y
    assume "x \<in> {1..<k + 1}" "y \<in> {1..<k + 1}" "?own x = ?own y"
    then show "x = y" using new [of x] new [of y] inj_onD [OF I(5), of x y] by (cases "x = k"; cases "y = k") auto
  qed
  show "fault_inv img la ?own ?s"
    unfolding fault_inv_def Let_def nx pb
    by (intro conjI) (rule I(1), rule kp, simp, use k64 in simp, rule inj, use top in blast, use leaf in blast)
  show "block_mapped img la ?own ?s y \<longleftrightarrow> block_mapped img la own s y"
  proof
    assume "block_mapped img la ?own ?s y"
    then obtain j where j: "1 \<le> j" "j < k + 1" "?own j = y div 512" "early_tables ?s (early_page img la j) (y mod 512) \<noteq> 0"
      unfolding block_mapped_def nx by blast
    then have "j \<noteq> k" using pg [OF j(1,2)] p0 by (auto simp: t)
    with j pg [OF j(1,2)] show "block_mapped img la own s y" by (auto simp: block_mapped_def t k_def)
  next
    assume "block_mapped img la own s y"
    then obtain j where j: "1 \<le> j" "j < k" "own j = y div 512" "early_tables s (early_page img la j) (y mod 512) \<noteq> 0"
      unfolding block_mapped_def k_def by blast
    then show "block_mapped img la ?own ?s y"
      unfolding block_mapped_def nx using pg [of j] by (intro exI [of _ j]) (auto simp: t)
  qed
qed

lemma do_early_map_cases:
  assumes ok: "image_ok img la" and inv: "fault_inv img la own s" and v: "direct v"
  defines "x \<equiv> unat (v - PAGE_OFFSET) div 2 ^ 21" and "N \<equiv> unat (early_next s)"
  shows "1 \<le> k \<Longrightarrow> k < N \<Longrightarrow> own k = x div 512 \<Longrightarrow>
       do_early_map img v s = Some (True, put_entry (early_page img la k) (x mod 512) (direct_entry x) s)"
    "x div 512 \<notin> own ` {1..<N} \<Longrightarrow> N < 64 \<Longrightarrow>
       do_early_map img v s = Some (True, put_entry (early_page img la N) (x mod 512) (direct_entry x) (new_pmd img la (x div 512) s))"
    "x div 512 \<notin> own ` {1..<N} \<Longrightarrow> N = 64 \<Longrightarrow> do_early_map img v s = Some (False, s)"
proof -
  note idx = direct_indices [OF v, folded x_def] and I = fault_invD [OF inv, folded N_def]
  have x5: "unat (v - PAGE_OFFSET) div 2 ^ 30 = x div 512" by (simp add: x_def flip: div_mult2_eq)
  have u: "x div 512 < 510" using idx(4) by (simp only: x5)
  have pa: "pa_symbol s y = rip_rel_ptr img la y" for y by (rule pa_symbol_rip_rel [OF I(1)])
  have root: "early_tables s (pa_symbol s (sym_early_top_pgt img)) (pgd_index v) = early_page img la 0 OR KERNPG_TABLE"
    using I(2) by (simp add: kernel_part_def pa root_table_def idx(1))
  note p0 = early_page_props(1,2) [OF ok, of 0]
  note root' = root table_entry(3) [OF p0] table_entry_nonzero [OF p0]
  have ent: "((v - PAGE_OFFSET) AND PMD_MASK) OR PAGE_KERNEL_LARGE_NO_GLOBAL = direct_entry x" by (simp only: direct_entry_def idx(6))
  show "do_early_map img v s = Some (True, put_entry (early_page img la k) (x mod 512) (direct_entry x) s)"
    if k: "1 \<le> k" "k < N" "own k = x div 512"
  proof -
    have "k < 64" using k(2) I(4) by simp
    note pk = early_page_props(1,2) [OF ok this]
    have e: "early_tables s (early_page img la 0) (pud_index v) = early_page img la k OR KERNPG_TABLE"
      using I(6) [OF u k] by (simp only: idx(2) x5)
    show ?thesis
      using root' table_entry(3) [OF pk] table_entry_nonzero [OF pk]
      by (simp add: do_early_map_def Let_def e ent idx(3))
  qed
  assume new: "x div 512 \<notin> own ` {1..<N}"
  have e: "early_tables s (early_page img la 0) (x div 512) = 0" by (rule I(7) [OF u new])
  have pud: "pud_index v = x div 512" by (simp only: idx(2) x5)
  have page: "pa_symbol s (sym_early_pages img + PAGE_SIZE * ucast (early_next s)) = early_page img la N"
    by (simp add: pa early_page_def rip_rel_ptr_def N_def algebra_simps)
  show "do_early_map img v s = Some (True, put_entry (early_page img la N) (x mod 512) (direct_entry x) (new_pmd img la (x div 512) s))"
    if "N < 64"
  proof -
    have "early_next s < EARLY_FREE_PAGES" using that by (simp add: word_less_nat_alt N_def)
    then have "get_free_zero_page img s = (Some (early_page img la N), s\<lparr>early_next := early_next s + 1,
        early_tables := (early_tables s)(early_page img la N := (\<lambda>i. 0))\<rparr>)"
      by (simp add: get_free_zero_page_def page Let_def)
    then show ?thesis
      using root' by (simp add: do_early_map_def Let_def e ent idx(3) pud new_pmd_def N_def)
  qed
  show "do_early_map img v s = Some (False, s)" if "N = 64"
  proof -
    have "\<not> early_next s < EARLY_FREE_PAGES" using that by (simp add: word_less_nat_alt N_def)
    then show ?thesis using root' by (simp add: do_early_map_def Let_def e pud get_free_zero_page_def)
  qed
qed

text \<open>One fault: what it maps, and that it fails only when all pages are taken.\<close>

definition gib_owned :: "(nat \<Rightarrow> nat) \<Rightarrow> early \<Rightarrow> nat \<Rightarrow> bool" where
  "gib_owned own s g \<longleftrightarrow> g \<in> own ` {1..<unat (early_next s)}"

lemma do_early_map_ok:
  assumes ok: "image_ok img la" and inv: "fault_inv img la own s" and v: "direct v"
  shows "\<exists>r s' own'. do_early_map img v s = Some (r, s') \<and> fault_inv img la own' s' \<and>
     (r \<longleftrightarrow> unat (early_next s) < 64 \<or> gib_owned own s (unat (v - PAGE_OFFSET) div 2 ^ 30)) \<and>
     (\<forall>y. block_mapped img la own' s' y \<longleftrightarrow> block_mapped img la own s y \<or> r \<and> y = unat (v - PAGE_OFFSET) div 2 ^ 21) \<and>
     (\<not> r \<longrightarrow> s' = s)"
proof -
  let ?x = "unat (v - PAGE_OFFSET) div 2 ^ 21" and ?N = "unat (early_next s)"
  note cs = do_early_map_cases [OF ok inv v]
  have x5: "unat (v - PAGE_OFFSET) div 2 ^ 30 = ?x div 512" by (simp flip: div_mult2_eq)
  have u: "?x div 512 < 510" using direct_indices(4) [OF v] by (simp only: x5)
  then have x26: "?x < 2 ^ 26" by simp
  show ?thesis
  proof (cases "?x div 512 \<in> own ` {1..<?N}")
    case True
    then obtain k where k: "1 \<le> k" "k < ?N" "own k = ?x div 512" by auto
    let ?s = "put_entry (early_page img la k) (?x mod 512) (direct_entry ?x) s"
    note P = fault_inv_put [OF ok inv k]
    show ?thesis
      using cs(1) [OF k] P(1) P(2) [OF x26] True [folded gib_owned_def x5]
      by (intro exI [of _ True] exI [of _ ?s] exI [of _ own]) auto
  next
    case new: False
    show ?thesis
    proof (cases "?N < 64")
      case True
      define own' where "own' = own(?N := ?x div 512)"
      let ?own = own' and ?s1 = "new_pmd img la (?x div 512) s"
      note P = fault_inv_new [OF ok inv True u new, folded own'_def]
      have k: "1 \<le> ?N" "?N < unat (early_next ?s1)" "?own ?N = ?x div 512"
        using fault_invD(3) [OF inv] P(2) by (simp_all add: own'_def)
      let ?s = "put_entry (early_page img la ?N) (?x mod 512) (direct_entry ?x) ?s1"
      note Q = fault_inv_put [OF ok P(1) k]
      show ?thesis
        using cs(2) [OF new True] Q(1) Q(2) [OF x26] P(3) True
        by (intro exI [of _ True] exI [of _ ?s] exI [of _ ?own]) auto
    next
      case False
      then have "?N = 64" using fault_invD(4) [OF inv] by simp
      with cs(3) [OF new this] inv new [folded gib_owned_def x5] show ?thesis
        by (intro exI [of _ False] exI [of _ s] exI [of _ own]) auto
    qed
  qed
qed

text \<open>After the switch: the identity mapping is dropped, and faults come in any order.\<close>

lemma purge_ok:
  assumes ok: "image_ok img la" and s: "kernel_part img la s" "early_phys_base s = la - (sym_text img - START_KERNEL_map)"
    "\<forall>i < 510. early_tables s (early_page img la 0) i = 0"
  shows "fault_inv img la own (purge_ident_mapping img s)"
proof -
  have pa: "pa_symbol s (sym_early_top_pgt img) = root_table img la" using pa_symbol_rip_rel [OF s(2)] by (simp add: root_table_def)
  have ne: "early_page img la 0 \<noteq> root_table img la" using early_page_props(3) [OF ok, of 0] by simp
  have "kernel_part img la (purge_ident_mapping img s)"
    using s(1) ne image_tables_differ(1) [OF ok] by (auto simp: kernel_part_def purge_ident_mapping_def pa Let_def)
  then show ?thesis using s(2,3) ne by (simp add: fault_inv_def purge_ident_mapping_def pa Let_def)
qed

text \<open>
  The image as the loader leaves it: the early pages and the lower half of the root, which are part of its
  data, are zero.
\<close>

definition loaded :: "image \<Rightarrow> u64 \<Rightarrow> early \<Rightarrow> bool" where
  "loaded img la s \<longleftrightarrow> early_next s = 0 \<and> (\<forall>i < 256. early_tables s (root_table img la) i = 0) \<and>
     (\<forall>k < 64. \<forall>i. early_tables s (early_page img la k) i = 0)"

inductive boot_state :: "image \<Rightarrow> u64 \<Rightarrow> early \<Rightarrow> bool" for img la where
  entered: "loaded img la s \<Longrightarrow> startup_64 img la s = Some s' \<Longrightarrow> boot_state img la (purge_ident_mapping img s')"
| fault: "boot_state img la s \<Longrightarrow> direct v \<Longrightarrow> do_boot_exception img v EXCEPTION_PF s = Some s' \<Longrightarrow> boot_state img la s'"

lemma early_phys_base_put [simp]: "early_phys_base (put_entry a i e s) = early_phys_base s"
  by (simp add: put_entry_def)

lemma head_table_phys_base: "head_table img la a i s = Some (p, s') \<Longrightarrow> early_phys_base s' = early_phys_base s"
  by (auto simp: head_table_def head_get_free_page_def Let_def Option.bind_eq_Some_conv split: if_splits)

lemma map_ident_phys_base: "map_ident img la pgd is s = Some s' \<Longrightarrow> early_phys_base s' = early_phys_base s"
  by (induction "is" arbitrary: s) (auto simp: ident_map_def Option.bind_eq_Some_conv dest!: head_table_phys_base)

lemma map_text_phys_base: "map_text img la pmd is s = Some s' \<Longrightarrow> early_phys_base s' = early_phys_base s"
  by (induction "is" arbitrary: s) (auto split: if_splits)

lemma startup_phys_base:
  assumes "startup_64 img la s = Some s'"
  shows "early_phys_base s' = la - (sym_text img - START_KERNEL_map)"
  using assms unfolding startup_64_def Let_def
  by (auto simp: Option.bind_eq_Some_conv split: if_splits dest!: map_ident_phys_base map_text_phys_base)

lemma startup_ok:
  assumes ok: "image_ok img la" and s: "loaded img la s"
  shows "\<exists>s' own. startup_64 img la s = Some s' \<and> kernel_part img la s' \<and>
     boot_inv img la (image_blocks (unat la div 2 ^ 21) (image_pages img)) own s' \<and>
     (\<forall>p. la \<le> p \<and> unat p < unat la + 2 ^ 21 * image_pages img \<longrightarrow> translate (early_tables s') (root_table img la) p = Some p)"
proof -
  let ?N = "image_pages img" and ?r = "root_table img la"
  define L where "L = unat la div 2 ^ 21"
  have "2 ^ 21 dvd unat la" using ok by (simp add: image_ok_def)
  then have L: "unat la = 2 ^ 21 * L" unfolding L_def by (metis dvd_mult_div_cancel)
  let ?B = "image_blocks L ?N"
  note B = image_blocks_props [OF text_bounds(1) [OF ok], where L = L]
  obtain s1 where s1: "startup_64 img la s = map_ident img la ?r [0..<?N] s1" "kernel_part img la s1" "boot_inv img la ?B (\<lambda>k. PudB 0) s1"
    using startup_kernel_part [OF ok] s unfolding loaded_def by blast
  have "unat la + 2 ^ 21 * ?N \<le> 2 ^ 47" using ok by (simp add: image_ok_def)
  then have LN: "L + ?N \<le> 2 ^ 26" unfolding L by simp
  have "\<forall>i \<in> set [0..<?N]. L + i < 2 ^ 26 \<and> PudB ((L + i) div 2 ^ 18) \<in> ?B \<and> PmdB ((L + i) div 512) \<in> ?B"
    using LN B(3,4) by simp
  from map_ident_ok [OF ok B(1,2) L s1(3) this] obtain s' own' where
    s': "map_ident img la ?r [0..<?N] s1 = Some s'" "boot_inv img la ?B own' s'" "grows (early_tables s1) (early_tables s')"
      "\<And>i p. i < ?N \<Longrightarrow> unat p div 2 ^ 21 = L + i \<Longrightarrow> translate (early_tables s') ?r p = Some p" by auto
  have "translate (early_tables s') ?r p = Some p" if p: "la \<le> p" "unat p < unat la + 2 ^ 21 * ?N" for p
  proof -
    have "L \<le> unat p div 2 ^ 21" using p(1) div_le_mono [of "unat la" "unat p" "2 ^ 21"] by (simp add: word_le_nat_alt L)
    moreover have "unat p div 2 ^ 21 < L + ?N" using p(2) by (intro less_mult_imp_div_less) (simp add: L algebra_simps)
    ultimately show ?thesis by (intro s'(4) [of "unat p div 2 ^ 21 - L"]) simp_all
  qed
  with s1(1) s'(1,2) kernel_part_grows [OF ok s1(2) s'(3)] show ?thesis unfolding L_def by auto
qed

lemma boot_state_inv:
  assumes ok: "image_ok img la"
  shows "boot_state img la s \<Longrightarrow> \<exists>own. fault_inv img la own s"
proof (induction rule: boot_state.induct)
  case (entered s s')
  obtain own where "kernel_part img la s'" "boot_inv img la (image_blocks (unat la div 2 ^ 21) (image_pages img)) own s'"
    using startup_ok [OF ok entered(1)] entered(2) by auto
  with purge_ok [OF ok _ startup_phys_base [OF entered(2)]] show ?case using boot_invD(9) by blast
next
  case (fault s v s')
  then obtain own where inv: "fault_inv img la own s" by blast
  from do_early_map_ok [OF ok inv fault(2)] fault(3) show ?case
    by (auto simp: do_boot_exception_def split: option.splits prod.splits if_splits)
qed

text \<open>
  C17: \<open>__startup_64\<close> returns for every image that is linked and loaded at a multiple of 2 MiB, takes at
  most five of the 64 early pages, and leaves tables that map the image twice: at the virtual
  addresses it is linked at to where it was loaded, and at the physical ones to themselves, so that the
  switch of the root does not pull the code from under the processor.
\<close>

theorem startup_64_maps_image:
  assumes "image_ok img la" "loaded img la s"
  shows "\<exists>s'. startup_64 img la s = Some s' \<and> unat (early_next s') \<le> 5 \<and>
     (\<forall>v. sym_text img \<le> v \<and> unat v < unat (sym_text img) + 2 ^ 21 * image_pages img \<longrightarrow>
        translate (early_tables s') (root_table img la) v = Some (v - sym_text img + la)) \<and>
     (\<forall>p. la \<le> p \<and> unat p < unat la + 2 ^ 21 * image_pages img \<longrightarrow> translate (early_tables s') (root_table img la) p = Some p)"
proof -
  let ?B = "image_blocks (unat la div 2 ^ 21) (image_pages img)"
  note N = text_bounds(1) [OF assms(1)]
  obtain s' own where s': "startup_64 img la s = Some s'" "kernel_part img la s'" "boot_inv img la ?B own s'"
      "\<forall>p. la \<le> p \<and> unat p < unat la + 2 ^ 21 * image_pages img \<longrightarrow> translate (early_tables s') (root_table img la) p = Some p"
    using startup_ok [OF assms] by blast
  have "translate (early_tables s') (root_table img la) v = Some (v - sym_text img + la)"
    if "sym_text img \<le> v" "unat v < unat (sym_text img) + 2 ^ 21 * image_pages img" for v
    using s'(2) by (intro text_translate [OF assms(1) _ _ _ that]) (simp_all add: kernel_part_def)
  moreover have "unat (early_next s') \<le> 5"
    using boot_inv_room(1) [OF s'(3) image_blocks_props(1,2) [OF N]] image_blocks_card [OF N, of "unat la div 2 ^ 21"] by simp
  ultimately show ?thesis using s'(1,4) by blast
qed

text \<open>
  C18: In every state that page faults on the direct mapping lead to, the tables translate an address of the
  direct mapping to the physical address it stands for or not at all, and the image as before.  The
  next fault fails only if all 64 pages are taken by other gibibytes; otherwise it maps the 2 MiB around
  the address, and nothing else of the direct mapping changes.
\<close>

theorem boot_faults_map_direct:
  assumes "image_ok img la" "boot_state img la s" "direct v" "direct w"
    and "sym_text img \<le> x" "unat x < unat (sym_text img) + 2 ^ 21 * image_pages img"
  shows "translate (early_tables s) (root_table img la) w \<in> {None, Some (w - PAGE_OFFSET)} \<and>
     translate (early_tables s) (root_table img la) x = Some (x - sym_text img + la) \<and>
     (\<exists>r s'. do_early_map img v s = Some (r, s') \<and> (unat (early_next s) < 64 \<longrightarrow> r) \<and> (\<not> r \<longrightarrow> s' = s) \<and>
        (r \<longrightarrow> translate (early_tables s') (root_table img la) w =
           (if unat (w - PAGE_OFFSET) div 2 ^ 21 = unat (v - PAGE_OFFSET) div 2 ^ 21 then Some (w - PAGE_OFFSET)
            else translate (early_tables s) (root_table img la) w)))"
proof -
  obtain own where inv: "fault_inv img la own s" using boot_state_inv [OF assms(1,2)] by blast
  obtain r s' own' where s': "do_early_map img v s = Some (r, s')" "fault_inv img la own' s'" "unat (early_next s) < 64 \<longrightarrow> r"
      "\<And>y. block_mapped img la own' s' y \<longleftrightarrow> block_mapped img la own s y \<or> r \<and> y = unat (v - PAGE_OFFSET) div 2 ^ 21"
      "\<not> r \<longrightarrow> s' = s"
    using do_early_map_ok [OF assms(1) inv assms(3)] by blast
  note tr = fault_translate [OF assms(1) inv assms(4)] and tr' = fault_translate [OF assms(1) s'(2) assms(4)]
  have "translate (early_tables s) (root_table img la) x = Some (x - sym_text img + la)"
    using fault_invD(2) [OF inv] by (intro text_translate [OF assms(1) _ _ _ assms(5,6)]) (simp_all add: kernel_part_def)
  moreover have "translate (early_tables s) (root_table img la) w \<in> {None, Some (w - PAGE_OFFSET)}" unfolding tr by simp
  moreover have "r \<longrightarrow> translate (early_tables s') (root_table img la) w =
       (if unat (w - PAGE_OFFSET) div 2 ^ 21 = unat (v - PAGE_OFFSET) div 2 ^ 21 then Some (w - PAGE_OFFSET)
        else translate (early_tables s) (root_table img la) w)"
    unfolding tr tr' s'(4) by auto
  ultimately show ?thesis using s'(1,3,5) by blast
qed

text \<open>A kernel of three megabytes, loaded at 32 MiB.\<close>

definition tiny_image :: image where
  "tiny_image = \<lparr>sym_text = 0xFFFFFFFF81000000, sym_end = 0xFFFFFFFF81300000, sym_early_top_pgt = 0xFFFFFFFF81100000,
     sym_early_pages = 0xFFFFFFFF81110000, sym_level2_kernel_pgt = 0xFFFFFFFF81101000,
     sym_level2_fixmap_pgt = 0xFFFFFFFF81102000, sym_level1_fixmap_pgt = 0xFFFFFFFF81103000\<rparr>"

definition tiny_start :: early where
  "tiny_start = \<lparr>early_tables = (\<lambda>a i. 0), early_next = 0, early_phys_base = 0\<rparr>"

lemma tiny_tables:
  "image_tables tiny_image 0x2000000 =
     map (\<lambda>k. of_nat (4096 * k)) (map (\<lambda>k. 0x2110 + k) [0..<64] @ [0x2100, 0x2101, 0x2102, 0x2103, 0x2104])"
proof -
  have "early_page tiny_image 0x2000000 k = of_nat (4096 * (0x2110 + k))" for k
    by (simp add: early_page_def rip_rel_ptr_def tiny_image_def)
  then show ?thesis by (simp add: image_tables_def comp_def) (simp add: rip_rel_ptr_def tiny_image_def)
qed

lemma tiny_image_ok: "image_ok tiny_image 0x2000000"
proof -
  let ?ks = "map (\<lambda>k. 0x2110 + k) [0..<64] @ [0x2100, 0x2101, 0x2102, 0x2103, 0x2104] :: nat list"
  have u: "unat (of_nat (4096 * k) :: u64) = 4096 * k" if "k \<in> set ?ks" for k
  proof -
    have "4096 * k < 2 ^ 64" using that by auto
    then show ?thesis unfolding unat_of_nat by simp
  qed
  have "distinct ?ks" by (simp add: distinct_map)
  moreover have "inj_on (\<lambda>k. of_nat (4096 * k) :: u64) (set ?ks)"
    by (rule inj_onI) (metis u mult_left_cancel zero_neq_numeral)
  ultimately have "distinct (image_tables tiny_image 0x2000000)" by (simp only: tiny_tables distinct_map)
  moreover have "4096 dvd unat a \<and> unat a < 2 ^ 52" if a: "a \<in> set (image_tables tiny_image 0x2000000)" for a
  proof -
    obtain k where k: "k \<in> set ?ks" "a = of_nat (4096 * k)" using a unfolding tiny_tables set_map by blast
    then show ?thesis using u [OF k(1)] by auto
  qed
  moreover have "image_pages tiny_image = 2" by code_simp
  ultimately show ?thesis by (simp add: image_ok_def) (simp add: tiny_image_def)
qed

lemma tiny_loaded: "loaded tiny_image 0x2000000 tiny_start"
  by (simp add: loaded_def tiny_start_def)

theorem startup_64_maps_image_witness:
  "\<exists>s'. startup_64 tiny_image 0x2000000 tiny_start = Some s' \<and>
     translate (early_tables s') 0x2100000 0xFFFFFFFF81000123 = Some 0x2000123 \<and>
     translate (early_tables s') 0x2100000 0x2300000 = Some 0x2300000"
proof -
  have n: "image_pages tiny_image = 2" by code_simp
  have r: "root_table tiny_image 0x2000000 = 0x2100000" by (simp add: root_table_def rip_rel_ptr_def tiny_image_def)
  have t: "sym_text tiny_image = 0xFFFFFFFF81000000" by (simp add: tiny_image_def)
  from startup_64_maps_image [OF tiny_image_ok tiny_loaded] obtain s' where s': "startup_64 tiny_image 0x2000000 tiny_start = Some s'"
    and linked: "\<forall>v. 0xFFFFFFFF81000000 \<le> v \<and> unat v < unat (0xFFFFFFFF81000000 :: u64) + 2 ^ 21 * 2 \<longrightarrow>
        translate (early_tables s') 0x2100000 v = Some (v - 0xFFFFFFFF81000000 + 0x2000000)"
    and ident: "\<forall>p. 0x2000000 \<le> p \<and> unat p < unat (0x2000000 :: u64) + 2 ^ 21 * 2 \<longrightarrow> translate (early_tables s') 0x2100000 p = Some p"
    unfolding n r t by blast
  have "translate (early_tables s') 0x2100000 0xFFFFFFFF81000123 = Some 0x2000123"
    using linked [rule_format, of "0xFFFFFFFF81000123"] by simp
  moreover have "translate (early_tables s') 0x2100000 0x2300000 = Some 0x2300000"
    using ident [rule_format, of "0x2300000"] by simp
  ultimately show ?thesis using s' by blast
qed

theorem boot_faults_map_direct_witness:
  "\<exists>s r s'. boot_state tiny_image 0x2000000 s \<and> do_early_map tiny_image (va 0x3456789) s = Some (r, s') \<and> r \<and>
     translate (early_tables s') 0x2100000 (va 0x3400000) = Some 0x3400000"
proof -
  obtain s0 where s0: "startup_64 tiny_image 0x2000000 tiny_start = Some s0"
    using startup_ok [OF tiny_image_ok tiny_loaded] by blast
  let ?s = "purge_ident_mapping tiny_image s0"
  have reach: "boot_state tiny_image 0x2000000 ?s" by (rule boot_state.entered [OF tiny_loaded s0])
  have r: "root_table tiny_image 0x2000000 = 0x2100000" by (simp add: root_table_def rip_rel_ptr_def tiny_image_def)
  have n: "image_pages tiny_image = 2" by code_simp
  have d: "direct (va 0x3456789)" "direct (va 0x3400000)" by (simp_all add: direct_def va_def PAGE_OFFSET_def START_KERNEL_map_def)
  have x: "sym_text tiny_image \<le> 0xFFFFFFFF81000000"
    "unat (0xFFFFFFFF81000000 :: u64) < unat (sym_text tiny_image) + 2 ^ 21 * image_pages tiny_image"
    unfolding n by (simp_all add: tiny_image_def)
  have next_page: "unat (early_next ?s) < 64" by (simp add: purge_ident_mapping_def Let_def)
  have same: "unat (va 0x3400000 - PAGE_OFFSET) div 2 ^ 21 = unat (va 0x3456789 - PAGE_OFFSET) div 2 ^ 21" by (simp add: va_def)
  from boot_faults_map_direct [OF tiny_image_ok reach d x, unfolded same r] next_page
  obtain r s' where "do_early_map tiny_image (va 0x3456789) ?s = Some (r, s')" "r"
      "translate (early_tables s') 0x2100000 (va 0x3400000) = Some (va 0x3400000 - PAGE_OFFSET)" by auto
  moreover have "va 0x3400000 - PAGE_OFFSET = 0x3400000" by (simp add: va_def)
  ultimately show ?thesis using reach by metis
qed

end
