(* ===== verification/Efifb.thy ===== *)
theory Efifb
  imports Console Ioremap
begin

text \<open>
  The console on the frame buffer of the firmware, \<open>drivers/framebuffer/efifb.c\<close>, with the font of
  \<open>font.h\<close>.  The mapped frame buffer is a function from the offset to the byte; an access behind its
  end and a character that the font does not have are \<open>None\<close>.  Coordinates and offsets are natural
  numbers.
\<close>

section \<open>Model\<close>

abbreviation (input) CHAR_WIDTH :: nat where "CHAR_WIDTH \<equiv> 8"
abbreviation (input) CHAR_HEIGHT :: nat where "CHAR_HEIGHT \<equiv> 8"

definition font_arr :: "u8 list list" where
  "font_arr =
   [
    [0x00, 0x00, 0x00, 0x00, 0x00, 0x00, 0x00, 0x00], [0x18, 0x18, 0x18, 0x18, 0x18, 0x00, 0x18, 0x00],
    [0x6C, 0x6C, 0x24, 0x00, 0x00, 0x00, 0x00, 0x00], [0x6C, 0x6C, 0xFE, 0x6C, 0xFE, 0x6C, 0x6C, 0x00],
    [0x18, 0x3E, 0x60, 0x3C, 0x06, 0x7C, 0x18, 0x00], [0x00, 0xC6, 0xCC, 0x18, 0x30, 0x66, 0xC6, 0x00],
    [0x38, 0x6C, 0x38, 0x76, 0xDC, 0xCC, 0x76, 0x00], [0x30, 0x30, 0x60, 0x00, 0x00, 0x00, 0x00, 0x00],
    [0x0C, 0x18, 0x30, 0x30, 0x30, 0x18, 0x0C, 0x00], [0x30, 0x18, 0x0C, 0x0C, 0x0C, 0x18, 0x30, 0x00],
    [0x00, 0x66, 0x3C, 0xFF, 0x3C, 0x66, 0x00, 0x00], [0x00, 0x18, 0x18, 0x7E, 0x18, 0x18, 0x00, 0x00],
    [0x00, 0x00, 0x00, 0x00, 0x18, 0x18, 0x30, 0x00], [0x00, 0x00, 0x00, 0x7E, 0x00, 0x00, 0x00, 0x00],
    [0x00, 0x00, 0x00, 0x00, 0x18, 0x18, 0x00, 0x00], [0x06, 0x0C, 0x18, 0x30, 0x60, 0xC0, 0x80, 0x00],
    [0x3C, 0x66, 0x6E, 0x76, 0x66, 0x66, 0x3C, 0x00], [0x18, 0x38, 0x18, 0x18, 0x18, 0x18, 0x7E, 0x00],
    [0x3C, 0x66, 0x0C, 0x18, 0x30, 0x66, 0x7E, 0x00], [0x3C, 0x66, 0x0C, 0x18, 0x0C, 0x66, 0x3C, 0x00],
    [0x0C, 0x1C, 0x3C, 0x6C, 0x7E, 0x0C, 0x0C, 0x00], [0x7E, 0x60, 0x7C, 0x06, 0x06, 0x66, 0x3C, 0x00],
    [0x3C, 0x66, 0x60, 0x7C, 0x66, 0x66, 0x3C, 0x00], [0x7E, 0x66, 0x0C, 0x18, 0x30, 0x30, 0x30, 0x00],
    [0x3C, 0x66, 0x66, 0x3C, 0x66, 0x66, 0x3C, 0x00], [0x3C, 0x66, 0x66, 0x3E, 0x06, 0x66, 0x3C, 0x00],
    [0x00, 0x18, 0x18, 0x00, 0x00, 0x18, 0x18, 0x00], [0x00, 0x18, 0x18, 0x00, 0x18, 0x18, 0x30, 0x00],
    [0x0C, 0x18, 0x30, 0x60, 0x30, 0x18, 0x0C, 0x00], [0x00, 0x00, 0x7E, 0x00, 0x00, 0x7E, 0x00, 0x00],
    [0x30, 0x18, 0x0C, 0x06, 0x0C, 0x18, 0x30, 0x00], [0x3C, 0x66, 0x0C, 0x18, 0x18, 0x00, 0x18, 0x00],
    [0x3C, 0x66, 0x6E, 0x6E, 0x6E, 0x60, 0x3E, 0x00], [0x18, 0x3C, 0x66, 0x66, 0x7E, 0x66, 0x66, 0x00],
    [0x7C, 0x66, 0x66, 0x7C, 0x66, 0x66, 0x7C, 0x00], [0x3C, 0x66, 0x60, 0x60, 0x60, 0x66, 0x3C, 0x00],
    [0x7C, 0x66, 0x66, 0x66, 0x66, 0x66, 0x7C, 0x00], [0x7E, 0x60, 0x60, 0x7C, 0x60, 0x60, 0x7E, 0x00],
    [0x7E, 0x60, 0x60, 0x7C, 0x60, 0x60, 0x60, 0x00], [0x3C, 0x66, 0x60, 0x60, 0x6E, 0x66, 0x3E, 0x00],
    [0x66, 0x66, 0x66, 0x7E, 0x66, 0x66, 0x66, 0x00], [0x7E, 0x18, 0x18, 0x18, 0x18, 0x18, 0x7E, 0x00],
    [0x7E, 0x06, 0x06, 0x06, 0x06, 0x66, 0x3C, 0x00], [0x66, 0x6C, 0x78, 0x70, 0x78, 0x6C, 0x66, 0x00],
    [0x60, 0x60, 0x60, 0x60, 0x60, 0x60, 0x7E, 0x00], [0x63, 0x77, 0x7F, 0x7F, 0x6B, 0x63, 0x63, 0x00],
    [0x66, 0x76, 0x7E, 0x7E, 0x6E, 0x66, 0x66, 0x00], [0x3C, 0x66, 0x66, 0x66, 0x66, 0x66, 0x3C, 0x00],
    [0x7C, 0x66, 0x66, 0x7C, 0x60, 0x60, 0x60, 0x00], [0x3C, 0x66, 0x66, 0x66, 0x6E, 0x6C, 0x36, 0x00],
    [0x7C, 0x66, 0x66, 0x7C, 0x78, 0x6C, 0x66, 0x00], [0x3E, 0x60, 0x60, 0x3C, 0x06, 0x06, 0x7C, 0x00],
    [0x7E, 0x18, 0x18, 0x18, 0x18, 0x18, 0x18, 0x00], [0x66, 0x66, 0x66, 0x66, 0x66, 0x66, 0x3C, 0x00],
    [0x66, 0x66, 0x66, 0x66, 0x66, 0x3C, 0x18, 0x00], [0x63, 0x63, 0x63, 0x6B, 0x6B, 0x7F, 0x36, 0x00],
    [0x66, 0x66, 0x3C, 0x18, 0x3C, 0x66, 0x66, 0x00], [0x66, 0x66, 0x3C, 0x18, 0x18, 0x18, 0x18, 0x00],
    [0x7E, 0x06, 0x0C, 0x18, 0x30, 0x60, 0x7E, 0x00], [0x3C, 0x30, 0x30, 0x30, 0x30, 0x30, 0x3C, 0x00],
    [0xC0, 0x60, 0x30, 0x18, 0x0C, 0x06, 0x02, 0x00], [0x3C, 0x0C, 0x0C, 0x0C, 0x0C, 0x0C, 0x3C, 0x00],
    [0x18, 0x3C, 0x66, 0x00, 0x00, 0x00, 0x00, 0x00], [0x00, 0x00, 0x00, 0x00, 0x00, 0x00, 0x00, 0xFF],
    [0x30, 0x18, 0x0C, 0x00, 0x00, 0x00, 0x00, 0x00], [0x00, 0x00, 0x3C, 0x06, 0x3E, 0x66, 0x3E, 0x00],
    [0x60, 0x60, 0x7C, 0x66, 0x66, 0x66, 0x7C, 0x00], [0x00, 0x00, 0x3E, 0x60, 0x60, 0x60, 0x3E, 0x00],
    [0x06, 0x06, 0x3E, 0x66, 0x66, 0x66, 0x3E, 0x00], [0x00, 0x00, 0x3C, 0x66, 0x7E, 0x60, 0x3C, 0x00],
    [0x0E, 0x18, 0x3E, 0x18, 0x18, 0x18, 0x18, 0x00], [0x00, 0x00, 0x3E, 0x66, 0x66, 0x3E, 0x06, 0x7C],
    [0x60, 0x60, 0x7C, 0x66, 0x66, 0x66, 0x66, 0x00], [0x18, 0x00, 0x38, 0x18, 0x18, 0x18, 0x3C, 0x00],
    [0x06, 0x00, 0x0E, 0x06, 0x06, 0x06, 0x06, 0x3C], [0x60, 0x60, 0x66, 0x6C, 0x78, 0x6C, 0x66, 0x00],
    [0x38, 0x18, 0x18, 0x18, 0x18, 0x18, 0x3C, 0x00], [0x00, 0x00, 0x7E, 0x6B, 0x6B, 0x6B, 0x6B, 0x00],
    [0x00, 0x00, 0x7C, 0x66, 0x66, 0x66, 0x66, 0x00], [0x00, 0x00, 0x3C, 0x66, 0x66, 0x66, 0x3C, 0x00],
    [0x00, 0x00, 0x7C, 0x66, 0x66, 0x7C, 0x60, 0x60], [0x00, 0x00, 0x3E, 0x66, 0x66, 0x3E, 0x06, 0x06],
    [0x00, 0x00, 0x6E, 0x76, 0x60, 0x60, 0x60, 0x00], [0x00, 0x00, 0x3E, 0x60, 0x3C, 0x06, 0x7C, 0x00],
    [0x18, 0x18, 0x7E, 0x18, 0x18, 0x18, 0x0E, 0x00], [0x00, 0x00, 0x66, 0x66, 0x66, 0x66, 0x3E, 0x00],
    [0x00, 0x00, 0x66, 0x66, 0x66, 0x3C, 0x18, 0x00], [0x00, 0x00, 0x63, 0x63, 0x6B, 0x6B, 0x36, 0x00],
    [0x00, 0x00, 0x66, 0x3C, 0x18, 0x3C, 0x66, 0x00], [0x00, 0x00, 0x66, 0x66, 0x3E, 0x06, 0x3C, 0x00],
    [0x00, 0x00, 0x7E, 0x0C, 0x18, 0x30, 0x7E, 0x00], [0x0E, 0x18, 0x18, 0x30, 0x18, 0x18, 0x0E, 0x00],
    [0x18, 0x18, 0x18, 0x18, 0x18, 0x18, 0x18, 0x00], [0x70, 0x18, 0x18, 0x0C, 0x18, 0x18, 0x70, 0x00],
    [0x6C, 0x6C, 0x00, 0x00, 0x00, 0x00, 0x00, 0x00],
    replicate 8 0]"

text \<open>The bit of a character; \<open>char\<close> is signed.\<close>

definition font_char_pixel :: "u8 \<Rightarrow> nat \<Rightarrow> nat \<Rightarrow> bool option" where
  "font_char_pixel ch r c =
     (let i = sint ch - 0x20 in
      if i < 0 \<or> int (length font_arr) \<le> i then None
      else Some ((font_arr ! nat i ! r) AND push_bit (7 - c) 1 \<noteq> 0))"

record efifb =
  framebuffer :: "nat \<Rightarrow> u8"
  fb_size :: nat
  cursor_x :: nat
  cursor_y :: nat
  screen_width :: nat
  screen_height :: nat
  pitch :: nat

record pixel =
  blue :: u8
  green :: u8
  red :: u8
  reserved :: u8

definition PIXEL_WHITE :: pixel where "PIXEL_WHITE = \<lparr>blue = 255, green = 255, red = 255, reserved = 0\<rparr>"

definition pixel_bytes :: "pixel \<Rightarrow> bytes" where "pixel_bytes p = [blue p, green p, red p, reserved p]"

text \<open>A store of some bytes into the frame buffer.\<close>

definition fb_store :: "nat \<Rightarrow> (nat \<Rightarrow> u8) \<Rightarrow> nat \<Rightarrow> efifb \<Rightarrow> efifb option" where
  "fb_store off f len fb =
     (if off + len \<le> fb_size fb
      then Some (fb\<lparr>framebuffer := (\<lambda>i. if off \<le> i \<and> i < off + len then f (i - off) else framebuffer fb i)\<rparr>)
      else None)"

definition efifb_ppixel :: "nat \<Rightarrow> nat \<Rightarrow> pixel \<Rightarrow> efifb \<Rightarrow> efifb option" where
  "efifb_ppixel x y p fb = fb_store (y * pitch fb + x * 4) (\<lambda>i. pixel_bytes p ! i) 4 fb"

fun draw_row :: "nat \<Rightarrow> nat \<Rightarrow> u8 \<Rightarrow> nat \<Rightarrow> nat list \<Rightarrow> efifb \<Rightarrow> efifb option" where
  "draw_row x y ch char_y [] fb = Some fb"
| "draw_row x y ch char_y (char_x # xs) fb =
     do {
       b \<leftarrow> font_char_pixel ch char_y char_x;
       fb \<leftarrow> (if b then efifb_ppixel (x + char_x) (y + char_y) PIXEL_WHITE fb else Some fb);
       draw_row x y ch char_y xs fb }"

fun draw_rows :: "nat \<Rightarrow> nat \<Rightarrow> u8 \<Rightarrow> nat list \<Rightarrow> efifb \<Rightarrow> efifb option" where
  "draw_rows x y ch [] fb = Some fb"
| "draw_rows x y ch (char_y # ys) fb =
     do {
       fb \<leftarrow> draw_row x y ch char_y [0..<CHAR_WIDTH] fb;
       draw_rows x y ch ys fb }"

definition efifb_draw_char :: "nat \<Rightarrow> nat \<Rightarrow> u8 \<Rightarrow> efifb \<Rightarrow> efifb option" where
  "efifb_draw_char x y ch fb = draw_rows x y ch [0..<CHAR_HEIGHT] fb"

text \<open>The copy goes upwards, byte by byte, as that of \<open>string.c\<close>.\<close>

definition efifb_scroll_screen :: "efifb \<Rightarrow> efifb option" where
  "efifb_scroll_screen fb =
     (let sz = size_sub (screen_height fb) CHAR_HEIGHT * pitch fb in
      if fb_size fb < CHAR_HEIGHT * pitch fb + sz then None
      else do {
        fb \<leftarrow> fb_store 0 (\<lambda>i. framebuffer fb (CHAR_HEIGHT * pitch fb + i)) sz fb;
        fb \<leftarrow> fb_store sz (\<lambda>i. 0) (pitch fb * CHAR_HEIGHT) fb;
        Some (fb\<lparr>cursor_y := size_sub (cursor_y fb) CHAR_HEIGHT\<rparr>) })"

definition next_line :: "efifb \<Rightarrow> efifb option" where
  "next_line fb =
     (let fb = fb\<lparr>cursor_x := 0, cursor_y := cursor_y fb + CHAR_HEIGHT\<rparr>
      in if screen_height fb \<le> cursor_y fb then efifb_scroll_screen fb else Some fb)"

definition efifb_put_char :: "u8 \<Rightarrow> efifb \<Rightarrow> efifb option" where
  "efifb_put_char ch fb =
     (if ch = 0x0A then next_line fb
      else do {
        fb \<leftarrow> efifb_draw_char (cursor_x fb) (cursor_y fb) ch fb;
        let fb = fb\<lparr>cursor_x := cursor_x fb + CHAR_WIDTH\<rparr>;
        if screen_width fb \<le> cursor_x fb then next_line fb else Some fb })"

definition efifb_clear_screen :: "efifb \<Rightarrow> efifb option" where
  "efifb_clear_screen fb =
     do {
       fb \<leftarrow> fb_store 0 (\<lambda>i. 0) (screen_height fb * pitch fb) fb;
       Some (fb\<lparr>cursor_x := 0, cursor_y := 0\<rparr>) }"

fun efifb_write :: "bytes \<Rightarrow> efifb \<Rightarrow> efifb option" where
  "efifb_write [] fb = Some fb"
| "efifb_write (c # s) fb =
     do {
       fb \<leftarrow> efifb_put_char c fb;
       efifb_write s fb }"

record screen_info =
  si_framebuffer :: u64
  si_framebuffer_size :: u64
  si_screen_width :: u64
  si_screen_height :: u64
  si_pixels_per_scan_line :: u32

text \<open>Setting up; the state is that of the driver and that of the mapping window.\<close>

definition efifb_setup :: "cache_state \<Rightarrow> u64 \<Rightarrow> screen_info \<Rightarrow> efifb \<times> fixmaps \<Rightarrow> (int \<times> efifb \<times> fixmaps) option" where
  "efifb_setup cs supp si w =
     (let (fb, s) = w;
          fb = fb\<lparr>screen_width := unat (si_screen_width si), screen_height := unat (si_screen_height si),
                  pitch := unat (si_pixels_per_scan_line si) * 4\<rparr>
      in do {
        (p, s) \<leftarrow> ioremap_prot supp (si_framebuffer si) (si_framebuffer_size si)
                    (PAGE_KERNEL OR cachemode2protval cs MODE_UC_MINUS) s;
        (case p of
           None \<Rightarrow> Some (- errno_code ENOMEM, fb, s)
         | Some a \<Rightarrow> do {
             fb \<leftarrow> efifb_clear_screen (fb\<lparr>fb_size := unat (si_framebuffer_size si)\<rparr>);
             Some (0, fb, s) }) })"

definition efifb_ops :: "cache_state \<Rightarrow> u64 \<Rightarrow> screen_info \<Rightarrow> (efifb \<times> fixmaps) con_ops" where
  "efifb_ops cs supp si =
     \<lparr>co_write = (\<lambda>con s w. map_option (\<lambda>fb. (fb, snd w)) (efifb_write s (fst w))),
      co_setup = Some (\<lambda>options con w. map_option (\<lambda>(err, w). (err, con, w)) (efifb_setup cs supp si w)),
      co_match = None, co_exit = None\<rparr>"

definition console_efifb :: console where
  "console_efifb = \<lparr>c_name = [0x74, 0x74, 0x79, 0], c_index = - 1, c_speed = 0\<rparr>"

section \<open>The terminal that the screen shows\<close>

text \<open>A grid of \<open>H\<close> lines of \<open>W\<close> characters with a cursor, which scrolls when the cursor leaves it.\<close>

record terminal =
  cells :: "nat \<Rightarrow> nat \<Rightarrow> u8"
  t_row :: nat
  t_col :: nat

definition blank_terminal :: terminal where "blank_terminal = \<lparr>cells = (\<lambda>r c. 0x20), t_row = 0, t_col = 0\<rparr>"

definition term_newline :: "nat \<Rightarrow> terminal \<Rightarrow> terminal" where
  "term_newline H t =
     (if t_row t + 1 < H then t\<lparr>t_row := t_row t + 1, t_col := 0\<rparr>
      else t\<lparr>cells := (\<lambda>r. cells t (r + 1)), t_col := 0\<rparr>)"

definition term_put :: "nat \<Rightarrow> nat \<Rightarrow> u8 \<Rightarrow> terminal \<Rightarrow> terminal" where
  "term_put W H ch t =
     (if ch = 0x0A then term_newline H t
      else let t = t\<lparr>cells := (cells t)(t_row t := (cells t (t_row t))(t_col t := ch)), t_col := t_col t + 1\<rparr>
           in if W \<le> t_col t then term_newline H t else t)"

definition printable :: "u8 \<Rightarrow> bool" where "printable ch \<longleftrightarrow> ch = 0x0A \<or> 0x20 \<le> ch \<and> ch < 0x80"

definition glyph :: "u8 \<Rightarrow> nat \<Rightarrow> nat \<Rightarrow> bool" where "glyph ch r c \<longleftrightarrow> font_char_pixel ch r c = Some True"

text \<open>The byte at an offset, with \<open>P\<close> pixels in a line.\<close>

definition lit :: "nat \<Rightarrow> terminal \<Rightarrow> nat \<Rightarrow> nat \<Rightarrow> bool" where
  "lit W t y x \<longleftrightarrow> x < CHAR_WIDTH * W \<and> glyph (cells t (y div CHAR_HEIGHT) (x div CHAR_WIDTH)) (y mod CHAR_HEIGHT) (x mod CHAR_WIDTH)"

definition render :: "nat \<Rightarrow> nat \<Rightarrow> terminal \<Rightarrow> nat \<Rightarrow> u8" where
  "render W P t i = (if i mod 4 \<noteq> 3 \<and> lit W t (i div 4 div P) (i div 4 mod P) then 255 else 0)"

definition geometry :: "nat \<Rightarrow> nat \<Rightarrow> nat \<Rightarrow> efifb \<Rightarrow> bool" where
  "geometry W H P fb \<longleftrightarrow> 0 < W \<and> 0 < H \<and> 8 * W \<le> P \<and> 8 * H < 2 ^ 64 \<and> screen_width fb = 8 * W \<and> screen_height fb = 8 * H \<and>
     pitch fb = 4 * P \<and> 8 * H * (4 * P) \<le> fb_size fb"

definition shows_cells :: "nat \<Rightarrow> nat \<Rightarrow> nat \<Rightarrow> terminal \<Rightarrow> efifb \<Rightarrow> bool" where
  "shows_cells W H P t fb \<longleftrightarrow> geometry W H P fb \<and> t_row t < H \<and> cursor_x fb = 8 * t_col t \<and> cursor_y fb = 8 * t_row t \<and>
     (\<forall>r c. t_row t < r \<or> t_row t = r \<and> t_col t \<le> c \<longrightarrow> cells t r c = 0x20) \<and>
     (\<forall>i < 8 * H * (4 * P). framebuffer fb i = render W P t i)"

definition shows_term :: "nat \<Rightarrow> nat \<Rightarrow> nat \<Rightarrow> terminal \<Rightarrow> efifb \<Rightarrow> bool" where
  "shows_term W H P t fb \<longleftrightarrow> shows_cells W H P t fb \<and> t_col t < W"

section \<open>Drawing\<close>

lemma length_font_arr: "length font_arr = 96"
  by (simp add: font_arr_def)

lemma blank_glyph: "r < 8 \<Longrightarrow> c < 8 \<Longrightarrow> \<not> glyph 0x20 r c"
proof -
  assume rc: "r < 8" "c < 8"
  have "font_arr ! 0 = [0, 0, 0, 0, 0, 0, 0, 0]" unfolding font_arr_def by (simp only: nth_Cons_0)
  also have "\<dots> = replicate 8 0" by (simp add: numeral_eq_Suc)
  finally have "font_arr ! 0 ! r = 0" using rc(1) by simp
  moreover have "sint (0x20 :: u8) = 32" by simp
  ultimately show ?thesis by (simp add: glyph_def font_char_pixel_def length_font_arr)
qed

lemma font_pixel_defined:
  assumes "printable ch" "ch \<noteq> 0x0A"
  shows "font_char_pixel ch r c = Some (glyph ch r c)"
proof -
  have ch: "0x20 \<le> ch" "ch < 0x80" using assms by (simp_all add: printable_def)
  then have "uint (0x20 :: u8) \<le> uint ch" "uint ch < uint (0x80 :: u8)" by (simp_all only: word_le_def word_less_def)
  then have u: "32 \<le> uint ch" "uint ch < 128" by simp_all
  then have "sint ch = uint ch" by (simp add: sint_uint signed_take_bit_int_eq_self)
  with u show ?thesis by (simp add: glyph_def font_char_pixel_def length_font_arr Let_def)
qed

text \<open>White on a set of pixels, numbered along the lines.\<close>

definition white_byte :: "nat \<Rightarrow> u8" where "white_byte i = (if i mod 4 = 3 then 0 else 255)"

definition paint :: "(nat \<Rightarrow> bool) \<Rightarrow> efifb \<Rightarrow> efifb" where
  "paint A fb = fb\<lparr>framebuffer := (\<lambda>i. if A (i div 4) then white_byte i else framebuffer fb i)\<rparr>"

lemma paint_simps [simp]:
  "pitch (paint A fb) = pitch fb" "fb_size (paint A fb) = fb_size fb" "screen_width (paint A fb) = screen_width fb"
  "screen_height (paint A fb) = screen_height fb" "cursor_x (paint A fb) = cursor_x fb" "cursor_y (paint A fb) = cursor_y fb"
  "framebuffer (paint A fb) i = (if A (i div 4) then white_byte i else framebuffer fb i)"
  by (simp_all add: paint_def)

lemma paint_none: "paint (\<lambda>q. False) fb = fb"
  by (simp add: paint_def)

lemma paint_paint: "paint A (paint B fb) = paint (\<lambda>q. A q \<or> B q) fb"
proof -
  have "framebuffer (paint A (paint B fb)) = framebuffer (paint (\<lambda>q. A q \<or> B q) fb)" by (simp add: fun_eq_iff)
  then show ?thesis by (simp add: paint_def)
qed

lemma ppixel_spec:
  assumes "pitch fb = 4 * P" "4 * (y * P + x) + 4 \<le> fb_size fb"
  shows "efifb_ppixel x y PIXEL_WHITE fb = Some (paint (\<lambda>q. q = y * P + x) fb)"
proof -
  let ?q = "y * P + x"
  have o: "y * pitch fb + x * 4 = 4 * ?q" by (simp add: assms(1) algebra_simps)
  have range: "4 * ?q \<le> i \<and> i < 4 * ?q + 4 \<longleftrightarrow> i div 4 = ?q" for i :: nat by auto
  have "pixel_bytes PIXEL_WHITE ! (i - 4 * ?q) = white_byte i" if "i div 4 = ?q" for i
  proof -
    have "i - 4 * ?q = i mod 4" unfolding that [symmetric] by (rule minus_mult_div_eq_mod)
    moreover have "i mod 4 \<in> {0, 1, 2, 3}" by auto
    ultimately show ?thesis by (auto simp: pixel_bytes_def PIXEL_WHITE_def white_byte_def)
  qed
  then have bytes: "(\<lambda>i. if i div 4 = ?q then pixel_bytes PIXEL_WHITE ! (i - 4 * ?q) else framebuffer fb i) =
      (\<lambda>i. if i div 4 = ?q then white_byte i else framebuffer fb i)" by (rule_tac ext) auto
  show ?thesis using assms(2) unfolding efifb_ppixel_def fb_store_def o range paint_def bytes by simp
qed

lemma draw_row_spec:
  assumes ch: "printable ch" "ch \<noteq> 0x0A"
  shows "pitch fb = 4 * P \<Longrightarrow> \<forall>c \<in> set xs. 4 * ((y + r) * P + (x + c)) + 4 \<le> fb_size fb \<Longrightarrow>
     draw_row x y ch r xs fb = Some (paint (\<lambda>q. \<exists>c \<in> set xs. glyph ch r c \<and> q = (y + r) * P + (x + c)) fb)"
proof (induction xs arbitrary: fb)
  case Nil
  then show ?case by (simp add: paint_none)
next
  case (Cons c xs)
  let ?fb = "if glyph ch r c then paint (\<lambda>q. q = (y + r) * P + (x + c)) fb else fb"
  have step: "draw_row x y ch r (c # xs) fb = draw_row x y ch r xs ?fb"
    using ppixel_spec [OF Cons.prems(1), of "y + r" "x + c"] Cons.prems(2) by (simp add: font_pixel_defined [OF ch])
  have "pitch ?fb = 4 * P" "fb_size ?fb = fb_size fb" using Cons.prems(1) by simp_all
  with Cons.IH [of ?fb] Cons.prems(2)
  have "draw_row x y ch r xs ?fb = Some (paint (\<lambda>q. \<exists>c \<in> set xs. glyph ch r c \<and> q = (y + r) * P + (x + c)) ?fb)" by simp
  also have "paint (\<lambda>q. \<exists>c \<in> set xs. glyph ch r c \<and> q = (y + r) * P + (x + c)) ?fb =
      paint (\<lambda>q. \<exists>c \<in> set (c # xs). glyph ch r c \<and> q = (y + r) * P + (x + c)) fb"
    by (cases "glyph ch r c") (simp_all add: paint_paint disj_commute)
  finally show ?case unfolding step .
qed

lemma draw_rows_spec:
  assumes ch: "printable ch" "ch \<noteq> 0x0A"
  shows "pitch fb = 4 * P \<Longrightarrow> \<forall>r \<in> set ys. \<forall>c < 8. 4 * ((y + r) * P + (x + c)) + 4 \<le> fb_size fb \<Longrightarrow>
     draw_rows x y ch ys fb = Some (paint (\<lambda>q. \<exists>r \<in> set ys. \<exists>c < 8. glyph ch r c \<and> q = (y + r) * P + (x + c)) fb)"
proof (induction ys arbitrary: fb)
  case Nil
  then show ?case by (simp add: paint_none)
next
  case (Cons r ys)
  let ?row = "\<lambda>r q. \<exists>c < 8. glyph ch r c \<and> q = (y + r) * P + (x + c)"
  have "draw_row x y ch r [0..<8] fb = Some (paint (?row r) fb)"
    using draw_row_spec [OF ch Cons.prems(1), of "[0..<8]" y r x] Cons.prems(2) by (simp add: Bex_def atLeast0LessThan)
  then have "draw_rows x y ch (r # ys) fb = draw_rows x y ch ys (paint (?row r) fb)" by simp
  also have "\<dots> = Some (paint (\<lambda>q. \<exists>r \<in> set ys. ?row r q) (paint (?row r) fb))"
    using Cons.prems by (intro Cons.IH) simp_all
  finally show ?case by (simp add: paint_paint disj_commute)
qed

section \<open>The screen follows the terminal\<close>

text \<open>The pixels of the character cell in line \<open>r\<close>, column \<open>c\<close>.\<close>

lemma cell_pixel:
  fixes q :: nat
  assumes "c < W" "8 * W \<le> P"
  shows "(\<exists>i < 8. \<exists>j < 8. G i j \<and> q = (8 * r + i) * P + (8 * c + j)) \<longleftrightarrow>
     q div P div 8 = r \<and> q mod P div 8 = c \<and> G (q div P mod 8) (q mod P mod 8)" (is "?L \<longleftrightarrow> ?R")
proof
  assume ?L
  then obtain i j where ij: "i < 8" "j < 8" "G i j" "q = (8 * r + i) * P + (8 * c + j)" by blast
  have "8 * c + j < P" using assms ij(2) by linarith
  then have "q div P = 8 * r + i" "q mod P = 8 * c + j" unfolding ij(4) by simp_all
  with ij show ?R by simp
next
  assume R: ?R
  have "8 * r + q div P mod 8 = q div P" "8 * c + q mod P mod 8 = q mod P" using R by (metis mult_div_mod_eq)+
  then have "q = (8 * r + q div P mod 8) * P + (8 * c + q mod P mod 8)" by simp
  with R show ?L by (metis mod_less_divisor zero_less_numeral)
qed

lemma geometryD:
  assumes "geometry W H P fb"
  shows "0 < W" "0 < H" "8 * W \<le> P" "8 * H < 2 ^ 64" "screen_width fb = 8 * W" "screen_height fb = 8 * H" "pitch fb = 4 * P"
    "8 * H * (4 * P) \<le> fb_size fb"
  using assms by (simp_all add: geometry_def)

text \<open>The last pixel of a cell is in the frame buffer.\<close>

lemma cell_in_buffer:
  assumes g: "geometry W H P fb" and rc: "r < H" "c < W" "i < 8" "j < 8"
  shows "4 * ((8 * r + i) * P + (8 * c + j)) + 4 \<le> fb_size fb"
proof -
  note g = geometryD [OF g]
  have "8 * c + j + 1 \<le> P" using rc g(3) by linarith
  moreover have "(8 * r + i + 1) * P \<le> 8 * H * P" using rc by (intro mult_le_mono1) linarith
  ultimately have "(8 * r + i) * P + (8 * c + j) + 1 \<le> 8 * H * P" by simp
  then have "4 * ((8 * r + i) * P + (8 * c + j)) + 4 \<le> 8 * H * (4 * P)" by simp
  with g(8) show ?thesis by linarith
qed

lemma draw_char_spec:
  assumes g: "geometry W H P fb" and rc: "r < H" "c < W" and ch: "printable ch" "ch \<noteq> 0x0A"
  shows "efifb_draw_char (8 * c) (8 * r) ch fb =
     Some (paint (\<lambda>q. q div P div 8 = r \<and> q mod P div 8 = c \<and> glyph ch (q div P mod 8) (q mod P mod 8)) fb)"
proof -
  have room: "\<forall>i \<in> set [0..<8]. \<forall>j < 8. 4 * ((8 * r + i) * P + (8 * c + j)) + 4 \<le> fb_size fb"
    using cell_in_buffer [OF g rc] by simp
  have "efifb_draw_char (8 * c) (8 * r) ch fb =
      Some (paint (\<lambda>q. \<exists>i \<in> set [0..<8]. \<exists>j < 8. glyph ch i j \<and> q = (8 * r + i) * P + (8 * c + j)) fb)"
    unfolding efifb_draw_char_def by (rule draw_rows_spec [OF ch geometryD(7) [OF g] room])
  moreover have "(\<exists>i \<in> set [0..<8]. \<exists>j < 8. glyph ch i j \<and> q = (8 * r + i) * P + (8 * c + j)) \<longleftrightarrow>
      q div P div 8 = r \<and> q mod P div 8 = c \<and> glyph ch (q div P mod 8) (q mod P mod 8)" for q
    unfolding cell_pixel [OF rc(2) geometryD(3) [OF g], symmetric] by auto
  ultimately show ?thesis by presburger
qed

definition put_cell :: "u8 \<Rightarrow> terminal \<Rightarrow> terminal" where
  "put_cell ch t = t\<lparr>cells := (cells t)(t_row t := (cells t (t_row t))(t_col t := ch)), t_col := t_col t + 1\<rparr>"

lemma lit_put_cell:
  assumes "cells t (t_row t) (t_col t) = 0x20" "t_col t < W"
  shows "lit W (put_cell ch t) y x \<longleftrightarrow> lit W t y x \<or> (y div 8 = t_row t \<and> x div 8 = t_col t \<and> glyph ch (y mod 8) (x mod 8))"
proof (cases "y div 8 = t_row t \<and> x div 8 = t_col t")
  case True
  then have "x < 8 * W" using assms(2) by linarith
  with True assms(1) show ?thesis using blank_glyph [of "y mod 8" "x mod 8"] by (simp add: lit_def put_cell_def)
next
  case False
  then show ?thesis by (auto simp: lit_def put_cell_def)
qed

lemma render_put_cell:
  assumes "cells t (t_row t) (t_col t) = 0x20" "t_col t < W"
  shows "render W P (put_cell ch t) i =
     (if i div 4 div P div 8 = t_row t \<and> i div 4 mod P div 8 = t_col t \<and> glyph ch (i div 4 div P mod 8) (i div 4 mod P mod 8)
      then white_byte i else render W P t i)"
  unfolding render_def lit_put_cell [OF assms] white_byte_def by simp

lemma shows_draw:
  assumes s: "shows_term W H P t fb" and ch: "printable ch" "ch \<noteq> 0x0A"
  shows "\<exists>fb'. efifb_draw_char (cursor_x fb) (cursor_y fb) ch fb = Some fb' \<and>
     shows_cells W H P (put_cell ch t) (fb'\<lparr>cursor_x := cursor_x fb' + 8\<rparr>)"
proof -
  have g: "geometry W H P fb" and rc: "t_row t < H" "t_col t < W" and cur: "cursor_x fb = 8 * t_col t" "cursor_y fb = 8 * t_row t"
    and blank: "\<forall>r c. t_row t < r \<or> t_row t = r \<and> t_col t \<le> c \<longrightarrow> cells t r c = 0x20"
    and pic: "\<forall>i < 8 * H * (4 * P). framebuffer fb i = render W P t i"
    using s by (simp_all add: shows_term_def shows_cells_def)
  have b: "cells t (t_row t) (t_col t) = 0x20" using blank by blast
  let ?A = "\<lambda>q. q div P div 8 = t_row t \<and> q mod P div 8 = t_col t \<and> glyph ch (q div P mod 8) (q mod P mod 8)"
  let ?fb = "(paint ?A fb)\<lparr>cursor_x := 8 * t_col t + 8\<rparr>"
  have "geometry W H P ?fb" using g by (simp add: geometry_def)
  moreover have "\<forall>i < 8 * H * (4 * P). framebuffer ?fb i = render W P (put_cell ch t) i"
    using pic by (simp add: render_put_cell [OF b rc(2)])
  moreover have "\<forall>r c. t_row t < r \<or> t_row t = r \<and> t_col t + 1 \<le> c \<longrightarrow> cells (put_cell ch t) r c = 0x20"
    using blank by (simp add: put_cell_def)
  ultimately have "shows_cells W H P (put_cell ch t) ?fb" using rc cur by (simp add: shows_cells_def put_cell_def)
  then show ?thesis unfolding cur draw_char_spec [OF g rc ch] by (simp add: cur)
qed

text \<open>Scrolling moves every line of characters up by one and leaves the last line blank.\<close>

lemma render_scrolled:
  assumes "0 < P" and blank: "\<forall>c. cells t H c = 0x20"
    and i: "i < 8 * H * (4 * P)"
  shows "render W P (t\<lparr>cells := (\<lambda>r. cells t (r + 1)), t_col := 0\<rparr>) i =
     (if i < 8 * (H - 1) * (4 * P) then render W P t (8 * (4 * P) + i) else 0)"
proof -
  let ?y = "i div 4 div P" and ?x = "i div 4 mod P"
  have dv: "(8 * (4 * P) + i) div 4 = i div 4 + 8 * P" and md: "(8 * (4 * P) + i) mod 4 = i mod 4" by presburger+
  have y: "(i div 4 + 8 * P) div P = ?y + 8" and x: "(i div 4 + 8 * P) mod P = ?x" using assms(1) by simp_all
  have ysmall: "?y < 8 * H" "?y < 8 * (H - 1) \<longleftrightarrow> i < 8 * (H - 1) * (4 * P)"
    using i assms(1) by (simp_all add: div_less_iff_less_mult algebra_simps)
  have up: "lit W (t\<lparr>cells := (\<lambda>r. cells t (r + 1)), t_col := 0\<rparr>) ?y ?x = lit W t (?y + 8) ?x"
  proof -
    have "(?y + 8) div 8 = ?y div 8 + 1" by simp
    then show ?thesis unfolding lit_def by simp
  qed
  show ?thesis
  proof (cases "i < 8 * (H - 1) * (4 * P)")
    case True
    then show ?thesis by (simp only: render_def dv md x y up if_True)
  next
    case False
    with ysmall have "?y div 8 = H - 1" "0 < H" by linarith+
    then have "(?y + 8) div 8 = H" by simp
    with blank have "\<not> lit W t (?y + 8) ?x" by (simp add: lit_def blank_glyph)
    then have "\<not> lit W (t\<lparr>cells := (\<lambda>r. cells t (r + 1)), t_col := 0\<rparr>) ?y ?x" by (simp only: up not_False_eq_True)
    with False show ?thesis by (simp add: render_def)
  qed
qed

lemma scroll_spec:
  assumes g: "geometry W H P fb" and cy: "cursor_y fb = 8 * H"
  shows "\<exists>fb'. efifb_scroll_screen fb = Some fb' \<and> geometry W H P fb' \<and> cursor_x fb' = cursor_x fb \<and>
     cursor_y fb' = 8 * (H - 1) \<and>
     (\<forall>i < 8 * H * (4 * P). framebuffer fb' i =
        (if i < 8 * (H - 1) * (4 * P) then framebuffer fb (8 * (4 * P) + i) else 0))"
proof -
  note gd = geometryD [OF g]
  have sub: "size_sub (8 * H) 8 = 8 * (H - 1)" using gd(2,4) by (simp add: diff_mult_distrib2)
  have sum: "8 * (4 * P) + 8 * (H - 1) * (4 * P) = 8 * H * (4 * P)"
    using gd(2) by (cases H) (simp_all add: algebra_simps)
  then have "8 * (H - 1) * (4 * P) + 4 * P * 8 = 8 * H * (4 * P)" by simp
  with gd(8) sum show ?thesis using g
    by (simp add: efifb_scroll_screen_def fb_store_def gd(5,6,7) cy sub geometry_def Let_def)
qed

lemma shows_newline:
  assumes s: "shows_cells W H P t fb"
  shows "\<exists>fb'. next_line fb = Some fb' \<and> shows_term W H P (term_newline H t) fb'"
proof -
  have g: "geometry W H P fb" and r: "t_row t < H" and cur: "cursor_y fb = 8 * t_row t"
    and blank: "\<forall>r c. t_row t < r \<or> t_row t = r \<and> t_col t \<le> c \<longrightarrow> cells t r c = 0x20"
    and pic: "\<forall>i < 8 * H * (4 * P). framebuffer fb i = render W P t i"
    using s by (simp_all add: shows_cells_def)
  note gd = geometryD [OF g]
  let ?fb = "fb\<lparr>cursor_x := 0, cursor_y := cursor_y fb + 8\<rparr>"
  have g': "geometry W H P ?fb" using g by (simp add: geometry_def)
  show ?thesis
  proof (cases "t_row t + 1 < H")
    case True
    then have "next_line fb = Some ?fb" by (simp add: next_line_def gd(6) cur)
    moreover have "render W P (t\<lparr>t_row := t_row t + 1, t_col := 0\<rparr>) i = render W P t i" for i
      by (simp add: render_def lit_def)
    ultimately show ?thesis using True g' blank pic cur gd(1)
      by (simp add: shows_term_def shows_cells_def term_newline_def)
  next
    case False
    then have row: "t_row t + 1 = H" using r by simp
    then have "cursor_y ?fb = 8 * H" using cur by simp
    from scroll_spec [OF g' this] obtain fb' where fb': "efifb_scroll_screen ?fb = Some fb'" "geometry W H P fb'"
        "cursor_x fb' = 0" "cursor_y fb' = 8 * (H - 1)"
        "\<forall>i < 8 * H * (4 * P). framebuffer fb' i = (if i < 8 * (H - 1) * (4 * P) then framebuffer fb (8 * (4 * P) + i) else 0)"
      by auto
    have nl: "next_line fb = Some fb'" using fb'(1) row cur by (simp add: next_line_def gd(6))
    have "\<forall>c. cells t H c = 0x20" using blank row by auto
    moreover have "0 < P" using gd(1,3) by linarith
    moreover have "8 * (4 * P) + i < 8 * H * (4 * P)" if "i < 8 * (H - 1) * (4 * P)" for i
      using that row by (cases H) (simp_all add: algebra_simps)
    ultimately have "\<forall>i < 8 * H * (4 * P). framebuffer fb' i = render W P (term_newline H t) i"
      using fb'(5) pic render_scrolled row by (simp add: term_newline_def)
    with nl fb'(2-4) blank row gd(1) show ?thesis by (auto simp: shows_term_def shows_cells_def term_newline_def)
  qed
qed

lemma shows_put_char:
  assumes s: "shows_term W H P t fb" and ch: "printable ch"
  shows "\<exists>fb'. efifb_put_char ch fb = Some fb' \<and> shows_term W H P (term_put W H ch t) fb'"
proof (cases "ch = 0x0A")
  case True
  with s show ?thesis using shows_newline [of W H P t fb] by (simp add: efifb_put_char_def term_put_def shows_term_def)
next
  case False
  from shows_draw [OF s ch this] obtain fb1 where d: "efifb_draw_char (cursor_x fb) (cursor_y fb) ch fb = Some fb1"
      and s1: "shows_cells W H P (put_cell ch t) (fb1\<lparr>cursor_x := cursor_x fb1 + 8\<rparr>)" by blast
  let ?fb = "fb1\<lparr>cursor_x := cursor_x fb1 + 8\<rparr>"
  have put: "efifb_put_char ch fb = (if screen_width ?fb \<le> cursor_x ?fb then next_line ?fb else Some ?fb)"
    using False d by (simp add: efifb_put_char_def)
  have tp: "term_put W H ch t = (if W \<le> t_col (put_cell ch t) then term_newline H (put_cell ch t) else put_cell ch t)"
    using False by (simp add: term_put_def put_cell_def)
  have "screen_width ?fb = 8 * W" "cursor_x ?fb = 8 * t_col (put_cell ch t)"
    using s1 by (simp_all only: shows_cells_def geometry_def)
  then have wrap: "screen_width ?fb \<le> cursor_x ?fb \<longleftrightarrow> W \<le> t_col (put_cell ch t)" by linarith
  show ?thesis
  proof (cases "W \<le> t_col (put_cell ch t)")
    case True
    then show ?thesis using shows_newline [OF s1] by (simp only: put tp wrap if_True)
  next
    case False
    then have "shows_term W H P (put_cell ch t) ?fb" using s1 unfolding shows_term_def by simp
    with False show ?thesis by (simp only: put tp wrap if_False) blast
  qed
qed

lemma efifb_write_simulates:
  "shows_term W H P t fb \<Longrightarrow> list_all printable s \<Longrightarrow>
   \<exists>fb'. efifb_write s fb = Some fb' \<and> shows_term W H P (foldl (\<lambda>t c. term_put W H c t) t s) fb'"
proof (induction s arbitrary: t fb)
  case Nil
  then show ?case by simp
next
  case (Cons c s)
  from Cons.prems have "printable c" "list_all printable s" by simp_all
  from shows_put_char [OF Cons.prems(1) this(1)] obtain fb1
    where "efifb_put_char c fb = Some fb1" "shows_term W H P (term_put W H c t) fb1" by blast
  with Cons.IH [OF this(2) \<open>list_all printable s\<close>] show ?case by simp
qed

lemma clear_screen_spec:
  assumes g: "geometry W H P fb"
  shows "\<exists>fb'. efifb_clear_screen fb = Some fb' \<and> shows_term W H P blank_terminal fb'"
proof -
  note gd = geometryD [OF g]
  have "8 * H * (4 * P) = screen_height fb * pitch fb" by (simp add: gd(6,7))
  moreover have "\<not> lit W blank_terminal y x" for y x by (simp add: lit_def blank_terminal_def blank_glyph)
  ultimately show ?thesis using g gd
    by (simp add: efifb_clear_screen_def fb_store_def shows_term_def shows_cells_def render_def geometry_def)
      (simp add: blank_terminal_def)
qed

text \<open>C24: After the screen is cleared, writing any string of printable characters and newlines succeeds, and the frame
  buffer shows pixel by pixel the terminal that has received the same characters: line breaks at the right margin,
  scrolling at the bottom, every cell drawn with its glyph.\<close>

theorem efifb_shows_terminal:
  assumes "geometry W H P fb" "list_all printable s"
  shows "\<exists>fb'. Option.bind (efifb_clear_screen fb) (efifb_write s) = Some fb' \<and>
     shows_term W H P (foldl (\<lambda>t c. term_put W H c t) blank_terminal s) fb'"
proof -
  from clear_screen_spec [OF assms(1)] obtain fb1
    where "efifb_clear_screen fb = Some fb1" "shows_term W H P blank_terminal fb1" by blast
  with efifb_write_simulates [OF this(2) assms(2)] show ?thesis by simp
qed

definition small_fb :: "nat \<Rightarrow> efifb" where
  "small_fb h = \<lparr>framebuffer = (\<lambda>i. 0x55), fb_size = h * 64, cursor_x = 3, cursor_y = 5, screen_width = 16,
     screen_height = h, pitch = 64\<rparr>"

lemma efifb_shows_terminal_witness:
  "\<exists>fb'. Option.bind (efifb_clear_screen (small_fb 8)) (efifb_write [0x41, 0x42, 0x0A, 0x43]) = Some fb' \<and>
     shows_term 2 1 16 (foldl (\<lambda>t c. term_put 2 1 c t) blank_terminal [0x41, 0x42, 0x0A, 0x43]) fb'"
  by (rule efifb_shows_terminal) (simp_all add: geometry_def small_fb_def printable_def)

section \<open>Outside of the contract\<close>

text \<open>A character without a glyph is looked up outside of the font.\<close>

lemma efifb_unprintable_faults:
  assumes "\<not> printable ch"
  shows "efifb_put_char ch fb = None"
proof -
  have "sint ch < 32 \<or> 128 \<le> sint ch"
  proof (cases "ch < 0x80")
    case True
    then have "uint ch < uint (0x80 :: u8)" by (simp only: word_less_def)
    moreover have "\<not> uint (0x20 :: u8) \<le> uint ch"
      using True assms unfolding printable_def word_le_def by blast
    ultimately have small: "uint ch < 32" by simp
    moreover have "signed_take_bit 7 (uint ch) = uint ch"
    proof (rule signed_take_bit_int_eq_self)
      have "(0 :: int) \<le> uint ch" by simp
      then show "- (2 ^ 7) \<le> uint ch" by (rule order_trans [rotated]) simp
      show "uint ch < 2 ^ 7" using small by simp
    qed
    ultimately show ?thesis by (simp add: sint_uint)
  next
    case False
    then have "uint (0x80 :: u8) \<le> uint ch" by (simp only: word_less_def not_less)
    then have "2 ^ 7 \<le> uint ch" "uint ch < 2 ^ 8" using uint_lt2p [of ch] by simp_all
    then have "uint ch div 2 ^ 7 = 1" by simp
    then have "bit (uint ch) 7" by (simp add: bit_iff_odd)
    then have "sint ch = uint ch - 2 ^ 8"
      using \<open>uint ch < 2 ^ 8\<close> by (simp add: sint_uint signed_take_bit_eq_take_bit_minus take_bit_int_eq_self)
    with \<open>uint ch < 2 ^ 8\<close> show ?thesis by linarith
  qed
  then have "font_char_pixel ch 0 0 = None" by (auto simp: font_char_pixel_def length_font_arr)
  moreover have "ch \<noteq> 0x0A" using assms by (auto simp: printable_def)
  ultimately show ?thesis by (simp add: efifb_put_char_def efifb_draw_char_def upt_conv_Cons)
qed

text \<open>A screen whose height is no multiple of that of a character: the last line runs over the end.\<close>

lemma efifb_cut_line_faults: "map_option cursor_x (efifb_write [0x0A, 0x41] ((small_fb 12)\<lparr>cursor_y := 0\<rparr>)) = None"
  by code_simp

end
