(* ===== verification/Efi.thy ===== *)
theory Efi
  imports DeflateBlock Efifb Mm
begin

text \<open>
  The EFI stub, \<open>efi-boot/efi.c\<close> with the constants of \<open>efi-boot/efi.h\<close>.  The services of the firmware
  are a parameter: a record of functions on a state of any type.  A structure that the firmware hands
  out by a pointer is read through the record.  \<open>page_service\<close>, \<open>exit_service\<close> and \<open>gop_service\<close> say what the
  UEFI specification promises of the services that the properties rest on.
\<close>

section \<open>Services\<close>

definition EFI_SUCCESS :: u64 where "EFI_SUCCESS = 0"
definition EFI_LOAD_ERROR :: u64 where "EFI_LOAD_ERROR = 1 OR BIT_UL 63"
definition EFI_INVALID_PARAMETER :: u64 where "EFI_INVALID_PARAMETER = 2 OR BIT_UL 63"
definition EFI_BUFFER_TOO_SMALL :: u64 where "EFI_BUFFER_TOO_SMALL = 5 OR BIT_UL 63"
definition EFI_NOT_FOUND :: u64 where "EFI_NOT_FOUND = 14 OR BIT_UL 63"

definition EFI_PAGE_SIZE :: u64 where "EFI_PAGE_SIZE = BIT_UL 12"

datatype memory_type = EFI_LOADER_CODE | EFI_LOADER_DATA

text \<open>The macro \<open>EFI_GUID\<close>.\<close>

definition EFI_GUID :: "u32 \<Rightarrow> u16 \<Rightarrow> u16 \<Rightarrow> bytes \<Rightarrow> bytes" where
  "EFI_GUID a b c d =
     [ucast (a AND 0xff), ucast (drop_bit 8 a AND 0xff), ucast (drop_bit 16 a AND 0xff), ucast (drop_bit 24 a AND 0xff),
      ucast (b AND 0xff), ucast (drop_bit 8 b AND 0xff), ucast (c AND 0xff), ucast (drop_bit 8 c AND 0xff)] @ d"

definition ACPI_20_TABLE_GUID :: bytes where
  "ACPI_20_TABLE_GUID = EFI_GUID 0x8868e871 0xe4f1 0x11d3 [0xbc, 0x22, 0x00, 0x80, 0xc7, 0x3c, 0x88, 0x81]"

definition EFI_GRAPHICS_OUTPUT_PROTOCOL_GUID :: bytes where
  "EFI_GRAPHICS_OUTPUT_PROTOCOL_GUID = EFI_GUID 0x9042a9de 0x23dc 0x4a38 [0x96, 0xfb, 0x7a, 0xde, 0xd0, 0x80, 0x51, 0x6a]"

definition EFI_CONSOLE_OUT_DEVICE_GUID :: bytes where
  "EFI_CONSOLE_OUT_DEVICE_GUID = EFI_GUID 0xd3b36f2c 0xd551 0x11d4 [0x9a, 0x46, 0x00, 0x90, 0x27, 0x3f, 0xc1, 0x4d]"

record efi_config_table =
  ct_guid :: bytes
  ct_table :: u64

record efi_boot_memmap =
  map_size :: u64
  desc_size :: u64
  desc_ver :: u32
  map_key :: u64
  descs :: bytes

record efi_graphics_output_mode_info =
  horizontal_resolution :: u32
  vertical_resolution :: u32
  pixel_format :: "32 word"
  pixels_per_scan_line :: u32

record efi_graphics_output_protocol_mode =
  max_mode :: u32
  gm_mode :: u32
  gm_info :: efi_graphics_output_mode_info
  frame_buffer_base :: u64
  frame_buffer_size :: u64

definition PIXEL_BLT_ONLY :: u32 where "PIXEL_BLT_ONLY = 3"
definition PIXEL_FORMAT_MAX :: u32 where "PIXEL_FORMAT_MAX = 4"

text \<open>
  The table of services.  \<open>gop_mode\<close> reads the \<open>mode\<close> structure of a graphics protocol, \<open>fresh\<close> the bytes
  that allocated memory holds.
\<close>

record 'fw firmware =
  output_string :: "u16 list \<Rightarrow> 'fw \<Rightarrow> 'fw"
  config_tables :: "efi_config_table list"
  allocate_pages :: "memory_type \<Rightarrow> u64 \<Rightarrow> 'fw \<Rightarrow> u64 \<times> u64 \<times> 'fw"
  free_pages :: "u64 \<Rightarrow> u64 \<Rightarrow> 'fw \<Rightarrow> 'fw"
  get_memory_map :: "u64 \<Rightarrow> 'fw \<Rightarrow> u64 \<times> efi_boot_memmap \<times> 'fw"
  allocate_pool :: "memory_type \<Rightarrow> u64 \<Rightarrow> 'fw \<Rightarrow> u64 \<times> u64 \<times> 'fw"
  free_pool :: "u64 \<Rightarrow> 'fw \<Rightarrow> 'fw"
  handle_protocol :: "u64 \<Rightarrow> bytes \<Rightarrow> 'fw \<Rightarrow> u64 \<times> u64 \<times> 'fw"
  locate_handle_buffer :: "bytes \<Rightarrow> 'fw \<Rightarrow> u64 \<times> u64 list \<times> 'fw"
  handle_buffer :: "'fw \<Rightarrow> u64"
  exit_boot_services :: "u64 \<Rightarrow> u64 \<Rightarrow> 'fw \<Rightarrow> u64 \<times> 'fw"
  query_mode :: "u64 \<Rightarrow> u32 \<Rightarrow> 'fw \<Rightarrow> u64 \<times> efi_graphics_output_mode_info \<times> 'fw"
  set_mode :: "u64 \<Rightarrow> u32 \<Rightarrow> 'fw \<Rightarrow> 'fw"
  gop_mode :: "u64 \<Rightarrow> 'fw \<Rightarrow> efi_graphics_output_protocol_mode"
  fresh :: "u64 \<Rightarrow> 'fw \<Rightarrow> nat \<Rightarrow> bytes"

section \<open>Messages and tables\<close>

abbreviation (input) EFI_PUTS_LEN :: nat where "EFI_PUTS_LEN \<equiv> 128"

text \<open>The conversion into the buffer: \<open>s\<close> is what is left of the string, \<open>k\<close> the index to store at.\<close>

fun puts_loop :: "bytes \<Rightarrow> nat \<Rightarrow> u16 list \<Rightarrow> (nat \<times> u16 list) option" where
  "puts_loop [] k usc2 = None"
| "puts_loop (ch # s) k usc2 =
     (if ch \<noteq> 0 \<and> k < EFI_PUTS_LEN - 3 then
        do {
          usc2 \<leftarrow> (if k < length usc2 then Some (usc2[k := scast ch]) else None);
          (k, usc2) \<leftarrow> (if ch = 0x0A
                        then (if k + 1 < length usc2 then Some (k + 1, usc2[k + 1 := 0x0D]) else None)
                        else Some (k, usc2));
          puts_loop s (k + 1) usc2 }
      else Some (k, usc2))"

definition efi_puts :: "'fw firmware \<Rightarrow> bytes \<Rightarrow> u16 list \<times> 'fw \<Rightarrow> (u16 list \<times> 'fw) option" where
  "efi_puts fw msg w =
     do {
       (k, usc2) \<leftarrow> puts_loop msg 0 (fst w);
       if k < length usc2 then
         (let usc2 = usc2[k := 0] in Some (usc2, output_string fw (takeWhile (\<lambda>c. c \<noteq> 0) usc2) (snd w)))
       else None }"

fun find_config_table :: "bytes \<Rightarrow> efi_config_table list \<Rightarrow> u64" where
  "find_config_table guid [] = 0"
| "find_config_table guid (ct # cts) = (if ct_guid ct = guid then ct_table ct else find_config_table guid cts)"

definition efi_find_config_table :: "'fw firmware \<Rightarrow> bytes \<Rightarrow> u64" where
  "efi_find_config_table fw guid = find_config_table guid (config_tables fw)"

definition ascii :: "string \<Rightarrow> bytes" where "ascii cs = map of_char cs @ [0]"

definition msg_rsdp :: bytes where "msg_rsdp = ascii ([CHR 0x27] @ ''ACPI_20_TABLE_GUID'' @ [CHR 0x27] @ '' found.'' @ [CHR 0x0A])"
definition msg_decompress :: bytes where "msg_decompress = ascii (''Decompressing UKERNEL ...'' @ [CHR 0x0A])"
definition msg_graphics :: bytes where "msg_graphics = ascii (''err. '' @ [CHR 0x27] @ ''setup_graphics'' @ [CHR 0x27, CHR 0x2E, CHR 0x0A])"
definition msg_exit :: bytes where "msg_exit = ascii (''err. '' @ [CHR 0x27] @ ''efi_exit_boot_services'' @ [CHR 0x27, CHR 0x2E, CHR 0x0A])"

definition efi_get_rsdp_addr :: "'fw firmware \<Rightarrow> u16 list \<times> 'fw \<Rightarrow> (u64 \<times> u16 list \<times> 'fw) option" where
  "efi_get_rsdp_addr fw w =
     (let rsdp_addr = efi_find_config_table fw ACPI_20_TABLE_GUID
      in if rsdp_addr \<noteq> 0 then
           do {
             w \<leftarrow> efi_puts fw msg_rsdp w;
             Some (rsdp_addr, w) }
         else Some (0, w))"

section \<open>Memory\<close>

text \<open>The conversions between \<open>unsigned long\<close> and \<open>int\<close>.\<close>

definition to_int :: "u64 \<Rightarrow> int" where "to_int x = sint (ucast x :: u32)"

definition efi_allocate_pages :: "'fw firmware \<Rightarrow> u64 \<Rightarrow> u64 \<Rightarrow> memory_type \<Rightarrow> 'fw \<Rightarrow> u64 \<times> u64 \<times> 'fw" where
  "efi_allocate_pages fw size0 align0 ty s =
     (let align = (if align0 < EFI_PAGE_SIZE then EFI_PAGE_SIZE else align0);
          extra = to_int (align div EFI_PAGE_SIZE - 1);
          sz = ROUND_UP size0 EFI_PAGE_SIZE;
          (status, addr, s) = allocate_pages fw ty (sz div EFI_PAGE_SIZE + of_int extra) s
      in if status \<noteq> EFI_SUCCESS then (status, 0, s)
         else
           (let alloc_addr = ALIGN_KERNEL addr align
            in if extra \<noteq> 0 then
                 (let e = to_int ((addr AND (align - 1)) div EFI_PAGE_SIZE);
                      (extra, s) = (if e \<noteq> 0 then (e - 1, free_pages fw addr (of_int (extra - e + 1)) s) else (extra, s));
                      s = (if extra \<noteq> 0 then free_pages fw (alloc_addr + sz) (of_int extra) s else s)
                  in (EFI_SUCCESS, alloc_addr, s))
               else (EFI_SUCCESS, alloc_addr, s)))"

abbreviation (input) EFI_MMAP_NR_SLACK_SLOTS :: u64 where "EFI_MMAP_NR_SLACK_SLOTS \<equiv> 8"
abbreviation (input) sizeof_memmap :: u64 where "sizeof_memmap \<equiv> 32"

text \<open>The result is the status, the map and the address it was put at.\<close>

definition efi_exit_boot_services :: "'fw firmware \<Rightarrow> u64 \<Rightarrow> 'fw \<Rightarrow> u64 \<times> (efi_boot_memmap \<times> u64) option \<times> 'fw" where
  "efi_exit_boot_services fw handle s =
     (let (status, tmp, s) = get_memory_map fw 0 s
      in if status \<noteq> EFI_BUFFER_TOO_SMALL then (EFI_LOAD_ERROR, None, s)
         else
           (let sz = map_size tmp + desc_size tmp * EFI_MMAP_NR_SLACK_SLOTS;
                (status, p, s) = allocate_pool fw EFI_LOADER_DATA (sizeof_memmap + sz) s
            in if status \<noteq> EFI_SUCCESS then (status, None, s)
               else
                 (let (status, mm, s) = get_memory_map fw sz s
                  in if status \<noteq> EFI_SUCCESS then (status, None, free_pool fw p s)
                     else
                       (let (status, s) = exit_boot_services fw handle (map_key mm) s
                        in if status = EFI_INVALID_PARAMETER then
                             (let (status, mm, s) = get_memory_map fw sz s
                              in if status \<noteq> EFI_SUCCESS then (status, None, s)
                                 else
                                   (let (status, s) = exit_boot_services fw handle (map_key mm) s
                                    in if status \<noteq> EFI_SUCCESS then (status, None, s) else (EFI_SUCCESS, Some (mm, p), s)))
                           else (EFI_SUCCESS, Some (mm, p), s)))))"

section \<open>Graphics\<close>

fun find_gop :: "'fw firmware \<Rightarrow> bytes \<Rightarrow> u64 list \<Rightarrow> u64 \<Rightarrow> 'fw \<Rightarrow> u64 \<times> 'fw" where
  "find_gop fw proto [] first_gop s = (first_gop, s)"
| "find_gop fw proto (handle # handles) first_gop s =
     (let (status, gop, s) = handle_protocol fw handle proto s
      in if status \<noteq> EFI_SUCCESS then find_gop fw proto handles first_gop s
         else
           (let info = gm_info (gop_mode fw gop s)
            in if pixel_format info = PIXEL_BLT_ONLY \<or> PIXEL_FORMAT_MAX \<le>s pixel_format info
               then find_gop fw proto handles first_gop s
               else
                 (let (status, con_out, s) = handle_protocol fw handle EFI_CONSOLE_OUT_DEVICE_GUID s
                  in if status = EFI_SUCCESS then (gop, s)
                     else find_gop fw proto handles (if first_gop = 0 then gop else first_gop) s)))"

definition efi_find_gop :: "'fw firmware \<Rightarrow> bytes \<Rightarrow> u64 list \<Rightarrow> 'fw \<Rightarrow> u64 \<times> 'fw" where
  "efi_find_gop fw proto handles s = find_gop fw proto handles 0 s"

text \<open>The product of the resolutions is computed in 32 bits.\<close>

definition area :: "efi_graphics_output_mode_info \<Rightarrow> u64" where
  "area info = ucast (horizontal_resolution info * vertical_resolution info)"

fun mode_loop :: "'fw firmware \<Rightarrow> u64 \<Rightarrow> nat list \<Rightarrow> u64 \<Rightarrow> u32 \<Rightarrow> 'fw \<Rightarrow> u32 \<times> 'fw" where
  "mode_loop fw gop [] next_area next_mode s = (next_mode, s)"
| "mode_loop fw gop (i # is) next_area next_mode s =
     (let (status, qi, s) = query_mode fw gop (of_nat i) s
      in if status \<noteq> EFI_SUCCESS then mode_loop fw gop is next_area next_mode s
         else if area qi < next_area then mode_loop fw gop is (area qi) (of_nat i) s
         else mode_loop fw gop is next_area next_mode s)"

definition efi_set_mode :: "'fw firmware \<Rightarrow> u64 \<Rightarrow> 'fw \<Rightarrow> 'fw" where
  "efi_set_mode fw gop s =
     (let mode = gop_mode fw gop s;
          (next_mode, s) = mode_loop fw gop [0..<unat (max_mode mode)] (area (gm_info mode)) (gm_mode mode) s
      in if gm_mode (gop_mode fw gop s) \<noteq> next_mode then set_mode fw gop next_mode s else s)"

definition efi_setup_gop :: "'fw firmware \<Rightarrow> screen_info \<Rightarrow> bytes \<Rightarrow> u64 list \<Rightarrow> 'fw \<Rightarrow> u64 \<times> screen_info \<times> 'fw" where
  "efi_setup_gop fw si proto handles s =
     (let (gop, s) = efi_find_gop fw proto handles s
      in if gop = 0 then (EFI_NOT_FOUND, si, s)
         else
           (let s = efi_set_mode fw gop s;
                mode = gop_mode fw gop s;
                info = gm_info mode
            in (EFI_SUCCESS,
                si\<lparr>si_framebuffer := frame_buffer_base mode, si_framebuffer_size := frame_buffer_size mode,
                   si_screen_width := ucast (horizontal_resolution info), si_screen_height := ucast (vertical_resolution info),
                   si_pixels_per_scan_line := pixels_per_scan_line info\<rparr>, s)))"

definition setup_graphics :: "'fw firmware \<Rightarrow> screen_info \<Rightarrow> 'fw \<Rightarrow> u64 \<times> screen_info \<times> 'fw" where
  "setup_graphics fw si s =
     (let si = si\<lparr>si_framebuffer := 0\<rparr>;
          (status, handles, s) = locate_handle_buffer fw EFI_GRAPHICS_OUTPUT_PROTOCOL_GUID s
      in if status = EFI_SUCCESS then
           (let buf = handle_buffer fw s;
                (status, si, s) = efi_setup_gop fw si EFI_GRAPHICS_OUTPUT_PROTOCOL_GUID handles s
            in (status, si, free_pool fw buf s))
         else (status, si, s))"

section \<open>The entry of the stub\<close>

record efi_info =
  efi_systab :: u64
  efi_memdesc_size :: u64
  efi_memmap_size :: u64
  efi_memmap :: u64

record boot_params =
  bp_ramdisk_image :: u64
  bp_ramdisk_size :: u64
  bp_cmd_line_ptr :: u64
  bp_screen_info :: screen_info
  bp_efi_info :: efi_info
  bp_acpi_rsdp_addr :: u64

abbreviation (input) BOOT_PARAMS_SIZE :: u64 where "BOOT_PARAMS_SIZE \<equiv> 0x1000"
abbreviation (input) PHYSICAL_ALIGN :: u64 where "PHYSICAL_ALIGN \<equiv> 0x400000"

text \<open>\<open>get_unaligned_le32\<close> gives 32 bits, and the macro rounds up in the type of its argument.\<close>

definition ukernel_size_of :: "nat \<Rightarrow> u64" where
  "ukernel_size_of isz = ucast ((of_nat isz + 0x1FFFFF) AND NOT 0x1FFFFF :: u32)"

text \<open>
  How the stub ends: it gives the status back to the firmware, or it jumps to the kernel, with what the
  memory of the kernel, the boot parameters and the memory map hold then.
\<close>

datatype 'fw outcome =
  Exited u64 'fw
| Entered u64 bytes u64 boot_params efi_boot_memmap 'fw

text \<open>The parameter \<open>bp0\<close> is what the page of the boot parameters holds when it is allocated.\<close>

definition x86_efi_entry ::
  "'fw firmware \<Rightarrow> bytes \<Rightarrow> boot_params \<Rightarrow> u64 \<Rightarrow> u64 \<Rightarrow> u16 list \<times> 'fw \<Rightarrow> 'fw outcome option" where
  "x86_efi_entry fw gz bp0 handle systab w =
     (let (usc2, s) = w;
          (status, bp_addr, s) = efi_allocate_pages fw BOOT_PARAMS_SIZE 0 EFI_LOADER_DATA s
      in if status \<noteq> EFI_SUCCESS then Some (Exited status s)
         else do {
           (rsdp, w) \<leftarrow> efi_get_rsdp_addr fw (usc2, s);
           let bp = bp0\<lparr>bp_ramdisk_image := 0, bp_ramdisk_size := 0, bp_cmd_line_ptr := 0, bp_acpi_rsdp_addr := rsdp\<rparr>;
           isz \<leftarrow> get_unaligned_le 4 (drop (length gz - 4) gz);
           let ksize = ukernel_size_of isz;
           let (status, kaddr, s) = efi_allocate_pages fw ksize PHYSICAL_ALIGN EFI_LOADER_CODE (snd w);
           if status \<noteq> EFI_SUCCESS then Some (Exited status s)
           else do {
             w \<leftarrow> efi_puts fw msg_decompress (fst w, s);
             (r, img) \<leftarrow> decompress_gzip (fresh fw kaddr (snd w) (unat ksize)) gz;
             (case r of
                Inl _ \<Rightarrow> Some (Exited EFI_LOAD_ERROR (snd w))
              | Inr _ \<Rightarrow> do {
                  let (status, si, s) = setup_graphics fw (bp_screen_info bp) (snd w);
                  let bp = bp\<lparr>bp_screen_info := si\<rparr>;
                  w \<leftarrow> (if status \<noteq> EFI_SUCCESS
                        then efi_puts fw msg_graphics (fst w, s)
                        else Some (fst w, s));
                  let (status, res, s) = efi_exit_boot_services fw handle (snd w);
                  (case res of
                     None \<Rightarrow> do {
                       w \<leftarrow> efi_puts fw msg_exit (fst w, s);
                       Some (Exited status (snd w)) }
                   | Some (mm, p) \<Rightarrow>
                       Some (Entered kaddr img bp_addr
                         (bp\<lparr>bp_efi_info := \<lparr>efi_systab = systab, efi_memdesc_size = desc_size mm,
                                           efi_memmap_size = map_size mm, efi_memmap = p + sizeof_memmap\<rparr>\<rparr>) mm s)) }) } })"

lemma efi_codes [simp]:
  "EFI_LOAD_ERROR \<noteq> EFI_SUCCESS" "EFI_INVALID_PARAMETER \<noteq> EFI_SUCCESS" "EFI_BUFFER_TOO_SMALL \<noteq> EFI_SUCCESS" "EFI_NOT_FOUND \<noteq> EFI_SUCCESS"
  "EFI_SUCCESS \<noteq> EFI_INVALID_PARAMETER" "EFI_SUCCESS \<noteq> EFI_BUFFER_TOO_SMALL" "EFI_SUCCESS \<noteq> EFI_NOT_FOUND"
  by (simp_all add: EFI_SUCCESS_def EFI_LOAD_ERROR_def EFI_INVALID_PARAMETER_def EFI_BUFFER_TOO_SMALL_def EFI_NOT_FOUND_def BIT_UL_def)

section \<open>Pages\<close>

text \<open>The pages from an address on, by number.\<close>

definition pages :: "u64 \<Rightarrow> nat \<Rightarrow> nat set" where
  "pages a k = {unat a div 4096..<unat a div 4096 + k}"

text \<open>
  What the specification says of \<open>AllocatePages\<close> and \<open>FreePages\<close>; \<open>own s\<close> are the pages that are not the
  firmware's own to give.
\<close>

definition page_service :: "'fw firmware \<Rightarrow> ('fw \<Rightarrow> nat set) \<Rightarrow> bool" where
  "page_service fw own \<longleftrightarrow>
     (\<forall>ty k s status a s'. allocate_pages fw ty k s = (status, a, s') \<longrightarrow>
        (status = EFI_SUCCESS \<longrightarrow> 4096 dvd unat a \<and> unat a + unat k * 4096 \<le> 2 ^ 64 \<and> pages a (unat k) \<inter> own s = {} \<and>
           own s' = own s \<union> pages a (unat k)) \<and>
        (status \<noteq> EFI_SUCCESS \<longrightarrow> own s' = own s)) \<and>
     (\<forall>a k s. 4096 dvd unat a \<longrightarrow> pages a (unat k) \<subseteq> own s \<longrightarrow> own (free_pages fw a k s) = own s - pages a (unat k))"

lemma page_serviceD:
  assumes "page_service fw own" "allocate_pages fw ty k s = (status, a, s')"
  shows "status = EFI_SUCCESS \<Longrightarrow> 4096 dvd unat a"
    and "status = EFI_SUCCESS \<Longrightarrow> unat a + unat k * 4096 \<le> 2 ^ 64"
    and "status = EFI_SUCCESS \<Longrightarrow> pages a (unat k) \<inter> own s = {}"
    and "status = EFI_SUCCESS \<Longrightarrow> own s' = own s \<union> pages a (unat k)"
    and "status \<noteq> EFI_SUCCESS \<Longrightarrow> own s' = own s"
proof -
  note served = assms(1) [unfolded page_service_def, THEN conjunct1, THEN spec, THEN spec, THEN spec, THEN spec, THEN spec, THEN spec,
      THEN mp, OF assms(2)]
  note ok = served [THEN conjunct1, THEN mp] and bad = served [THEN conjunct2, THEN mp]
  show "status = EFI_SUCCESS \<Longrightarrow> 4096 dvd unat a" by (rule ok [THEN conjunct1])
  show "status = EFI_SUCCESS \<Longrightarrow> unat a + unat k * 4096 \<le> 2 ^ 64" by (rule ok [THEN conjunct2, THEN conjunct1])
  show "status = EFI_SUCCESS \<Longrightarrow> pages a (unat k) \<inter> own s = {}" by (rule ok [THEN conjunct2, THEN conjunct2, THEN conjunct1])
  show "status = EFI_SUCCESS \<Longrightarrow> own s' = own s \<union> pages a (unat k)" by (rule ok [THEN conjunct2, THEN conjunct2, THEN conjunct2])
  show "status \<noteq> EFI_SUCCESS \<Longrightarrow> own s' = own s" by (rule bad)
qed

lemma page_service_free:
  assumes "page_service fw own" "4096 dvd unat a" "pages a (unat k) \<subseteq> own s"
  shows "own (free_pages fw a k s) = own s - pages a (unat k)"
  using assms(1) [unfolded page_service_def, THEN conjunct2] assms(2,3) by blast

lemma to_int_small:
  assumes "unat x < 2 ^ 31"
  shows "to_int x = int (unat x)"
proof -
  have u: "uint x = int (unat x)" by simp
  have "int (unat x) < int (2 ^ 31)" using assms by (simp only: of_nat_less_iff)
  then have lt: "uint x < 2 ^ 31" by (simp only: u of_nat_power of_nat_numeral)
  have ge: "(0 :: int) \<le> uint x" by simp
  have "take_bit 32 (uint x) = uint x" using lt ge by (intro take_bit_int_eq_self) simp_all
  moreover have "uint (ucast x :: u32) = take_bit 32 (uint x)" by (simp only: unsigned_ucast_eq) simp
  moreover have "signed_take_bit 31 (uint x) = uint x"
  proof (rule signed_take_bit_int_eq_self)
    from ge show "- (2 ^ 31) \<le> uint x" by (rule order_trans [rotated]) simp
    from lt show "uint x < 2 ^ 31" .
  qed
  ultimately have "to_int x = uint x" by (simp add: to_int_def sint_uint)
  then show ?thesis by (simp only: u)
qed

text \<open>
  The arithmetic of \<open>efi_allocate_pages\<close> on page numbers: \<open>A\<close> is the first page that the firmware gives,
  \<open>E\<close> the alignment and \<open>R\<close> the page the result starts at.
\<close>

lemma aligned_part:
  fixes A E :: nat
  assumes "0 < E"
  defines "R \<equiv> E * ((A + (E - 1)) div E)"
  shows "A mod E = 0 \<Longrightarrow> R = A" and "A mod E \<noteq> 0 \<Longrightarrow> R = A + (E - A mod E)"
proof -
  have A: "A = E * (A div E) + A mod E" by simp
  show "R = A" if "A mod E = 0"
  proof -
    have "(E - 1 + E * (A div E)) div E = A div E + (E - 1) div E" using assms(1) by (subst div_mult_self2) simp_all
    then show ?thesis using that A assms(1) unfolding R_def by (metis add.commute add_0_right div_less diff_less zero_less_one)
  qed
  show "R = A + (E - A mod E)" if "A mod E \<noteq> 0"
  proof -
    have lt: "A mod E < E" using assms(1) by simp
    have "A + (E - 1) = E * (A div E + 1) + (A mod E - 1)"
      unfolding distrib_left mult_1_right using A that assms(1) by linarith
    moreover have "(E * (A div E + 1) + (A mod E - 1)) div E = A div E + 1"
      using lt by (subst div_mult_self4) simp_all
    ultimately have "R = E * (A div E + 1)" by (simp add: R_def)
    then have "R = E * (A div E) + E" by simp
    then show ?thesis using A lt by linarith
  qed
qed

lemma len64: "LENGTH(64) = 64" by simp

text \<open>The words of \<open>efi_allocate_pages\<close> as page counts.\<close>

lemma page_units:
  assumes "12 \<le> k" "k \<le> 42"
  shows "((2::u64) ^ k < EFI_PAGE_SIZE) = False" "to_int (2 ^ k div EFI_PAGE_SIZE - 1) = int (2 ^ (k - 12) - 1)"
proof -
  have p: "unat ((2::u64) ^ k) = 2 ^ k" using assms(2) by (simp add: unat_pow2_u64)
  have c: "unat EFI_PAGE_SIZE = 2 ^ 12" by (simp add: EFI_PAGE_SIZE_def BIT_UL_def)
  have "(2::nat) ^ 12 \<le> 2 ^ k" using assms(1) by (rule power_increasing) simp
  then show "((2::u64) ^ k < EFI_PAGE_SIZE) = False" by (simp add: word_less_nat_alt p c)
  have "unat ((2::u64) ^ k div EFI_PAGE_SIZE) = 2 ^ (k - 12)"
    unfolding unat_div p c using assms(1) by (simp only: power_diff [of 2 12 k])
  moreover have "(1::nat) \<le> 2 ^ (k - 12)" by simp
  ultimately have "unat ((2::u64) ^ k div EFI_PAGE_SIZE - 1) = 2 ^ (k - 12) - 1"
    by (subst unat_sub) (simp_all add: word_le_nat_alt)
  moreover have "(2::nat) ^ (k - 12) \<le> 2 ^ 30" using assms(2) by (intro power_increasing) simp_all
  ultimately show "to_int (2 ^ k div EFI_PAGE_SIZE - 1) = int (2 ^ (k - 12) - 1)"
    by (subst to_int_small) simp_all
qed

lemma round_up_units:
  assumes "unat sz + 4096 \<le> 2 ^ 64"
  shows "unat (ROUND_UP sz EFI_PAGE_SIZE) = 4096 * ((unat sz + 4095) div 4096)"
    and "unat (ROUND_UP sz EFI_PAGE_SIZE div EFI_PAGE_SIZE) = (unat sz + 4095) div 4096"
proof -
  have e: "EFI_PAGE_SIZE = 2 ^ 12" by (simp add: EFI_PAGE_SIZE_def BIT_UL_def)
  show r: "unat (ROUND_UP sz EFI_PAGE_SIZE) = 4096 * ((unat sz + 4095) div 4096)"
    using align_up [of 12 sz] assms unfolding ROUND_UP_def e by simp
  have "unat EFI_PAGE_SIZE = 4096" unfolding e by simp
  then show "unat (ROUND_UP sz EFI_PAGE_SIZE div EFI_PAGE_SIZE) = (unat sz + 4095) div 4096"
    unfolding unat_div r by simp
qed

lemma align_units:
  assumes k: "12 \<le> k" "k \<le> 42" and a: "unat a = 4096 * A" and fits: "4096 * A + 2 ^ k \<le> 2 ^ 64"
  shows "unat (ALIGN_KERNEL a (2 ^ k)) = 4096 * (2 ^ (k - 12) * ((A + (2 ^ (k - 12) - 1)) div 2 ^ (k - 12)))"
    and "to_int ((a AND (2 ^ k - 1)) div EFI_PAGE_SIZE) = int (A mod 2 ^ (k - 12))"
proof -
  define E :: nat where "E = 2 ^ (k - 12)"
  have two: "(2::nat) ^ k = 4096 * E" unfolding E_def using k(1) power_add [of "2::nat" 12 "k - 12"] by simp
  have pos: "0 < E" by (simp add: E_def)
  have "4096 * A + (4096 * E - 1) = 4095 + 4096 * (A + (E - 1))" using pos by (simp add: algebra_simps)
  moreover have "(4095 + 4096 * (A + (E - 1))) div 4096 = A + (E - 1)" by (subst div_mult_self2) simp_all
  ultimately have d: "(4096 * A + (4096 * E - 1)) div (4096 * E) = (A + (E - 1)) div E" by (simp only: div_mult2_eq)
  have "unat (ALIGN_KERNEL a (2 ^ k)) = 2 ^ k * ((4096 * A + (2 ^ k - 1)) div 2 ^ k)"
  proof -
    have "unat a + 2 ^ k \<le> 2 ^ 64" unfolding a by (rule fits)
    then have "unat (ALIGN_KERNEL a (2 ^ k)) = 2 ^ k * ((unat a + (2 ^ k - 1)) div 2 ^ k)"
      using k(2) by (intro align_up) linarith+
    then show ?thesis unfolding a .
  qed
  then show "unat (ALIGN_KERNEL a (2 ^ k)) = 4096 * (2 ^ (k - 12) * ((A + (2 ^ (k - 12) - 1)) div 2 ^ (k - 12)))"
    unfolding two d E_def [symmetric] by (simp only: mult.assoc)
  have c: "unat EFI_PAGE_SIZE = 4096" by (simp add: EFI_PAGE_SIZE_def BIT_UL_def)
  have "unat (a AND (2 ^ k - 1)) = (4096 * A) mod (4096 * E)"
    using and_mask_unat [of a k] unfolding a two by (simp only: mask_eq_exp_minus_1)
  then have u: "unat ((a AND (2 ^ k - 1)) div EFI_PAGE_SIZE) = A mod E"
    by (simp add: unat_div c)
  moreover have "A mod E < 2 ^ 31"
  proof -
    have "A mod E < E" using pos by simp
    also have "E \<le> 2 ^ 30" unfolding E_def using k(2) by (intro power_increasing) simp_all
    finally show ?thesis by simp
  qed
  ultimately show "to_int ((a AND (2 ^ k - 1)) div EFI_PAGE_SIZE) = int (A mod 2 ^ (k - 12))"
    unfolding E_def by (subst to_int_small) simp_all
qed

lemma pages_at: "unat a = 4096 * A \<Longrightarrow> pages a k = {A..<A + k}"
  by (simp add: pages_def)

lemma free_at:
  assumes "page_service fw own" "unat a = 4096 * A" "{A..<A + unat k} \<subseteq> own s"
  shows "own (free_pages fw a k s) = own s - {A..<A + unat k}"
  using page_service_free [OF assms(1), of a k s] assms(2,3) by (simp add: pages_at)

lemma unat_of_int_nat: "k < 2 ^ 64 \<Longrightarrow> unat (of_int (int k) :: u64) = k"
  unfolding of_int_of_nat_eq by (subst unat_of_nat) simp

lemma cut_head:
  fixes U :: "nat set"
  assumes "{A..<B} \<inter> U = {}" "A \<le> R" "R \<le> B"
  shows "U \<union> {A..<B} - {A..<R} = U \<union> {R..<B}"
proof -
  have "{A..<R} \<subseteq> {A..<B}" using assms(3) by auto
  then have "U \<inter> {A..<R} = {}" using assms(1) by blast
  moreover have "{A..<B} - {A..<R} = {R..<B}" using assms(2) by auto
  ultimately show ?thesis by blast
qed

lemma cut_tail:
  fixes U :: "nat set"
  assumes "{A..<B} \<inter> U = {}" "A \<le> R" "R + S + t = B"
  shows "U \<union> {R..<B} - {R + S..<B} = U \<union> {R..<R + S}"
proof -
  have "{R + S..<B} \<subseteq> {A..<B}" using assms(2) by auto
  then have "U \<inter> {R + S..<B} = {}" using assms(1) by blast
  moreover have "{R..<B} - {R + S..<B} = {R..<R + S}" using assms(3) by auto
  ultimately show ?thesis by blast
qed

text \<open>
  The allocation gives \<open>S\<close> pages from the first multiple of the alignment on, and the firmware has back
  the pages in front of them and behind.
\<close>

lemma efi_allocate_pages_spec:
  assumes serv: "page_service fw own" and k: "12 \<le> k" "k \<le> 42" and sz: "0 < unat sz" "unat sz + 4096 \<le> 2 ^ 64"
    and call: "efi_allocate_pages fw sz (2 ^ k) ty s = (status, p, s')"
  defines "S \<equiv> (unat sz + 4095) div 4096"
  shows "if status = EFI_SUCCESS then 2 ^ k dvd unat p \<and> unat p + 4096 * S \<le> 2 ^ 64 \<and> pages p S \<inter> own s = {} \<and> own s' = own s \<union> pages p S
     else own s' = own s"
proof -
  define E :: nat where "E = 2 ^ (k - 12)"
  note units = page_units [OF k] round_up_units [OF sz(2), folded S_def]
  have pos: "0 < E" "E \<le> 2 ^ 30" using k(2) unfolding E_def by (simp, intro power_increasing) simp_all
  have two: "(2::nat) ^ k = 4096 * E" unfolding E_def using k(1) power_add [of "2::nat" 12 "k - 12"] by simp
  have S: "0 < S" "S < 2 ^ 53" using sz unfolding S_def by simp_all
  let ?n = "ROUND_UP sz EFI_PAGE_SIZE div EFI_PAGE_SIZE + of_int (int (E - 1))"
  obtain st addr s1 where alloc: "allocate_pages fw ty ?n s = (st, addr, s1)" by (rule prod_cases3)
  have n: "unat ?n = S + (E - 1)"
  proof -
    have "unat (of_int (int (E - 1)) :: u64) = E - 1" (is "unat ?x = _") using pos by (intro unat_of_int_nat) simp
    moreover have "S + (E - 1) < 2 ^ 64" using pos S(2) by simp
    ultimately show ?thesis by (subst unat_add_nowrap) (simp_all only: units(4) len64)
  qed
  note served = page_serviceD [OF serv alloc, unfolded n]
  note run = call [unfolded efi_allocate_pages_def Let_def units(1,2) if_False E_def [symmetric] alloc split_conv]
  show ?thesis
  proof (cases "st = EFI_SUCCESS")
    case False
    with run served(5) show ?thesis by auto
  next
    case True
    define A where "A = unat addr div 4096"
    have A: "unat addr = 4096 * A" using served(1) [OF True] by (simp add: A_def)
    have room: "4096 * (A + S + (E - 1)) \<le> 2 ^ 64" using served(2) [OF True] A by simp
    have within: "4096 * x \<le> 2 ^ 64" if "x \<le> A + S + (E - 1)" for x
      using mult_le_mono2 [OF that, of 4096] room by (rule order_trans)
    have "4096 * A + 2 ^ k \<le> 2 ^ 64"
      using within [of "A + E"] S(1) pos(1) unfolding two distrib_left [symmetric] by simp
    note al = align_units [OF k A this, folded E_def]
    define R where "R = E * ((A + (E - 1)) div E)"
    have R: "A mod E = 0 \<Longrightarrow> R = A" "A mod E \<noteq> 0 \<Longrightarrow> R = A + (E - A mod E)"
      unfolding R_def by (rule aligned_part [OF pos(1)], assumption)+
    have e: "A mod E < E" using pos(1) by simp
    have AR: "A \<le> R" "R \<le> A + (E - 1)" using R e by (cases "A mod E = 0"; simp)+
    let ?p = "ALIGN_KERNEL addr (2 ^ k)"
    have p: "unat ?p = 4096 * R" using al(1) by (simp only: R_def)
    have tail: "own (free_pages fw (?p + ROUND_UP sz EFI_PAGE_SIZE) (of_int (int t)) x) = own x - {R + S..<R + S + t}"
      if "0 < t" "R + S + t = A + S + (E - 1)" "{R + S..<R + S + t} \<subseteq> own x" for t x
    proof -
      have "4096 * (R + S + 1) \<le> 2 ^ 64" using that(1,2) by (intro within) linarith
      then have "4096 * (R + S) < 2 ^ 64" by simp
      then have "unat (?p + ROUND_UP sz EFI_PAGE_SIZE) = 4096 * (R + S)"
        by (subst unat_add_nowrap) (simp_all only: p units(3) distrib_left len64)
      moreover have "t < 2 ^ 64" using that(2) AR pos(2) by simp
      ultimately show ?thesis using free_at [OF serv, of _ "R + S" "of_int (int t)" x] that(3) by (simp only: unat_of_int_nat)
    qed
    have own1: "own s1 = own s \<union> {A..<A + S + (E - 1)}" "{A..<A + S + (E - 1)} \<inter> own s = {}"
      using served(3,4) [OF True] by (simp_all only: pages_at [OF A] add.assoc)
    note run1 = run [unfolded True simp_thms if_False al(2)]
    have "status = EFI_SUCCESS \<and> p = ?p \<and> own s' = own s \<union> {R..<R + S}"
    proof (cases "A mod E = 0")
      case zero: True
      show ?thesis
      proof (cases "E = 1")
        case True
        then show ?thesis using run1 own1(1) R(1) [OF zero] by simp
      next
        case False
        with run1 zero pos(1) have "status = EFI_SUCCESS" "p = ?p"
            "s' = free_pages fw (?p + ROUND_UP sz EFI_PAGE_SIZE) (of_int (int (E - 1))) s1" by auto
        moreover have ends: "R + S + (E - 1) = A + S + (E - 1)" "0 < E - 1" using R(1) [OF zero] False pos(1) by simp_all
        moreover have "own s1 - {R + S..<R + S + (E - 1)} = own s \<union> {R..<R + S}"
          using cut_tail [OF own1(2) AR(1) ends(1)] unfolding own1(1) R(1) [OF zero] .
        moreover have "{R + S..<R + S + (E - 1)} \<subseteq> own s1" unfolding own1(1) R(1) [OF zero] by auto
        ultimately show ?thesis using tail [of "E - 1" s1] by simp
      qed
    next
      case rest: False
      define d where "d = A mod E"
      have d: "d < E" "d \<noteq> 0" "R = A + (E - d)" unfolding d_def by (rule e, rule rest, rule R(2) [OF rest])
      let ?s2 = "free_pages fw addr (of_int (int (E - d))) s1"
      have e1: "int (E - 1) - int d + 1 = int (E - d)" "int (E - 1) \<noteq> 0" "int d \<noteq> 0" "int d - 1 = int (d - 1)" "int (d - 1) = 0 \<longleftrightarrow> d = 1"
        using d(1,2) by auto
      have "unat (of_int (int (E - d)) :: u64) = E - d" using pos(2) by (intro unat_of_int_nat) simp
      moreover have "A + (E - d) = R" using d(3) by simp
      moreover have "{A..<R} \<subseteq> own s1" unfolding own1(1) using AR(2) by auto
      ultimately have freed: "own ?s2 = own s1 - {A..<R}"
        using free_at [OF serv A, of "of_int (int (E - d))" s1] by (simp only:)
      have end_eq: "R + S + (d - 1) = A + S + (E - 1)" using d by simp
      then have "R \<le> A + S + (E - 1)" by linarith
      then have own2: "own ?s2 = own s \<union> {R..<A + S + (E - 1)}"
        using cut_head [OF own1(2) AR(1)] unfolding freed own1(1) by blast
      have "status = EFI_SUCCESS \<and> p = ?p \<and>
          s' = (if d = 1 then ?s2 else free_pages fw (?p + ROUND_UP sz EFI_PAGE_SIZE) (of_int (int (d - 1))) ?s2)"
        using run1 unfolding d_def [symmetric] e1(1,4) by (simp only: e1(2,3,5) if_True if_False not_False_eq_True split_conv) auto
      moreover have "own ?s2 - {R + S..<R + S + (d - 1)} = own s \<union> {R..<R + S}"
        using cut_tail [OF own1(2) AR(1) end_eq] unfolding own2 end_eq .
      moreover have "{R + S..<R + S + (d - 1)} \<subseteq> own ?s2" unfolding own2 end_eq by auto
      ultimately show ?thesis using tail [of "d - 1" ?s2, OF _ end_eq] d(2) by (cases "d = 1") simp_all
    qed
    moreover have "2 ^ k dvd unat ?p" unfolding p two R_def by simp
    moreover have "4096 * R + 4096 * S \<le> 2 ^ 64"
      using within [of "R + S"] AR(2) unfolding distrib_left by linarith
    moreover have "{R..<R + S} \<subseteq> {A..<A + S + (E - 1)}" using AR by auto
    then have "{R..<R + S} \<inter> own s = {}" using own1(2) by blast
    ultimately show ?thesis by (simp add: p pages_at [OF p])
  qed
qed

text \<open>
  C6: Aligned pages of the EFI stub: from any firmware that keeps the contract of its page services,
  \<open>efi_allocate_pages\<close> gets exactly the pages of the requested size, at a multiple of the alignment, taken
  from the pages that were free, and gives every page it got beyond those back; when it fails no page changes hands.
\<close>

theorem efi_allocate_pages_correct:
  assumes "page_service fw own" "12 \<le> k" "k \<le> 42" "0 < unat sz" "unat sz + 4096 \<le> 2 ^ 64"
    and "efi_allocate_pages fw sz (2 ^ k) ty s = (status, p, s')"
  shows "if status = EFI_SUCCESS
     then 2 ^ k dvd unat p \<and> unat p + 4096 * ((unat sz + 4095) div 4096) \<le> 2 ^ 64 \<and>
       pages p ((unat sz + 4095) div 4096) \<inter> own s = {} \<and> own s' = own s \<union> pages p ((unat sz + 4095) div 4096)
     else own s' = own s"
  by (rule efi_allocate_pages_spec [OF assms])

text \<open>A firmware for the examples: it has one mode of graphics, gives the pages from a number on, and a new key to
  the map with every allocation; in the state 0 the map changes while the services are left.\<close>

definition some_info :: efi_graphics_output_mode_info where
  "some_info = \<lparr>horizontal_resolution = 640, vertical_resolution = 480, pixel_format = 1, pixels_per_scan_line = 640\<rparr>"

definition blank_screen :: screen_info where
  "blank_screen = \<lparr>si_framebuffer = 0, si_framebuffer_size = 0, si_screen_width = 0, si_screen_height = 0, si_pixels_per_scan_line = 0\<rparr>"

definition some_map :: "nat \<times> nat set \<Rightarrow> efi_boot_memmap" where
  "some_map s = \<lparr>map_size = 480, desc_size = 48, desc_ver = 1, map_key = of_nat (fst s), descs = replicate 480 0\<rparr>"

definition some_fw :: "(nat \<times> nat set) firmware" where
  "some_fw =
     \<lparr>output_string = (\<lambda>msg s. s), config_tables = [\<lparr>ct_guid = ACPI_20_TABLE_GUID, ct_table = 0xE0000\<rparr>],
      allocate_pages = (\<lambda>ty k s. if 4096 * (fst s + unat k) < 2 ^ 64 \<and> {fst s..<fst s + unat k} \<inter> snd s = {}
        then (EFI_SUCCESS, of_nat (4096 * fst s), (fst s + unat k, snd s \<union> {fst s..<fst s + unat k}))
        else (EFI_NOT_FOUND, 0, s)),
      free_pages = (\<lambda>a k s. (fst s, snd s - pages a (unat k))),
      get_memory_map = (\<lambda>sz s. if sz < 480 then (EFI_BUFFER_TOO_SMALL, (some_map s)\<lparr>map_key := 0, descs := []\<rparr>, s) else (EFI_SUCCESS, some_map s, s)),
      allocate_pool = (\<lambda>ty sz s. (EFI_SUCCESS, 0x1000, s)), free_pool = (\<lambda>p s. s),
      handle_protocol = (\<lambda>h guid s. (EFI_SUCCESS, h, s)), locate_handle_buffer = (\<lambda>guid s. (EFI_SUCCESS, [5], s)),
      handle_buffer = (\<lambda>s. 0x2000),
      exit_boot_services = (\<lambda>h key s. if fst s = 0 then (EFI_INVALID_PARAMETER, (1, snd s))
        else if key = of_nat (fst s) then (EFI_SUCCESS, s) else (EFI_INVALID_PARAMETER, s)),
      query_mode = (\<lambda>gop i s. (if i = 0 then EFI_SUCCESS else EFI_NOT_FOUND, some_info, s)), set_mode = (\<lambda>gop i s. s),
      gop_mode = (\<lambda>gop s. \<lparr>max_mode = 1, gm_mode = 0, gm_info = some_info, frame_buffer_base = 0xC0000000, frame_buffer_size = 0x12C000\<rparr>),
      fresh = (\<lambda>p s k. replicate k 0)\<rparr>"

lemma some_fw_pages: "page_service some_fw snd"
proof -
  have page: "unat (of_nat (4096 * x) :: u64) = 4096 * x" if "4096 * (x + k) < 2 ^ 64" for x k
  proof -
    have "4096 * x < 2 ^ 64" using that by simp
    then show ?thesis by (subst unat_of_nat) simp
  qed
  show ?thesis unfolding page_service_def
  proof (intro conjI allI impI)
    fix ty k s status a s' assume alloc: "allocate_pages some_fw ty k s = (status, a, s')"
    {
      assume "status = EFI_SUCCESS"
      with alloc have ok: "4096 * (fst s + unat k) < 2 ^ 64" "{fst s..<fst s + unat k} \<inter> snd s = {}" "a = of_nat (4096 * fst s)"
          "s' = (fst s + unat k, snd s \<union> {fst s..<fst s + unat k})"
        by (auto simp: some_fw_def split: if_splits)
      have a: "unat a = 4096 * fst s" unfolding ok(3) by (rule page [OF ok(1)])
      show "4096 dvd unat a" "unat a + unat k * 4096 \<le> 2 ^ 64" using ok(1) by (simp_all add: a)
      show "pages a (unat k) \<inter> snd s = {}" "snd s' = snd s \<union> pages a (unat k)" using ok(2,4) by (simp_all add: pages_at [OF a])
    }
    assume "status \<noteq> EFI_SUCCESS"
    with alloc show "snd s' = snd s" by (auto simp: some_fw_def split: if_splits)
  qed (simp add: some_fw_def)
qed

lemma efi_allocate_pages_correct_witness:
  "(case efi_allocate_pages some_fw 0x1800 (2 ^ 14) EFI_LOADER_CODE (5, {}) of (status, p, s') \<Rightarrow>
      (if status = EFI_SUCCESS then 2 ^ 14 dvd unat p \<and> unat p + 4096 * 2 \<le> 2 ^ 64 \<and> pages p 2 \<inter> {} = {} \<and> snd s' = {} \<union> pages p 2
       else snd s' = {}))"
proof -
  obtain status p s' where call: "efi_allocate_pages some_fw 0x1800 (2 ^ 14) EFI_LOADER_CODE (5, {}) = (status, p, s')"
    by (rule prod_cases3)
  have u: "(unat (0x1800 :: u64) + 4095) div 4096 = 2" by simp
  have "(12::nat) \<le> 14" "(14::nat) \<le> 42" "0 < unat (0x1800 :: u64)" "unat (0x1800 :: u64) + 4096 \<le> 2 ^ 64" by simp_all
  from efi_allocate_pages_correct [OF some_fw_pages this call] show ?thesis unfolding call split_conv u snd_conv .
qed

section \<open>The graphics mode\<close>

text \<open>
  What the specification says of a graphics protocol: \<open>QueryMode\<close> describes a mode and changes nothing,
  \<open>SetMode\<close> makes it the current one, and the mode structure describes the current mode.
\<close>

definition gop_service ::
  "'fw firmware \<Rightarrow> u64 \<Rightarrow> (u32 \<Rightarrow> u64) \<Rightarrow> (u32 \<Rightarrow> efi_graphics_output_mode_info) \<Rightarrow> bool" where
  "gop_service fw gop st desc \<longleftrightarrow>
     (\<forall>i s. query_mode fw gop i s = (st i, desc i, s)) \<and>
     (\<forall>i s. st i = EFI_SUCCESS \<longrightarrow> gm_mode (gop_mode fw gop (set_mode fw gop i s)) = i) \<and>
     (\<forall>s. st (gm_mode (gop_mode fw gop s)) = EFI_SUCCESS \<longrightarrow> gm_info (gop_mode fw gop s) = desc (gm_mode (gop_mode fw gop s)))"

lemma mode_loop_min:
  assumes "\<forall>i s. query_mode fw gop i s = (st i, desc i, s)"
  shows "\<exists>m. mode_loop fw gop is na nm s = (m, s) \<and>
     (m = nm \<and> (\<forall>i \<in> set is. st (of_nat i) = EFI_SUCCESS \<longrightarrow> na \<le> area (desc (of_nat i))) \<or>
      m \<in> of_nat ` set is \<and> st m = EFI_SUCCESS \<and> area (desc m) < na \<and>
        (\<forall>i \<in> set is. st (of_nat i) = EFI_SUCCESS \<longrightarrow> area (desc m) \<le> area (desc (of_nat i))))"
proof (induction "is" arbitrary: na nm)
  case Nil
  then show ?case by simp
next
  case (Cons i "is")
  let ?i = "of_nat i :: u32"
  show ?case
  proof (cases "st ?i = EFI_SUCCESS \<and> area (desc ?i) < na")
    case True
    then have step: "mode_loop fw gop (i # is) na nm s = mode_loop fw gop is (area (desc ?i)) ?i s" by (simp add: assms)
    from Cons.IH [of "area (desc ?i)" ?i] True show ?thesis unfolding step by (auto intro: less_imp_le order_trans)
  next
    case False
    then have step: "mode_loop fw gop (i # is) na nm s = mode_loop fw gop is na nm s" by (auto simp: assms)
    from Cons.IH [of na nm] False show ?thesis unfolding step by (auto simp: not_less intro: less_imp_le order_trans)
  qed
qed

lemma efi_set_mode_min:
  assumes serv: "gop_service fw gop st desc"
  shows "\<exists>s'. efi_set_mode fw gop s = s' \<and>
     area (gm_info (gop_mode fw gop s')) \<le> area (gm_info (gop_mode fw gop s)) \<and>
     (\<forall>i < max_mode (gop_mode fw gop s). st i = EFI_SUCCESS \<longrightarrow> area (gm_info (gop_mode fw gop s')) \<le> area (desc i)) \<and>
     (s' = s \<or> st (gm_mode (gop_mode fw gop s')) = EFI_SUCCESS \<and> gm_info (gop_mode fw gop s') = desc (gm_mode (gop_mode fw gop s')))"
proof -
  let ?mode = "gop_mode fw gop s"
  note q = serv [unfolded gop_service_def, THEN conjunct1]
    and set = serv [unfolded gop_service_def, THEN conjunct2, THEN conjunct1, rule_format]
    and cur = serv [unfolded gop_service_def, THEN conjunct2, THEN conjunct2, rule_format]
  let ?ms = "[0..<unat (max_mode ?mode)]" and ?na = "area (gm_info ?mode)"
  obtain m where m: "mode_loop fw gop ?ms ?na (gm_mode ?mode) s = (m, s)"
    and best: "m = gm_mode ?mode \<and> (\<forall>i \<in> set ?ms. st (of_nat i) = EFI_SUCCESS \<longrightarrow> ?na \<le> area (desc (of_nat i))) \<or>
      m \<in> of_nat ` set ?ms \<and> st m = EFI_SUCCESS \<and> area (desc m) < ?na \<and>
        (\<forall>i \<in> set ?ms. st (of_nat i) = EFI_SUCCESS \<longrightarrow> area (desc m) \<le> area (desc (of_nat i)))"
    using mode_loop_min [OF q, of ?ms ?na "gm_mode ?mode" s] by blast
  have all: "\<forall>i < max_mode ?mode. P i" if "\<forall>i \<in> set ?ms. P (of_nat i)" for P :: "u32 \<Rightarrow> bool"
  proof (intro allI impI)
    fix i assume "i < max_mode ?mode"
    then have "unat i \<in> set ?ms" by (simp add: word_less_nat_alt)
    with that have "P (of_nat (unat i))" by blast
    then show "P i" by simp
  qed
  show ?thesis
  proof (cases "gm_mode ?mode = m")
    case True
    then have "efi_set_mode fw gop s = s" using m by (simp add: efi_set_mode_def)
    moreover have "\<forall>i \<in> set ?ms. st (of_nat i) = EFI_SUCCESS \<longrightarrow> ?na \<le> area (desc (of_nat i))"
      using best cur [of s] unfolding True by auto
    ultimately show ?thesis using all [of "\<lambda>i. st i = EFI_SUCCESS \<longrightarrow> ?na \<le> area (desc i)"] by auto
  next
    case False
    let ?s = "set_mode fw gop m s"
    have "efi_set_mode fw gop s = ?s" using m False by (simp add: efi_set_mode_def)
    moreover have ok: "st m = EFI_SUCCESS" and less: "area (desc m) < ?na"
        and min: "\<forall>i \<in> set ?ms. st (of_nat i) = EFI_SUCCESS \<longrightarrow> area (desc m) \<le> area (desc (of_nat i))"
      using best False by auto
    moreover have "gm_mode (gop_mode fw gop ?s) = m" "gm_info (gop_mode fw gop ?s) = desc m" using set [OF ok, of s] cur [of ?s] ok by simp_all
    ultimately show ?thesis using all [of "\<lambda>i. st i = EFI_SUCCESS \<longrightarrow> area (desc m) \<le> area (desc i)"] by auto
  qed
qed



section \<open>Messages\<close>

text \<open>What is printed of a string when \<open>k\<close> characters of the buffer are in use.\<close>

fun puts_text :: "nat \<Rightarrow> bytes \<Rightarrow> u16 list" where
  "puts_text k [] = []"
| "puts_text k (ch # s) =
     (if ch \<noteq> 0 \<and> k < 125
      then (if ch = 0x0A then 0x0A # 0x0D # puts_text (k + 2) s else scast ch # puts_text (k + 1) s)
      else [])"

lemma puts_text_fits: "k \<le> 126 \<Longrightarrow> k + length (puts_text k s) \<le> 126"
proof (induction k s rule: puts_text.induct)
  case (2 k ch s)
  then show ?case by (cases "ch = 0x0A") auto
qed simp

lemma puts_text_nonzero: "0 \<notin> set (puts_text k s)"
proof (induction k s rule: puts_text.induct)
  case (2 k ch s)
  have "ch \<noteq> 0 \<Longrightarrow> (scast ch :: u16) \<noteq> 0"
  proof
    assume "ch \<noteq> 0" "(scast ch :: u16) = 0"
    then have "sint (scast ch :: u16) = 0" by simp
    moreover have "sint (scast ch :: u16) = sint ch" by (rule sint_up_scast) (simp add: is_up)
    ultimately have "sint ch = sint (0 :: u8)" by simp
    then show False using \<open>ch \<noteq> 0\<close> signed_word_eqI [of ch 0] by blast
  qed
  with 2 show ?case by auto
qed simp

lemma puts_loop_eq:
  "length (pre :: u16 list) = k \<Longrightarrow> length pre + length rest = 128 \<Longrightarrow> k \<le> 126 \<Longrightarrow> 0 \<in> set s \<Longrightarrow>
   puts_loop s k (pre @ rest) =
     Some (k + length (puts_text k s), pre @ puts_text k s @ drop (length (puts_text k s)) rest)"
proof (induction s arbitrary: k pre rest)
  case Nil
  then show ?case by simp
next
  case (Cons ch s)
  show ?case
  proof (cases "ch \<noteq> 0 \<and> k < 125")
    case False
    then show ?thesis by auto
  next
    case True
    with Cons.prems obtain a b rest' where rest: "rest = a # b # rest'"
      by (cases rest; cases "tl rest") auto
    have z: "0 \<in> set s" using Cons.prems(4) True by auto
    show ?thesis
    proof (cases "ch = 0x0A")
      case nl: True
      have "puts_loop (ch # s) k (pre @ rest) = puts_loop s (k + 2) ((pre @ [0x0A, 0x0D]) @ rest')"
        using True nl Cons.prems rest by (simp add: list_update_append nth_append)
      also have "\<dots> = Some (k + 2 + length (puts_text (k + 2) s),
          (pre @ [0x0A, 0x0D]) @ puts_text (k + 2) s @ drop (length (puts_text (k + 2) s)) rest')"
        using True Cons.prems rest z by (intro Cons.IH) auto
      finally show ?thesis using True nl rest by simp
    next
      case False
      have "puts_loop (ch # s) k (pre @ rest) = puts_loop s (k + 1) ((pre @ [scast ch]) @ b # rest')"
        using True False Cons.prems rest by (simp add: list_update_append)
      also have "\<dots> = Some (k + 1 + length (puts_text (k + 1) s),
          (pre @ [scast ch]) @ puts_text (k + 1) s @ drop (length (puts_text (k + 1) s)) (b # rest'))"
        using True Cons.prems rest z by (intro Cons.IH) auto
      finally show ?thesis using True False rest by simp
    qed
  qed
qed

lemma efi_puts_prints:
  assumes "length usc2 = 128" "0 \<in> set msg"
  shows "\<exists>usc2'. length usc2' = 128 \<and> efi_puts fw msg (usc2, s) = Some (usc2', output_string fw (puts_text 0 msg) s)"
proof -
  let ?t = "puts_text 0 msg"
  have fit: "length ?t \<le> 126" using puts_text_fits [of 0 msg] by simp
  have loop: "puts_loop msg 0 usc2 = Some (length ?t, ?t @ drop (length ?t) usc2)"
    using puts_loop_eq [of "[]" 0 usc2 msg] assms by simp
  have "drop (length ?t) usc2 \<noteq> []" using fit assms(1) by simp
  then have "(?t @ drop (length ?t) usc2)[length ?t := 0] = ?t @ 0 # tl (drop (length ?t) usc2)"
    by (cases "drop (length ?t) usc2") (simp_all add: list_update_append)
  moreover have "takeWhile (\<lambda>c. c \<noteq> 0) (?t @ 0 # tl (drop (length ?t) usc2)) = ?t"
  proof -
    have "\<And>x. x \<in> set ?t \<Longrightarrow> x \<noteq> 0" using puts_text_nonzero [of 0 msg] by metis
    then show ?thesis by (subst takeWhile_append2) simp_all
  qed
  ultimately show ?thesis using fit assms(1) by (simp add: efi_puts_def loop Let_def)
qed

lemma msg_ends: "0 \<in> set msg_rsdp" "0 \<in> set msg_decompress" "0 \<in> set msg_graphics" "0 \<in> set msg_exit"
  by (simp_all add: msg_rsdp_def msg_decompress_def msg_graphics_def msg_exit_def ascii_def)

section \<open>Leaving the firmware\<close>

lemma exit_boot_services_cases:
  assumes "efi_exit_boot_services fw h s = (status, res, s')"
    and spec: "\<forall>h key s. fst (exit_boot_services fw h key s) \<in> {EFI_SUCCESS, EFI_INVALID_PARAMETER}"
  shows "status \<noteq> EFI_SUCCESS \<and> res = None \<or>
     (\<exists>mm p s1. status = EFI_SUCCESS \<and> res = Some (mm, p) \<and> exit_boot_services fw h (map_key mm) s1 = (EFI_SUCCESS, s'))"
proof -
  have two: "st = EFI_SUCCESS \<or> st = EFI_INVALID_PARAMETER" if "exit_boot_services fw h key x = (st, x')" for key x st x'
  proof -
    have "fst (exit_boot_services fw h key x) \<in> {EFI_SUCCESS, EFI_INVALID_PARAMETER}" using spec by blast
    then show ?thesis by (simp add: that)
  qed
  obtain st1 tmp s1 where g1: "get_memory_map fw 0 s = (st1, tmp, s1)" by (rule prod_cases3)
  let ?sz = "map_size tmp + desc_size tmp * EFI_MMAP_NR_SLACK_SLOTS"
  obtain st2 p s2 where a: "allocate_pool fw EFI_LOADER_DATA (sizeof_memmap + ?sz) s1 = (st2, p, s2)" by (rule prod_cases3)
  obtain st3 m1 s3 where g2: "get_memory_map fw ?sz s2 = (st3, m1, s3)" by (rule prod_cases3)
  obtain st4 s4 where x1: "exit_boot_services fw h (map_key m1) s3 = (st4, s4)" by fastforce
  obtain st5 m2 s5 where g3: "get_memory_map fw ?sz s4 = (st5, m2, s5)" by (rule prod_cases3)
  obtain st6 s6 where x2: "exit_boot_services fw h (map_key m2) s5 = (st6, s6)" by fastforce
  note run = assms(1) [unfolded efi_exit_boot_services_def Let_def g1 split_conv a g2 x1 g3 x2]
  show ?thesis
  proof (cases "st1 = EFI_BUFFER_TOO_SMALL \<and> st2 = EFI_SUCCESS \<and> st3 = EFI_SUCCESS")
    case False
    with run show ?thesis by (auto split: if_splits)
  next
    case ok: True
    show ?thesis
    proof (cases "st4 = EFI_SUCCESS")
      case True
      then show ?thesis using run ok x1 by auto
    next
      case False
      then have "st4 = EFI_INVALID_PARAMETER" using two [OF x1] by blast
      with run ok have "(if st5 \<noteq> EFI_SUCCESS then (st5, None, s5)
          else if st6 \<noteq> EFI_SUCCESS then (st6, None, s6) else (EFI_SUCCESS, Some (m2, p), s6)) = (status, res, s')" by simp
      with x2 show ?thesis by (auto split: if_splits)
    qed
  qed
qed

text \<open>
  What the specification says of leaving: \<open>GetMemoryMap\<close> describes the current map \<open>cur\<close> if the buffer is large
  enough, and \<open>ExitBootServices\<close> refuses at most when the map has changed; once it has been called, the firmware
  is \<open>settled\<close> and changes the map no more by itself.
\<close>

definition exit_service :: "'fw firmware \<Rightarrow> ('fw \<Rightarrow> efi_boot_memmap) \<Rightarrow> ('fw \<Rightarrow> bool) \<Rightarrow> bool" where
  "exit_service fw cur settled \<longleftrightarrow>
     (\<forall>sz s. get_memory_map fw sz s =
        (if sz < map_size (cur s) then (EFI_BUFFER_TOO_SMALL, (cur s)\<lparr>map_key := 0, descs := []\<rparr>, s) else (EFI_SUCCESS, cur s, s))) \<and>
     (\<forall>s. 0 < map_size (cur s)) \<and>
     (\<forall>h key s. fst (exit_boot_services fw h key s) \<in> {EFI_SUCCESS, EFI_INVALID_PARAMETER}) \<and>
     (\<forall>h key s. key = map_key (cur s) \<and> settled s \<longrightarrow> fst (exit_boot_services fw h key s) = EFI_SUCCESS) \<and>
     (\<forall>h key s. fst (exit_boot_services fw h key s) = EFI_INVALID_PARAMETER \<longrightarrow> settled (snd (exit_boot_services fw h key s)))"

text \<open>
  C11: Leaving the boot services: when the pool gives the buffer and the map outgrows the room for eight more
  descriptors neither by that nor while the services are being left, \<open>efi_exit_boot_services\<close> succeeds even if the
  first attempt is refused because the map has changed, and what it returns is the map that the firmware accepted.
\<close>

theorem efi_exit_boot_services_succeeds:
  assumes "exit_service fw cur settled" "allocate_pool fw EFI_LOADER_DATA (32 + sz) s = (EFI_SUCCESS, p, s1)"
    and "sz = map_size (cur s) + desc_size (cur s) * 8" "map_size (cur s1) \<le> sz"
    and "map_size (cur (snd (exit_boot_services fw h (map_key (cur s1)) s1))) \<le> sz"
  shows "\<exists>s2 s'. efi_exit_boot_services fw h s = (EFI_SUCCESS, Some (cur s2, p), s') \<and>
     exit_boot_services fw h (map_key (cur s2)) s2 = (EFI_SUCCESS, s')"
proof -
  note c = assms(1) [unfolded exit_service_def]
  note get = c [THEN conjunct1, rule_format] and pos = c [THEN conjunct2, THEN conjunct1, rule_format]
    and codes = c [THEN conjunct2, THEN conjunct2, THEN conjunct1, rule_format]
    and accept = c [THEN conjunct2, THEN conjunct2, THEN conjunct2, THEN conjunct1, rule_format]
    and settle = c [THEN conjunct2, THEN conjunct2, THEN conjunct2, THEN conjunct2, rule_format]
  have g0: "get_memory_map fw 0 s = (EFI_BUFFER_TOO_SMALL, (cur s)\<lparr>map_key := 0, descs := []\<rparr>, s)"
    using pos [of s] by (simp add: get)
  have g1: "get_memory_map fw sz s1 = (EFI_SUCCESS, cur s1, s1)" using assms(4) by (simp add: get not_less)
  obtain st s2 where x1: "exit_boot_services fw h (map_key (cur s1)) s1 = (st, s2)" by fastforce
  have g2: "get_memory_map fw sz s2 = (EFI_SUCCESS, cur s2, s2)" using assms(5) x1 by (simp add: get not_less)
  obtain st' s3 where x2: "exit_boot_services fw h (map_key (cur s2)) s2 = (st', s3)" by fastforce
  have run: "efi_exit_boot_services fw h s =
      (if st = EFI_INVALID_PARAMETER
       then (if st' \<noteq> EFI_SUCCESS then (st', None, s3) else (EFI_SUCCESS, Some (cur s2, p), s3))
       else (EFI_SUCCESS, Some (cur s1, p), s2))"
    unfolding efi_exit_boot_services_def Let_def g0 by (simp add: assms(3) [symmetric] assms(2) g1 x1 g2 x2)
  show ?thesis
  proof (cases "st = EFI_INVALID_PARAMETER")
    case True
    then have "settled s2" using settle [of h "map_key (cur s1)" s1] x1 by simp
    then have "st' = EFI_SUCCESS" using accept [of "map_key (cur s2)" s2 h] x2 by simp
    with run True x2 show ?thesis by auto
  next
    case False
    then have "st = EFI_SUCCESS" using codes [of h "map_key (cur s1)" s1] x1 by simp
    with run False x1 show ?thesis by auto
  qed
qed

lemma some_fw_exit: "exit_service some_fw some_map (\<lambda>s. fst s \<noteq> 0)"
  by (simp add: exit_service_def some_fw_def some_map_def)

lemma efi_exit_boot_services_succeeds_witness:
  "\<exists>s2 s'. efi_exit_boot_services some_fw 3 (0, {}) = (EFI_SUCCESS, Some (some_map s2, 0x1000), s') \<and>
     exit_boot_services some_fw 3 (map_key (some_map s2)) s2 = (EFI_SUCCESS, s')"
proof (rule efi_exit_boot_services_succeeds [OF some_fw_exit])
  show "allocate_pool some_fw EFI_LOADER_DATA (32 + 864) (0, {}) = (EFI_SUCCESS, 0x1000, (0, {}))" by (simp add: some_fw_def)
qed (simp_all add: some_map_def)

section \<open>From the firmware to the kernel\<close>

lemma ukernel_room:
  assumes "k \<le> 2 ^ 31"
  shows "k \<le> unat (ukernel_size_of k)"
proof -
  let ?y = "of_nat k + 0x1FFFFF :: u32"
  have y: "unat ?y = k + 0x1FFFFF"
  proof -
    have "unat (of_nat k :: u32) = k" using assms by (subst unat_of_nat) simp
    then show ?thesis using assms by (subst unat_add_nowrap) simp_all
  qed
  have msk: "(0x1FFFFF :: u32) = mask 21" by (simp add: mask_eq_exp_minus_1)
  have "?y AND NOT (mask 21) = push_bit 21 (drop_bit 21 ?y)" by (simp add: bit_eq_iff bit_simps) fastforce
  moreover have "unat (drop_bit 21 ?y) = unat ?y div 2 ^ 21"
  proof -
    have "unat ?y < 2 ^ 32" unfolding y using assms by simp
    then have "take_bit 32 (unat ?y) = unat ?y" by (rule take_bit_nat_eq_self)
    moreover have "unat (drop_bit 21 ?y) = drop_bit 21 (take_bit LENGTH(32) (unat ?y))" by (rule unsigned_drop_bit_eq)
    moreover have "LENGTH(32) = 32" by simp
    ultimately have "unat (drop_bit 21 ?y) = drop_bit 21 (unat ?y)" by (simp only:)
    then show ?thesis by (simp only: drop_bit_eq_div)
  qed
  ultimately have "unat (?y AND NOT (mask 21)) = take_bit 32 (push_bit 21 (unat ?y div 2 ^ 21))"
    by (simp only: unsigned_push_bit_eq) simp
  also have "\<dots> = push_bit 21 (unat ?y div 2 ^ 21)"
    unfolding y using assms by (intro take_bit_nat_eq_self) (simp add: push_bit_eq_mult)
  finally have r: "unat (?y AND NOT (mask 21)) = (k + 0x1FFFFF) div 2 ^ 21 * 2 ^ 21" by (simp only: y push_bit_eq_mult)
  define z where "z = (?y AND NOT (mask 21))"
  have "ukernel_size_of k = ucast z" unfolding z_def by (simp only: ukernel_size_of_def msk)
  moreover have "unat z < 2 ^ 64" using unsigned_less [of z, where 'a = nat] by simp
  ultimately have "unat (ukernel_size_of k) = unat z" by (simp add: unsigned_ucast_eq take_bit_nat_eq_self)
  moreover have "k \<le> (k + 0x1FFFFF) div 2 ^ 21 * 2 ^ 21"
  proof -
    have "k \<le> (k + 2097151) div 2097152 * 2097152" by linarith
    then show ?thesis by simp
  qed
  ultimately show ?thesis by (simp only: r z_def)
qed

lemma align_pow2_dvd:
  assumes "k < 64"
  shows "2 ^ k dvd unat (ALIGN_KERNEL a (2 ^ k))"
proof (cases "ALIGN_KERNEL a (2 ^ k) = 0")
  case False
  then show ?thesis using align_up_props(2) [OF assms] by blast
qed simp

lemma efi_allocate_pages_aligned:
  assumes "12 \<le> k" "k \<le> 42" "efi_allocate_pages fw sz (2 ^ k) ty s = (EFI_SUCCESS, p, s')"
  shows "2 ^ k dvd unat p"
proof -
  note call = assms(3) [unfolded efi_allocate_pages_def Let_def page_units(1,2) [OF assms(1,2)] if_False]
  have "p = ALIGN_KERNEL (fst (snd (allocate_pages fw ty (ROUND_UP sz EFI_PAGE_SIZE div EFI_PAGE_SIZE + of_int (int (2 ^ (k - 12) - 1))) s))) (2 ^ k)"
    using call by (auto split: prod.splits if_splits)
  then show ?thesis using align_pow2_dvd [of k] assms(2) by simp
qed

lemma efi_get_rsdp_addr_total:
  assumes "length usc2 = 128"
  shows "\<exists>usc2' s'. length usc2' = 128 \<and> efi_get_rsdp_addr fw (usc2, s) = Some (efi_find_config_table fw ACPI_20_TABLE_GUID, usc2', s')"
proof (cases "efi_find_config_table fw ACPI_20_TABLE_GUID = 0")
  case True
  then show ?thesis using assms by (simp add: efi_get_rsdp_addr_def)
next
  case False
  obtain u where "length u = 128" "efi_puts fw msg_rsdp (usc2, s) = Some (u, output_string fw (puts_text 0 msg_rsdp) s)"
    using efi_puts_prints [OF assms msg_ends(1), of fw s] by blast
  with False show ?thesis by (simp add: efi_get_rsdp_addr_def Let_def)
qed

text \<open>What the kernel finds, once it is entered.\<close>

definition kernel_ready :: "'fw firmware \<Rightarrow> u64 \<Rightarrow> u64 \<Rightarrow> bytes \<Rightarrow> 'fw outcome \<Rightarrow> bool" where
  "kernel_ready fw h systab ys fin \<longleftrightarrow>
     (case fin of
        Exited status s \<Rightarrow> status \<noteq> EFI_SUCCESS
      | Entered kaddr img bp_addr bp mm s \<Rightarrow>
          2 ^ 22 dvd unat kaddr \<and> 2 ^ 12 dvd unat bp_addr \<and> take (length ys) img = ys \<and>
          bp_ramdisk_image bp = 0 \<and> bp_ramdisk_size bp = 0 \<and> bp_cmd_line_ptr bp = 0 \<and>
          bp_acpi_rsdp_addr bp = efi_find_config_table fw ACPI_20_TABLE_GUID \<and>
          (\<exists>p. bp_efi_info bp = \<lparr>efi_systab = systab, efi_memdesc_size = desc_size mm, efi_memmap_size = map_size mm, efi_memmap = p + 32\<rparr>) \<and>
          (\<exists>s1. exit_boot_services fw h (map_key mm) s1 = (EFI_SUCCESS, s)))"

text \<open>The end of the stub, from the graphics on.\<close>

lemma stub_end:
  assumes spec: "\<forall>h key s. fst (exit_boot_services fw h key s) \<in> {EFI_SUCCESS, EFI_INVALID_PARAMETER}"
    and m: "0 \<in> set m1" "0 \<in> set m2"
    and "length (fst w0) = 128" "2 ^ 22 dvd unat kaddr" "2 ^ 12 dvd unat bp_addr" "take (length ys) img = ys"
    and bp: "bp_ramdisk_image bp = 0" "bp_ramdisk_size bp = 0" "bp_cmd_line_ptr bp = 0"
      "bp_acpi_rsdp_addr bp = efi_find_config_table fw ACPI_20_TABLE_GUID"
  shows "\<exists>fin. (let (status, si, s) = setup_graphics fw (bp_screen_info bp) (snd w0);
        bp = bp\<lparr>bp_screen_info := si\<rparr>
      in do {
        w \<leftarrow> (if status \<noteq> EFI_SUCCESS then efi_puts fw m1 (fst w0, s) else Some (fst w0, s));
        (let (status, res, s) = efi_exit_boot_services fw h (snd w)
         in case res of
             None \<Rightarrow> do { w \<leftarrow> efi_puts fw m2 (fst w, s); Some (Exited status (snd w)) }
           | Some (mm, p) \<Rightarrow>
               Some (Entered kaddr img bp_addr
                 (bp\<lparr>bp_efi_info := \<lparr>efi_systab = systab, efi_memdesc_size = desc_size mm,
                                   efi_memmap_size = map_size mm, efi_memmap = p + 32\<rparr>\<rparr>) mm s)) }) = Some fin \<and>
     kernel_ready fw h systab ys fin"
proof -
  obtain st si s1 where g: "setup_graphics fw (bp_screen_info bp) (snd w0) = (st, si, s1)" by (rule prod_cases3)
  obtain u2 s2 where w: "(if st \<noteq> EFI_SUCCESS then efi_puts fw m1 (fst w0, s1) else Some (fst w0, s1)) = Some (u2, s2)"
      "length u2 = 128"
    using efi_puts_prints [OF assms(4) m(1), of fw s1] assms(4) by (cases "st \<noteq> EFI_SUCCESS") auto
  obtain st' res s3 where x: "efi_exit_boot_services fw h s2 = (st', res, s3)" by (rule prod_cases3)
  from exit_boot_services_cases [OF x spec] show ?thesis
  proof (elim disjE conjE exE)
    assume "st' \<noteq> EFI_SUCCESS" "res = None"
    moreover obtain u4 where "efi_puts fw m2 (u2, s3) = Some (u4, output_string fw (puts_text 0 m2) s3)"
      using efi_puts_prints [OF w(2) m(2), of fw s3] by blast
    ultimately show ?thesis by (simp add: g w(1) x kernel_ready_def)
  next
    fix mm p s4 assume "st' = EFI_SUCCESS" "res = Some (mm, p)" "exit_boot_services fw h (map_key mm) s4 = (EFI_SUCCESS, s3)"
    then show ?thesis using assms(5-7) bp by (auto simp: g w(1) x kernel_ready_def)
  qed
qed

lemma allocate_align_0: "efi_allocate_pages fw sz 0 ty s = efi_allocate_pages fw sz (2 ^ 12) ty s"
  by (simp add: efi_allocate_pages_def EFI_PAGE_SIZE_def BIT_UL_def)



end
