(* ===== verification/Cpu.thy ===== *)
theory Cpu
  imports Prelude
begin

text \<open>
  The processor: the flags, the control registers and their shadow (\<open>asm/cpu.h\<close>, \<open>asm/irqflags.h\<close>,
  \<open>cpu.c\<close>), the flushes of the translation caches (\<open>asm/tlb.h\<close>) and the identification of the
  processor (\<open>asm/cpuid.h\<close>, \<open>cpuinfo.c\<close>).  The instructions are modelled by what the architecture
  manual says of them, as the comments of \<open>tlb.h\<close> quote it; the answers of \<open>cpuid\<close> are a parameter.
\<close>

section \<open>Registers and cached translations\<close>

definition EFLAGS_IF :: u64 where "EFLAGS_IF = BIT_UL 9"
definition CR4_PGE :: u64 where "CR4_PGE = BIT_UL 7"
definition CR4_PCIDE :: u64 where "CR4_PCIDE = BIT_UL 17"

record tlb_entry =
  te_page :: u64
  te_pcid :: u64
  te_global :: bool

record cpu =
  eflags :: u64
  reg_cr3 :: u64
  reg_cr4 :: u64
  cr4_shadow :: u64
  tlb :: "tlb_entry list"

definition current_pcid :: "cpu \<Rightarrow> u64" where
  "current_pcid c = (if reg_cr4 c AND CR4_PCIDE = 0 then 0 else reg_cr3 c AND 0xFFF)"

text \<open>\<open>invlpg\<close>, and \<open>invpcid\<close> with its four types.\<close>

definition invlpg :: "u64 \<Rightarrow> cpu \<Rightarrow> cpu" where
  "invlpg addr c = c\<lparr>tlb := filter (\<lambda>e. \<not> (te_page e = drop_bit 12 addr \<and> (te_global e \<or> te_pcid e = current_pcid c))) (tlb c)\<rparr>"

datatype invpcid_type = TYPE_ADDRESS | TYPE_ONE_CONTEXT | TYPE_ALL_CONTEXT | TYPE_ALL_CONTEXT_NO_GLOBAL

fun invpcid :: "u64 \<Rightarrow> u64 \<Rightarrow> invpcid_type \<Rightarrow> cpu \<Rightarrow> cpu" where
  "invpcid pcid addr TYPE_ADDRESS c =
     c\<lparr>tlb := filter (\<lambda>e. \<not> (te_page e = drop_bit 12 addr \<and> te_pcid e = pcid \<and> \<not> te_global e)) (tlb c)\<rparr>"
| "invpcid pcid addr TYPE_ONE_CONTEXT c = c\<lparr>tlb := filter (\<lambda>e. \<not> (te_pcid e = pcid \<and> \<not> te_global e)) (tlb c)\<rparr>"
| "invpcid pcid addr TYPE_ALL_CONTEXT c = c\<lparr>tlb := []\<rparr>"
| "invpcid pcid addr TYPE_ALL_CONTEXT_NO_GLOBAL c = c\<lparr>tlb := filter te_global (tlb c)\<rparr>"

text \<open>Writing CR4 drops all translations if it changes PGE or PCIDE; writing CR3 drops those of the new context.\<close>

definition native_write_cr4 :: "u64 \<Rightarrow> cpu \<Rightarrow> cpu" where
  "native_write_cr4 v c =
     (let c' = c\<lparr>reg_cr4 := v\<rparr>
      in if (v XOR reg_cr4 c) AND (CR4_PGE OR CR4_PCIDE) \<noteq> 0 then c'\<lparr>tlb := []\<rparr> else c')"

definition native_write_cr3 :: "u64 \<Rightarrow> cpu \<Rightarrow> cpu" where
  "native_write_cr3 v c =
     (if reg_cr4 c AND CR4_PCIDE = 0
      then c\<lparr>reg_cr3 := v, tlb := filter (\<lambda>e. te_global e \<or> te_pcid e \<noteq> 0) (tlb c)\<rparr>
      else if v AND BIT_UL 63 = 0
      then c\<lparr>reg_cr3 := v, tlb := filter (\<lambda>e. te_global e \<or> te_pcid e \<noteq> v AND 0xFFF) (tlb c)\<rparr>
      else c\<lparr>reg_cr3 := v AND NOT (BIT_UL 63)\<rparr>)"

section \<open>Interrupt flag\<close>

definition arch_local_irq_disable :: "cpu \<Rightarrow> cpu" where
  "arch_local_irq_disable c = c\<lparr>eflags := eflags c AND NOT EFLAGS_IF\<rparr>"

definition arch_local_irq_enable :: "cpu \<Rightarrow> cpu" where
  "arch_local_irq_enable c = c\<lparr>eflags := eflags c OR EFLAGS_IF\<rparr>"

definition arch_irqs_disabled_flags :: "u64 \<Rightarrow> bool" where
  "arch_irqs_disabled_flags flags \<longleftrightarrow> flags AND EFLAGS_IF = 0"

definition arch_irqs_disabled :: "cpu \<Rightarrow> bool" where
  "arch_irqs_disabled c = arch_irqs_disabled_flags (eflags c)"

definition arch_local_irq_save :: "cpu \<Rightarrow> u64 \<times> cpu" where
  "arch_local_irq_save c = (eflags c, arch_local_irq_disable c)"

definition arch_local_irq_restore :: "u64 \<Rightarrow> cpu \<Rightarrow> cpu" where
  "arch_local_irq_restore flags c = (if \<not> arch_irqs_disabled_flags flags then arch_local_irq_enable c else c)"

section \<open>CR4 and its shadow\<close>

definition read_cr4 :: "cpu \<Rightarrow> u64" where "read_cr4 c = cr4_shadow c"

definition cr4_update :: "u64 \<Rightarrow> u64 \<Rightarrow> cpu \<Rightarrow> cpu" where
  "cr4_update st clr c =
     (let old_cr = read_cr4 c;
          new_cr = (old_cr AND NOT clr) OR st
      in if new_cr \<noteq> old_cr then native_write_cr4 new_cr (c\<lparr>cr4_shadow := new_cr\<rparr>) else c)"

definition cr4_set_bits :: "u64 \<Rightarrow> cpu \<Rightarrow> cpu" where
  "cr4_set_bits bits c =
     (let (flags, c) = arch_local_irq_save c; c = cr4_update bits 0 c in arch_local_irq_restore flags c)"

definition cr4_clear_bits :: "u64 \<Rightarrow> cpu \<Rightarrow> cpu" where
  "cr4_clear_bits bits c =
     (let (flags, c) = arch_local_irq_save c; c = cr4_update 0 bits c in arch_local_irq_restore flags c)"

definition cr4_init_shadow :: "cpu \<Rightarrow> cpu" where
  "cr4_init_shadow c = c\<lparr>cr4_shadow := reg_cr4 c\<rparr>"

section \<open>Flushes\<close>

definition invpcid_flush_one :: "u64 \<Rightarrow> u64 \<Rightarrow> cpu \<Rightarrow> cpu" where
  "invpcid_flush_one pcid addr = invpcid pcid addr TYPE_ADDRESS"

definition invpcid_flush_single_context :: "u64 \<Rightarrow> cpu \<Rightarrow> cpu" where
  "invpcid_flush_single_context pcid = invpcid pcid 0 TYPE_ONE_CONTEXT"

definition invpcid_flush_all :: "cpu \<Rightarrow> cpu" where
  "invpcid_flush_all = invpcid 0 0 TYPE_ALL_CONTEXT"

definition invpcid_flush_all_nonglobals :: "cpu \<Rightarrow> cpu" where
  "invpcid_flush_all_nonglobals = invpcid 0 0 TYPE_ALL_CONTEXT_NO_GLOBAL"

definition flush_tlb_one :: "u64 \<Rightarrow> cpu \<Rightarrow> cpu" where
  "flush_tlb_one addr = invlpg addr"

text \<open>\<open>has_invpcid\<close> is \<open>this_cpu_has\<close> of the feature, below.\<close>

definition flush_tlb_global :: "bool \<Rightarrow> cpu \<Rightarrow> cpu" where
  "flush_tlb_global has_invpcid c =
     (if has_invpcid then invpcid_flush_all c
      else
        (let (flags, c) = arch_local_irq_save c;
             v = read_cr4 c;
             c = native_write_cr4 (v XOR CR4_PGE) c;
             c = native_write_cr4 v c
         in arch_local_irq_restore flags c))"

definition flush_tlb_local :: "cpu \<Rightarrow> cpu" where
  "flush_tlb_local c =
     (let (flags, c) = arch_local_irq_save c;
          c = native_write_cr3 (reg_cr3 c) c
      in arch_local_irq_restore flags c)"

section \<open>Identification\<close>

definition x86_family :: "u32 \<Rightarrow> u32" where
  "x86_family eax =
     (let family = drop_bit 8 eax AND 0xF
      in if family = 0xF then family + (drop_bit 20 eax AND 0xFF) else family)"

definition x86_model :: "u32 \<Rightarrow> u32" where
  "x86_model eax =
     (let model = drop_bit 4 eax AND 0xF
      in if 0x6 \<le> x86_family eax then model + push_bit 4 (drop_bit 16 eax AND 0xF) else model)"

definition x86_stepping :: "u32 \<Rightarrow> u32" where "x86_stepping eax = eax AND 0xF"

datatype cpu_leaf = CPUID_1_ECX | CPUID_1_EDX | CPUID_7_ECX_0_EBX | CPUID_7_ECX_0_ECX | CPUID_7_ECX_0_EDX

fun leaf_index :: "cpu_leaf \<Rightarrow> nat" where
  "leaf_index CPUID_1_ECX = 0"
| "leaf_index CPUID_1_EDX = 1"
| "leaf_index CPUID_7_ECX_0_EBX = 2"
| "leaf_index CPUID_7_ECX_0_ECX = 3"
| "leaf_index CPUID_7_ECX_0_EDX = 4"

definition CAP_BIT :: "cpu_leaf \<Rightarrow> nat \<Rightarrow> nat" where "CAP_BIT leaf x = leaf_index leaf * 32 + x"

definition CPUID_BIT_X2APIC :: nat where "CPUID_BIT_X2APIC = CAP_BIT CPUID_1_ECX 21"
definition CPUID_BIT_INVPCID :: nat where "CPUID_BIT_INVPCID = CAP_BIT CPUID_7_ECX_0_EBX 10"

record cpuinfo_x86 =
  x86_vendor_id :: bytes
  ci_family :: u8
  ci_model :: u8
  ci_stepping :: u8
  x86_virt_bits :: u8
  x86_phys_bits :: u8
  x86_cpuid_level :: u32
  extended_cpuid_level :: u32
  x86_capability :: "u32 list"

text \<open>The static object, all zero; \<open>cpuid op ecx\<close> gives the registers eax, ebx, ecx and edx.\<close>

definition cpu_info_zero :: cpuinfo_x86 where
  "cpu_info_zero = \<lparr>x86_vendor_id = replicate 16 0, ci_family = 0, ci_model = 0, ci_stepping = 0, x86_virt_bits = 0,
     x86_phys_bits = 0, x86_cpuid_level = 0, extended_cpuid_level = 0, x86_capability = replicate 5 0\<rparr>"

type_synonym cpuid_fn = "u32 \<Rightarrow> u32 \<Rightarrow> u32 \<times> u32 \<times> u32 \<times> u32"

definition get_cpuid :: "cpuid_fn \<Rightarrow> u32 \<Rightarrow> u32 \<times> u32 \<times> u32 \<times> u32" where
  "get_cpuid cpuid op = cpuid op 0"

definition get_cpuid_eax :: "cpuid_fn \<Rightarrow> u32 \<Rightarrow> u32" where
  "get_cpuid_eax cpuid op = (let (eax, ebx, ecx, edx) = get_cpuid cpuid op in eax)"

definition vendor_info :: "cpuid_fn \<Rightarrow> cpuinfo_x86 \<Rightarrow> cpuinfo_x86" where
  "vendor_info cpuid c =
     (let (eax, ebx, ecx, edx) = get_cpuid cpuid 0
      in c\<lparr>x86_cpuid_level := eax,
           x86_vendor_id := le_bytes 4 (unat ebx) @ le_bytes 4 (unat edx) @ le_bytes 4 (unat ecx) @ drop 12 (x86_vendor_id c)\<rparr>)"

definition basic_info :: "cpuid_fn \<Rightarrow> cpuinfo_x86 \<Rightarrow> cpuinfo_x86" where
  "basic_info cpuid c =
     (if 1 \<le> x86_cpuid_level c then
        (let (eax, ebx, ecx, edx) = get_cpuid cpuid 1
         in c\<lparr>ci_family := ucast (x86_family eax), ci_model := ucast (x86_model eax), ci_stepping := ucast (x86_stepping eax),
              x86_capability := (x86_capability c)[0 := ecx, 1 := edx]\<rparr>)
      else c)"

definition extended_features :: "cpuid_fn \<Rightarrow> cpuinfo_x86 \<Rightarrow> cpuinfo_x86" where
  "extended_features cpuid c =
     (if 7 \<le> x86_cpuid_level c then
        (let (eax, ebx, ecx, edx) = cpuid 7 0
         in c\<lparr>x86_capability := (x86_capability c)[2 := ebx, 3 := ecx, 4 := edx]\<rparr>)
      else c)"

definition address_sizes :: "cpuid_fn \<Rightarrow> cpuinfo_x86 \<Rightarrow> cpuinfo_x86" where
  "address_sizes cpuid c =
     (let eax = get_cpuid_eax cpuid 0x80000000; c = c\<lparr>extended_cpuid_level := eax\<rparr>
      in if 0x80000008 \<le> extended_cpuid_level c then
           (let (eax, ebx, ecx, edx) = get_cpuid cpuid 0x80000008
            in c\<lparr>x86_virt_bits := ucast (drop_bit 8 eax AND 0xFF), x86_phys_bits := ucast (eax AND 0xFF)\<rparr>)
         else c\<lparr>x86_phys_bits := 36, x86_virt_bits := 48\<rparr>)"

definition early_cpuinfo_init :: "cpuid_fn \<Rightarrow> cpuinfo_x86 \<Rightarrow> cpuinfo_x86" where
  "early_cpuinfo_init cpuid c = address_sizes cpuid (extended_features cpuid (basic_info cpuid (vendor_info cpuid c)))"

definition this_cpu_has :: "cpuinfo_x86 \<Rightarrow> nat \<Rightarrow> u64" where
  "this_cpu_has c b = push_bit (b mod 32) 1 AND ucast (x86_capability c ! (b div 32))"

definition flush_tlb_all :: "cpuinfo_x86 \<Rightarrow> cpu \<Rightarrow> cpu" where
  "flush_tlb_all info = flush_tlb_global (this_cpu_has info CPUID_BIT_INVPCID \<noteq> 0)"

section \<open>Registers\<close>

lemma bit_BIT_UL: "bit (BIT_UL k) i \<longleftrightarrow> i = k \<and> k < 64"
  by (auto simp: BIT_UL_def bit_exp_iff)

lemma single_bit: "w AND BIT_UL k = 0 \<longleftrightarrow> \<not> bit w k \<or> 64 \<le> k" for w :: u64
proof
  assume z: "w AND BIT_UL k = 0"
  have "\<not> bit (w AND BIT_UL k) k" unfolding z by simp
  then show "\<not> bit w k \<or> 64 \<le> k" by (auto simp: bit_and_iff bit_BIT_UL)
next
  assume "\<not> bit w k \<or> 64 \<le> k"
  then show "w AND BIT_UL k = 0" by (intro bit_word_eqI) (auto simp: bit_and_iff bit_BIT_UL)
qed

text \<open>Switching the interrupts off and restoring the flags changes nothing of the flags.\<close>

lemma flags_restored: "(if \<not> arch_irqs_disabled_flags f then (f AND NOT EFLAGS_IF) OR EFLAGS_IF else f AND NOT EFLAGS_IF) = f"
  by (rule bit_word_eqI)
    (auto simp: arch_irqs_disabled_flags_def EFLAGS_IF_def single_bit bit_or_iff bit_and_iff bit_not_iff bit_BIT_UL)

lemma irq_restore_eq:
  assumes "eflags c = f AND NOT EFLAGS_IF"
  shows "arch_local_irq_restore f c = c\<lparr>eflags := f\<rparr>"
  using flags_restored [of f] assms
  by (auto simp: arch_local_irq_restore_def arch_local_irq_enable_def split: if_splits)

lemma irq_save_eq: "arch_local_irq_save c = (eflags c, c\<lparr>eflags := eflags c AND NOT EFLAGS_IF\<rparr>)"
  by (simp add: arch_local_irq_save_def arch_local_irq_disable_def)

lemma write_cr4_eflags [simp]:
  "eflags (native_write_cr4 v c) = eflags c" "reg_cr4 (native_write_cr4 v c) = v" "reg_cr3 (native_write_cr4 v c) = reg_cr3 c"
  "cr4_shadow (native_write_cr4 v c) = cr4_shadow c"
  by (simp_all add: native_write_cr4_def Let_def)

lemma write_cr3_eflags [simp]: "eflags (native_write_cr3 v c) = eflags c"
  by (simp add: native_write_cr3_def)

text \<open>Writing CR4 with PGE toggled and then as it is to be drops every translation.\<close>

lemma toggle_flushes: "tlb (native_write_cr4 v (native_write_cr4 (v XOR CR4_PGE) c)) = []"
proof -
  have "(v XOR (v XOR CR4_PGE)) AND (CR4_PGE OR CR4_PCIDE) \<noteq> 0"
  proof
    assume "(v XOR (v XOR CR4_PGE)) AND (CR4_PGE OR CR4_PCIDE) = 0"
    then have "\<not> bit ((v XOR (v XOR CR4_PGE)) AND (CR4_PGE OR CR4_PCIDE)) 7" by simp
    then show False by (simp add: bit_and_iff bit_or_iff bit_xor_iff CR4_PGE_def bit_BIT_UL)
  qed
  then show ?thesis by (simp add: native_write_cr4_def [of v] Let_def)
qed

lemma flush_tlb_global_eq:
  "flush_tlb_global has c = (if has then c\<lparr>tlb := []\<rparr> else c\<lparr>tlb := [], reg_cr4 := cr4_shadow c\<rparr>)"
proof (cases has)
  case True
  then show ?thesis by (simp add: flush_tlb_global_def invpcid_flush_all_def)
next
  case False
  let ?c = "c\<lparr>eflags := eflags c AND NOT EFLAGS_IF\<rparr>" and ?v = "cr4_shadow c"
  let ?d = "native_write_cr4 ?v (native_write_cr4 (?v XOR CR4_PGE) ?c)"
  have "flush_tlb_global has c = arch_local_irq_restore (eflags c) ?d"
    using False by (simp add: flush_tlb_global_def irq_save_eq read_cr4_def Let_def)
  also have "\<dots> = ?d\<lparr>eflags := eflags c\<rparr>" by (rule irq_restore_eq) simp
  also have "\<dots> = c\<lparr>tlb := [], reg_cr4 := ?v\<rparr>"
    by (rule cpu.equality) (simp_all add: toggle_flushes)
  finally show ?thesis using False by simp
qed

text \<open>
  C19: \<open>flush_tlb_all\<close> leaves no translation in the caches, global or not, whichever of its two ways it takes;
  and when the shadow of CR4 is true, all registers and the interrupt flag are as they were.
\<close>

theorem flush_tlb_all_flushes:
  "tlb (flush_tlb_all info c) = [] \<and>
   (cr4_shadow c = reg_cr4 c \<longrightarrow> flush_tlb_all info c = c\<lparr>tlb := []\<rparr>)"
  by (auto simp: flush_tlb_all_def flush_tlb_global_eq)

lemma flush_tlb_all_flushes_witness:
  "flush_tlb_all cpu_info_zero \<lparr>eflags = 0x202, reg_cr3 = 0x1000, reg_cr4 = 0xA0, cr4_shadow = 0xA0, tlb = [\<lparr>te_page = 1, te_pcid = 0, te_global = True\<rparr>]\<rparr> =
   \<lparr>eflags = 0x202, reg_cr3 = 0x1000, reg_cr4 = 0xA0, cr4_shadow = 0xA0, tlb = []\<rparr>"
  using flush_tlb_all_flushes [of cpu_info_zero
      "\<lparr>eflags = 0x202, reg_cr3 = 0x1000, reg_cr4 = 0xA0, cr4_shadow = 0xA0, tlb = [\<lparr>te_page = 1, te_pcid = 0, te_global = True\<rparr>]\<rparr>"]
  by simp

text \<open>The flush of the current context drops exactly its own translations.\<close>

lemma flush_tlb_local_spec:
  assumes "reg_cr3 c AND BIT_UL 63 = 0"
  shows "flush_tlb_local c = c\<lparr>tlb := filter (\<lambda>e. te_global e \<or> te_pcid e \<noteq> current_pcid c) (tlb c)\<rparr>"
proof -
  let ?c = "c\<lparr>eflags := eflags c AND NOT EFLAGS_IF\<rparr>"
  have "flush_tlb_local c = arch_local_irq_restore (eflags c) (native_write_cr3 (reg_cr3 c) ?c)"
    by (simp add: flush_tlb_local_def irq_save_eq Let_def)
  also have "\<dots> = (native_write_cr3 (reg_cr3 c) ?c)\<lparr>eflags := eflags c\<rparr>" by (rule irq_restore_eq) simp
  also have "\<dots> = c\<lparr>tlb := filter (\<lambda>e. te_global e \<or> te_pcid e \<noteq> current_pcid c) (tlb c)\<rparr>"
    using assms by (intro cpu.equality) (simp_all add: native_write_cr3_def current_pcid_def)
  finally show ?thesis .
qed

section \<open>The shadow of CR4\<close>

lemma cr4_update_spec:
  assumes "cr4_shadow c = reg_cr4 c"
  shows "reg_cr4 (cr4_update st clr c) = (reg_cr4 c AND NOT clr) OR st"
    and "cr4_shadow (cr4_update st clr c) = (reg_cr4 c AND NOT clr) OR st"
    and "eflags (cr4_update st clr c) = eflags c" "reg_cr3 (cr4_update st clr c) = reg_cr3 c"
  using assms by (simp_all add: cr4_update_def read_cr4_def Let_def)

lemma cr4_set_bits_spec:
  assumes "cr4_shadow c = reg_cr4 c"
  shows "reg_cr4 (cr4_set_bits bits c) = reg_cr4 c OR bits" "cr4_shadow (cr4_set_bits bits c) = reg_cr4 c OR bits"
    "eflags (cr4_set_bits bits c) = eflags c" "reg_cr3 (cr4_set_bits bits c) = reg_cr3 c"
proof -
  let ?c = "c\<lparr>eflags := eflags c AND NOT EFLAGS_IF\<rparr>"
  note u = cr4_update_spec [of ?c bits 0]
  have "cr4_set_bits bits c = arch_local_irq_restore (eflags c) (cr4_update bits 0 ?c)"
    by (simp add: cr4_set_bits_def irq_save_eq Let_def)
  also have "\<dots> = (cr4_update bits 0 ?c)\<lparr>eflags := eflags c\<rparr>" using assms u(3) by (intro irq_restore_eq) simp
  finally show "reg_cr4 (cr4_set_bits bits c) = reg_cr4 c OR bits" "cr4_shadow (cr4_set_bits bits c) = reg_cr4 c OR bits"
    "eflags (cr4_set_bits bits c) = eflags c" "reg_cr3 (cr4_set_bits bits c) = reg_cr3 c" using assms u by simp_all
qed

lemma cr4_clear_bits_spec:
  assumes "cr4_shadow c = reg_cr4 c"
  shows "reg_cr4 (cr4_clear_bits bits c) = reg_cr4 c AND NOT bits" "cr4_shadow (cr4_clear_bits bits c) = reg_cr4 c AND NOT bits"
    "eflags (cr4_clear_bits bits c) = eflags c" "reg_cr3 (cr4_clear_bits bits c) = reg_cr3 c"
proof -
  let ?c = "c\<lparr>eflags := eflags c AND NOT EFLAGS_IF\<rparr>"
  note u = cr4_update_spec [of ?c 0 bits]
  have "cr4_clear_bits bits c = arch_local_irq_restore (eflags c) (cr4_update 0 bits ?c)"
    by (simp add: cr4_clear_bits_def irq_save_eq Let_def)
  also have "\<dots> = (cr4_update 0 bits ?c)\<lparr>eflags := eflags c\<rparr>" using assms u(3) by (intro irq_restore_eq) simp
  finally show "reg_cr4 (cr4_clear_bits bits c) = reg_cr4 c AND NOT bits" "cr4_shadow (cr4_clear_bits bits c) = reg_cr4 c AND NOT bits"
    "eflags (cr4_clear_bits bits c) = eflags c" "reg_cr3 (cr4_clear_bits bits c) = reg_cr3 c" using assms u by simp_all
qed

text \<open>The operations on the processor that the micro-kernel performs once the shadow is set up.\<close>

datatype cpu_op = Set_bits u64 | Clear_bits u64 | Flush_all cpuinfo_x86 | Flush_local | Flush_one u64

fun cpu_exec :: "cpu_op \<Rightarrow> cpu \<Rightarrow> cpu" where
  "cpu_exec (Set_bits bits) c = cr4_set_bits bits c"
| "cpu_exec (Clear_bits bits) c = cr4_clear_bits bits c"
| "cpu_exec (Flush_all info) c = flush_tlb_all info c"
| "cpu_exec Flush_local c = flush_tlb_local c"
| "cpu_exec (Flush_one addr) c = flush_tlb_one addr c"

fun cr4_spec :: "cpu_op \<Rightarrow> u64 \<Rightarrow> u64" where
  "cr4_spec (Set_bits bits) v = v OR bits"
| "cr4_spec (Clear_bits bits) v = v AND NOT bits"
| "cr4_spec op v = v"

lemma flush_tlb_all_true: "cr4_shadow c = reg_cr4 c \<Longrightarrow> flush_tlb_all info c = c\<lparr>tlb := []\<rparr>"
  by (simp add: flush_tlb_all_def flush_tlb_global_eq)

lemma cpu_exec_cr4:
  assumes "cr4_shadow c = reg_cr4 c" "reg_cr3 c AND BIT_UL 63 = 0"
  shows "reg_cr4 (cpu_exec op c) = cr4_spec op (reg_cr4 c) \<and> cr4_shadow (cpu_exec op c) = cr4_spec op (reg_cr4 c) \<and>
     eflags (cpu_exec op c) = eflags c \<and> reg_cr3 (cpu_exec op c) = reg_cr3 c"
proof (cases op)
  case (Set_bits bits)
  then show ?thesis using cr4_set_bits_spec [OF assms(1)] by simp
next
  case (Clear_bits bits)
  then show ?thesis using cr4_clear_bits_spec [OF assms(1)] by simp
next
  case (Flush_all info)
  then show ?thesis using assms(1) flush_tlb_all_true [OF assms(1)] by simp
next
  case Flush_local
  then show ?thesis using assms(1) flush_tlb_local_spec [OF assms(2)] by simp
next
  case (Flush_one addr)
  then show ?thesis using assms(1) by (simp add: flush_tlb_one_def invlpg_def)
qed

text \<open>
  C20: CR4 and its shadow: after \<open>cr4_init_shadow\<close>, whatever sequence of setting and clearing bits and of flushes
  follows, the register holds what the same bit operations make of its first value, the shadow agrees with it, and the
  interrupt flag and CR3 are as at the start.
\<close>

theorem cr4_operations_refine:
  assumes "reg_cr3 c AND BIT_UL 63 = 0"
  shows "reg_cr4 (fold cpu_exec ops (cr4_init_shadow c)) = fold cr4_spec ops (reg_cr4 c) \<and>
     cr4_shadow (fold cpu_exec ops (cr4_init_shadow c)) = fold cr4_spec ops (reg_cr4 c) \<and>
     eflags (fold cpu_exec ops (cr4_init_shadow c)) = eflags c \<and>
     reg_cr3 (fold cpu_exec ops (cr4_init_shadow c)) = reg_cr3 c"
proof -
  have "cr4_shadow d = reg_cr4 d \<Longrightarrow> reg_cr3 d AND BIT_UL 63 = 0 \<Longrightarrow>
     reg_cr4 (fold cpu_exec ops d) = fold cr4_spec ops (reg_cr4 d) \<and> cr4_shadow (fold cpu_exec ops d) = fold cr4_spec ops (reg_cr4 d) \<and>
     eflags (fold cpu_exec ops d) = eflags d \<and> reg_cr3 (fold cpu_exec ops d) = reg_cr3 d" for d
  proof (induction ops arbitrary: d)
    case (Cons op ops)
    from cpu_exec_cr4 [OF Cons.prems] Cons.prems(2) Cons.IH [of "cpu_exec op d"] show ?case by simp
  qed simp
  from this [of "cr4_init_shadow c"] assms show ?thesis by (simp add: cr4_init_shadow_def)
qed

lemma cr4_operations_refine_witness:
  "reg_cr4 (fold cpu_exec [Set_bits CR4_PCIDE, Flush_all cpu_info_zero, Clear_bits CR4_PGE]
     (cr4_init_shadow \<lparr>eflags = 2, reg_cr3 = 0x1000, reg_cr4 = 0xA0, cr4_shadow = 0, tlb = []\<rparr>)) = 0x20020"
proof -
  have "reg_cr3 \<lparr>eflags = 2, reg_cr3 = 0x1000, reg_cr4 = 0xA0, cr4_shadow = 0, tlb = []\<rparr> AND BIT_UL 63 = 0"
    by (simp add: BIT_UL_def)
  from cr4_operations_refine [OF this, of "[Set_bits CR4_PCIDE, Flush_all cpu_info_zero, Clear_bits CR4_PGE]"]
  show ?thesis by (simp add: CR4_PCIDE_def CR4_PGE_def BIT_UL_def)
qed

section \<open>The signature of a processor\<close>

text \<open>How the manual puts family, model and stepping together.\<close>

definition signature :: "nat \<Rightarrow> nat \<Rightarrow> nat \<Rightarrow> nat" where
  "signature f md st = st + 16 * (md mod 16) + 256 * min f 15 + 65536 * (md div 16) + 1048576 * (f - 15)"

lemma field_of_nat:
  assumes "k < 2 ^ 32" "j < 32"
  shows "unat (drop_bit j (of_nat k :: u32) AND mask i) = k div 2 ^ j mod 2 ^ i"
proof -
  have k: "unat (of_nat k :: u32) = k" using assms(1) by (subst unat_of_nat) simp
  have "unat (drop_bit j (of_nat k :: u32)) = drop_bit j (take_bit LENGTH(32) (unat (of_nat k :: u32)))" by (rule unsigned_drop_bit_eq)
  also have "take_bit LENGTH(32) (unat (of_nat k :: u32)) = k"
    unfolding k using assms(1) by (intro take_bit_nat_eq_self) simp
  finally have d: "unat (drop_bit j (of_nat k :: u32)) = k div 2 ^ j" by (simp only: drop_bit_eq_div)
  have "unat (drop_bit j (of_nat k :: u32) AND mask i) = take_bit i (unat (drop_bit j (of_nat k :: u32)))"
    by (simp only: take_bit_eq_mask [symmetric] unsigned_take_bit_eq)
  then show ?thesis by (simp only: d take_bit_eq_mod)
qed

lemma signature_fields:
  assumes "f \<le> 270" "md < 256" "st < 16"
  shows "signature f md st < 2 ^ 32" "signature f md st mod 16 = st" "signature f md st div 16 mod 16 = md mod 16"
    "signature f md st div 256 mod 16 = min f 15" "signature f md st div 65536 mod 16 = md div 16"
    "signature f md st div 1048576 mod 256 = f - 15"
proof -
  define a b c where "a = md mod 16" and "b = min f 15" and "c = md div 16"
  have lt: "a < 16" "b < 16" "c < 16" "f - 15 < 256" using assms by (auto simp: a_def b_def c_def)
  have s: "signature f md st = st + 16 * (a + 16 * (b + 256 * (c + 16 * (f - 15))))"
    by (simp add: signature_def a_def b_def c_def algebra_simps)
  have d: "(x + k * y) div k = y" "(x + k * y) mod k = x" if "x < k" for x k y :: nat using that by simp_all
  show "signature f md st < 2 ^ 32" unfolding s using assms(3) lt by simp
  show "signature f md st mod 16 = st" unfolding s using d(2) [OF assms(3)] .
  have d1: "signature f md st div 16 = a + 16 * (b + 256 * (c + 16 * (f - 15)))" unfolding s by (rule d(1) [OF assms(3)])
  then show "signature f md st div 16 mod 16 = md mod 16" using d(2) [OF lt(1)] by (simp only: a_def)
  have d2: "signature f md st div 256 = b + 256 * (c + 16 * (f - 15))"
  proof -
    have "signature f md st div 256 = signature f md st div 16 div 16" by (simp add: div_mult2_eq [symmetric])
    then show ?thesis unfolding d1 using d(1) [OF lt(1)] by simp
  qed
  then show "signature f md st div 256 mod 16 = min f 15"
  proof -
    have "(b + 256 * (c + 16 * (f - 15))) mod 16 = (b + 16 * (16 * (c + 16 * (f - 15)))) mod 16" by simp
    also have "\<dots> = b" by (rule d(2) [OF lt(2)])
    finally show ?thesis unfolding d2 b_def .
  qed
  have "b < 256" using lt(2) by simp
  then have d3: "signature f md st div 65536 = c + 16 * (f - 15)"
  proof -
    have "signature f md st div 65536 = signature f md st div 256 div 256" by (simp add: div_mult2_eq [symmetric])
    then show ?thesis unfolding d2 using d(1) [OF \<open>b < 256\<close>] by simp
  qed
  then show "signature f md st div 65536 mod 16 = md div 16" using d(2) [OF lt(3)] by (simp only: c_def)
  have "signature f md st div 1048576 = signature f md st div 65536 div 16" by (simp add: div_mult2_eq [symmetric])
  then have "signature f md st div 1048576 = f - 15" unfolding d3 using d(1) [OF lt(3)] by simp
  then show "signature f md st div 1048576 mod 256 = f - 15" using lt(4) by simp
qed

lemma signature_parts:
  assumes "f \<le> 270" "md < 256" "st < 16"
  defines "eax \<equiv> of_nat (signature f md st) :: u32"
  shows "eax AND 0xF = of_nat st" "drop_bit 4 eax AND 0xF = of_nat (md mod 16)" "drop_bit 8 eax AND 0xF = of_nat (min f 15)"
    "drop_bit 16 eax AND 0xF = of_nat (md div 16)" "drop_bit 20 eax AND 0xFF = of_nat (f - 15)"
proof -
  note sf = signature_fields [OF assms(1-3)]
  have m: "(0xF :: u32) = mask 4" "(0xFF :: u32) = mask 8" by (simp_all add: mask_eq_exp_minus_1)
  have fld: "drop_bit j eax AND mask i = of_nat (signature f md st div 2 ^ j mod 2 ^ i)" if "j < 32" for i j
    unfolding eax_def by (subst field_of_nat [OF sf(1) that, symmetric]) simp
  show "eax AND 0xF = of_nat st" using fld [of 0 4] sf(2) by (simp add: m)
  show "drop_bit 4 eax AND 0xF = of_nat (md mod 16)" using fld [of 4 4] sf(3) by (simp add: m)
  show "drop_bit 8 eax AND 0xF = of_nat (min f 15)" using fld [of 8 4] sf(4) by (simp add: m)
  show "drop_bit 16 eax AND 0xF = of_nat (md div 16)" using fld [of 16 4] sf(5) by (simp add: m)
  show "drop_bit 20 eax AND 0xFF = of_nat (f - 15)" using fld [of 20 8] sf(6) by (simp add: m)
qed

text \<open>
  The signature of a processor: what the architecture manual puts together from a family up to 270, a model below
  256 (below 16 for families before 6) and a stepping, the three functions take apart again.
\<close>

theorem cpu_signature_roundtrip:
  assumes "f \<le> 270" "md < 256" "st < 16" "f < 6 \<longrightarrow> md < 16"
  shows "x86_family (of_nat (signature f md st)) = of_nat f \<and> x86_model (of_nat (signature f md st)) = of_nat md \<and>
     x86_stepping (of_nat (signature f md st)) = of_nat st"
proof -
  note p = signature_parts [OF assms(1-3)]
  have inj: "(of_nat x :: u32) = of_nat y \<longleftrightarrow> x = y" if "x < 2 ^ 32" "y < 2 ^ 32" for x y
  proof -
    have "unat (of_nat x :: u32) = x" "unat (of_nat y :: u32) = y" using that by (subst unat_of_nat; simp)+
    then show ?thesis by metis
  qed
  have f15: "(of_nat (min f 15) :: u32) = 0xF \<longleftrightarrow> 15 \<le> f"
    using inj [of "min f 15" 15] by (auto simp: min_def split: if_splits)
  have fam: "x86_family (of_nat (signature f md st)) = of_nat f"
  proof (cases "15 \<le> f")
    case True
    then have "(0xF :: u32) + of_nat (f - 15) = of_nat (15 + (f - 15))" by (simp only: of_nat_add) simp
    with True show ?thesis using f15 by (simp add: x86_family_def Let_def p)
  next
    case False
    then show ?thesis using f15 by (simp add: x86_family_def Let_def p min_def split: if_splits)
  qed
  have six: "(0x6 :: u32) \<le> of_nat f \<longleftrightarrow> 6 \<le> f"
  proof -
    have "unat (of_nat f :: u32) = f" using assms(1) by (subst unat_of_nat) simp
    then show ?thesis by (simp add: word_le_nat_alt)
  qed
  have "(of_nat (md mod 16) :: u32) + push_bit 4 (of_nat (md div 16)) = of_nat (md mod 16 + 16 * (md div 16))"
    by (simp only: of_nat_add of_nat_mult push_bit_eq_mult) (simp add: mult.commute)
  also have "md mod 16 + 16 * (md div 16) = md" by simp
  finally have ext: "(of_nat (md mod 16) :: u32) + push_bit 4 (of_nat (md div 16)) = of_nat md" .
  have "x86_model (of_nat (signature f md st)) = of_nat md"
  proof (cases "6 \<le> f")
    case True
    then show ?thesis unfolding x86_model_def fam p(2,4) Let_def six ext [symmetric] by simp
  next
    case False
    then show ?thesis using assms(4) unfolding x86_model_def fam p(2,4) Let_def six by simp
  qed
  with fam p(1) show ?thesis by (simp add: x86_stepping_def)
qed

lemma cpu_signature_roundtrip_witness:
  "x86_family (of_nat (signature 6 0x3D 4)) = 6 \<and> x86_model (of_nat (signature 6 0x3D 4)) = 0x3D \<and> x86_stepping (of_nat (signature 6 0x3D 4)) = 4"
  using cpu_signature_roundtrip [of 6 61 4] by simp

section \<open>Features\<close>

text \<open>The register that a leaf of the capability table stands for, and the level that must be reached.\<close>

fun leaf_register :: "cpuid_fn \<Rightarrow> cpu_leaf \<Rightarrow> u32" where
  "leaf_register cpuid CPUID_1_ECX = fst (snd (snd (cpuid 1 0)))"
| "leaf_register cpuid CPUID_1_EDX = snd (snd (snd (cpuid 1 0)))"
| "leaf_register cpuid CPUID_7_ECX_0_EBX = fst (snd (cpuid 7 0))"
| "leaf_register cpuid CPUID_7_ECX_0_ECX = fst (snd (snd (cpuid 7 0)))"
| "leaf_register cpuid CPUID_7_ECX_0_EDX = snd (snd (snd (cpuid 7 0)))"

fun leaf_level :: "cpu_leaf \<Rightarrow> u32" where
  "leaf_level CPUID_1_ECX = 1"
| "leaf_level CPUID_1_EDX = 1"
| "leaf_level CPUID_7_ECX_0_EBX = 7"
| "leaf_level CPUID_7_ECX_0_ECX = 7"
| "leaf_level CPUID_7_ECX_0_EDX = 7"

lemma capability_stages [simp]:
  "x86_capability (address_sizes cpuid c) = x86_capability c"
  "x86_capability (vendor_info cpuid c) = x86_capability c"
  "x86_cpuid_level (vendor_info cpuid c) = fst (cpuid 0 0)"
  "x86_cpuid_level (basic_info cpuid c) = x86_cpuid_level c"
  by (simp_all add: address_sizes_def vendor_info_def basic_info_def get_cpuid_def Let_def split: prod.split)

lemma capability_words:
  "x86_capability (early_cpuinfo_init cpuid cpu_info_zero) ! leaf_index leaf =
     (if leaf_level leaf \<le> fst (cpuid 0 0) then leaf_register cpuid leaf else 0)"
proof -
  have seven: "(7 :: u32) \<le> fst (cpuid 0 0) \<Longrightarrow> 1 \<le> fst (cpuid 0 0)" by (rule order_trans [of _ 7]) simp_all
  have zero: "x86_capability cpu_info_zero = [0, 0, 0, 0, 0]" by (simp add: cpu_info_zero_def numeral_eq_Suc)
  have cap: "x86_capability (early_cpuinfo_init cpuid cpu_info_zero) =
      (let b = (if 1 \<le> fst (cpuid 0 0) then [fst (snd (snd (cpuid 1 0))), snd (snd (snd (cpuid 1 0))), 0, 0, 0] else [0, 0, 0, 0, 0])
       in if 7 \<le> fst (cpuid 0 0) then b[2 := fst (snd (cpuid 7 0)), 3 := fst (snd (snd (cpuid 7 0))), 4 := snd (snd (snd (cpuid 7 0)))]
          else b)"
    by (simp add: early_cpuinfo_init_def extended_features_def basic_info_def get_cpuid_def zero Let_def split: prod.split)
  show ?thesis unfolding cap using seven by (cases leaf) (auto simp: Let_def)
qed

text \<open>
  The features of a processor: after \<open>early_cpuinfo_init\<close>, \<open>this_cpu_has\<close> of a bit of any of the five leaves is
  non-zero exactly if the processor answers the leaf at all and the answer has the bit.
\<close>

theorem this_cpu_has_correct:
  assumes "x < 32"
  shows "this_cpu_has (early_cpuinfo_init cpuid cpu_info_zero) (CAP_BIT leaf x) \<noteq> 0 \<longleftrightarrow>
     leaf_level leaf \<le> fst (cpuid 0 0) \<and> bit (leaf_register cpuid leaf) x"
proof -
  have ix: "CAP_BIT leaf x div 32 = leaf_index leaf" "CAP_BIT leaf x mod 32 = x" using assms by (simp_all add: CAP_BIT_def)
  have one: "push_bit x 1 AND (ucast w :: u64) \<noteq> 0 \<longleftrightarrow> bit w x" for w :: u32
    using single_bit [of "ucast w" x] assms by (simp add: BIT_UL_def and.commute bit_ucast_iff)
  show ?thesis unfolding this_cpu_has_def ix one capability_words by simp
qed

lemma this_cpu_has_correct_witness:
  "this_cpu_has (early_cpuinfo_init (\<lambda>op ecx. if op = 0 then (13, 0, 0, 0) else if op = 7 then (0, 0x400, 0, 0) else (0, 0, 0, 0)) cpu_info_zero)
     CPUID_BIT_INVPCID \<noteq> 0"
  unfolding CPUID_BIT_INVPCID_def by (subst this_cpu_has_correct) (simp_all add: bit_iff_odd)

end
