(* ===== verification/Desc.thy ===== *)
theory Desc
  imports Prelude
begin

text \<open>
  The descriptor tables: segment descriptors and the global table (\<open>asm/segment.h\<close>, \<open>asm/desc_defs.h\<close>,
  \<open>cpu.c\<close>) and gates and the interrupt table (\<open>idt.c\<close>).  The processor's view of a descriptor is written
  after the figures of the architecture manual that the headers name, on the value and the bytes in memory.
\<close>

section \<open>Segment descriptors\<close>

definition GDT_ENTRY :: "u64 \<Rightarrow> u64 \<Rightarrow> u64 \<Rightarrow> u64" where
  "GDT_ENTRY attribute bas limit =
     push_bit (56 - 24) (bas AND 0xFF000000) OR push_bit 40 (attribute AND 0x0000F0FF) OR
     push_bit (48 - 16) (limit AND 0x000F0000) OR push_bit 16 (bas AND 0x00FFFFFF) OR (limit AND 0x0000FFFF)"

text \<open>The bit fields of \<open>union desc_struct\<close>, from the low end.\<close>

record desc_struct =
  limit0 :: u64
  base0 :: u64
  base1 :: u64
  d_type :: u64
  d_s :: u64
  d_dpl :: u64
  d_p :: u64
  limit1 :: u64
  d_avl :: u64
  d_l :: u64
  d_d :: u64
  d_g :: u64
  base2 :: u64

definition bits_at :: "nat \<Rightarrow> nat \<Rightarrow> u64 \<Rightarrow> u64" where "bits_at pos len w = take_bit len (drop_bit pos w)"

definition desc_of :: "u64 \<Rightarrow> desc_struct" where
  "desc_of raw_desc =
     \<lparr>limit0 = bits_at 0 16 raw_desc, base0 = bits_at 16 16 raw_desc, base1 = bits_at 32 8 raw_desc,
      d_type = bits_at 40 4 raw_desc, d_s = bits_at 44 1 raw_desc, d_dpl = bits_at 45 2 raw_desc, d_p = bits_at 47 1 raw_desc,
      limit1 = bits_at 48 4 raw_desc, d_avl = bits_at 52 1 raw_desc, d_l = bits_at 53 1 raw_desc,
      d_d = bits_at 54 1 raw_desc, d_g = bits_at 55 1 raw_desc, base2 = bits_at 56 8 raw_desc\<rparr>"

definition seg_base :: "desc_struct \<Rightarrow> u64" where
  "seg_base d = base0 d OR push_bit 16 (base1 d) OR push_bit 24 (base2 d)"

definition seg_limit :: "desc_struct \<Rightarrow> u64" where
  "seg_limit d = limit0 d OR push_bit 16 (limit1 d)"

abbreviation (input) GDT_ENTRIES :: nat where "GDT_ENTRIES \<equiv> 12"

datatype gdt_index = KERNEL32_CS | KERNEL_CS | KERNEL_DS | DEFAULT_USER32_CS | DEFAULT_USER_DS | DEFAULT_USER_CS | TSS | LDT

fun gdt_index_of :: "gdt_index \<Rightarrow> nat" where
  "gdt_index_of KERNEL32_CS = 1"
| "gdt_index_of KERNEL_CS = 2"
| "gdt_index_of KERNEL_DS = 3"
| "gdt_index_of DEFAULT_USER32_CS = 4"
| "gdt_index_of DEFAULT_USER_DS = 5"
| "gdt_index_of DEFAULT_USER_CS = 6"
| "gdt_index_of TSS = 8"
| "gdt_index_of LDT = 10"

text \<open>The selectors: the kernel's are the offset in the table, the user's have the privilege level 3.\<close>

definition selector :: "gdt_index \<Rightarrow> u16" where
  "selector i =
     (if i \<in> {DEFAULT_USER32_CS, DEFAULT_USER_DS, DEFAULT_USER_CS} then of_nat (gdt_index_of i * 8 + 3)
      else of_nat (gdt_index_of i * 8))"

definition gdt_page :: "u64 list" where
  "gdt_page = (replicate GDT_ENTRIES 0)
     [gdt_index_of KERNEL32_CS := GDT_ENTRY 0xC09B 0 0xFFFFF,
      gdt_index_of KERNEL_CS := GDT_ENTRY 0xA09B 0 0xFFFFF,
      gdt_index_of KERNEL_DS := GDT_ENTRY 0xC093 0 0xFFFFF,
      gdt_index_of DEFAULT_USER32_CS := GDT_ENTRY 0xC0FB 0 0xFFFFF,
      gdt_index_of DEFAULT_USER_DS := GDT_ENTRY 0xC0F3 0 0xFFFFF,
      gdt_index_of DEFAULT_USER_CS := GDT_ENTRY 0xA0FB 0 0xFFFFF]"

section \<open>Loading the tables\<close>

record dt_ptr =
  dt_size :: u16
  dt_base_address :: u64

definition GDT_SIZE :: nat where "GDT_SIZE = GDT_ENTRIES * 8"

record table_regs =
  gdtr :: dt_ptr
  idtr :: dt_ptr
  msr_gs_base :: u64

text \<open>\<open>gdt_addr cpu\<close> is the address of \<open>per_cpu(gdt_page, cpu).gdt\<close>.\<close>

definition load_direct_gdt :: "(nat \<Rightarrow> u64) \<Rightarrow> nat \<Rightarrow> table_regs \<Rightarrow> table_regs" where
  "load_direct_gdt gdt_addr cpu r = r\<lparr>gdtr := \<lparr>dt_size = of_nat (GDT_SIZE - 1), dt_base_address = gdt_addr cpu\<rparr>\<rparr>"

definition switch_gdt_and_percpu_base :: "(nat \<Rightarrow> u64) \<Rightarrow> (nat \<Rightarrow> u64) \<Rightarrow> nat \<Rightarrow> table_regs \<Rightarrow> table_regs" where
  "switch_gdt_and_percpu_base gdt_addr per_cpu_offset cpu r =
     (load_direct_gdt gdt_addr cpu r)\<lparr>msr_gs_base := per_cpu_offset cpu\<rparr>"

section \<open>Gates\<close>

datatype gate_type = GATE_INTERRUPT | GATE_TRAP

fun gate_type_code :: "gate_type \<Rightarrow> u16" where
  "gate_type_code GATE_INTERRUPT = 0xE"
| "gate_type_code GATE_TRAP = 0xF"

record idt_bits =
  ib_ist :: u16
  ib_zero :: u16
  ib_type :: u16
  ib_dpl :: u16
  ib_p :: u16

record gate_desc =
  g_offset_low :: u16
  g_segment :: u16
  g_bits :: idt_bits
  g_offset_middle :: u16
  g_offset_high :: u32
  g_reserved :: u32

record idt_data =
  id_vector :: nat
  id_segment :: u16
  id_offset :: u64
  id_bits :: idt_bits

abbreviation (input) DEFAULT_STACK :: u16 where "DEFAULT_STACK \<equiv> 0"

definition G :: "nat \<Rightarrow> u16 \<Rightarrow> u64 \<Rightarrow> u16 \<Rightarrow> gate_type \<Rightarrow> u16 \<Rightarrow> idt_data" where
  "G v seg off stack ty dpl =
     \<lparr>id_vector = v, id_segment = seg, id_offset = off,
      id_bits = \<lparr>ib_ist = stack, ib_zero = 0, ib_type = gate_type_code ty, ib_dpl = dpl, ib_p = 1\<rparr>\<rparr>"

definition INTG :: "nat \<Rightarrow> u64 \<Rightarrow> idt_data" where
  "INTG v off = G v (selector KERNEL_CS) off DEFAULT_STACK GATE_INTERRUPT 0"

definition SYSG :: "nat \<Rightarrow> u64 \<Rightarrow> idt_data" where
  "SYSG v off = G v (selector KERNEL_CS) off DEFAULT_STACK GATE_INTERRUPT 3"

definition ISTG :: "nat \<Rightarrow> u64 \<Rightarrow> u16 \<Rightarrow> idt_data" where
  "ISTG v off stack = G v (selector KERNEL_CS) off (stack + 1) GATE_INTERRUPT 0"

definition init_gate_desc :: "idt_data \<Rightarrow> gate_desc" where
  "init_gate_desc d =
     \<lparr>g_offset_low = ucast (id_offset d), g_segment = id_segment d, g_bits = id_bits d,
      g_offset_middle = ucast (drop_bit 16 (id_offset d)), g_offset_high = ucast (drop_bit 32 (id_offset d)), g_reserved = 0\<rparr>"

abbreviation (input) IDT_ENTRIES :: nat where "IDT_ENTRIES \<equiv> 256"
abbreviation (input) IDT_EXCEPTION_ENTRIES :: nat where "IDT_EXCEPTION_ENTRIES \<equiv> 32"
abbreviation (input) EXCEPTION_PF :: nat where "EXCEPTION_PF \<equiv> 14"

definition zero_gate :: gate_desc where
  "zero_gate = \<lparr>g_offset_low = 0, g_segment = 0, g_bits = \<lparr>ib_ist = 0, ib_zero = 0, ib_type = 0, ib_dpl = 0, ib_p = 0\<rparr>,
     g_offset_middle = 0, g_offset_high = 0, g_reserved = 0\<rparr>"

definition idt_table_init :: "gate_desc list" where "idt_table_init = replicate IDT_ENTRIES zero_gate"

fun idt_setup_from_table :: "gate_desc list \<Rightarrow> idt_data list \<Rightarrow> gate_desc list option" where
  "idt_setup_from_table idt [] = Some idt"
| "idt_setup_from_table idt (d # t) =
     (if id_vector d < length idt then idt_setup_from_table (idt[id_vector d := init_gate_desc d]) t else None)"

fun early_loop :: "u64 \<Rightarrow> nat list \<Rightarrow> gate_desc list \<Rightarrow> gate_desc list option" where
  "early_loop handlers [] idt = Some idt"
| "early_loop handlers (i # is) idt =
     Option.bind (idt_setup_from_table idt [INTG i (handlers + of_nat (9 * i))]) (early_loop handlers is)"

definition idt_ptr :: "u64 \<Rightarrow> dt_ptr" where
  "idt_ptr table_addr = \<lparr>dt_size = of_nat (IDT_ENTRIES * 16 - 1), dt_base_address = table_addr\<rparr>"

definition idt_setup_early_handler ::
  "u64 \<Rightarrow> u64 \<Rightarrow> gate_desc list \<times> table_regs \<Rightarrow> (gate_desc list \<times> table_regs) option" where
  "idt_setup_early_handler table_addr handlers w =
     map_option (\<lambda>idt. (idt, (snd w)\<lparr>idtr := idt_ptr table_addr\<rparr>))
       (early_loop handlers [0..<IDT_EXCEPTION_ENTRIES] (fst w))"

definition idt_setup_pf :: "u64 \<Rightarrow> gate_desc list \<Rightarrow> gate_desc list option" where
  "idt_setup_pf asm_exc_page_fault idt = idt_setup_from_table idt [INTG EXCEPTION_PF asm_exc_page_fault]"

text \<open>The device interrupts: the handler gets the low byte of what the entry code pushed, and does nothing yet.\<close>

definition common_interrupt :: "u64 \<Rightarrow> u8" where "common_interrupt error_code = ucast error_code"

section \<open>What the processor reads\<close>

lemma bits_at_iff: "bit (bits_at pos len w) i \<longleftrightarrow> i < len \<and> bit w (pos + i)"
  by (auto simp: bits_at_def bit_take_bit_iff bit_drop_bit_eq)

text \<open>An attribute, a base and a limit come back out of the descriptor, up to the widths of their fields.\<close>

lemma mask_bits:
  "bit (0xFFFFF :: u64) i \<longleftrightarrow> i < 20" "bit (0xFFFF :: u64) i \<longleftrightarrow> i < 16" "bit (0xF0000 :: u64) i \<longleftrightarrow> 16 \<le> i \<and> i < 20"
  "bit (0xFF000000 :: u64) i \<longleftrightarrow> 24 \<le> i \<and> i < 32" "bit (0xFFFFFF :: u64) i \<longleftrightarrow> i < 24" "bit (0xFFFFFFFF :: u64) i \<longleftrightarrow> i < 32"
  "bit (0xF0FF :: u64) i \<longleftrightarrow> i < 8 \<or> 12 \<le> i \<and> i < 16"
proof -
  have "(0xFFFFF :: u64) = mask 20" "(0xFFFF :: u64) = mask 16" "(0xF0000 :: u64) = push_bit 16 (mask 4)"
      "(0xFF000000 :: u64) = push_bit 24 (mask 8)" "(0xFFFFFF :: u64) = mask 24" "(0xFFFFFFFF :: u64) = mask 32"
      "(0xF0FF :: u64) = mask 8 OR push_bit 12 (mask 4)"
    by (simp_all add: mask_eq_exp_minus_1 push_bit_eq_mult)
  note eqs = this
  show "bit (0xFFFFF :: u64) i \<longleftrightarrow> i < 20" "bit (0xFFFF :: u64) i \<longleftrightarrow> i < 16" "bit (0xF0000 :: u64) i \<longleftrightarrow> 16 \<le> i \<and> i < 20"
    "bit (0xFF000000 :: u64) i \<longleftrightarrow> 24 \<le> i \<and> i < 32" "bit (0xFFFFFF :: u64) i \<longleftrightarrow> i < 24" "bit (0xFFFFFFFF :: u64) i \<longleftrightarrow> i < 32"
    "bit (0xF0FF :: u64) i \<longleftrightarrow> i < 8 \<or> 12 \<le> i \<and> i < 16"
    unfolding eqs by (auto simp: bit_mask_iff bit_push_bit_iff bit_or_iff)
qed

lemma GDT_ENTRY_bit:
  "bit (GDT_ENTRY a b l) i \<longleftrightarrow>
     (if i < 16 then bit l i else if i < 40 then bit b (i - 16) else if i < 48 then bit a (i - 40)
      else if i < 52 then bit l (i - 32) else if i < 56 then bit a (i - 40) else i < 64 \<and> bit b (i - 32))"
proof -
  have e: "bit (GDT_ENTRY a b l) i \<longleftrightarrow>
      i < 64 \<and> (32 \<le> i \<and> bit b (i - 32) \<and> 24 \<le> i - 32 \<and> i - 32 < 32 \<or> 40 \<le> i \<and> bit a (i - 40) \<and> (i - 40 < 8 \<or> 12 \<le> i - 40 \<and> i - 40 < 16) \<or>
        32 \<le> i \<and> bit l (i - 32) \<and> 16 \<le> i - 32 \<and> i - 32 < 20 \<or> 16 \<le> i \<and> bit b (i - 16) \<and> i - 16 < 24 \<or> bit l i \<and> i < 16)"
    unfolding GDT_ENTRY_def by (simp add: bit_or_iff bit_and_iff bit_push_bit_iff mask_bits del: push_bit_and bit_numeral_word_iff) auto
  consider "i < 16" | "16 \<le> i" "i < 32" | "32 \<le> i" "i < 40" | "40 \<le> i" "i < 48" | "48 \<le> i" "i < 52" |
      "52 \<le> i" "i < 56" | "56 \<le> i" by linarith
  then show ?thesis by cases (auto simp: e less_diff_conv2 le_diff_conv2)
qed

lemma bits_at_attribute:
  assumes "40 \<le> pos \<and> pos + len \<le> 48 \<or> 52 \<le> pos \<and> pos + len \<le> 56"
  shows "bits_at pos len (GDT_ENTRY a b l) = bits_at (pos - 40) len a"
proof (rule bit_word_eqI)
  fix i
  have "i < len \<Longrightarrow> bit (GDT_ENTRY a b l) (pos + i) = bit a (pos - 40 + i)"
    using assms by (auto simp: GDT_ENTRY_bit)
  then show "bit (bits_at pos len (GDT_ENTRY a b l)) i = bit (bits_at (pos - 40) len a) i" by (auto simp: bits_at_iff)
qed

lemma GDT_ENTRY_fields:
  "seg_base (desc_of (GDT_ENTRY a b l)) = b AND 0xFFFFFFFF"
  "seg_limit (desc_of (GDT_ENTRY a b l)) = l AND 0xFFFFF"
  "d_type (desc_of (GDT_ENTRY a b l)) = bits_at 0 4 a" "d_s (desc_of (GDT_ENTRY a b l)) = bits_at 4 1 a"
  "d_dpl (desc_of (GDT_ENTRY a b l)) = bits_at 5 2 a" "d_p (desc_of (GDT_ENTRY a b l)) = bits_at 7 1 a"
  "d_l (desc_of (GDT_ENTRY a b l)) = bits_at 13 1 a" "d_d (desc_of (GDT_ENTRY a b l)) = bits_at 14 1 a"
  "d_g (desc_of (GDT_ENTRY a b l)) = bits_at 15 1 a"
proof -
  show "seg_base (desc_of (GDT_ENTRY a b l)) = b AND 0xFFFFFFFF"
  proof (rule bit_word_eqI)
    fix i
    have e: "bit (seg_base (desc_of (GDT_ENTRY a b l))) i \<longleftrightarrow>
        i < 16 \<and> bit (GDT_ENTRY a b l) (16 + i) \<or> 16 \<le> i \<and> i - 16 < 8 \<and> i < 64 \<and> bit (GDT_ENTRY a b l) (32 + (i - 16)) \<or>
        24 \<le> i \<and> i - 24 < 8 \<and> i < 64 \<and> bit (GDT_ENTRY a b l) (56 + (i - 24))"
      by (auto simp: seg_base_def desc_of_def bit_or_iff bit_push_bit_iff bits_at_iff)
    consider "i < 16" | "16 \<le> i" "i < 24" | "24 \<le> i" "i < 32" | "32 \<le> i" by linarith
    then show "bit (seg_base (desc_of (GDT_ENTRY a b l))) i \<longleftrightarrow> bit (b AND 0xFFFFFFFF) i"
      by cases (simp_all add: e less_diff_conv2 GDT_ENTRY_bit bit_and_iff mask_bits del: bit_numeral_word_iff)
  qed
  show "seg_limit (desc_of (GDT_ENTRY a b l)) = l AND 0xFFFFF"
    by (rule bit_word_eqI) (auto simp: seg_limit_def desc_of_def bit_or_iff bit_and_iff bit_push_bit_iff bits_at_iff GDT_ENTRY_bit mask_bits simp del: bit_numeral_word_iff)
  show "d_type (desc_of (GDT_ENTRY a b l)) = bits_at 0 4 a" "d_s (desc_of (GDT_ENTRY a b l)) = bits_at 4 1 a"
    "d_dpl (desc_of (GDT_ENTRY a b l)) = bits_at 5 2 a" "d_p (desc_of (GDT_ENTRY a b l)) = bits_at 7 1 a"
    "d_l (desc_of (GDT_ENTRY a b l)) = bits_at 13 1 a" "d_d (desc_of (GDT_ENTRY a b l)) = bits_at 14 1 a"
    "d_g (desc_of (GDT_ENTRY a b l)) = bits_at 15 1 a"
    by (simp_all add: desc_of_def bits_at_attribute)
qed

text \<open>What a selector gives the processor: base, limit in units of 4 KiB, kind, privilege and mode.\<close>

record segment_view =
  sv_base :: u64
  sv_limit :: u64
  sv_code :: bool
  sv_dpl :: nat
  sv_long :: bool
  sv_default32 :: bool

definition load_selector :: "u64 list \<Rightarrow> u16 \<Rightarrow> segment_view option" where
  "load_selector table sel =
     (let i = unat sel div 8
      in if i = 0 \<or> length table \<le> i then None
         else let d = desc_of (table ! i)
           in if d_p d = 0 \<or> d_s d = 0 \<or> d_g d = 0 then None
              else Some \<lparr>sv_base = seg_base d, sv_limit = seg_limit d, sv_code = bit (d_type d) 3, sv_dpl = unat (d_dpl d),
                         sv_long = (d_l d = 1), sv_default32 = (d_d d = 1)\<rparr>)"

definition flat :: "bool \<Rightarrow> nat \<Rightarrow> bool \<Rightarrow> segment_view option" where
  "flat code dpl long = Some \<lparr>sv_base = 0, sv_limit = 0xFFFFF, sv_code = code, sv_dpl = dpl, sv_long = long, sv_default32 = (\<not> long)\<rparr>"

lemma gdt_page_segments:
  "load_selector gdt_page (selector KERNEL32_CS) = flat True 0 False"
  "load_selector gdt_page (selector KERNEL_CS) = flat True 0 True"
  "load_selector gdt_page (selector KERNEL_DS) = flat False 0 False"
  "load_selector gdt_page (selector DEFAULT_USER32_CS) = flat True 3 False"
  "load_selector gdt_page (selector DEFAULT_USER_DS) = flat False 3 False"
  "load_selector gdt_page (selector DEFAULT_USER_CS) = flat True 3 True"
  by code_simp+


section \<open>The interrupt table\<close>

text \<open>A gate as the two words in memory, and what the processor takes from them.\<close>

definition bits_word :: "idt_bits \<Rightarrow> u16" where
  "bits_word b = take_bit 3 (ib_ist b) OR push_bit 3 (take_bit 5 (ib_zero b)) OR push_bit 8 (take_bit 5 (ib_type b)) OR
     push_bit 13 (take_bit 2 (ib_dpl b)) OR push_bit 15 (take_bit 1 (ib_p b))"

definition gate_low :: "gate_desc \<Rightarrow> u64" where
  "gate_low g = ucast (g_offset_low g) OR push_bit 16 (ucast (g_segment g)) OR push_bit 32 (ucast (bits_word (g_bits g))) OR
     push_bit 48 (ucast (g_offset_middle g))"

definition gate_high :: "gate_desc \<Rightarrow> u64" where
  "gate_high g = ucast (g_offset_high g) OR push_bit 32 (ucast (g_reserved g))"

record gate_view =
  gv_target :: u64
  gv_selector :: u64
  gv_ist :: nat
  gv_trap :: bool
  gv_dpl :: nat

definition read_gate :: "u64 \<Rightarrow> u64 \<Rightarrow> gate_view option" where
  "read_gate lo hi =
     (if bits_at 47 1 lo = 0 \<or> bits_at 40 5 lo \<notin> {0xE, 0xF} then None
      else Some \<lparr>gv_target = bits_at 0 16 lo OR push_bit 16 (bits_at 48 16 lo) OR push_bit 32 (bits_at 0 32 hi),
                 gv_selector = bits_at 16 16 lo, gv_ist = unat (bits_at 32 3 lo), gv_trap = (bits_at 40 5 lo = 0xF),
                 gv_dpl = unat (bits_at 45 2 lo)\<rparr>)"

definition vector_view :: "gate_desc list \<Rightarrow> nat \<Rightarrow> gate_view option" where
  "vector_view idt v = read_gate (gate_low (idt ! v)) (gate_high (idt ! v))"

lemma gate_low_bit:
  "bit (gate_low g) i \<longleftrightarrow>
     (if i < 16 then bit (g_offset_low g) i else if i < 32 then bit (g_segment g) (i - 16)
      else if i < 48 then bit (bits_word (g_bits g)) (i - 32) else i < 64 \<and> bit (g_offset_middle g) (i - 48))"
proof -
  have r: "bit (w :: u16) k \<Longrightarrow> k < 16" for w k using bit_imp_le_length [of w k] by simp
  have e: "bit (gate_low g) i \<longleftrightarrow> bit (g_offset_low g) i \<or> (16 \<le> i \<and> i < 64 \<and> bit (g_segment g) (i - 16)) \<or>
      (32 \<le> i \<and> i < 64 \<and> bit (bits_word (g_bits g)) (i - 32)) \<or> (48 \<le> i \<and> i < 64 \<and> bit (g_offset_middle g) (i - 48))"
    using r [of "g_offset_low g" i] by (auto simp: gate_low_def bit_or_iff bit_push_bit_iff bit_ucast_iff)
  consider "i < 16" | "16 \<le> i" "i < 32" | "32 \<le> i" "i < 48" | "48 \<le> i" by linarith
  then show ?thesis
    by cases (use r [of "g_offset_low g" i] r [of "g_segment g" "i - 16"] r [of "bits_word (g_bits g)" "i - 32"] in \<open>auto simp: e\<close>)
qed

lemma bits_at_gate:
  "bits_at 0 16 (gate_low g) = ucast (g_offset_low g)" "bits_at 16 16 (gate_low g) = ucast (g_segment g)"
  "bits_at 48 16 (gate_low g) = ucast (g_offset_middle g)"
  "j + len \<le> 16 \<Longrightarrow> bits_at (32 + j) len (gate_low g) = ucast (take_bit len (drop_bit j (bits_word (g_bits g))))"
  "bits_at 0 32 (gate_high g) = ucast (g_offset_high g)"
proof -
  have r: "bit (w :: u16) k \<Longrightarrow> k < 16" for w k using bit_imp_le_length [of w k] by simp
  have r32: "bit (w :: u32) k \<Longrightarrow> k < 32" for w k using bit_imp_le_length [of w k] by simp
  show "bits_at 0 16 (gate_low g) = ucast (g_offset_low g)" "bits_at 16 16 (gate_low g) = ucast (g_segment g)"
    "bits_at 48 16 (gate_low g) = ucast (g_offset_middle g)"
    by (rule bit_word_eqI; use r in \<open>auto simp: bits_at_iff gate_low_bit bit_ucast_iff\<close>)+
  show "bits_at (32 + j) len (gate_low g) = ucast (take_bit len (drop_bit j (bits_word (g_bits g))))" if "j + len \<le> 16"
    using that by (intro bit_word_eqI) (auto simp: bits_at_iff gate_low_bit bit_ucast_iff bit_take_bit_iff bit_drop_bit_eq add.assoc)
  show "bits_at 0 32 (gate_high g) = ucast (g_offset_high g)"
    by (rule bit_word_eqI; use r32 in \<open>auto simp: bits_at_iff gate_high_def bit_or_iff bit_push_bit_iff bit_ucast_iff\<close>)
qed

lemma target_parts:
  "(ucast (ucast off :: u16) :: u64) OR push_bit 16 (ucast (ucast (drop_bit 16 off) :: u16)) OR
     push_bit 32 (ucast (ucast (drop_bit 32 off) :: u32)) = (off :: u64)"
proof (rule bit_word_eqI)
  fix i assume "i < LENGTH(64)"
  then consider "i < 16" | "16 \<le> i" "i < 32" | "32 \<le> i" "i < 64" by fastforce
  then show "bit ((ucast (ucast off :: u16) :: u64) OR push_bit 16 (ucast (ucast (drop_bit 16 off) :: u16)) OR
     push_bit 32 (ucast (ucast (drop_bit 32 off) :: u32))) i = bit off i"
    by cases (auto simp: bit_or_iff bit_push_bit_iff bit_ucast_iff bit_drop_bit_eq less_diff_conv2)
qed

definition gate_for :: "u64 \<Rightarrow> nat \<Rightarrow> gate_view option" where
  "gate_for target dpl = Some \<lparr>gv_target = target, gv_selector = 16, gv_ist = 0, gv_trap = False, gv_dpl = dpl\<rparr>"

lemma read_INTG: "read_gate (gate_low (init_gate_desc (INTG v off))) (gate_high (init_gate_desc (INTG v off))) = gate_for off 0"
proof -
  let ?g = "init_gate_desc (INTG v off)"
  have w: "bits_word (g_bits ?g) = 0x8E00"
    by (simp add: init_gate_desc_def INTG_def G_def) code_simp
  have sel: "(ucast (g_segment ?g) :: u64) = 16" by (simp add: init_gate_desc_def INTG_def G_def) code_simp
  have "bits_at 47 1 (gate_low ?g) = 1" "bits_at 40 5 (gate_low ?g) = 0xE" "bits_at 32 3 (gate_low ?g) = 0" "bits_at 45 2 (gate_low ?g) = 0"
    using bits_at_gate(4) [of 15 1 ?g] bits_at_gate(4) [of 8 5 ?g] bits_at_gate(4) [of 0 3 ?g] bits_at_gate(4) [of 13 2 ?g]
    unfolding w by (simp_all add: drop_bit_eq_div take_bit_eq_mod)
  then show ?thesis
    unfolding read_gate_def gate_for_def bits_at_gate(1-3,5) sel
    by (simp add: init_gate_desc_def INTG_def G_def target_parts)
qed

lemma read_SYSG: "read_gate (gate_low (init_gate_desc (SYSG v off))) (gate_high (init_gate_desc (SYSG v off))) = gate_for off 3"
proof -
  let ?g = "init_gate_desc (SYSG v off)"
  have w: "bits_word (g_bits ?g) = 0xEE00"
    by (simp add: init_gate_desc_def SYSG_def G_def) code_simp
  have sel: "(ucast (g_segment ?g) :: u64) = 16" by (simp add: init_gate_desc_def SYSG_def G_def) code_simp
  have "bits_at 47 1 (gate_low ?g) = 1" "bits_at 40 5 (gate_low ?g) = 0xE" "bits_at 32 3 (gate_low ?g) = 0" "bits_at 45 2 (gate_low ?g) = 3"
    using bits_at_gate(4) [of 15 1 ?g] bits_at_gate(4) [of 8 5 ?g] bits_at_gate(4) [of 0 3 ?g] bits_at_gate(4) [of 13 2 ?g]
    unfolding w by (simp_all add: drop_bit_eq_div take_bit_eq_mod)
  then show ?thesis
    unfolding read_gate_def gate_for_def bits_at_gate(1-3,5) sel
    by (simp add: init_gate_desc_def SYSG_def G_def target_parts)
qed

lemma read_zero_gate: "read_gate (gate_low zero_gate) (gate_high zero_gate) = None"
  by code_simp

lemma early_loop_eq:
  "\<forall>i \<in> set is. i < length idt \<Longrightarrow> distinct is \<Longrightarrow>
   \<exists>idt'. early_loop h is idt = Some idt' \<and> length idt' = length idt \<and>
     (\<forall>v < length idt. idt' ! v = (if v \<in> set is then init_gate_desc (INTG v (h + of_nat (9 * v))) else idt ! v))"
proof (induction "is" arbitrary: idt)
  case Nil
  then show ?case by simp
next
  case (Cons i "is")
  let ?idt = "idt[i := init_gate_desc (INTG i (h + of_nat (9 * i)))]"
  have "early_loop h (i # is) idt = early_loop h is ?idt"
    using Cons.prems by (simp add: INTG_def G_def)
  moreover from Cons.IH [of ?idt] Cons.prems obtain idt' where "early_loop h is ?idt = Some idt'" "length idt' = length idt"
      "\<forall>v < length idt. idt' ! v = (if v \<in> set is then init_gate_desc (INTG v (h + of_nat (9 * v))) else ?idt ! v)"
    by auto
  ultimately show ?case using Cons.prems by (auto simp: nth_list_update)
qed

text \<open>
  C22: The interrupt table of the boot: after \<open>idt_setup_early_handler\<close> and then \<open>idt_setup_pf\<close> the processor finds, for each
  exception, a present interrupt gate into the code segment of the kernel with privilege level 0: for a page fault to the
  handler of the micro-kernel, for every other one to its own nine bytes of the early handlers; no other vector has a gate.
\<close>

theorem idt_boot_gates:
  "\<exists>idt r' idt'. idt_setup_early_handler table_addr handlers (idt_table_init, r) = Some (idt, r') \<and>
     idtr r' = \<lparr>dt_size = 4095, dt_base_address = table_addr\<rparr> \<and> idt_setup_pf pf idt = Some idt' \<and>
     (\<forall>v < 256. vector_view idt' v =
        (if v = 14 then gate_for pf 0 else if v < 32 then gate_for (handlers + of_nat (9 * v)) 0 else None))"
proof -
  have len: "length idt_table_init = 256" by (simp add: idt_table_init_def)
  from early_loop_eq [of "[0..<32]" idt_table_init handlers] obtain idt where idt: "early_loop handlers [0..<32] idt_table_init = Some idt"
      "length idt = 256" "\<forall>v < 256. idt ! v = (if v < 32 then init_gate_desc (INTG v (handlers + of_nat (9 * v))) else zero_gate)"
    unfolding len by (auto simp: idt_table_init_def)
  let ?idt = "idt[14 := init_gate_desc (INTG 14 pf)]"
  have "idt_setup_early_handler table_addr handlers (idt_table_init, r) = Some (idt, r\<lparr>idtr := idt_ptr table_addr\<rparr>)"
    using idt(1) by (simp add: idt_setup_early_handler_def)
  moreover have "idt_setup_pf pf idt = Some ?idt" using idt(2) by (simp add: idt_setup_pf_def INTG_def G_def)
  moreover have "vector_view ?idt v =
      (if v = 14 then gate_for pf 0 else if v < 32 then gate_for (handlers + of_nat (9 * v)) 0 else None)" if "v < 256" for v
  proof (cases "v = 14")
    case True
    then show ?thesis using idt(2) by (simp add: vector_view_def read_INTG)
  next
    case False
    then show ?thesis using idt(3) that by (simp add: vector_view_def read_INTG read_zero_gate del: of_nat_mult)
  qed
  ultimately show ?thesis by (simp add: idt_ptr_def del: of_nat_mult)
qed

lemma idt_boot_gates_witness:
  "\<exists>idt r' idt'. idt_setup_early_handler 0xFFFF0000 0x1000 (idt_table_init, \<lparr>gdtr = idt_ptr 0, idtr = idt_ptr 0, msr_gs_base = 0\<rparr>) = Some (idt, r') \<and>
     idt_setup_pf 0x8000 idt = Some idt' \<and> vector_view idt' 13 = gate_for 0x1075 0"
proof -
  obtain idt r' idt' where w: "idt_setup_early_handler 0xFFFF0000 0x1000 (idt_table_init, \<lparr>gdtr = idt_ptr 0, idtr = idt_ptr 0, msr_gs_base = 0\<rparr>) = Some (idt, r')"
      "idt_setup_pf 0x8000 idt = Some idt'"
      "\<forall>v < 256. vector_view idt' v = (if v = 14 then gate_for 0x8000 0 else if v < 32 then gate_for (0x1000 + of_nat (9 * v)) 0 else None)"
    using idt_boot_gates [of "0xFFFF0000" "0x1000" "\<lparr>gdtr = idt_ptr 0, idtr = idt_ptr 0, msr_gs_base = 0\<rparr>" "0x8000"] by metis
  from w(3) [rule_format, of 13] have "vector_view idt' 13 = gate_for 0x1075 0" by simp
  with w(1,2) show ?thesis by blast
qed

end
