(* ===== verification/Setup.thy ===== *)
theory Setup
  imports MemblockProps E820 Mm Acpi Efi Cpu Desc
begin

text \<open>
  The boot of the architecture: \<open>setup_arch\<close> with the reservations of early memory (\<open>setup.c\<close>), the block
  for the real-mode code (\<open>realmode/init.c\<close>) and the areas of the processors (\<open>setup_percpu.c\<close>,
  \<open>percpu.h\<close>, \<open>smp.c\<close>), composed from the components in the order the code calls them.  Messages are left out.
\<close>

section \<open>Reservations (setup.c, realmode/init.c)\<close>

text \<open>The results of \<open>memblock_reserve\<close> are ignored by the code.\<close>

definition early_reserve_initrd :: "boot_params \<Rightarrow> memblock \<Rightarrow> memblock option" where
  "early_reserve_initrd bp m =
     (let ramdisk_image = bp_ramdisk_image bp; ramdisk_size = bp_ramdisk_size bp
      in if ramdisk_image = 0 \<or> ramdisk_size = 0 then Some m
         else let ramdisk_size = ROUND_UP ramdisk_size PAGE_SIZE
              in map_option fst (memblock_reserve m ramdisk_image ramdisk_size))"

text \<open>The symbols \<open>_text\<close> and \<open>__end_of_kernel_reserve\<close> are virtual addresses.\<close>

definition early_reserve_memory :: "u64 \<Rightarrow> u64 \<Rightarrow> u64 \<Rightarrow> boot_params \<Rightarrow> memblock \<Rightarrow> memblock option" where
  "early_reserve_memory pbase sym_text end_of_kernel_reserve bp m =
     do {
       (m, _) \<leftarrow> memblock_reserve m (sym_text - START_KERNEL_map + pbase) (end_of_kernel_reserve - sym_text);
       early_reserve_initrd bp m }"

definition real_mode_size_needed :: "u64 \<Rightarrow> u64" where
  "real_mode_size_needed blob_len = ROUND_UP blob_len PAGE_SIZE"

text \<open>The state is the memory map and \<open>real_mode_header\<close>.\<close>

definition reserve_real_mode :: "u64 \<Rightarrow> memblock \<times> u64 \<Rightarrow> ((memblock \<times> u64) \<times> (errno + unit)) option" where
  "reserve_real_mode blob_len s =
     (let sz = real_mode_size_needed blob_len
      in if sz = 0 then Some (s, Inr ())
         else do {
           (m, mem) \<leftarrow> memblock_alloc (fst s) sz PAGE_SIZE 0 (0 + BIT_UL 20) (- 1) False;
           if mem = 0 then Some ((m, snd s), Inl ENOMEM) else Some ((m, va mem), Inr ()) })"

definition initmem_init :: "memblock \<Rightarrow> memblock option" where
  "initmem_init m = map_option fst (memblock_set_node m 0 (- 1) 0)"

section \<open>setup\_arch (setup.c)\<close>

record kernel =
  k_cpu :: cpu
  k_info :: cpuinfo_x86
  k_apic :: apic_state
  k_e820 :: e820_table
  k_memory :: memblock
  k_cache :: cache_state
  k_real_mode_header :: u64
  k_mm :: mm
  k_idt :: "gate_desc list"
  k_acpi :: acpi_tables

text \<open>What the kernel finds: the answers of the processor and the interrupt controllers, the firmware's memory, its own symbols.\<close>

record surroundings =
  b_cpuid :: cpuid_fn
  b_rdmsrl :: "u64 \<Rightarrow> u64"
  b_params :: boot_params
  b_text :: u64
  b_end_of_kernel_reserve :: u64
  b_mm :: mm_const
  b_blob_len :: u64
  b_efi_map :: "bytes option"
  b_page_fault :: u64
  b_acpi_memory :: mmap
  b_apic_hw :: apic_hw
  b_uninit :: int

definition check_x2apic :: "(u64 \<Rightarrow> u64) \<Rightarrow> cpuinfo_x86 \<Rightarrow> apic_state \<Rightarrow> apic_state" where
  "check_x2apic rdmsrl info s =
     s\<lparr>x2apic_mode := (this_cpu_has info CPUID_BIT_X2APIC \<noteq> 0 \<and> rdmsrl 0x1B AND BIT_UL 10 \<noteq> 0)\<rparr>"

text \<open>What the components ask of the processor, done on it.\<close>

fun run_msr_event :: "cpuinfo_x86 \<Rightarrow> msr_event \<Rightarrow> cpu \<Rightarrow> cpu" where
  "run_msr_event info msr_event.Flush_all c = flush_tlb_all info c"
| "run_msr_event info ev c = c"

fun run_cpu_event :: "u64 \<Rightarrow> cpuinfo_x86 \<Rightarrow> cpu_event \<Rightarrow> cpu \<times> gate_desc list \<Rightarrow> (cpu \<times> gate_desc list) option" where
  "run_cpu_event pf info (Cr4_set_bits bits) (c, idt) = Some (cr4_set_bits bits c, idt)"
| "run_cpu_event pf info (Write_cr3 v) (c, idt) = Some (native_write_cr3 v c, idt)"
| "run_cpu_event pf info Flush_tlb_all (c, idt) = Some (flush_tlb_all info c, idt)"
| "run_cpu_event pf info Idt_setup_pf (c, idt) = map_option (Pair c) (idt_setup_pf pf idt)"

fun run_cpu_events :: "u64 \<Rightarrow> cpuinfo_x86 \<Rightarrow> cpu_event list \<Rightarrow> cpu \<times> gate_desc list \<Rightarrow> (cpu \<times> gate_desc list) option" where
  "run_cpu_events pf info [] w = Some w"
| "run_cpu_events pf info (ev # evs) w = Option.bind (run_cpu_event pf info ev w) (run_cpu_events pf info evs)"

definition madt_env_of :: "surroundings \<Rightarrow> kernel \<Rightarrow> madt_env" where
  "madt_env_of b k = \<lparr>env_hw = b_apic_hw b, env_cache = k_cache k, env_supp = supported_pte_mask (b_mm b), env_uninit = b_uninit b\<rparr>"

definition setup_memory :: "surroundings \<Rightarrow> kernel \<Rightarrow> kernel option" where
  "setup_memory b k =
     do {
       (tab, _) \<leftarrow> efi_add_memmap (b_efi_map b) (unat (efi_memdesc_size (bp_efi_info (b_params b))))
         (unat (efi_memmap_size (bp_efi_info (b_params b)))) (k_e820 k);
       m \<leftarrow> e820_memblock_setup tab (k_memory k);
       m \<leftarrow> early_reserve_memory (phys_base (b_mm b)) (b_text b) (b_end_of_kernel_reserve b) (b_params b) m;
       ((cache, _), evs) \<leftarrow> cache_bp_init (b_rdmsrl b) (k_cache k);
       ((m, hdr), _) \<leftarrow> reserve_real_mode (b_blob_len b) (m, k_real_mode_header k);
       Some (k\<lparr>k_e820 := tab, k_memory := m, k_cache := cache, k_real_mode_header := hdr,
               k_cpu := fold (run_msr_event (k_info k)) evs (k_cpu k)\<rparr>) }"

definition setup_mapping :: "surroundings \<Rightarrow> kernel \<Rightarrow> kernel option" where
  "setup_mapping b k =
     do {
       (m, mm, evs) \<leftarrow> init_mem_mapping (b_mm b) (k_memory k) (k_mm k);
       (c, idt) \<leftarrow> run_cpu_events (b_page_fault b) (k_info k) evs (k_cpu k, k_idt k);
       Some (k\<lparr>k_memory := m, k_mm := mm, k_cpu := c, k_idt := idt\<rparr>) }"

definition setup_acpi :: "surroundings \<Rightarrow> kernel \<Rightarrow> kernel option" where
  "setup_acpi b k =
     do {
       tabs \<leftarrow> acpi_boot_table_init (b_acpi_memory b) (bp_acpi_rsdp_addr (b_params b)) (k_acpi k);
       m \<leftarrow> initmem_init (k_memory k);
       ap \<leftarrow> acpi_boot_init (madt_env_of b k) (b_acpi_memory b) tabs (k_apic k);
       Some (k\<lparr>k_acpi := tabs, k_memory := m, k_apic := ap\<rparr>) }"

definition setup_arch :: "surroundings \<Rightarrow> kernel \<Rightarrow> kernel option" where
  "setup_arch b k =
     do {
       let k = k\<lparr>k_info := early_cpuinfo_init (b_cpuid b) (k_info k)\<rparr>;
       let k = k\<lparr>k_apic := check_x2apic (b_rdmsrl b) (k_info k) (k_apic k)\<rparr>;
       k \<leftarrow> setup_memory b k;
       k \<leftarrow> setup_mapping b k;
       setup_acpi b k }"

section \<open>The areas of the processors (setup\_percpu.c, percpu.h, smp.c)\<close>

text \<open>
  The variables of the section \<open>.data..percpu\<close> that the code names.  An area is found by its virtual address; the
  template at \<open>__per_cpu_load\<close> is the area the boot processor works on until it has its own.
\<close>

record percpu =
  pc_this_cpu_off :: u64
  pc_cpu_number :: nat
  pc_apic_id :: u32
  pc_acpi_id :: u32
  pc_cr4 :: u64
  pc_cpu_info :: cpuinfo_x86
  pc_gdt :: "u64 list"

record percpu_state =
  p_memory :: memblock
  p_offsets :: "u64 list"
  p_areas :: "u64 \<rightharpoonup> percpu"
  p_regs :: table_regs

definition per_cpu_offset_init :: "u64 \<Rightarrow> u64 list" where
  "per_cpu_offset_init load = replicate NR_CPUS load"

definition per_cpu_write :: "(percpu \<Rightarrow> percpu) \<Rightarrow> nat \<Rightarrow> percpu_state \<Rightarrow> percpu_state" where
  "per_cpu_write f cpu s =
     (let off = p_offsets s ! cpu in s\<lparr>p_areas := (p_areas s)(off := map_option f (p_areas s off))\<rparr>)"

text \<open>One round of the loop; \<open>gdt_sym\<close> is the offset of \<open>gdt_page\<close> in the section, the failed \<open>assert\<close> stops the machine.\<close>

definition setup_per_cpu_area ::
  "u64 \<Rightarrow> u64 \<Rightarrow> u64 \<Rightarrow> u32 list \<Rightarrow> u32 list \<Rightarrow> nat \<Rightarrow> percpu_state \<Rightarrow> percpu_state option" where
  "setup_per_cpu_area load static_size gdt_sym apic_ids acpi_ids cpu s =
     do {
       (m, paddr) \<leftarrow> memblock_alloc (p_memory s) static_size PAGE_SIZE 0 (- 1) (- 1) False;
       if paddr = 0 \<or> \<not> (cpu < length (p_offsets s) \<and> cpu < length apic_ids \<and> cpu < length acpi_ids) then None
       else
         (let s = s\<lparr>p_memory := m, p_areas := (p_areas s)(va paddr := p_areas s load)\<rparr>;
              s = s\<lparr>p_offsets := (p_offsets s)[cpu := va paddr]\<rparr>;
              s = per_cpu_write (\<lambda>a. a\<lparr>pc_this_cpu_off := p_offsets s ! cpu\<rparr>) cpu s;
              s = per_cpu_write (\<lambda>a. a\<lparr>pc_cpu_number := cpu\<rparr>) cpu s;
              s = per_cpu_write (\<lambda>a. a\<lparr>pc_apic_id := apic_ids ! cpu\<rparr>) cpu s;
              s = per_cpu_write (\<lambda>a. a\<lparr>pc_acpi_id := acpi_ids ! cpu\<rparr>) cpu s
          in Some (if cpu = 0
               then s\<lparr>p_regs := switch_gdt_and_percpu_base (\<lambda>c. p_offsets s ! c + gdt_sym) (\<lambda>c. p_offsets s ! c) cpu (p_regs s)\<rparr>
               else s)) }"

fun per_cpu_loop ::
  "u64 \<Rightarrow> u64 \<Rightarrow> u64 \<Rightarrow> u32 list \<Rightarrow> u32 list \<Rightarrow> nat list \<Rightarrow> percpu_state \<Rightarrow> percpu_state option" where
  "per_cpu_loop load static_size gdt_sym apic_ids acpi_ids [] s = Some s"
| "per_cpu_loop load static_size gdt_sym apic_ids acpi_ids (cpu # cpus) s =
     Option.bind (setup_per_cpu_area load static_size gdt_sym apic_ids acpi_ids cpu s)
       (per_cpu_loop load static_size gdt_sym apic_ids acpi_ids cpus)"

definition setup_per_cpu_areas ::
  "nat \<Rightarrow> u64 \<Rightarrow> u64 \<Rightarrow> u64 \<Rightarrow> u32 list \<Rightarrow> u32 list \<Rightarrow> percpu_state \<Rightarrow> percpu_state option" where
  "setup_per_cpu_areas nr_cpu_ids load static_size gdt_sym apic_ids acpi_ids =
     per_cpu_loop load static_size gdt_sym apic_ids acpi_ids [0..<nr_cpu_ids]"

text \<open>\<open>nr_cpu_ids\<close> starts as one, and the function that is to set it is empty.\<close>

definition setup_nr_cpu_ids :: "nat \<Rightarrow> nat" where "setup_nr_cpu_ids nr_cpu_ids = nr_cpu_ids"

section \<open>The memory map as a set\<close>

text \<open>A map whose memory is \<open>S\<close>, all of one node, of which \<open>R\<close> is reserved.\<close>

definition ram_map :: "int \<Rightarrow> u64 set \<Rightarrow> u64 set \<Rightarrow> u64 \<Rightarrow> (int \<times> u32) option" where
  "ram_map nd R S a = (if a \<in> S then Some (nd, if a \<in> R then MEMBLOCK_RESERVED else MEMBLOCK_NONE) else None)"

definition block :: "u64 \<Rightarrow> u64 \<Rightarrow> u64 set" where "block p s = {a. p \<le> a \<and> a < p + s}"

definition holds :: "memblock \<Rightarrow> nat \<Rightarrow> int \<Rightarrow> u64 set \<Rightarrow> u64 set \<Rightarrow> bool" where
  "holds m k nd R S \<longleftrightarrow> memblock_ok m \<and> max_n m = NR_REGIONS \<and> n m \<le> k \<and> mem_map m = ram_map nd R S"

lemma holdsD:
  assumes "holds m k nd R S"
  shows "memblock_ok m" "max_n m = NR_REGIONS" "n m \<le> k" "mem_map m = ram_map nd R S"
  using assms by (simp_all add: holds_def)

lemma holds_mono: "holds m k nd R S \<Longrightarrow> k \<le> k' \<Longrightarrow> holds m k' nd R S"
  by (simp add: holds_def)

lemma reserve_ram_map:
  "range_map (setclr_value True MEMBLOCK_RESERVED) p (p + s) a (ram_map nd R S a) = ram_map nd (R \<union> block p s) S a"
  by (auto simp: range_map_def ram_map_def setclr_value_def block_def)

lemma holds_reserve:
  assumes "holds m k nd R S" "b \<le> b + s" "k + 2 \<le> NR_REGIONS"
  shows "\<exists>m'. memblock_reserve m b s = Some (m', Inr ()) \<and> holds m' (k + 2) nd (R \<union> block b s) S"
proof -
  note h = holdsD [OF assms(1)]
  have "n m + 2 \<le> max_n m" using h assms(3) by simp
  from memblock_setclr_ok [OF h(1) assms(2) this, of True MEMBLOCK_RESERVED] obtain m' where
    "memblock_setclr_flag m b s True MEMBLOCK_RESERVED = Some (m', Inr ())" "memblock_ok m'" "max_n m' = max_n m" "n m' \<le> n m + 2"
      "\<forall>a. mem_map m' a = range_map (setclr_value True MEMBLOCK_RESERVED) b (b + s) a (mem_map m a)"
    by blast
  then show ?thesis using h by (auto simp: memblock_reserve_def holds_def fun_eq_iff reserve_ram_map)
qed

text \<open>A block handed out by the allocator from \<open>[lo .. hi)\<close>: aligned to pages, not in page zero, free before.\<close>

definition block_ok :: "u64 \<Rightarrow> u64 \<Rightarrow> u64 \<Rightarrow> u64 \<Rightarrow> u64 set \<Rightarrow> u64 set \<Rightarrow> bool" where
  "block_ok lo hi p s R S \<longleftrightarrow> 4096 dvd unat p \<and> PAGE_SIZE \<le> p \<and> lo \<le> p \<and> p \<le> p + s \<and> p + s \<le> hi \<and> block p s \<subseteq> S - R"

lemma holds_alloc:
  assumes "holds m k nd R S" "k + 2 \<le> NR_REGIONS"
  shows "memblock_alloc m s PAGE_SIZE lo hi (- 1) False = Some (m, 0) \<or>
     (\<exists>m' p. memblock_alloc m s PAGE_SIZE lo hi (- 1) False = Some (m', p) \<and> p \<noteq> 0 \<and> block_ok lo hi p s R S \<and>
       holds m' (k + 2) nd (R \<union> block p s) S)"
proof -
  note h = holdsD [OF assms(1)]
  have room: "n m + 2 \<le> max_n m" using h assms(2) by simp
  from memblock_alloc_ok [OF h(1) _ room, of 12 s lo hi "- 1" False] obtain m' p where
    a: "memblock_alloc m s (2 ^ 12) lo hi (- 1) False = Some (m', p)" "memblock_ok m'" "max_n m' = max_n m" "n m' \<le> n m + 2"
      "if p = 0 then m' = m \<and> find_in_range_node m s (2 ^ 12) lo hi (if False then - 1 else - 1) MEMBLOCK_NONE = 0
       else alloc_post m s 12 lo hi (- 1) m' p \<or> \<not> False \<and> alloc_post m s 12 lo hi (- 1) m' p"
    by auto
  have "block_ok lo hi p s R S \<and> holds m' (k + 2) nd (R \<union> block p s) S" if "p \<noteq> 0"
  proof -
    have post: "alloc_post m s 12 lo hi (- 1) m' p" using a(5) that by simp
    then have "\<forall>a. p \<le> a \<and> a < p + s \<longrightarrow> (\<exists>nd'. ram_map nd R S a = Some (nd', MEMBLOCK_NONE))"
      unfolding alloc_post_def h(4) by blast
    then have "block p s \<subseteq> S - R" by (force simp: block_def ram_map_def split: if_splits)
    moreover have "mem_map m' = ram_map nd (R \<union> block p s) S"
      using post by (simp add: alloc_post_def h(4) fun_eq_iff reserve_ram_map)
    ultimately show ?thesis using post a(2-4) h(2,3) by (auto simp: block_ok_def alloc_post_def holds_def)
  qed
  with a(1,5) show ?thesis by (cases "p = 0") auto
qed

lemma mem_map_top: "memblock_ok m \<Longrightarrow> mem_map m (- 1) = None"
proof (rule ccontr)
  assume "memblock_ok m" "mem_map m (- 1) \<noteq> None"
  then obtain xs v where "region_at xs (- 1) = Some v" by (auto simp: memblock_ok_def dest!: ok_live(5))
  then obtain r where "(- 1 :: u64) < rend r" by (auto dest!: region_at_SomeD)
  then show False by (simp add: leD [OF word_n1_ge])
qed

lemma holds_set_node:
  assumes "holds m k nd R S" "k + 2 \<le> NR_REGIONS"
  shows "\<exists>m'. memblock_set_node m 0 (- 1) nd' = Some (m', Inr ()) \<and> holds m' (k + 2) nd' R S"
proof -
  note h = holdsD [OF assms(1)]
  have "n m + 2 \<le> max_n m" using h assms(2) by simp
  moreover have "(0 :: u64) < 0 + - 1" by (simp add: word_less_nat_alt unsigned_minus_1_eq_mask mask_eq_exp_minus_1)
  ultimately obtain m' where m': "memblock_set_node m 0 (- 1) nd' = Some (m', Inr ())" "memblock_ok m'" "max_n m' = max_n m" "n m' \<le> n m + 2"
      "\<forall>a. mem_map m' a = range_map (\<lambda>v. (nd', snd v)) 0 (0 + - 1) a (mem_map m a)"
    using memblock_set_node_ok [OF h(1)] by blast
  have top: "- 1 \<notin> S" using mem_map_top [OF h(1)] unfolding h(4) by (auto simp: ram_map_def split: if_splits)
  have "mem_map m' a = ram_map nd' R S a" for a
  proof (cases "a = - 1")
    case True
    then show ?thesis using mem_map_top [OF m'(2)] top by (simp add: ram_map_def)
  next
    case False
    then have "a < - 1" by (simp add: order.strict_iff_order)
    then show ?thesis using m'(5) unfolding h(4) by (simp add: range_map_def ram_map_def)
  qed
  with m' h show ?thesis by (auto simp: holds_def fun_eq_iff)
qed

lemma e820_memblock_holds:
  assumes "ram_sorted 0 (live tab)" "length (filter is_ram (live tab)) \<le> k" "k < NR_REGIONS"
  shows "\<exists>m. e820_memblock_setup tab memory_init = Some m \<and> holds m k (- 1) {} {a. ram_at (live tab) a}"
proof -
  have "\<forall>a \<ge> 0. region_at [] a = None" by simp
  from memblock_loop_ok [OF memory_init_ok this assms(1)] assms(2,3)
  obtain m xs st where m: "e820_memblock_loop (live tab) memory_init = Some m" "map_ok m xs st"
      "length xs + length st = NR_REGIONS" "length xs \<le> length (filter is_ram (live tab))"
      "\<forall>a. region_at xs a = (if ram_at (live tab) a then Some (- 1, 0) else None)"
    by auto
  note l = ok_live [OF m(2)]
  have "mem_map m = ram_map (- 1) {} {a. ram_at (live tab) a}" using l(5) m(5) by (simp add: fun_eq_iff ram_map_def)
  moreover have "memblock_ok m" using m(2) by (auto simp: memblock_ok_def)
  ultimately have "holds m k (- 1) {} {a. ram_at (live tab) a}" using l m(3,4) assms(2) by (simp add: holds_def)
  then show ?thesis using m(1) by (auto simp: e820_memblock_setup_def live_def)
qed

section \<open>Early memory\<close>

definition kernel_start :: "surroundings \<Rightarrow> u64" where
  "kernel_start b = b_text b - START_KERNEL_map + phys_base (b_mm b)"

definition kernel_image :: "surroundings \<Rightarrow> u64 set" where
  "kernel_image b = block (kernel_start b) (b_end_of_kernel_reserve b - b_text b)"

definition initrd :: "boot_params \<Rightarrow> u64 set" where
  "initrd bp = (if bp_ramdisk_image bp = 0 \<or> bp_ramdisk_size bp = 0 then {}
     else block (bp_ramdisk_image bp) (ROUND_UP (bp_ramdisk_size bp) PAGE_SIZE))"

text \<open>Neither range wraps around the end of the address space, nor does the area for page tables.\<close>

definition ranges_ok :: "surroundings \<Rightarrow> bool" where
  "ranges_ok b \<longleftrightarrow> kernel_start b \<le> kernel_start b + (b_end_of_kernel_reserve b - b_text b) \<and>
     bp_ramdisk_image (b_params b) \<le> bp_ramdisk_image (b_params b) + ROUND_UP (bp_ramdisk_size (b_params b)) PAGE_SIZE \<and>
     unat (brk_base (b_mm b)) < 2 ^ 63"

lemma early_reserve_holds:
  assumes "ranges_ok b" "holds m k nd {} S" "k + 4 \<le> NR_REGIONS"
  shows "\<exists>m'. early_reserve_memory (phys_base (b_mm b)) (b_text b) (b_end_of_kernel_reserve b) (b_params b) m = Some m' \<and>
     holds m' (k + 4) nd (kernel_image b \<union> initrd (b_params b)) S"
proof -
  note r = assms(1) [unfolded ranges_ok_def]
  obtain m1 where m1: "memblock_reserve m (kernel_start b) (b_end_of_kernel_reserve b - b_text b) = Some (m1, Inr ())"
      "holds m1 (k + 2) nd (kernel_image b) S"
    using holds_reserve [OF assms(2), of "kernel_start b"] r assms(3) by (auto simp: kernel_image_def)
  let ?bp = "b_params b"
  have "\<exists>m'. early_reserve_initrd ?bp m1 = Some m' \<and> holds m' (k + 4) nd (kernel_image b \<union> initrd ?bp) S"
  proof (cases "bp_ramdisk_image ?bp = 0 \<or> bp_ramdisk_size ?bp = 0")
    case True
    then show ?thesis using holds_mono [OF m1(2)] by (auto simp: early_reserve_initrd_def initrd_def)
  next
    case False
    then obtain m2 where m2: "memblock_reserve m1 (bp_ramdisk_image ?bp) (ROUND_UP (bp_ramdisk_size ?bp) PAGE_SIZE) = Some (m2, Inr ())"
        "holds m2 (k + 2 + 2) nd (kernel_image b \<union> block (bp_ramdisk_image ?bp) (ROUND_UP (bp_ramdisk_size ?bp) PAGE_SIZE)) S"
      using holds_reserve [OF m1(2), of "bp_ramdisk_image ?bp"] r assms(3) by auto
    have "k + 2 + 2 \<le> k + 4" by simp
    from holds_mono [OF m2(2) this] m2(1) False show ?thesis by (simp add: early_reserve_initrd_def initrd_def Let_def)
  qed
  with m1(1) show ?thesis by (simp add: early_reserve_memory_def kernel_start_def)
qed

text \<open>
  The area of the real-mode code that \<open>real_mode_header\<close> points to afterwards: none, or a block in the first
  megabyte that nothing has reserved.
\<close>

definition real_mode_area :: "surroundings \<Rightarrow> u64 \<Rightarrow> u64 \<Rightarrow> u64 set \<Rightarrow> u64 set \<Rightarrow> u64 set \<Rightarrow> bool" where
  "real_mode_area b hdr0 hdr R S A \<longleftrightarrow>
     A = {} \<and> hdr = hdr0 \<or>
     (\<exists>p. hdr = va p \<and> A = block p (real_mode_size_needed (b_blob_len b)) \<and>
       block_ok 0 (BIT_UL 20) p (real_mode_size_needed (b_blob_len b)) R S)"

lemma reserve_real_mode_holds:
  assumes "holds m k nd R S" "k + 2 \<le> NR_REGIONS"
  shows "\<exists>m' hdr r A. reserve_real_mode (b_blob_len b) (m, hdr0) = Some ((m', hdr), r) \<and> real_mode_area b hdr0 hdr R S A \<and>
     (r = Inr () \<and> (real_mode_size_needed (b_blob_len b) = 0 \<or> hdr \<noteq> hdr0 \<or> A \<noteq> {}) \<or> r = Inl ENOMEM \<and> A = {}) \<and>
     holds m' (k + 2) nd (R \<union> A) S"
proof (cases "real_mode_size_needed (b_blob_len b) = 0")
  case True
  then show ?thesis using holds_mono [OF assms(1)] by (auto simp: reserve_real_mode_def real_mode_area_def)
next
  case False
  let ?s = "real_mode_size_needed (b_blob_len b)"
  from holds_alloc [OF assms, of ?s 0 "BIT_UL 20"] show ?thesis
  proof
    assume "memblock_alloc m ?s PAGE_SIZE 0 (BIT_UL 20) (- 1) False = Some (m, 0)"
    with False holds_mono [OF assms(1)] show ?thesis
      by (intro exI [of _ m] exI [of _ hdr0] exI [of _ "Inl ENOMEM"] exI [of _ "{}"]) (auto simp: reserve_real_mode_def real_mode_area_def)
  next
    assume "\<exists>m' p. memblock_alloc m ?s PAGE_SIZE 0 (BIT_UL 20) (- 1) False = Some (m', p) \<and> p \<noteq> 0 \<and>
      block_ok 0 (BIT_UL 20) p ?s R S \<and> holds m' (k + 2) nd (R \<union> block p ?s) S"
    then obtain m' p where p: "memblock_alloc m ?s PAGE_SIZE 0 (BIT_UL 20) (- 1) False = Some (m', p)" "p \<noteq> 0"
      "block_ok 0 (BIT_UL 20) p ?s R S" "holds m' (k + 2) nd (R \<union> block p ?s) S" by blast
    have "p \<in> block p ?s"
      using p(3) False by (simp add: block_def block_ok_def order.strict_iff_order)
    then have "block p ?s \<noteq> {}" by blast
    with False p show ?thesis
      by (intro exI [of _ m'] exI [of _ "va p"] exI [of _ "Inr ()"] exI [of _ "block p ?s"])
        (auto simp: reserve_real_mode_def real_mode_area_def)
  qed
qed

lemma cache_bp_init_total: "\<exists>s' msg evs. cache_bp_init rdmsrl cache_init = Some ((s', msg), evs)"
proof -
  have "pat_mode pat_msr_val 0 = MODE_WB" by code_simp
  moreover have "length (cachemode_to_pte cache_init) = 8" "length (pat_idx_to_cachemode cache_init) = 8" by (simp_all add: cache_init_def)
  ultimately obtain s' msg where "init_cache_modes pat_msr_val cache_init = Some (s', msg)"
    using init_cache_modes_ok [of cache_init pat_msr_val] by blast
  then show ?thesis by (simp add: cache_bp_init_def pat_bp_init_def)
qed

definition efi_table :: "surroundings \<Rightarrow> kernel \<Rightarrow> (e820_table \<times> (errno + unit)) option" where
  "efi_table b k = efi_add_memmap (b_efi_map b) (unat (efi_memdesc_size (bp_efi_info (b_params b))))
     (unat (efi_memmap_size (bp_efi_info (b_params b)))) (k_e820 k)"

text \<open>How the kernel starts: nothing in the map of memory; and a table of at most 116 ordered entries of RAM.\<close>

definition boot_ok :: "surroundings \<Rightarrow> kernel \<Rightarrow> e820_table \<Rightarrow> bool" where
  "boot_ok b k tab \<longleftrightarrow> ranges_ok b \<and> k_memory k = memory_init \<and> k_cache k = cache_init \<and>
     (\<exists>r. efi_table b k = Some (tab, r)) \<and> ram_sorted 0 (live tab) \<and> length (filter is_ram (live tab)) \<le> 116"

definition ram :: "e820_table \<Rightarrow> u64 set" where "ram tab = {a. ram_at (live tab) a}"

lemma setup_memory_holds:
  assumes "boot_ok b k tab"
  shows "\<exists>k' A. setup_memory b k = Some k' \<and>
     real_mode_area b (k_real_mode_header k) (k_real_mode_header k') (kernel_image b \<union> initrd (b_params b)) (ram tab) A \<and>
     holds (k_memory k') 122 (- 1) (kernel_image b \<union> initrd (b_params b) \<union> A) (ram tab) \<and>
     k_mm k' = k_mm k \<and> k_idt k' = k_idt k \<and> k_acpi k' = k_acpi k \<and> k_apic k' = k_apic k"
proof -
  from assms obtain r where b: "ranges_ok b" "k_memory k = memory_init" "k_cache k = cache_init" "efi_table b k = Some (tab, r)"
      "ram_sorted 0 (live tab)" "length (filter is_ram (live tab)) \<le> 116"
    by (auto simp: boot_ok_def)
  obtain m1 where m1: "e820_memblock_setup tab memory_init = Some m1" "holds m1 116 (- 1) {} (ram tab)"
    using e820_memblock_holds [OF b(5,6)] by (auto simp: ram_def)
  obtain m2 where m2: "early_reserve_memory (phys_base (b_mm b)) (b_text b) (b_end_of_kernel_reserve b) (b_params b) m1 = Some m2"
      "holds m2 120 (- 1) (kernel_image b \<union> initrd (b_params b)) (ram tab)"
    using early_reserve_holds [OF b(1) m1(2)] by auto
  obtain c msg evs where c: "cache_bp_init (b_rdmsrl b) cache_init = Some ((c, msg), evs)" using cache_bp_init_total by blast
  obtain m3 hdr r3 A where m3: "reserve_real_mode (b_blob_len b) (m2, k_real_mode_header k) = Some ((m3, hdr), r3)"
      "real_mode_area b (k_real_mode_header k) hdr (kernel_image b \<union> initrd (b_params b)) (ram tab) A"
      "holds m3 122 (- 1) (kernel_image b \<union> initrd (b_params b) \<union> A) (ram tab)"
    using reserve_real_mode_holds [OF m2(2), of b "k_real_mode_header k"] by auto
  show ?thesis
    by (intro exI [of _ "k\<lparr>k_e820 := tab, k_memory := m3, k_cache := c, k_real_mode_header := hdr,
          k_cpu := fold (run_msr_event (k_info k)) evs (k_cpu k)\<rparr>"] exI [of _ A])
      (simp add: setup_memory_def b(2,3) b(4) [unfolded efi_table_def] m1(1) m2(1) c m3)
qed


text \<open>What \<open>init_mem_mapping\<close> does to the memory map: the pages it took for tables are reserved.\<close>

lemma brk_nowrap: "unat (x :: u64) < 2 ^ 63 \<Longrightarrow> x \<le> x + PAGE_SIZE * ucast (y :: u32)"
proof -
  assume "unat x < 2 ^ 63"
  have y: "unat y < 2 ^ 32" using unsigned_less [of y] by simp
  then have "unat (ucast y :: u64) = unat y" by (simp add: unsigned_ucast_eq take_bit_nat_eq_self)
  then have "unat (PAGE_SIZE * (ucast y :: u64)) = 4096 * unat y" using y by (simp add: unat_word_ariths(2))
  then have "unat (x + PAGE_SIZE * ucast y) = unat x + 4096 * unat y"
    using \<open>unat x < 2 ^ 63\<close> y by (subst unat_add_nowrap) simp_all
  then show ?thesis by (simp add: word_le_nat_alt)
qed

definition brk_used :: "mm_const \<Rightarrow> mm \<Rightarrow> u64 set" where
  "brk_used c s = block (brk_base c) (PAGE_SIZE * ucast (next_page s))"

lemma init_mem_mapping_holds:
  assumes "unat (brk_base c) < 2 ^ 63" "holds m k nd R S" "k + 2 \<le> NR_REGIONS"
    and "init_range_memory_mapping c 0 (- 1) m (init_init_top_pgt c s) = Some s'"
  shows "\<exists>m'. init_mem_mapping c m s = Some (m', s', [Cr4_set_bits (BIT_UL 17), Write_cr3 (init_top_pgt c), Flush_tlb_all, Idt_setup_pf]) \<and>
     holds m' (k + 2) nd (R \<union> brk_used c s') S"
proof -
  obtain m' where "memblock_reserve m (brk_base c) (PAGE_SIZE * ucast (next_page s')) = Some (m', Inr ())"
      "holds m' (k + 2) nd (R \<union> brk_used c s') S"
    using holds_reserve [OF assms(2) brk_nowrap [OF assms(1)] assms(3)] unfolding brk_used_def by blast
  then show ?thesis using assms(4) by (simp add: init_mem_mapping_def)
qed

section \<open>Moving to the kernel's own tables\<close>

lemma write_cr3_frame:
  assumes "v AND BIT_UL 63 = 0"
  shows "reg_cr3 (native_write_cr3 v c) = v" "reg_cr4 (native_write_cr3 v c) = reg_cr4 c"
    "cr4_shadow (native_write_cr3 v c) = cr4_shadow c" "eflags (native_write_cr3 v c) = eflags c"
  using assms by (simp_all add: native_write_cr3_def)

lemma boot_events:
  assumes "cr4_shadow c = reg_cr4 c" "14 < length idt" "root AND BIT_UL 63 = 0"
  shows "\<exists>c'. run_cpu_events pf info [Cr4_set_bits (BIT_UL 17), Write_cr3 root, Flush_tlb_all, Idt_setup_pf] (c, idt) =
       Some (c', idt[14 := init_gate_desc (INTG 14 pf)]) \<and>
     tlb c' = [] \<and> reg_cr3 c' = root \<and> reg_cr4 c' = reg_cr4 c OR CR4_PCIDE \<and> cr4_shadow c' = reg_cr4 c' \<and> eflags c' = eflags c"
proof -
  let ?c1 = "cr4_set_bits (BIT_UL 17) c"
  let ?c2 = "native_write_cr3 root ?c1"
  note c1 = cr4_set_bits_spec [OF assms(1), of "BIT_UL 17"]
  have c2: "reg_cr3 ?c2 = root" "reg_cr4 ?c2 = reg_cr4 c OR CR4_PCIDE" "cr4_shadow ?c2 = reg_cr4 ?c2" "eflags ?c2 = eflags c"
    by (simp_all add: write_cr3_frame [OF assms(3)] c1 CR4_PCIDE_def)
  have "flush_tlb_all info ?c2 = ?c2\<lparr>tlb := []\<rparr>" by (rule flush_tlb_all_true [OF c2(3)])
  moreover have "idt_setup_pf pf idt = Some (idt[14 := init_gate_desc (INTG 14 pf)])"
    using assms(2) by (simp add: idt_setup_pf_def INTG_def G_def)
  ultimately show ?thesis using c2 by simp
qed

lemma setup_mapping_holds:
  assumes "unat (brk_base (b_mm b)) < 2 ^ 63" "holds (k_memory k) j nd R S" "j + 2 \<le> NR_REGIONS" "14 < length (k_idt k)"
    and "init_range_memory_mapping (b_mm b) 0 (- 1) (k_memory k) (init_init_top_pgt (b_mm b) (k_mm k)) = Some s'"
    and "cr4_shadow (k_cpu k) = reg_cr4 (k_cpu k)" "init_top_pgt (b_mm b) AND BIT_UL 63 = 0"
  shows "\<exists>m' c'. setup_mapping b k = Some (k\<lparr>k_memory := m', k_mm := s', k_cpu := c', k_idt := (k_idt k)[14 := init_gate_desc (INTG 14 (b_page_fault b))]\<rparr>) \<and>
     holds m' (j + 2) nd (R \<union> brk_used (b_mm b) s') S \<and>
     tlb c' = [] \<and> reg_cr3 c' = init_top_pgt (b_mm b) \<and> reg_cr4 c' = reg_cr4 (k_cpu k) OR CR4_PCIDE \<and> eflags c' = eflags (k_cpu k)"
proof -
  obtain m' where m': "init_mem_mapping (b_mm b) (k_memory k) (k_mm k) =
        Some (m', s', [Cr4_set_bits (BIT_UL 17), Write_cr3 (init_top_pgt (b_mm b)), Flush_tlb_all, Idt_setup_pf])"
      "holds m' (j + 2) nd (R \<union> brk_used (b_mm b) s') S"
    using init_mem_mapping_holds [OF assms(1-3,5)] by blast
  obtain c' where c': "run_cpu_events (b_page_fault b) (k_info k)
        [Cr4_set_bits (BIT_UL 17), Write_cr3 (init_top_pgt (b_mm b)), Flush_tlb_all, Idt_setup_pf] (k_cpu k, k_idt k) =
        Some (c', (k_idt k)[14 := init_gate_desc (INTG 14 (b_page_fault b))])"
      "tlb c' = []" "reg_cr3 c' = init_top_pgt (b_mm b)" "reg_cr4 c' = reg_cr4 (k_cpu k) OR CR4_PCIDE" "eflags c' = eflags (k_cpu k)"
    using boot_events [OF assms(6,4,7)] by blast
  have "setup_mapping b k = Some (k\<lparr>k_memory := m', k_mm := s', k_cpu := c', k_idt := (k_idt k)[14 := init_gate_desc (INTG 14 (b_page_fault b))]\<rparr>)"
    by (simp only: setup_mapping_def m'(1) c'(1) Option.bind.bind_lunit prod.case)
  with m'(2) c'(2-5) show ?thesis by blast
qed

lemma setup_acpi_holds:
  assumes "holds (k_memory k) j nd R S" "j + 2 \<le> NR_REGIONS"
    and "acpi_boot_table_init (b_acpi_memory b) (bp_acpi_rsdp_addr (b_params b)) (k_acpi k) = Some tabs"
    and "acpi_boot_init (madt_env_of b k) (b_acpi_memory b) tabs (k_apic k) = Some ap"
  shows "\<exists>m'. setup_acpi b k = Some (k\<lparr>k_acpi := tabs, k_memory := m', k_apic := ap\<rparr>) \<and> holds m' (j + 2) 0 R S"
proof -
  obtain m' where "memblock_set_node (k_memory k) 0 (- 1) 0 = Some (m', Inr ())" "holds m' (j + 2) 0 R S"
    using holds_set_node [OF assms(1,2), of 0] by blast
  then show ?thesis using assms(3,4)
    by (intro exI [of _ m']) (simp add: setup_acpi_def initmem_init_def del: add_2_eq_Suc')
qed

text \<open>
  The processor and the interrupt table when the mapping is set up: the shadow of CR4 is true, the table is there,
  and the root of the page tables is an address.
\<close>

definition cpu_ok :: "surroundings \<Rightarrow> kernel \<Rightarrow> bool" where
  "cpu_ok b k \<longleftrightarrow> cr4_shadow (k_cpu k) = reg_cr4 (k_cpu k) \<and> length (k_idt k) = 256 \<and> init_top_pgt (b_mm b) AND BIT_UL 63 = 0"

lemma run_msr_events: "cr4_shadow c = reg_cr4 c \<Longrightarrow>
    cr4_shadow (fold (run_msr_event info) evs c) = reg_cr4 c \<and> reg_cr4 (fold (run_msr_event info) evs c) = reg_cr4 c"
proof (induction evs arbitrary: c)
  case (Cons ev evs)
  then show ?case using Cons.IH [of "run_msr_event info ev c"] flush_tlb_all_true [OF Cons.prems] by (cases ev) simp_all
qed simp

lemma setup_memory_cpu: "setup_memory b k = Some k' \<Longrightarrow> cpu_ok b k \<Longrightarrow> cpu_ok b k'"
  using run_msr_events by (auto simp: setup_memory_def cpu_ok_def bind_eq_Some_conv)

definition start_of_setup :: "surroundings \<Rightarrow> kernel \<Rightarrow> kernel" where
  "start_of_setup b k =
     (let k = k\<lparr>k_info := early_cpuinfo_init (b_cpuid b) (k_info k)\<rparr>
      in k\<lparr>k_apic := check_x2apic (b_rdmsrl b) (k_info k) (k_apic k)\<rparr>)"

lemma setup_arch_steps:
  "setup_arch b k = Option.bind (setup_memory b (start_of_setup b k)) (\<lambda>k. Option.bind (setup_mapping b k) (setup_acpi b))"
  by (simp add: setup_arch_def start_of_setup_def Let_def)

lemma start_of_setup_ok: "boot_ok b k tab \<Longrightarrow> boot_ok b (start_of_setup b k) tab" "cpu_ok b k \<Longrightarrow> cpu_ok b (start_of_setup b k)"
  by (simp_all add: boot_ok_def cpu_ok_def start_of_setup_def efi_table_def Let_def)

text \<open>Where the boot can stop: the assertions of the direct mapping, the required tables of the firmware and the walk over the MADT.\<close>

definition boot_stops :: "surroundings \<Rightarrow> kernel \<Rightarrow> bool" where
  "boot_stops b k \<longleftrightarrow>
     (\<exists>k1. setup_memory b (start_of_setup b k) = Some k1 \<and>
        (init_range_memory_mapping (b_mm b) 0 (- 1) (k_memory k1) (init_init_top_pgt (b_mm b) (k_mm k1)) = None \<or>
         acpi_boot_table_init (b_acpi_memory b) (bp_acpi_rsdp_addr (b_params b)) (k_acpi k1) = None \<or>
         (\<exists>tabs. acpi_boot_table_init (b_acpi_memory b) (bp_acpi_rsdp_addr (b_params b)) (k_acpi k1) = Some tabs \<and>
            acpi_boot_init (madt_env_of b k1) (b_acpi_memory b) tabs (k_apic k1) = None)))"

lemma setup_arch_ok:
  assumes boot: "boot_ok b k tab" and cpu: "cpu_ok b k" and goes: "\<not> boot_stops b k"
  shows "\<exists>k' A. setup_arch b k = Some k' \<and>
     real_mode_area b (k_real_mode_header k) (k_real_mode_header k') (kernel_image b \<union> initrd (b_params b)) (ram tab) A \<and>
     holds (k_memory k') 126 0 (kernel_image b \<union> initrd (b_params b) \<union> A \<union> brk_used (b_mm b) (k_mm k')) (ram tab) \<and>
     tlb (k_cpu k') = [] \<and> reg_cr3 (k_cpu k') = init_top_pgt (b_mm b) \<and> reg_cr4 (k_cpu k') AND CR4_PCIDE \<noteq> 0"
proof -
  let ?k = "start_of_setup b k"
  have hdr: "k_real_mode_header ?k = k_real_mode_header k" by (simp add: start_of_setup_def Let_def)
  obtain k1 A where k1: "setup_memory b ?k = Some k1"
      "real_mode_area b (k_real_mode_header k) (k_real_mode_header k1) (kernel_image b \<union> initrd (b_params b)) (ram tab) A"
      "holds (k_memory k1) 122 (- 1) (kernel_image b \<union> initrd (b_params b) \<union> A) (ram tab)"
    using setup_memory_holds [OF start_of_setup_ok(1) [OF boot]] unfolding hdr by blast
  have c1: "cpu_ok b k1" by (rule setup_memory_cpu [OF k1(1) start_of_setup_ok(2) [OF cpu]])
  obtain s' tabs ap where s': "init_range_memory_mapping (b_mm b) 0 (- 1) (k_memory k1) (init_init_top_pgt (b_mm b) (k_mm k1)) = Some s'"
      "acpi_boot_table_init (b_acpi_memory b) (bp_acpi_rsdp_addr (b_params b)) (k_acpi k1) = Some tabs"
      "acpi_boot_init (madt_env_of b k1) (b_acpi_memory b) tabs (k_apic k1) = Some ap"
    using goes k1(1) unfolding boot_stops_def by fastforce
  have brk: "unat (brk_base (b_mm b)) < 2 ^ 63" using boot by (simp add: boot_ok_def ranges_ok_def)
  obtain m2 c2 where k2: "setup_mapping b k1 = Some (k1\<lparr>k_memory := m2, k_mm := s', k_cpu := c2, k_idt := (k_idt k1)[14 := init_gate_desc (INTG 14 (b_page_fault b))]\<rparr>)"
      "holds m2 124 (- 1) (kernel_image b \<union> initrd (b_params b) \<union> A \<union> brk_used (b_mm b) s') (ram tab)"
      "tlb c2 = []" "reg_cr3 c2 = init_top_pgt (b_mm b)" "reg_cr4 c2 = reg_cr4 (k_cpu k1) OR CR4_PCIDE"
    using setup_mapping_holds [OF brk k1(3) _ _ s'(1)] c1 unfolding cpu_ok_def by auto
  let ?k2 = "k1\<lparr>k_memory := m2, k_mm := s', k_cpu := c2, k_idt := (k_idt k1)[14 := init_gate_desc (INTG 14 (b_page_fault b))]\<rparr>"
  have "madt_env_of b ?k2 = madt_env_of b k1" by (simp add: madt_env_of_def)
  then obtain m3 where "setup_acpi b ?k2 = Some (?k2\<lparr>k_acpi := tabs, k_memory := m3, k_apic := ap\<rparr>)"
      "holds m3 126 0 (kernel_image b \<union> initrd (b_params b) \<union> A \<union> brk_used (b_mm b) s') (ram tab)"
    using setup_acpi_holds [of ?k2 124 "- 1" _ _ b tabs ap] k2(2) s'(2,3) by auto
  moreover have "reg_cr4 c2 AND CR4_PCIDE \<noteq> 0"
  proof -
    have "bit (reg_cr4 c2) 17" unfolding k2(5) by (simp add: bit_or_iff CR4_PCIDE_def bit_BIT_UL)
    then show ?thesis unfolding CR4_PCIDE_def single_bit by simp
  qed
  ultimately show ?thesis using k1(1,2) k2(1,3,4) by (intro exI [of _ "?k2\<lparr>k_acpi := tabs, k_memory := m3, k_apic := ap\<rparr>"] exI [of _ A]) (simp add: setup_arch_steps)
qed

text \<open>
  Early memory is safe: from an ordered table of the firmware with at most 116 entries of RAM, \<open>setup_arch\<close>
  stops only in an assertion of the direct mapping or over the ACPI tables.  Otherwise the memory map has exactly the
  RAM of the firmware, all of node 0, and exactly the kernel image, the initial ram disk, the area of the
  real-mode code and the pages used for page tables are reserved; the real-mode area is in the first megabyte, aligned
  to pages, in RAM and disjoint from the kernel and the ram disk; and the processor runs on the kernel's own
  tables, with PCIDs enabled and no translation cached from before.
\<close>

theorem setup_arch_safe:
  assumes "boot_ok b k tab" "cpu_ok b k"
  shows "boot_stops b k \<or>
    (\<exists>k' A. setup_arch b k = Some k' \<and>
     real_mode_area b (k_real_mode_header k) (k_real_mode_header k') (kernel_image b \<union> initrd (b_params b)) (ram tab) A \<and>
     memblock_ok (k_memory k') \<and>
     mem_map (k_memory k') = ram_map 0 (kernel_image b \<union> initrd (b_params b) \<union> A \<union> brk_used (b_mm b) (k_mm k')) (ram tab) \<and>
     tlb (k_cpu k') = [] \<and> reg_cr3 (k_cpu k') = init_top_pgt (b_mm b) \<and> reg_cr4 (k_cpu k') AND CR4_PCIDE \<noteq> 0)"
  using setup_arch_ok [OF assms] unfolding holds_def by blast

text \<open>One descriptor of the firmware, 64 MiB of conventional memory from zero on, and a kernel at 16 MiB.\<close>

definition demo_map :: bytes where
  "demo_map = [7, 0, 0, 0, 0, 0, 0, 0] @ replicate 16 0 @ [0, 0x40, 0, 0, 0, 0, 0, 0] @ replicate 16 0"

definition demo_params :: boot_params where
  "demo_params = \<lparr>bp_ramdisk_image = 0x2000000, bp_ramdisk_size = 0x1234, bp_cmd_line_ptr = 0, bp_screen_info = blank_screen,
     bp_efi_info = \<lparr>efi_systab = 0, efi_memdesc_size = 48, efi_memmap_size = 48, efi_memmap = 0x3000000\<rparr>, bp_acpi_rsdp_addr = 0x1000\<rparr>"

definition demo_surroundings :: surroundings where
  "demo_surroundings = \<lparr>b_cpuid = (\<lambda>_ _. (0, 0, 0, 0)), b_rdmsrl = (\<lambda>_. 0), b_params = demo_params, b_text = 0xFFFFFFFF80000000,
     b_end_of_kernel_reserve = 0xFFFFFFFF80400000, b_mm = small_mm, b_blob_len = 0x1800, b_efi_map = Some demo_map,
     b_page_fault = 0xFFFFFFFF80001000, b_acpi_memory = (\<lambda>_ _. None), b_apic_hw = demo_hw, b_uninit = 0\<rparr>"

definition demo_kernel :: kernel where
  "demo_kernel = \<lparr>k_cpu = \<lparr>eflags = 2, reg_cr3 = 0x1000, reg_cr4 = 0xA0, cr4_shadow = 0xA0, tlb = []\<rparr>, k_info = cpu_info_zero,
     k_apic = apic_init False fixmaps_init, k_e820 = e820_init, k_memory = memory_init, k_cache = cache_init, k_real_mode_header = 0,
     k_mm = small_start, k_idt = idt_table_init, k_acpi = []\<rparr>"

lemma demo_boot_ok:
  "\<exists>tab. boot_ok demo_surroundings demo_kernel tab \<and> live tab = [\<lparr>e_start = 0, e_size = 0x4000000, e_type = E820_TYPE_RAM\<rparr>]"
proof -
  have e: "efi_entry demo_map 0 = \<lparr>e_start = 0, e_size = 0x4000000, e_type = E820_TYPE_RAM\<rparr>" by code_simp
  have len: "48 \<le> length demo_map" by (simp add: demo_map_def)
  have room: "tab_room e820_init" by (simp add: tab_room_def e820_init_def)
  have one: "0 + 1 * 48 \<le> (48 :: nat)" "48 < 0 + Suc 1 * (48 :: nat)" "40 \<le> (48 :: nat)" by simp_all
  obtain tab where tab: "efi_memmap_loop demo_map 48 48 0 e820_init = Some tab" "tab_room tab"
      "live tab = take 128 (live e820_init @ map (\<lambda>i. efi_entry demo_map (0 + i * 48)) [0..<1])"
    using efi_memmap_loop_eq [OF one len room] by blast
  then have l: "live tab = [efi_entry demo_map 0]" by (simp add: e820_init_def live_def)
  have "live (e820_update_table tab) = [efi_entry demo_map 0]"
    using e820_update_live(1) [of tab] tab(2) l by (simp add: tab_room_def)
  moreover have "efi_table demo_surroundings demo_kernel = Some (e820_update_table tab, Inr ())"
    using tab(1) by (simp add: efi_table_def efi_add_memmap_def demo_surroundings_def demo_kernel_def demo_params_def)
  moreover have "ranges_ok demo_surroundings"
  proof -
    have "ROUND_UP (0x1234 :: u64) 4096 = 0x2000" by code_simp
    then show ?thesis
      by (simp add: ranges_ok_def kernel_start_def demo_surroundings_def demo_params_def small_mm_def START_KERNEL_map_def)
  qed
  moreover have "ram_sorted 0 [efi_entry demo_map 0]" "length (filter is_ram [efi_entry demo_map 0]) \<le> 116"
    unfolding e by (simp_all add: is_ram_def)
  ultimately have "boot_ok demo_surroundings demo_kernel (e820_update_table tab)"
    by (simp add: boot_ok_def) (simp add: demo_kernel_def)
  with \<open>live (e820_update_table tab) = _\<close> e show ?thesis by auto
qed


lemma setup_arch_safe_witness:
  "\<exists>tab. live tab = [\<lparr>e_start = 0, e_size = 0x4000000, e_type = E820_TYPE_RAM\<rparr>] \<and>
    (boot_stops demo_surroundings demo_kernel \<or>
    (\<exists>k' A. setup_arch demo_surroundings demo_kernel = Some k' \<and>
     real_mode_area demo_surroundings 0 (k_real_mode_header k') (kernel_image demo_surroundings \<union> initrd demo_params) (ram tab) A \<and>
     memblock_ok (k_memory k') \<and>
     mem_map (k_memory k') = ram_map 0 (kernel_image demo_surroundings \<union> initrd demo_params \<union> A \<union> brk_used small_mm (k_mm k')) (ram tab) \<and>
     tlb (k_cpu k') = [] \<and> reg_cr3 (k_cpu k') = 0x1400000 \<and> reg_cr4 (k_cpu k') AND CR4_PCIDE \<noteq> 0))"
proof -
  obtain tab where tab: "boot_ok demo_surroundings demo_kernel tab" "live tab = [\<lparr>e_start = 0, e_size = 0x4000000, e_type = E820_TYPE_RAM\<rparr>]"
    using demo_boot_ok by blast
  have "cpu_ok demo_surroundings demo_kernel"
    by (simp add: cpu_ok_def demo_surroundings_def demo_kernel_def small_mm_def BIT_UL_def idt_table_init_def)
  moreover have "b_mm demo_surroundings = small_mm" "b_params demo_surroundings = demo_params" "k_real_mode_header demo_kernel = 0"
      "init_top_pgt small_mm = 0x1400000" by (simp_all add: demo_surroundings_def demo_kernel_def small_mm_def)
  ultimately show ?thesis using setup_arch_safe [OF tab(1)] tab(2) by (intro exI [of _ tab]) simp
qed

section \<open>The areas of the processors\<close>

text \<open>After the rounds for the processors below \<open>j\<close>: their blocks \<open>ps\<close>, and what is in the areas.\<close>

definition area_of :: "percpu \<Rightarrow> u32 list \<Rightarrow> u32 list \<Rightarrow> nat \<Rightarrow> u64 \<Rightarrow> percpu" where
  "area_of t apic_ids acpi_ids cpu p = t\<lparr>pc_this_cpu_off := va p, pc_cpu_number := cpu, pc_apic_id := apic_ids ! cpu, pc_acpi_id := acpi_ids ! cpu\<rparr>"

definition blocks :: "u64 \<Rightarrow> u64 list \<Rightarrow> u64 set" where "blocks sz ps = (\<Union>p \<in> set ps. block p sz)"

definition areas_ok ::
  "u64 \<Rightarrow> u64 \<Rightarrow> u64 \<Rightarrow> u32 list \<Rightarrow> u32 list \<Rightarrow> int \<Rightarrow> u64 set \<Rightarrow> u64 set \<Rightarrow> percpu \<Rightarrow> u64 list \<Rightarrow> percpu_state \<Rightarrow> bool" where
  "areas_ok load sz gdt_sym apic_ids acpi_ids nd R S t ps s \<longleftrightarrow>
     (\<forall>i < length ps. block_ok 0 (- 1) (ps ! i) sz R S \<and> (\<forall>j < i. block (ps ! i) sz \<inter> block (ps ! j) sz = {}) \<and>
        p_offsets s ! i = va (ps ! i) \<and> p_areas s (va (ps ! i)) = Some (area_of t apic_ids acpi_ids i (ps ! i))) \<and>
     mem_map (p_memory s) = ram_map nd (R \<union> blocks sz ps) S \<and>
     p_areas s load = Some t \<and> length (p_offsets s) = NR_CPUS \<and>
     (ps \<noteq> [] \<longrightarrow> msr_gs_base (p_regs s) = va (ps ! 0) \<and> gdtr (p_regs s) = \<lparr>dt_size = 95, dt_base_address = va (ps ! 0) + gdt_sym\<rparr>)"

lemma va_eq_iff: "va p = va q \<longleftrightarrow> p = q"
  by (simp add: va_def)

lemma self_in_block: "block_ok lo hi p s R S \<Longrightarrow> s \<noteq> 0 \<Longrightarrow> p \<in> block p s"
  by (simp add: block_def block_ok_def order.strict_iff_order)

lemma per_cpu_loop_append:
  "per_cpu_loop load sz g xs ys (is @ js) s = Option.bind (per_cpu_loop load sz g xs ys is s) (per_cpu_loop load sz g xs ys js)"
proof (induction "is" arbitrary: s)
  case (Cons i "is")
  then show ?case by (cases "setup_per_cpu_area load sz g xs ys i s") simp_all
qed simp

text \<open>One round, when the allocator finds a block.\<close>

lemma per_cpu_write_frame [simp]:
  "p_memory (per_cpu_write f cpu s) = p_memory s" "p_offsets (per_cpu_write f cpu s) = p_offsets s" "p_regs (per_cpu_write f cpu s) = p_regs s"
  by (simp_all add: per_cpu_write_def Let_def)

lemma per_cpu_write_areas:
  assumes "p_offsets s ! cpu = off" "p_areas s = A(off \<mapsto> v)"
  shows "p_areas (per_cpu_write f cpu s) = A(off \<mapsto> f v)"
  using assms by (simp add: per_cpu_write_def Let_def)

lemma setup_per_cpu_area_eq:
  assumes "memblock_alloc (p_memory s) sz PAGE_SIZE 0 (- 1) (- 1) False = Some (m, p)" "p \<noteq> 0" "cpu < length (p_offsets s)"
    and "cpu < length xs" "cpu < length ys" "p_areas s load = Some t"
  shows "\<exists>s'. setup_per_cpu_area load sz g xs ys cpu s = Some s' \<and> p_memory s' = m \<and>
     p_offsets s' = (p_offsets s)[cpu := va p] \<and> p_areas s' = (p_areas s)(va p \<mapsto> area_of t xs ys cpu p) \<and>
     p_regs s' = (if cpu = 0 then (p_regs s)\<lparr>gdtr := \<lparr>dt_size = 95, dt_base_address = va p + g\<rparr>, msr_gs_base := va p\<rparr> else p_regs s)"
proof -
  define s0 where "s0 = s\<lparr>p_memory := m, p_areas := (p_areas s)(va p := p_areas s load)\<rparr>"
  define s1 where "s1 = s0\<lparr>p_offsets := (p_offsets s0)[cpu := va p]\<rparr>"
  define s2 where "s2 = per_cpu_write (\<lambda>a. a\<lparr>pc_this_cpu_off := p_offsets s1 ! cpu\<rparr>) cpu s1"
  define s3 where "s3 = per_cpu_write (\<lambda>a. a\<lparr>pc_cpu_number := cpu\<rparr>) cpu s2"
  define s4 where "s4 = per_cpu_write (\<lambda>a. a\<lparr>pc_apic_id := xs ! cpu\<rparr>) cpu s3"
  define s5 where "s5 = per_cpu_write (\<lambda>a. a\<lparr>pc_acpi_id := ys ! cpu\<rparr>) cpu s4"
  define s6 where "s6 = (if cpu = 0 then s5\<lparr>p_regs := switch_gdt_and_percpu_base (\<lambda>c. p_offsets s5 ! c + g) (\<lambda>c. p_offsets s5 ! c) cpu (p_regs s5)\<rparr> else s5)"
  have off: "p_offsets s1 ! cpu = va p" using assms(3) by (simp add: s1_def s0_def)
  have a: "p_areas s1 = (p_areas s)(va p \<mapsto> t)" using assms(6) by (simp add: s1_def s0_def)
  have fr: "p_memory s5 = m" "p_offsets s5 = (p_offsets s)[cpu := va p]" "p_regs s5 = p_regs s" "p_offsets s2 = p_offsets s1"
      "p_offsets s3 = p_offsets s1" "p_offsets s4 = p_offsets s1"
    by (simp_all add: s2_def s3_def s4_def s5_def) (simp_all add: s1_def s0_def)
  have "p_areas s2 = (p_areas s)(va p \<mapsto> t\<lparr>pc_this_cpu_off := va p\<rparr>)" unfolding s2_def off by (rule per_cpu_write_areas [OF off a])
  then have "p_areas s3 = (p_areas s)(va p \<mapsto> t\<lparr>pc_this_cpu_off := va p, pc_cpu_number := cpu\<rparr>)"
    unfolding s3_def by (intro per_cpu_write_areas) (simp_all add: fr off)
  then have "p_areas s4 = (p_areas s)(va p \<mapsto> t\<lparr>pc_this_cpu_off := va p, pc_cpu_number := cpu, pc_apic_id := xs ! cpu\<rparr>)"
    unfolding s4_def by (intro per_cpu_write_areas) (simp_all add: fr off)
  then have "p_areas s5 = (p_areas s)(va p \<mapsto> area_of t xs ys cpu p)"
    unfolding s5_def area_of_def by (intro per_cpu_write_areas) (simp_all add: fr off)
  then have "p_memory s6 = m" "p_offsets s6 = (p_offsets s)[cpu := va p]" "p_areas s6 = (p_areas s)(va p \<mapsto> area_of t xs ys cpu p)"
      "p_regs s6 = (if cpu = 0 then (p_regs s)\<lparr>gdtr := \<lparr>dt_size = 95, dt_base_address = va p + g\<rparr>, msr_gs_base := va p\<rparr> else p_regs s)"
    using assms(3) by (auto simp: s6_def fr switch_gdt_and_percpu_base_def load_direct_gdt_def GDT_SIZE_def)
  moreover have "setup_per_cpu_area load sz g xs ys cpu s = Some s6"
    using assms(2-5)
    by (simp only: setup_per_cpu_area_def assms(1) Option.bind.bind_lunit prod.case Let_def simp_thms if_False
        s6_def s5_def s4_def s3_def s2_def s1_def s0_def)
  ultimately show ?thesis by blast
qed

lemma blocks_snoc [simp]: "blocks sz [] = {}" "blocks sz (ps @ [p]) = blocks sz ps \<union> block p sz"
  by (auto simp: blocks_def)

text \<open>One more area, in a block that was free.\<close>

lemma areas_ok_step:
  assumes inv: "areas_ok load sz g xs ys nd R S t ps s" and p: "block_ok 0 (- 1) p sz (R \<union> blocks sz ps) S"
    and sz: "sz \<noteq> 0" "load \<notin> va ` (S - R)" "length ps < NR_CPUS"
    and s': "mem_map (p_memory s') = ram_map nd (R \<union> blocks sz ps \<union> block p sz) S" "p_offsets s' = (p_offsets s)[length ps := va p]"
      "p_areas s' = (p_areas s)(va p \<mapsto> area_of t xs ys (length ps) p)"
      "p_regs s' = (if length ps = 0 then (p_regs s)\<lparr>gdtr := \<lparr>dt_size = 95, dt_base_address = va p + g\<rparr>, msr_gs_base := va p\<rparr> else p_regs s)"
  shows "areas_ok load sz g xs ys nd R S t (ps @ [p]) s'"
proof -
  note i = inv [unfolded areas_ok_def]
  have self: "p \<in> block p sz" by (rule self_in_block [OF p sz(1)])
  have old: "block_ok 0 (- 1) (ps ! i) sz R S" "ps ! i \<in> block (ps ! i) sz" "block (ps ! i) sz \<subseteq> blocks sz ps" if "i < length ps" for i
    using i that self_in_block [of 0 "- 1" "ps ! i" sz R S] sz(1) nth_mem [OF that] unfolding blocks_def by blast+
  have pR: "block_ok 0 (- 1) p sz R S" using p by (auto simp: block_ok_def)
  have apart: "block p sz \<inter> blocks sz ps = {}" using p by (auto simp: block_ok_def)
  have ne: "ps ! i \<noteq> p" if "i < length ps" for i using old(2,3) [OF that] apart self by auto
  have "load \<noteq> va p" using sz(2) pR self by (auto simp: block_ok_def)
  then have "p_areas s' load = Some t" using i s'(3) by simp
  moreover have "block_ok 0 (- 1) ((ps @ [p]) ! i) sz R S \<and> (\<forall>j < i. block ((ps @ [p]) ! i) sz \<inter> block ((ps @ [p]) ! j) sz = {}) \<and>
      p_offsets s' ! i = va ((ps @ [p]) ! i) \<and> p_areas s' (va ((ps @ [p]) ! i)) = Some (area_of t xs ys i ((ps @ [p]) ! i))"
    if "i < length (ps @ [p])" for i
  proof (cases "i = length ps")
    case True
    then show ?thesis using pR apart old(3) s'(2,3) i sz(3) by (auto simp: nth_append)
  next
    case False
    then have "i < length ps" using that by simp
    then show ?thesis using i s'(2,3) ne by (simp add: nth_append va_eq_iff)
  qed
  moreover have "mem_map (p_memory s') = ram_map nd (R \<union> blocks sz (ps @ [p])) S" using s'(1) by (simp add: Un_assoc)
  moreover have "length (p_offsets s') = NR_CPUS" using i s'(2) by simp
  moreover have "msr_gs_base (p_regs s') = va ((ps @ [p]) ! 0) \<and> gdtr (p_regs s') = \<lparr>dt_size = 95, dt_base_address = va ((ps @ [p]) ! 0) + g\<rparr>"
    using i s'(4) by (cases "ps = []") (simp_all add: nth_append)
  ultimately show ?thesis unfolding areas_ok_def by blast
qed

lemma per_cpu_loop_ok:
  assumes "holds (p_memory s) k nd R S" "k + 2 * j \<le> NR_REGIONS" "sz \<noteq> 0" "load \<notin> va ` (S - R)" "j \<le> NR_CPUS"
    and "length xs = NR_CPUS" "length ys = NR_CPUS" "length (p_offsets s) = NR_CPUS" "p_areas s load = Some t"
  shows "(\<exists>s' ps. per_cpu_loop load sz g xs ys [0..<j] s = Some s' \<and> length ps = j \<and> areas_ok load sz g xs ys nd R S t ps s' \<and>
       holds (p_memory s') (k + 2 * j) nd (R \<union> blocks sz ps) S) \<or>
     (\<exists>i < j. \<exists>si. per_cpu_loop load sz g xs ys [0..<i] s = Some si \<and>
       memblock_alloc (p_memory si) sz PAGE_SIZE 0 (- 1) (- 1) False = Some (p_memory si, 0))"
  using assms(2,5)
proof (induction j)
  case 0
  show ?case using assms by (auto simp: areas_ok_def holds_def)
next
  case (Suc j)
  then consider (ok) s1 ps where "per_cpu_loop load sz g xs ys [0..<j] s = Some s1" "length ps = j"
      "areas_ok load sz g xs ys nd R S t ps s1" "holds (p_memory s1) (k + 2 * j) nd (R \<union> blocks sz ps) S"
    | (stop) "\<exists>i < j. \<exists>si. per_cpu_loop load sz g xs ys [0..<i] s = Some si \<and>
       memblock_alloc (p_memory si) sz PAGE_SIZE 0 (- 1) (- 1) False = Some (p_memory si, 0)"
    by auto
  then show ?case
  proof cases
    case ok
    have room: "k + 2 * j + 2 \<le> NR_REGIONS" using Suc.prems by simp
    from holds_alloc [OF ok(4) room, of sz 0 "- 1"] show ?thesis
    proof
      assume "memblock_alloc (p_memory s1) sz PAGE_SIZE 0 (- 1) (- 1) False = Some (p_memory s1, 0)"
      with ok(1) show ?thesis by blast
    next
      assume "\<exists>m' p. memblock_alloc (p_memory s1) sz PAGE_SIZE 0 (- 1) (- 1) False = Some (m', p) \<and> p \<noteq> 0 \<and>
        block_ok 0 (- 1) p sz (R \<union> blocks sz ps) S \<and> holds m' (k + 2 * j + 2) nd (R \<union> blocks sz ps \<union> block p sz) S"
      then obtain m' p where p: "memblock_alloc (p_memory s1) sz PAGE_SIZE 0 (- 1) (- 1) False = Some (m', p)" "p \<noteq> 0"
        "block_ok 0 (- 1) p sz (R \<union> blocks sz ps) S" "holds m' (k + 2 * j + 2) nd (R \<union> blocks sz ps \<union> block p sz) S" by blast
      have "length (p_offsets s1) = NR_CPUS" "p_areas s1 load = Some t" using ok(3) by (simp_all add: areas_ok_def)
      then obtain s' where s': "setup_per_cpu_area load sz g xs ys j s1 = Some s'" "p_memory s' = m'"
          "p_offsets s' = (p_offsets s1)[j := va p]" "p_areas s' = (p_areas s1)(va p \<mapsto> area_of t xs ys j p)"
          "p_regs s' = (if j = 0 then (p_regs s1)\<lparr>gdtr := \<lparr>dt_size = 95, dt_base_address = va p + g\<rparr>, msr_gs_base := va p\<rparr> else p_regs s1)"
        using setup_per_cpu_area_eq [OF p(1,2), of j xs ys load t g] Suc.prems assms(6,7) by auto
      have "areas_ok load sz g xs ys nd R S t (ps @ [p]) s'"
        using areas_ok_step [OF ok(3) p(3) assms(3,4), of s'] s' holdsD(4) [OF p(4)] ok(2) Suc.prems(2) by simp
      moreover have "per_cpu_loop load sz g xs ys [0..<Suc j] s = Some s'"
        using ok(1) s'(1) by (simp add: per_cpu_loop_append)
      moreover have "holds (p_memory s') (k + 2 * Suc j) nd (R \<union> blocks sz (ps @ [p])) S"
        using holds_mono [OF p(4)] s'(2) by (simp add: Un_assoc)
      ultimately show ?thesis using ok(2) by (metis length_append_singleton)
    qed
  next
    case stop
    then show ?thesis using less_SucI by blast
  qed
qed

lemma per_cpu_loop_stops:
  assumes "per_cpu_loop load sz g xs ys [0..<i] s = Some si" "i < j"
    and "memblock_alloc (p_memory si) sz PAGE_SIZE 0 (- 1) (- 1) False = Some (p_memory si, 0)"
  shows "per_cpu_loop load sz g xs ys [0..<j] s = None"
proof -
  have "[0..<j] = [0..<i] @ i # [Suc i..<j]"
    using assms(2) upt_add_eq_append [of 0 i "j - i"] upt_conv_Cons [of i j] by simp
  moreover have "setup_per_cpu_area load sz g xs ys i si = None" by (simp add: setup_per_cpu_area_def assms(3))
  ultimately show ?thesis using assms(1) by (simp add: per_cpu_loop_append)
qed

text \<open>
  C4: The areas of the processors: either the allocator has no more room for one, and the assertion stops the machine,
  or every processor has an area of its own: blocks of memory aligned to pages that were free and are disjoint,
  now reserved, each with a copy of the template in which the offset, the number and the identifiers are those of
  the processor; and the boot processor's segment base and descriptor table are in the first area.
\<close>

theorem setup_per_cpu_areas_correct:
  assumes "holds (p_memory s) k nd R S" "k + 2 * nr \<le> NR_REGIONS" "nr \<le> NR_CPUS" "sz \<noteq> 0" "load \<notin> va ` (S - R)"
    and "length xs = NR_CPUS" "length ys = NR_CPUS" "p_offsets s = per_cpu_offset_init load" "p_areas s load = Some t"
  shows "(\<exists>s' ps. setup_per_cpu_areas nr load sz g xs ys s = Some s' \<and> length ps = nr \<and> areas_ok load sz g xs ys nd R S t ps s') \<or>
     setup_per_cpu_areas nr load sz g xs ys s = None \<and>
     (\<exists>i < nr. \<exists>si. setup_per_cpu_areas i load sz g xs ys s = Some si \<and>
        memblock_alloc (p_memory si) sz PAGE_SIZE 0 (- 1) (- 1) False = Some (p_memory si, 0))"
proof -
  have "length (p_offsets s) = NR_CPUS" by (simp add: assms(8) per_cpu_offset_init_def)
  from per_cpu_loop_ok [OF assms(1,2,4,5,3,6,7) this assms(9), of g] show ?thesis
    unfolding setup_per_cpu_areas_def using per_cpu_loop_stops by metis
qed

definition demo_template :: percpu where
  "demo_template = \<lparr>pc_this_cpu_off = 0xFFFFFFFF81000000, pc_cpu_number = 0, pc_apic_id = 0, pc_acpi_id = 0, pc_cr4 = 0xA0,
     pc_cpu_info = cpu_info_zero, pc_gdt = gdt_page\<rparr>"

definition demo_percpu :: percpu_state where
  "demo_percpu = \<lparr>p_memory = one_region, p_offsets = per_cpu_offset_init 0xFFFFFFFF81000000,
     p_areas = [0xFFFFFFFF81000000 \<mapsto> demo_template],
     p_regs = \<lparr>gdtr = \<lparr>dt_size = 0, dt_base_address = 0\<rparr>, idtr = \<lparr>dt_size = 0, dt_base_address = 0\<rparr>, msr_gs_base = 0\<rparr>\<rparr>"

lemma one_region_holds: "holds one_region 1 (- 1) {} (block 0x100000 0x400000)"
proof -
  have "mem_map one_region a = ram_map (- 1) {} (block 0x100000 0x400000) a" for a
    by (simp add: mem_map_def one_region_live one_region_ok ram_map_def block_def rend_def)
  then show ?thesis by (simp add: holds_def one_region_ok fun_eq_iff)
qed

lemma setup_per_cpu_areas_correct_witness:
  "(\<exists>s' ps. setup_per_cpu_areas 2 0xFFFFFFFF81000000 0x9000 0x1000 (replicate 16 7) (replicate 16 3) demo_percpu = Some s' \<and> length ps = 2 \<and>
       areas_ok 0xFFFFFFFF81000000 0x9000 0x1000 (replicate 16 7) (replicate 16 3) (- 1) {} (block 0x100000 0x400000) demo_template ps s') \<or>
     setup_per_cpu_areas 2 0xFFFFFFFF81000000 0x9000 0x1000 (replicate 16 7) (replicate 16 3) demo_percpu = None \<and>
     (\<exists>i < 2. \<exists>si. setup_per_cpu_areas i 0xFFFFFFFF81000000 0x9000 0x1000 (replicate 16 7) (replicate 16 3) demo_percpu = Some si \<and>
        memblock_alloc (p_memory si) 0x9000 PAGE_SIZE 0 (- 1) (- 1) False = Some (p_memory si, 0))"
proof (rule setup_per_cpu_areas_correct)
  show "holds (p_memory demo_percpu) 1 (- 1) {} (block 0x100000 0x400000)" using one_region_holds by (simp add: demo_percpu_def)
  have "a < 0x500000" if "0xFFFFFFFF81000000 = va a" "a \<in> block 0x100000 0x400000" for a using that by (simp add: block_def)
  moreover have "a = 0x7F81000000" if "0xFFFFFFFF81000000 = va a" for a
  proof -
    have "a = va a - PAGE_OFFSET" by (simp add: va_def)
    then show ?thesis by (simp add: that [symmetric] PAGE_OFFSET_def)
  qed
  ultimately show "0xFFFFFFFF81000000 \<notin> va ` (block 0x100000 0x400000 - {})" by force
qed (simp_all add: demo_percpu_def)

text \<open>
  With no room for two more entries the reservations fail; the code does not look at their results, so that the boot
  goes on with the kernel image left free for the allocator.
\<close>

lemma early_reserve_full:
  assumes "max_n m < n m + 2" "b_end_of_kernel_reserve b \<noteq> b_text b" "bp_ramdisk_image (b_params b) = 0"
  shows "early_reserve_memory (phys_base (b_mm b)) (b_text b) (b_end_of_kernel_reserve b) (b_params b) m = Some m"
  using assms by (simp add: early_reserve_memory_def memblock_reserve_def memblock_setclr_flag_def isolate_range_def early_reserve_initrd_def)

end
