(* ===== verification/Boot.thy ===== *)
theory Boot
  imports Setup Head
begin

text \<open>
  From the entry of the C code to the end of the set-up: \<open>x86_64_start_kernel\<close> (\<open>__head_64.c\<close>), \<open>setup_arch\<close> and
  \<open>setup_per_cpu_areas\<close> in the order of \<open>start_kernel\<close> (\<open>init/main.c\<close>), and the invariant of the interrupt
  controllers that the composition rests on.
\<close>

section \<open>The MADT cannot break the tables of the interrupt controllers\<close>

definition apic_wf :: "apic_state \<Rightarrow> bool" where
  "apic_wf s \<longleftrightarrow> length (early_cpuid_to_apic_id s) = NR_CPUS \<and> length (early_cpuid_to_acpi_id s) = NR_CPUS \<and>
     0 < nr_assigned_cpus s \<and> length (ioapics s) = NR_IOAPIC \<and> nr_ioapics s \<le> NR_IOAPIC"

definition keeps :: "('s \<Rightarrow> bool) \<Rightarrow> 's handler \<Rightarrow> bool" where
  "keeps P h \<longleftrightarrow> (\<forall>sub s e s'. P s \<longrightarrow> h sub s = Some (e, s') \<longrightarrow> P s')"

lemma keepsD: "keeps P h \<Longrightarrow> h sub s = Some (e, s') \<Longrightarrow> P s \<Longrightarrow> P s'"
  by (auto simp: keeps_def)

text \<open>Whatever the bytes are that the walk goes over: what every call of the handler keeps, the walk keeps.\<close>

lemma subtable_loop_keeps:
  assumes "subtable_loop tab ty h p err count s = Some r"
  shows "keeps P h \<longrightarrow> P s \<longrightarrow> P (snd (snd r))"
  using _ assms
  by (rule subtable_loop.raw_induct [of "\<lambda>tab ty h p err count s r. keeps P h \<longrightarrow> P s \<longrightarrow> P (snd (snd r))"])
    (fastforce simp: bind_eq_Some_conv split: if_splits dest: keepsD)

lemma subtable_parse_keeps:
  assumes "acpi_subtable_parse tab k ty h u s = Some (r, s')" "keeps P h" "P s"
  shows "P s'"
proof -
  obtain err count where "subtable_loop tab ty h k u 0 s = Some (err, count, s')"
    using assms(1) by (auto simp: acpi_subtable_parse_def bind_eq_Some_conv)
  from subtable_loop_keeps [OF this] assms(2,3) show ?thesis by auto
qed

lemma register_apic_id_wf: "apic_wf s \<Longrightarrow> apic_wf (register_apic_id i u s)"
  by (simp add: apic_wf_def register_apic_id_def Let_def)

lemma register_lapic_wf:
  assumes "register_lapic_address hw cs supp a s = Some s'" "apic_wf s"
  shows "apic_wf s'"
  using assms by (auto simp: register_lapic_address_def bind_eq_Some_conv apic_wf_def Let_def split: if_splits)

lemma register_ioapic_wf:
  assumes "mp_register_ioapic hw cs supp i a g s = Some (s', r)" "apic_wf s"
  shows "apic_wf s'"
  using assms by (auto simp: mp_register_ioapic_def bind_eq_Some_conv apic_wf_def Let_def split: if_splits)

lemma handlers_keep_wf:
  "keeps apic_wf acpi_parse_lapic" "keeps apic_wf acpi_parse_x2apic" "keeps apic_wf acpi_parse_nothing"
  "keeps apic_wf (acpi_parse_ioapic env)" "keeps apic_wf acpi_parse_lapic_address_override"
proof -
  show "keeps apic_wf acpi_parse_lapic"
    by (auto simp: keeps_def acpi_parse_lapic_def bind_eq_Some_conv register_apic_id_wf split: if_splits)
  show "keeps apic_wf acpi_parse_x2apic"
    by (auto simp: keeps_def acpi_parse_x2apic_def bind_eq_Some_conv register_apic_id_wf split: if_splits)
  show "keeps apic_wf acpi_parse_nothing" by (simp add: keeps_def acpi_parse_nothing_def)
  show "keeps apic_wf (acpi_parse_ioapic env)"
    by (auto simp: keeps_def acpi_parse_ioapic_def bind_eq_Some_conv dest: register_ioapic_wf)
  show "keeps apic_wf acpi_parse_lapic_address_override"
    by (auto simp: keeps_def acpi_parse_lapic_address_override_def bind_eq_Some_conv apic_wf_def)
qed

lemmas parse_wf = subtable_parse_keeps [where P = apic_wf, OF _ handlers_keep_wf(1)]
  subtable_parse_keeps [where P = apic_wf, OF _ handlers_keep_wf(2)]
  subtable_parse_keeps [where P = apic_wf, OF _ handlers_keep_wf(3)]
  subtable_parse_keeps [where P = apic_wf, OF _ handlers_keep_wf(4)]
  subtable_parse_keeps [where P = apic_wf, OF _ handlers_keep_wf(5)]

lemma lapic_entries_wf: "acpi_parse_madt_lapic_entries env tab s = Some (r, s') \<Longrightarrow> apic_wf s \<Longrightarrow> apic_wf s'"
  by (auto simp: acpi_parse_madt_lapic_entries_def bind_eq_Some_conv dest!: parse_wf split: if_splits)

lemma ioapic_entries_wf: "acpi_parse_madt_ioapic_entries env tab s = Some (r, s') \<Longrightarrow> apic_wf s \<Longrightarrow> apic_wf s'"
  by (auto simp: acpi_parse_madt_ioapic_entries_def bind_eq_Some_conv dest!: parse_wf split: if_splits)

lemma parse_madt_wf:
  assumes "acpi_parse_madt env tab s = Some (r, s')" "apic_wf s"
  shows "apic_wf s'"
proof -
  have flags: "apic_wf s \<Longrightarrow> apic_wf (s\<lparr>acpi_lapic := x\<rparr>)" "apic_wf s \<Longrightarrow> apic_wf (s\<lparr>acpi_ioapic := x\<rparr>)"
    "apic_wf s \<Longrightarrow> apic_wf (s\<lparr>acpi_lapic_addr := a\<rparr>)" for s x a
    by (simp_all add: apic_wf_def)
  obtain address where "rd32 tab 36 = Some address" using assms(1) by (auto simp: acpi_parse_madt_def bind_eq_Some_conv)
  define s0 where "s0 = (if address \<noteq> 0 then s\<lparr>acpi_lapic_addr := ucast address\<rparr> else s)"
  have s0: "apic_wf s0" using assms(2) flags by (simp add: s0_def)
  have run: "do {
       (_, s) \<leftarrow> acpi_subtable_parse tab MADT_SIZE 5 acpi_parse_lapic_address_override (env_uninit env) s0;
       s \<leftarrow> register_lapic_address (env_hw env) (env_cache env) (env_supp env) (acpi_lapic_addr s) s;
       (err, s) \<leftarrow> acpi_parse_madt_lapic_entries env tab s;
       if isl err then Some (0, s)
       else do {
         (err, s) \<leftarrow> acpi_parse_madt_ioapic_entries env tab (s\<lparr>acpi_lapic := True\<rparr>);
         Some (0, if isl err then s else s\<lparr>acpi_ioapic := True\<rparr>) } } = Some (r, s')"
    using assms(1) unfolding acpi_parse_madt_def \<open>rd32 tab 36 = Some address\<close> Option.bind.bind_lunit s0_def [symmetric] Let_def .
  then obtain r1 s1 where r1: "acpi_subtable_parse tab MADT_SIZE 5 acpi_parse_lapic_address_override (env_uninit env) s0 = Some (r1, s1)"
    by (auto simp: bind_eq_Some_conv)
  note run = run [unfolded r1 Option.bind.bind_lunit prod.case]
  then obtain s2 where s2: "register_lapic_address (env_hw env) (env_cache env) (env_supp env) (acpi_lapic_addr s1) s1 = Some s2"
    by (auto simp: bind_eq_Some_conv)
  note run = run [unfolded s2 Option.bind.bind_lunit]
  then obtain err s3 where s3: "acpi_parse_madt_lapic_entries env tab s2 = Some (err, s3)" by (auto simp: bind_eq_Some_conv)
  note run = run [unfolded s3 Option.bind.bind_lunit prod.case]
  have "apic_wf s3" using lapic_entries_wf [OF s3 register_lapic_wf [OF s2 parse_wf(5) [OF r1 s0]]] .
  then show ?thesis
    using run flags ioapic_entries_wf by (fastforce simp: bind_eq_Some_conv split: if_splits)
qed

lemma acpi_boot_init_wf:
  assumes "apic_wf s" "acpi_boot_init env mmap tabs s = Some s'"
  shows "apic_wf s'"
proof -
  have keep: "keeps apic_wf (acpi_parse_madt env)" using parse_madt_wf by (auto simp: keeps_def)
  let ?get = "acpi_get_table mmap (Some [0x41, 0x50, 0x49, 0x43, 0]) 1 tabs"
  obtain t where t: "?get = Some t" using assms(2) by (auto simp: acpi_boot_init_def acpi_table_parse_def bind_eq_Some_conv)
  show ?thesis
  proof (cases t)
    case (Inl err)
    then show ?thesis using assms t by (simp add: acpi_boot_init_def acpi_table_parse_def)
  next
    case (Inr tab)
    then show ?thesis using assms t keepsD [OF keep]
      by (auto simp: acpi_boot_init_def acpi_table_parse_def bind_eq_Some_conv)
  qed
qed


text \<open>A MADT with two processors, on a machine whose x2APIC driver is installed.\<close>

definition demo_tab :: bytes where "demo_tab = demo_hdr @ body_bytes demo_subs"
definition demo_apic :: apic_state where "demo_apic = (apic_init True fixmaps_init)\<lparr>apic := Apic_x2apic\<rparr>"
definition demo_env :: madt_env where "demo_env = \<lparr>env_hw = demo_hw, env_cache = cache_init, env_supp = - 1, env_uninit = 0\<rparr>"

lemma demo_parse:
  "acpi_subtable_parse demo_tab MADT_SIZE ty h u s =
     do { (err, count, s) \<leftarrow> run_subs ty h u 0 demo_subs s; Some (if err \<noteq> 0 then Inl EINVAL else Inr count, s) }"
proof -
  have m: "madt_like (demo_hdr @ body_bytes demo_subs) demo_hdr demo_subs" by (rule demo_madt)
  have "length demo_hdr = MADT_SIZE" by (simp add: demo_hdr_def)
  then show ?thesis using subtable_loop_eq [of demo_hdr demo_subs ty h u 0 s] m
    by (simp add: acpi_subtable_parse_def demo_tab_def madt_like_def)
qed

lemma demo_rd32: "rd32 demo_tab 36 = Some 0"
  by (simp add: rd32_def demo_tab_def demo_hdr_def get_unaligned_le_def numeral_eq_Suc)


text \<open>
  With the firmware's x2APIC mode on, the driver is still the one for the memory-mapped registers, because nothing
  calls \<open>apic_install_driver\<close>; the window of those registers is then not mapped, and reading the identifier faults.
\<close>

definition apic_install_driver :: "apic_driver \<Rightarrow> apic_state \<Rightarrow> apic_state" where
  "apic_install_driver driver s = (if apic s \<noteq> driver then s\<lparr>apic := driver\<rparr> else s)"

lemma x2apic_faults:
  assumes "x2apic_mode s" "apic s = Apic_flat" "level1_fixmap1 (fixmap s) = replicate 512 0"
  shows "register_lapic_address hw cs supp address s = None"
proof -
  have "fix1_translate (fixmap s) v = None" for v
    using assms(3) by (simp add: fix1_translate_def Let_def pte_index_def table_index_nat)
  then show ?thesis using assms(1,2) by (simp add: register_lapic_address_def read_apic_id_def apic_read_def)
qed

lemma x2apic_works:
  assumes "x2apic_mode s"
  shows "\<exists>s'. register_lapic_address hw cs supp address (apic_install_driver Apic_x2apic s) = Some s' \<and>
     boot_cpu_apic_id s' = lapic_msr hw 0x802"
proof -
  have "apic (apic_install_driver Apic_x2apic s) = Apic_x2apic" "x2apic_mode (apic_install_driver Apic_x2apic s)"
    using assms by (simp_all add: apic_install_driver_def)
  then show ?thesis by (simp add: register_lapic_address_def read_apic_id_def apic_read_def)
qed

text \<open>Writing a register of the local APIC, which no code does yet; what is written is read back.\<close>

definition apic_write :: "apic_state \<Rightarrow> u32 \<Rightarrow> u32 \<Rightarrow> apic_hw \<Rightarrow> apic_hw option" where
  "apic_write s reg v hw =
     (case apic s of
        Apic_flat \<Rightarrow> map_option (\<lambda>p. hw\<lparr>lapic_mem := (lapic_mem hw)(p := v)\<rparr>) (fix1_translate (fixmap s) (fix_to_virt FIX_APIC_BASE + ucast reg))
      | Apic_x2apic \<Rightarrow> Some (hw\<lparr>lapic_msr := (lapic_msr hw)(0x800 + drop_bit 4 reg := v)\<rparr>))"

lemma apic_read_write: "apic_write s reg v hw = Some hw' \<Longrightarrow> apic_read hw' s reg = Some v"
  by (auto simp: apic_write_def apic_read_def split: apic_driver.splits)

section \<open>Entry (\_\_head\_64.c) and start\_kernel (init/main.c)\<close>

record boot_machine =
  bm_kernel :: kernel
  bm_early :: early
  bm_regs :: table_regs

text \<open>Of what the two \<open>memset\<close> clear, the model has the interrupt table and the pages for page tables.\<close>

definition clear_bss :: "mm_const \<Rightarrow> kernel \<Rightarrow> kernel" where
  "clear_bss c k = k\<lparr>k_idt := idt_table_init,
     k_mm := (k_mm k)\<lparr>tables := zero_pages (unat (BRK_ALLOC_PAGES c)) (brk_base c) (tables (k_mm k))\<rparr>\<rparr>"

text \<open>\<open>x86_64_start_kernel\<close> up to the copy of the boot parameters, which are in the surroundings.\<close>

definition x86_64_start_kernel :: "image \<Rightarrow> mm_const \<Rightarrow> u64 \<Rightarrow> u64 \<Rightarrow> boot_machine \<Rightarrow> boot_machine option" where
  "x86_64_start_kernel img c table_addr handlers w =
     (let k = bm_kernel w;
          k = k\<lparr>k_cpu := cr4_init_shadow (k_cpu k)\<rparr>;
          e = purge_ident_mapping img (bm_early w);
          k = k\<lparr>k_cpu := native_write_cr3 (pa_symbol e (sym_early_top_pgt img)) (k_cpu k)\<rparr>;
          k = clear_bss c k
      in do {
        (idt, regs) \<leftarrow> idt_setup_early_handler table_addr handlers (k_idt k, bm_regs w);
        Some (w\<lparr>bm_kernel := k\<lparr>k_idt := idt\<rparr>, bm_early := e, bm_regs := regs\<rparr>) })"

text \<open>The part of \<open>start_kernel\<close> behind the parameters and the constructors; \<open>areas\<close> are those at the start.\<close>

definition start_kernel_setup ::
  "surroundings \<Rightarrow> u64 \<Rightarrow> u64 \<Rightarrow> u64 \<Rightarrow> (u64 \<rightharpoonup> percpu) \<Rightarrow> boot_machine \<Rightarrow> (boot_machine \<times> percpu_state) option" where
  "start_kernel_setup b load static_size gdt_sym areas w =
     do {
       k \<leftarrow> setup_arch b (bm_kernel w);
       s \<leftarrow> setup_per_cpu_areas (setup_nr_cpu_ids 1) load static_size gdt_sym
         (early_cpuid_to_apic_id (k_apic k)) (early_cpuid_to_acpi_id (k_apic k))
         \<lparr>p_memory = k_memory k, p_offsets = per_cpu_offset_init load, p_areas = areas, p_regs = bm_regs w\<rparr>;
       Some (w\<lparr>bm_kernel := k\<lparr>k_memory := p_memory s\<rparr>, bm_regs := p_regs s\<rparr>, s) }"

lemma early_handler_returns:
  "\<exists>idt. idt_setup_early_handler table_addr handlers (idt_table_init, r) = Some (idt, r\<lparr>idtr := idt_ptr table_addr\<rparr>) \<and> length idt = 256"
proof -
  obtain idt where "early_loop handlers [0..<32] idt_table_init = Some idt" "length idt = length idt_table_init"
    using early_loop_eq [of "[0..<32]" idt_table_init handlers] by (auto simp: idt_table_init_def)
  then show ?thesis by (simp add: idt_setup_early_handler_def idt_table_init_def)
qed

text \<open>After the entry the shadow of CR4 is true, and the interrupt table is there, whatever the loader left.\<close>

lemma start_kernel_entry:
  assumes "pa_symbol (purge_ident_mapping img (bm_early w)) (sym_early_top_pgt img) AND BIT_UL 63 = 0" "init_top_pgt (b_mm b) AND BIT_UL 63 = 0"
  shows "\<exists>w'. x86_64_start_kernel img (b_mm b) table_addr handlers w = Some w' \<and> cpu_ok b (bm_kernel w') \<and>
     (boot_ok b (bm_kernel w') tab \<longleftrightarrow> boot_ok b (bm_kernel w) tab) \<and> k_apic (bm_kernel w') = k_apic (bm_kernel w) \<and>
     k_real_mode_header (bm_kernel w') = k_real_mode_header (bm_kernel w) \<and> idtr (bm_regs w') = idt_ptr table_addr"
proof -
  let ?e = "purge_ident_mapping img (bm_early w)"
  obtain idt where idt: "idt_setup_early_handler table_addr handlers (idt_table_init, bm_regs w) = Some (idt, (bm_regs w)\<lparr>idtr := idt_ptr table_addr\<rparr>)"
      "length idt = 256"
    using early_handler_returns by blast
  note cr3 = write_cr3_frame [OF assms(1)]
  show ?thesis
    using assms(2) idt
    by (simp add: x86_64_start_kernel_def Let_def clear_bss_def cpu_ok_def cr3 cr4_init_shadow_def boot_ok_def efi_table_def)
qed

lemma setup_arch_apic:
  assumes "setup_arch b k = Some k'" "apic_wf (k_apic k)"
  shows "apic_wf (k_apic k')"
proof -
  let ?k = "start_of_setup b k"
  have "apic_wf (k_apic ?k)" using assms(2) by (simp add: start_of_setup_def check_x2apic_def apic_wf_def Let_def)
  obtain k1 k2 where k: "setup_memory b ?k = Some k1" "setup_mapping b k1 = Some k2" "setup_acpi b k2 = Some k'"
    using assms(1) by (auto simp: setup_arch_steps bind_eq_Some_conv)
  have "k_apic k1 = k_apic ?k" using k(1) by (auto simp: setup_memory_def bind_eq_Some_conv)
  moreover have "k_apic k2 = k_apic k1" using k(2) by (auto simp: setup_mapping_def bind_eq_Some_conv)
  moreover obtain tabs where "acpi_boot_init (madt_env_of b k2) (b_acpi_memory b) tabs (k_apic k2) = Some (k_apic k')"
    using k(3) by (auto simp: setup_acpi_def bind_eq_Some_conv)
  ultimately show ?thesis using \<open>apic_wf (k_apic ?k)\<close> acpi_boot_init_wf by simp
qed

text \<open>What the boot leaves reserved, and when it stops for want of memory.\<close>

definition taken :: "surroundings \<Rightarrow> u64 set \<Rightarrow> kernel \<Rightarrow> u64 set" where
  "taken b A k = kernel_image b \<union> initrd (b_params b) \<union> A \<union> brk_used (b_mm b) (k_mm k)"

definition no_room :: "surroundings \<Rightarrow> u64 \<Rightarrow> kernel \<Rightarrow> bool" where
  "no_room b sz k \<longleftrightarrow> (\<exists>k'. setup_arch b k = Some k' \<and>
     memblock_alloc (k_memory k') sz PAGE_SIZE 0 (- 1) (- 1) False = Some (k_memory k', 0))"

lemma start_kernel_setup_ok:
  assumes "boot_ok b (bm_kernel w) tab" "cpu_ok b (bm_kernel w)" "apic_wf (k_apic (bm_kernel w))"
    and "sz \<noteq> 0" "load \<notin> va ` ram tab" "areas load = Some t" "\<not> boot_stops b (bm_kernel w)" "\<not> no_room b sz (bm_kernel w)"
  shows "\<exists>w' s p A. start_kernel_setup b load sz g areas w = Some (w', s) \<and>
     real_mode_area b (k_real_mode_header (bm_kernel w)) (k_real_mode_header (bm_kernel w')) (kernel_image b \<union> initrd (b_params b)) (ram tab) A \<and>
     block_ok 0 (- 1) p sz (taken b A (bm_kernel w')) (ram tab) \<and>
     mem_map (k_memory (bm_kernel w')) = ram_map 0 (taken b A (bm_kernel w') \<union> block p sz) (ram tab) \<and>
     p_areas s (va p) = Some (area_of t (early_cpuid_to_apic_id (k_apic (bm_kernel w'))) (early_cpuid_to_acpi_id (k_apic (bm_kernel w'))) 0 p) \<and>
     msr_gs_base (bm_regs w') = va p \<and> gdtr (bm_regs w') = \<lparr>dt_size = 95, dt_base_address = va p + g\<rparr> \<and>
     tlb (k_cpu (bm_kernel w')) = [] \<and> reg_cr3 (k_cpu (bm_kernel w')) = init_top_pgt (b_mm b)"
proof -
  obtain k' A where k: "setup_arch b (bm_kernel w) = Some k'"
      "real_mode_area b (k_real_mode_header (bm_kernel w)) (k_real_mode_header k') (kernel_image b \<union> initrd (b_params b)) (ram tab) A"
      "holds (k_memory k') 126 0 (taken b A k') (ram tab)" "tlb (k_cpu k') = []" "reg_cr3 (k_cpu k') = init_top_pgt (b_mm b)"
    using setup_arch_ok [OF assms(1,2,7)] unfolding taken_def by blast
  let ?xs = "early_cpuid_to_apic_id (k_apic k')" and ?ys = "early_cpuid_to_acpi_id (k_apic k')"
  let ?s = "\<lparr>p_memory = k_memory k', p_offsets = per_cpu_offset_init load, p_areas = areas, p_regs = bm_regs w\<rparr>"
  have ids: "length ?xs = NR_CPUS" "length ?ys = NR_CPUS" using setup_arch_apic [OF k(1) assms(3)] by (simp_all add: apic_wf_def)
  have "memblock_alloc (k_memory k') sz PAGE_SIZE 0 (- 1) (- 1) False \<noteq> Some (k_memory k', 0)"
    using assms(8) k(1) unfolding no_room_def by simp
  moreover have "load \<notin> va ` (ram tab - taken b A k')" using assms(5) by blast
  ultimately obtain s ps where s: "per_cpu_loop load sz g ?xs ?ys [0..<1] ?s = Some s" "length ps = 1"
      "areas_ok load sz g ?xs ?ys 0 (taken b A k') (ram tab) t ps s"
    using per_cpu_loop_ok [of ?s 126 0 "taken b A k'" "ram tab" 1 sz load ?xs ?ys t g] k(3) assms(4,6) ids
    by (auto simp: per_cpu_offset_init_def)
  then obtain p where "ps = [p]" by (metis One_nat_def length_0_conv length_Suc_conv)
  let ?w = "w\<lparr>bm_kernel := k'\<lparr>k_memory := p_memory s\<rparr>, bm_regs := p_regs s\<rparr>"
  have "start_kernel_setup b load sz g areas w = Some (?w, s)"
  proof -
    have "setup_per_cpu_areas (setup_nr_cpu_ids 1) load sz g ?xs ?ys ?s = Some s"
      using s(1) by (simp only: setup_per_cpu_areas_def setup_nr_cpu_ids_def)
    then show ?thesis using k(1) by (simp add: start_kernel_setup_def)
  qed
  moreover have "taken b A (bm_kernel ?w) = taken b A k'" by (simp add: taken_def)
  ultimately show ?thesis using s(3) k(2,4,5) \<open>ps = [p]\<close>
    by (intro exI [of _ ?w] exI [of _ s] exI [of _ p] exI [of _ A]) (simp add: areas_ok_def blocks_def)
qed


definition demo_machine :: boot_machine where
  "demo_machine = \<lparr>bm_kernel = demo_kernel, bm_early = \<lparr>early_tables = (\<lambda>_ _. 0), early_next = 5, early_phys_base = 0x1000000\<rparr>,
     bm_regs = p_regs demo_percpu\<rparr>"


end
