(* ===== verification/Utask.thy ===== *)
theory Utask
  imports Prelude
begin

text \<open>
  The frame of a task on its stack (\<open>asm/utask.h\<close>), the switch from the stack of the processor to that of the task
  (\<open>__entry_64.c\<close>), the entry points of exceptions and interrupts (\<open>asm/idtentry.h\<close>) and the operations on
  bits in memory (\<open>asm/bitops.h\<close>).  Memory is given by its 64-bit words, a word by its address.
\<close>

section \<open>The frame\<close>

datatype reg = R15 | R14 | R13 | R12 | RBP | RBX | R11 | R10 | R9 | R8 | RAX | RCX | RDX | RSI | RDI

fun reg_index :: "reg \<Rightarrow> nat" where
  "reg_index R15 = 0"
| "reg_index R14 = 1"
| "reg_index R13 = 2"
| "reg_index R12 = 3"
| "reg_index RBP = 4"
| "reg_index RBX = 5"
| "reg_index R11 = 6"
| "reg_index R10 = 7"
| "reg_index R9 = 8"
| "reg_index R8 = 9"
| "reg_index RAX = 10"
| "reg_index RCX = 11"
| "reg_index RDX = 12"
| "reg_index RSI = 13"
| "reg_index RDI = 14"

abbreviation (input) NR_REGISTERS :: nat where "NR_REGISTERS \<equiv> 15"

record utask_regs =
  registers :: "u64 list"
  orig_rax :: u64
  u_rip :: u64
  u_cs :: u64
  u_eflags :: u64
  u_rsp :: u64
  u_ss :: u64

definition UTASK_REGS_WORDS :: nat where "UTASK_REGS_WORDS = NR_REGISTERS + 6"
definition UTASK_REGS_SIZE :: u64 where "UTASK_REGS_SIZE = of_nat (8 * UTASK_REGS_WORDS)"

type_synonym words = "u64 \<Rightarrow> u64"

definition load_words :: "words \<Rightarrow> u64 \<Rightarrow> nat \<Rightarrow> u64 list" where
  "load_words mem a k = map (\<lambda>i. mem (a + of_nat (8 * i))) [0..<k]"

fun store_words :: "words \<Rightarrow> u64 \<Rightarrow> u64 list \<Rightarrow> words" where
  "store_words mem a [] = mem"
| "store_words mem a (x # xs) = store_words (mem(a := x)) (a + 8) xs"

definition regs_of :: "u64 list \<Rightarrow> utask_regs" where
  "regs_of ws = \<lparr>registers = take NR_REGISTERS ws, orig_rax = ws ! 15, u_rip = ws ! 16, u_cs = ws ! 17, u_eflags = ws ! 18,
     u_rsp = ws ! 19, u_ss = ws ! 20\<rparr>"

definition words_of :: "utask_regs \<Rightarrow> u64 list" where
  "words_of r = registers r @ [orig_rax r, u_rip r, u_cs r, u_eflags r, u_rsp r, u_ss r]"

section \<open>The switch of stacks (ukernel/\_\_entry\_64.c)\<close>

text \<open>
  The assignment of a structure to one that overlaps it is undefined unless the two are the same.
\<close>

definition overlap :: "u64 \<Rightarrow> u64 \<Rightarrow> bool" where
  "overlap p q \<longleftrightarrow> p \<noteq> q \<and> (p - q < UTASK_REGS_SIZE \<or> q - p < UTASK_REGS_SIZE)"

definition switch_utask_stack :: "u64 \<Rightarrow> u64 \<Rightarrow> words \<Rightarrow> (u64 \<times> words) option" where
  "switch_utask_stack top_of_stack percpu_regs mem =
     (let regs = top_of_stack - UTASK_REGS_SIZE
      in if overlap percpu_regs regs then None
         else Some (regs, store_words mem regs (words_of (regs_of (load_words mem percpu_regs UTASK_REGS_WORDS)))))"

section \<open>Entry points (asm/idtentry.h)\<close>

text \<open>What the macros make of a handler: the function the assembly calls with the frame and the error code.\<close>

definition DEFINE_IDTENTRY :: "(utask_regs \<Rightarrow> 's \<Rightarrow> 's) \<Rightarrow> utask_regs \<Rightarrow> 's \<Rightarrow> 's" where
  "DEFINE_IDTENTRY func regs = func regs"

definition DEFINE_IDTENTRY_WITH_ERROR_CODE :: "(utask_regs \<Rightarrow> u64 \<Rightarrow> 's \<Rightarrow> 's) \<Rightarrow> utask_regs \<Rightarrow> u64 \<Rightarrow> 's \<Rightarrow> 's" where
  "DEFINE_IDTENTRY_WITH_ERROR_CODE func regs error_code = func regs error_code"

definition DEFINE_IDTENTRY_IRQ :: "(utask_regs \<Rightarrow> u8 \<Rightarrow> 's \<Rightarrow> 's) \<Rightarrow> utask_regs \<Rightarrow> u64 \<Rightarrow> 's \<Rightarrow> 's" where
  "DEFINE_IDTENTRY_IRQ func regs error_code = func regs (ucast error_code)"

section \<open>Bits in memory (asm/bitops.h)\<close>

text \<open>
  With the number of the bit in a register, \<open>bts\<close> and \<open>btr\<close> reach the word that many bits behind (or before) the
  operand; the locked forms do the same in one access.
\<close>

definition bit_word :: "u64 \<Rightarrow> int \<Rightarrow> u64" where "bit_word addr b = addr + of_int (8 * (b div 64))"

definition arch_set_bit :: "int \<Rightarrow> u64 \<Rightarrow> words \<Rightarrow> words" where
  "arch_set_bit b addr mem = mem(bit_word addr b := set_bit (nat (b mod 64)) (mem (bit_word addr b)))"

definition arch_clear_bit :: "int \<Rightarrow> u64 \<Rightarrow> words \<Rightarrow> words" where
  "arch_clear_bit b addr mem = mem(bit_word addr b := unset_bit (nat (b mod 64)) (mem (bit_word addr b)))"

definition test_bit :: "int \<Rightarrow> u64 \<Rightarrow> words \<Rightarrow> bool" where
  "test_bit b addr mem = bit (mem (bit_word addr b)) (nat (b mod 64))"

section \<open>Properties\<close>

lemma store_words_other: "\<forall>i < length ws. q \<noteq> a + of_nat (8 * i) \<Longrightarrow> store_words mem a ws q = mem q"
proof (induction ws arbitrary: mem a)
  case (Cons w ws)
  have "q \<noteq> a" using Cons.prems [rule_format, of 0] by simp
  moreover have "\<forall>i < length ws. q \<noteq> a + 8 + of_nat (8 * i)"
  proof (intro allI impI)
    fix i assume "i < length ws"
    then show "q \<noteq> a + 8 + of_nat (8 * i)" using Cons.prems [rule_format, of "Suc i"] by (simp add: algebra_simps)
  qed
  ultimately show ?case using Cons.IH by simp
qed simp

lemma step_inject:
  assumes "i < 2 ^ 60" "j < 2 ^ 60" "of_nat (8 * i) = (of_nat (8 * j) :: u64)"
  shows "i = j"
proof -
  have u: "unat (of_nat (8 * k) :: u64) = 8 * k" if "k < 2 ^ 60" for k using that by (subst unat_of_nat) simp
  have "8 * i = 8 * j" using u [OF assms(1)] u [OF assms(2)] unfolding assms(3) by (rule trans [OF sym])
  then show ?thesis by simp
qed

lemma load_store_words:
  assumes "length ws < 2 ^ 60"
  shows "load_words (store_words mem a ws) a (length ws) = ws"
  using assms
proof (induction ws arbitrary: mem a)
  case Nil
  then show ?case by (simp add: load_words_def)
next
  case (Cons w ws)
  have "a \<noteq> a + 8 + of_nat (8 * i)" if "i < length ws" for i
  proof
    assume "a = a + 8 + of_nat (8 * i)"
    then have "(of_nat (8 * 0) :: u64) = of_nat (8 * Suc i)" by (simp add: add.assoc)
    from step_inject [OF _ _ this] that Cons.prems show False by simp
  qed
  then have "store_words (mem(a := w)) (a + 8) ws a = w" by (subst store_words_other) simp_all
  moreover have "load_words m a (Suc k) = m a # load_words m (a + 8) k" for m k
    by (simp add: load_words_def upt_conv_Cons map_Suc_upt [symmetric] algebra_simps del: upt_Suc)
  moreover have "load_words (store_words (mem(a := w)) (a + 8) ws) (a + 8) (length ws) = ws"
    by (rule Cons.IH) (use Cons.prems in simp)
  ultimately show ?case by simp
qed

lemma words_of_regs_of: "length ws = 21 \<Longrightarrow> words_of (regs_of ws) = ws"
  by (simp add: words_of_def regs_of_def list_eq_iff_nth_eq nth_append) (auto simp: less_Suc_eq numeral_eq_Suc)

text \<open>
  The switch: the frame ends up directly below the top of the task's stack, word by word as it was on the stack of
  the processor, and no other word of memory changes.
\<close>

theorem switch_utask_stack_copies:
  assumes "\<not> overlap p (top_of_stack - UTASK_REGS_SIZE)"
  shows "\<exists>q mem'. switch_utask_stack top_of_stack p mem = Some (q, mem') \<and> q + UTASK_REGS_SIZE = top_of_stack \<and>
     load_words mem' q UTASK_REGS_WORDS = load_words mem p UTASK_REGS_WORDS \<and>
     (\<forall>a. (\<forall>i < 21. a \<noteq> q + of_nat (8 * i)) \<longrightarrow> mem' a = mem a)"
proof -
  let ?q = "top_of_stack - UTASK_REGS_SIZE" and ?ws = "load_words mem p UTASK_REGS_WORDS"
  have len: "length ?ws = 21" by (simp add: load_words_def UTASK_REGS_WORDS_def)
  have "load_words (store_words mem ?q ?ws) ?q UTASK_REGS_WORDS = ?ws"
    using load_store_words [of ?ws mem ?q] len by (simp add: UTASK_REGS_WORDS_def)
  moreover have "\<forall>a. (\<forall>i < 21. a \<noteq> ?q + of_nat (8 * i)) \<longrightarrow> store_words mem ?q ?ws a = mem a"
    using store_words_other [of ?ws _ ?q mem] unfolding len by blast
  ultimately show ?thesis using assms by (simp add: switch_utask_stack_def words_of_regs_of [OF len] Let_def)
qed

lemma bit_word_same: "bit_word addr b = bit_word addr c \<longleftrightarrow> (of_int (8 * (b div 64)) :: u64) = of_int (8 * (c div 64))"
  by (simp add: bit_word_def)

text \<open>Setting and clearing a bit of an array changes that bit only.\<close>

theorem bit_operations_correct:
  assumes "- (2 ^ 60) \<le> b" "b < 2 ^ 60" "- (2 ^ 60) \<le> c" "c < 2 ^ 60"
  shows "test_bit c addr (arch_set_bit b addr mem) = (c = b \<or> test_bit c addr mem) \<and>
     test_bit c addr (arch_clear_bit b addr mem) = (c \<noteq> b \<and> test_bit c addr mem)"
proof -
  have same: "bit_word addr b = bit_word addr c \<longleftrightarrow> b div 64 = c div 64"
  proof
    let ?d = "8 * (b div 64) - 8 * (c div 64)"
    assume "bit_word addr b = bit_word addr c"
    then have "(of_int ?d :: u64) = 0" unfolding bit_word_same by simp
    then have "2 ^ 64 dvd ?d" using word_of_int_eq_0_iff [of ?d, where ?'a = 64] by simp
    moreover have "\<bar>?d\<bar> < 2 ^ 64" 
    proof -
      have e: "(2 :: int) ^ 60 = 1152921504606846976" "(2 :: int) ^ 64 = 18446744073709551616" by simp_all
      show ?thesis using assms unfolding e by linarith
    qed
    ultimately have "?d = 0" using zdvd_imp_le [of "2 ^ 64" "\<bar>?d\<bar>"] by (cases "?d = 0") simp_all
    then show "b div 64 = c div 64" by simp
  qed (simp add: bit_word_def)
  have eq: "b = c \<longleftrightarrow> b div 64 = c div 64 \<and> nat (b mod 64) = nat (c mod 64)"
  proof -
    have "b = c \<longleftrightarrow> b div 64 = c div 64 \<and> b mod 64 = c mod 64" by (metis div_mult_mod_eq)
    then show ?thesis using eq_nat_nat_iff [of "b mod 64" "c mod 64"] by simp
  qed
  have "nat (c mod 64) < 64" by (simp add: nat_less_iff)
  then show ?thesis unfolding test_bit_def arch_set_bit_def arch_clear_bit_def
    using same eq by (auto simp: bit_set_bit_iff bit_unset_bit_iff)
qed

end
