(* ===== verification/Spec2Isabelle.thy ===== *)
theory Spec2Isabelle
  imports MemblockProps Params Uart DeflateBlock E820 Relocs Acpi Head Efi Cpu Desc Setup Boot Utask
begin

text \<open>
  Cyanea is a micro-kernel for x86-64 that a firmware starts through an EFI stub.  This development models its C code
  and proves what each part promises.  Paths are below \<open>src/\<close>; every definition keeps the name of the C
  function, type or macro it translates, up to names that the library has already.

  \<^bold>\<open>The program.\<close>  The EFI stub (\<open>efi-boot/efi.c\<close>) asks the firmware for memory, graphics, the ACPI root and the memory
  map, unpacks the kernel image (\<open>efi-boot/deflate.c\<close>) and enters it.  \<open>__startup_64\<close> (\<open>arch/x86/__head_64.c\<close>) builds
  the first page tables, the assembly switches to them, and \<open>x86_64_start_kernel\<close> prepares the interrupt table, under which
  page faults map the direct mapping on demand.  \<open>start_kernel\<close> (\<open>init/main.c\<close>) runs the early parameters of the command
  line (\<open>ukernel/params.c\<close>), which choose consoles (\<open>drivers/console.c\<close>: the serial ports \<open>drivers/uart_core.c\<close>,
  \<open>drivers/uart/8250.c\<close>, the frame buffer \<open>drivers/framebuffer/efifb.c\<close>), then \<open>setup_arch\<close>: the firmware's memory map
  goes through the e820 table to the boot allocator (\<open>ukernel/memblock.c\<close>), the kernel, the ram disk and the real-mode code
  are reserved, the memory types are programmed, all memory is mapped, the ACPI tables are found and the MADT
  registers processors and I/O APICs; last every processor gets its own area.  Log messages go through the formatter
  (\<open>uklib/io_buffer/vsnprintf.c\<close>) and the buffered output (\<open>io_buffer.c\<close>) to the registered console.

  \<^bold>\<open>Conventions.\<close>  Machine integers are words of their width and wrap; \<open>int\<close> of the source is an \<open>int\<close> with the overflow
  written out where the code can reach it.  A pointer that is only read is the list of bytes from it on, memory that is shared
  is a function or a list with positions.  \<open>None\<close> is behaviour the code does not come back from or that C does not define: an access out
  of bounds, a failed \<open>assert\<close> (it spins for ever), a \<open>halt\<close>, a loop that does not end.  Errors the code returns are the left side of a
  sum.  Structures are records, callbacks are fields of functions.  Loops are structural where a list or a count decides,
  \<open>function\<close> with a measure where an index does, and \<open>partial_function (option)\<close> where the C loop need not end
  (\<open>wbuffer_loop\<close>, \<open>iob_read_loop\<close>, \<open>strtoull_loop\<close>, \<open>free_range_loop\<close>, \<open>subtable_loop\<close>, \<open>efi_memmap_loop\<close>); there is no fuel,
  and the theorems about such loops say when they return.

  \<^bold>\<open>Theories.\<close>
  \<^item> \<open>Prelude\<close>: integer types, error numbers, the macros of \<open>const.h\<close>, \<open>minmax.h\<close>, \<open>unaligned.h\<close>, generic lemmas and the collections
    \<open>unat_simps\<close> and \<open>bounds\<close>.
  \<^item> \<open>CType\<close>, \<open>CString\<close>: \<open>uklib/ctype.c\<close>, \<open>uklib/string.c\<close>; what each routine computes, overlap and overrun included.
  \<^item> \<open>IoBuffer\<close>: \<open>uklib/io_buffer/io_buffer.c\<close>; the locales \<open>iob_source\<close> and \<open>iob_sink\<close> are the contracts of a readable and a writable
    device.  \<open>StrToX\<close> (\<open>strtox.c\<close>, both layers) rests on the first, \<open>Printf\<close> (\<open>vsnprintf.c\<close>, the whole formatter as a
    state machine) and \<open>Console\<close> on the second.
  \<^item> \<open>Memblock\<close> has the operations of \<open>ukernel/memblock.c\<close> on the static array; \<open>MemblockMap\<close> splits the array into live and
    stale entries and shows what every operation does to the list; \<open>MemblockProps\<close> states it as functions on
    \<open>mem_map\<close>, the partial map from addresses to node and flags, with the safety and the completeness of the allocator
    and the invariant of all reachable states.
  \<^item> \<open>Params\<close>: \<open>ukernel/params.c\<close> and the loops of \<open>init/main.c\<close>; the scanner equals a search over words.
  \<^item> \<open>Console\<close>: \<open>drivers/console.c\<close>, \<open>ukernel/ulog.c\<close>; the locale \<open>con_device\<close> is what the log needs of a console, a
    sublocale of \<open>iob_sink\<close>.  \<open>Uart\<close>: \<open>drivers/uart_core.c\<close>, \<open>drivers/uart/8250.c\<close> over a trace of port accesses; it interprets
    \<open>con_device\<close>.  \<open>Efifb\<close>: \<open>drivers/framebuffer/efifb.c\<close>, pixel by pixel against an abstract terminal.
  \<^item> \<open>Deflate\<close>: \<open>efi-boot/deflate.c\<close>; \<open>DeflateProps\<close>: bit input and canonical codes; \<open>DeflateBlock\<close>: blocks as lists of
    symbols in the locale \<open>block_codes\<close>, interpreted for the fixed code, and the container with its checksum.
  \<^item> \<open>Efi\<close>: \<open>efi-boot/efi.c\<close>; the services of the firmware are a record of functions, and the theorems on the allocator and on leaving
    the boot services assume what the UEFI specification says of them (pages handed out are free, the map's key changes
    with allocations).
  \<^item> \<open>E820\<close>: \<open>arch/x86/ukernel/e820.c\<close>, \<open>efi.c\<close>.  \<open>Pgtable\<close>: the page-table headers and \<open>cache.c\<close>.  \<open>Ioremap\<close>: \<open>ioremap.c\<close>,
    \<open>fixmap.h\<close>.  \<open>Mm\<close>: \<open>mm.c\<close>; tables as a function of physical address and index, walked as the processor does.  \<open>Head\<close>:
    \<open>__head_64.c\<close>, with the reachable states of the boot's page faults as an inductive relation.
  \<^item> \<open>Cpu\<close>: \<open>cpu.c\<close>, \<open>cpuinfo.c\<close>, \<open>tlb.h\<close>, \<open>irqflags.h\<close>, \<open>cpuid.h\<close>; instructions by what the architecture manual says of them.
    \<open>Desc\<close>: \<open>segment.h\<close>, \<open>desc_defs.h\<close>, \<open>idt.c\<close>; descriptors and gates as the processor reads them.  \<open>Utask\<close>: \<open>utask.h\<close>,
    \<open>__entry_64.c\<close>, \<open>idtentry.h\<close>, \<open>bitops.h\<close>.
  \<^item> \<open>Acpi\<close>: \<open>drivers/acpi/acpi.c\<close>, \<open>acpi/boot.c\<close>, \<open>apic/*.c\<close>; the locale \<open>table_memory\<close> is what the walk needs of \<open>memremap\<close>,
    interpreted on the window of \<open>Ioremap\<close>.
  \<^item> \<open>Relocs\<close>: the build tool \<open>arch/x86/realmode/relocs.c\<close>.
  \<^item> \<open>Setup\<close>: \<open>setup.c\<close>, \<open>realmode/init.c\<close>, \<open>setup_percpu.c\<close>, \<open>smp.c\<close>; \<open>holds\<close> says of a memory map that its memory is a set of addresses
    of which a set is reserved, and how the operations of the allocator change the two sets.  \<open>Boot\<close>: the boot from
    its entry on, the composition of all of these.

  \<^bold>\<open>Bounds.\<close>  The array of the boot allocator has 128 entries.  Adding \<open>k\<close> ordered ranges of RAM takes \<open>k\<close> entries at most, and
  every reservation, allocation and change of node two more; with 116 ranges of RAM the twelve entries that are left
  are enough for the six operations of the boot (kernel, ram disk, real-mode area, page tables, node, area of the boot processor).
  Beyond that the reservations fail, and the code does not look (\<open>early_reserve_full\<close>).  The direct mapping is proved for memory
  below 512 GiB, where the virtual addresses wrap.  The boot's page faults have 63 free pages for tables; when these are used up
  the kernel halts, and the model stops.  Polling a serial port is bounded by the ten thousand reads of the source.

  \<^bold>\<open>Not modelled.\<close>  Assembly (\<open>head_64.S\<close>, \<open>entry_64.S\<close>, the trampoline and the headers of the images), linker scripts and make
  files: their symbols are parameters.  Functions that only print (\<open>memblock_dump\<close>, \<open>e820__print_table\<close>,
  \<open>efi_memory_print_type\<close>) and the messages inside the other functions.  Constants and declarations that no function uses
  (TSS, LDT descriptors, \<open>pe.h\<close>, unused ACPI structures, register bits).  The layout of the boot parameters in memory is in \<open>copy_boot_data\<close> for the
  command line only; \<open>Efi\<close>, \<open>Setup\<close> and \<open>Boot\<close> take them as a record.  Interleavings of processors: the kernel starts only the first.
\<close>

end
